(* ===== verification/Prelude.thy ===== *)
theory Prelude
  imports Main "HOL-Library.Word"
begin

text \<open>
  Shared vocabulary of the development: the C integer types as words, sizes as natural
  numbers with their wrap-around written out, big-endian byte strings, and the interface
  (a locale) that every pair of an encoder and a decoder of the library implements.
\<close>

unbundle bit_operations_syntax

named_theorems byte_simps \<open>arithmetic of big-endian byte strings\<close>
named_theorems rd_simps \<open>reader functions on inputs of known shape\<close>

section \<open>C types\<close>

type_synonym u8 = "8 word"
type_synonym u16 = "16 word"
type_synonym u32 = "32 word"
type_synonym u64 = "64 word"

text \<open>
  A reader consumes bytes from the front of a byte string. It returns its value (\<open>None\<close>
  where the C function returns 0) and the byte string as the C function leaves it, also
  when it fails.
\<close>

type_synonym 'a rd = "u8 list \<Rightarrow> 'a option \<times> u8 list"

text \<open>
  A \<open>size_t\<close> is a natural number below \<open>2 ^ 64\<close>; \<open>sz\<close> is the wrap-around of an
  arithmetic result of that type.
\<close>

definition sz :: "nat \<Rightarrow> nat" where
  "sz n = n mod 2 ^ 64"

definition INT_MAX :: nat where
  "INT_MAX = 2147483647"

lemma sz_small [simp]: "n < 2 ^ 64 \<Longrightarrow> sz n = n"
  by (simp add: sz_def)

lemma sz_le: "sz n \<le> n"
  by (simp add: sz_def)

lemma sz_lt: "sz n < 2 ^ 64"
  by (simp add: sz_def)

lemma sz_overflow_iff:
  assumes "a < 2 ^ 64" "b < 2 ^ 64"
  shows "sz (a + b) < a \<longleftrightarrow> 2 ^ 64 \<le> a + b"
proof (cases "a + b < 2 ^ 64")
  case True
  then show ?thesis by simp
next
  case False
  then have "sz (a + b) = a + b - 2 ^ 64"
    using assms by (simp add: sz_def mod_if)
  with False assms show ?thesis by simp
qed

section \<open>Words\<close>

lemma unat_lt_pow: "unat (x :: 'a::len word) < 2 ^ LENGTH('a)"
  by (rule unsigned_less)

lemma unat_or_disjoint:
  fixes x y :: "'a::len word"
  assumes "x AND y = 0"
  shows "unat (x OR y) = unat x + unat y"
proof -
  have "unat x AND unat y = 0"
    using assms by (metis unsigned_and_eq unsigned_0)
  then have "unat x + unat y = unat x OR unat y"
    by (rule disjunctive_add_eq_or)
  then show ?thesis by (simp add: unsigned_or_eq)
qed

lemma word_eqI_unat: "unat x = unat y \<Longrightarrow> x = y"
  by (simp add: word_unat_eq_iff)

lemma take_bit_eq_self_of_unat:
  "unat (y :: 'a::len word) < 2 ^ n \<Longrightarrow> take_bit n y = y"
  by (rule word_eqI_unat) (simp add: unsigned_take_bit_eq take_bit_nat_eq_self)

lemma push_bit_and_disjoint:
  fixes x y :: "'a::len word"
  assumes "unat y < 2 ^ n"
  shows "push_bit n x AND y = 0"
proof (rule bit_eqI)
  fix m
  have y: "take_bit n y = y" using assms by (rule take_bit_eq_self_of_unat)
  show "bit (push_bit n x AND y) m \<longleftrightarrow> bit (0 :: 'a word) m"
    by (subst y [symmetric]) (auto simp: bit_simps)
qed

lemma unat_shift_or:
  fixes x y :: "'a::len word"
  assumes "unat x * 2 ^ n < 2 ^ LENGTH('a)" "unat y < 2 ^ n"
  shows "unat (push_bit n x OR y) = unat x * 2 ^ n + unat y"
proof -
  have "unat (push_bit n x OR y) = unat (push_bit n x) + unat y"
    by (rule unat_or_disjoint [OF push_bit_and_disjoint [OF assms(2)]])
  moreover have "unat (push_bit n x) = unat x * 2 ^ n"
    by (subst unsigned_push_bit_eq)
      (simp add: push_bit_eq_mult [where 'a = nat] take_bit_nat_eq_self assms(1) mult.commute)
  ultimately show ?thesis by simp
qed

lemma unat_u8_lt [simp]: "unat (b :: u8) < 256"
  using unat_lt_pow [of b] by simp

lemma unat_u64_lt [simp]: "unat (b :: u64) < 2 ^ 64"
  using unat_lt_pow [of b] by simp

lemma unat_u64_lt_numeral [simp]: "unat (b :: u64) < 18446744073709551616"
  using unat_u64_lt [of b] by simp

lemma unat_ucast_up:
  "LENGTH('a::len) \<le> LENGTH('b::len) \<Longrightarrow> unat (ucast (x :: 'a word) :: 'b word) = unat x"
  by (simp add: unsigned_ucast_eq take_bit_nat_eq_self
      less_le_trans [OF unat_lt_pow] power_increasing)

lemma unat_drop_bit: "unat (drop_bit n (x :: 'a::len word)) = unat x div 2 ^ n"
  by (subst unsigned_drop_bit_eq)
    (simp add: drop_bit_eq_div [where 'a = nat] take_bit_nat_eq_self)

lemma unat_ucast_u8_u64 [simp]: "unat (ucast (b :: u8) :: u64) = unat b"
  by (simp add: unat_ucast_up)

lemma unat_ucast_u8_u32 [simp]: "unat (ucast (b :: u8) :: u32) = unat b"
  by (simp add: unat_ucast_up)

lemma unat_ucast_u32_u64 [simp]: "unat (ucast (b :: u32) :: u64) = unat b"
  by (simp add: unat_ucast_up)

text \<open>Constant masks as operations on single bits.\<close>

named_theorems mask_simps \<open>masks and single-bit tests as bit operations\<close>

lemma and_0x7f [mask_simps]: "x AND 0x7f = take_bit 7 (x :: 'a::len word)"
  by (simp add: take_bit_eq_mask mask_eq_exp_minus_1)

lemma and_0x1f [mask_simps]: "x AND 0x1f = take_bit 5 (x :: 'a::len word)"
  by (simp add: take_bit_eq_mask mask_eq_exp_minus_1)

lemma and_0xff [mask_simps]: "x AND 0xff = take_bit 8 (x :: 'a::len word)"
  by (simp add: take_bit_eq_mask mask_eq_exp_minus_1)

lemma and_0x3f [mask_simps]: "x AND 0x3f = take_bit 6 (x :: 'a::len word)"
  by (simp add: take_bit_eq_mask mask_eq_exp_minus_1)

lemma and_0x80 [mask_simps]: "x AND 0x80 = 0 \<longleftrightarrow> \<not> bit (x :: 'a::len word) 7"
  using and_exp_eq_0_iff_not_bit [of x 7] by simp

lemma or_0x80 [mask_simps]: "x OR 0x80 = set_bit 7 (x :: 'a::len word)"
  by (simp add: set_bit_eq_or)

lemma and_0xe0 [mask_simps]:
  "x AND 0xe0 = push_bit 5 (take_bit 3 (drop_bit 5 (x :: 'a::len word)))"
proof -
  have m: "(0xe0 :: 'a word) = push_bit 5 (mask 3)" by (simp add: mask_eq_exp_minus_1)
  show ?thesis
    by (subst m, rule bit_word_eqI) (auto simp: bit_simps)
qed

lemma or_0x1f [mask_simps]: "x OR 0x1f = x OR (mask 5 :: 'a::len word)"
  by (simp add: mask_eq_exp_minus_1)

lemma bit_0x80: "bit (0x80 :: 'a::len word) m \<longleftrightarrow> m = 7 \<and> m < LENGTH('a)"
  using bit_exp_iff [where 'a = "'a word", of 7 m] by (auto simp: bit_simps)

section \<open>Big-endian byte strings\<close>

definition be_nat :: "u8 list \<Rightarrow> nat" where
  "be_nat bs = foldl (\<lambda>a b. a * 256 + unat b) 0 bs"

primrec be_bytes :: "nat \<Rightarrow> nat \<Rightarrow> u8 list" where
  "be_bytes 0 v = []"
| "be_bytes (Suc n) v = be_bytes n (v div 256) @ [word_of_nat v]"

lemma be_nat_Nil [simp, byte_simps]: "be_nat [] = 0"
  by (simp add: be_nat_def)

lemma be_nat_snoc [byte_simps]: "be_nat (bs @ [b]) = be_nat bs * 256 + unat b"
  by (simp add: be_nat_def)

lemma be_nat_append: "be_nat (xs @ ys) = be_nat xs * 256 ^ length ys + be_nat ys"
proof (induction ys rule: rev_induct)
  case Nil
  show ?case by simp
next
  case (snoc y ys)
  then show ?case
    by (simp add: be_nat_snoc algebra_simps flip: append_assoc)
qed

lemma be_nat_Cons [byte_simps]: "be_nat (b # bs) = unat b * 256 ^ length bs + be_nat bs"
  using be_nat_append [of "[b]" bs] be_nat_snoc [of "[]" b] by simp

lemma be_nat_lt: "be_nat bs < 256 ^ length bs"
proof (induction bs rule: rev_induct)
  case Nil
  show ?case by simp
next
  case (snoc b bs)
  have "be_nat bs * 256 + unat b < (be_nat bs + 1) * 256"
    using unat_u8_lt [of b] by simp
  also have "\<dots> \<le> 256 ^ length bs * 256"
    using snoc by (intro mult_le_mono1) simp
  finally show ?case by (simp add: be_nat_snoc)
qed

lemma length_be_bytes [simp, byte_simps]: "length (be_bytes n v) = n"
  by (induction n arbitrary: v) auto

lemma be_nat_be_bytes [byte_simps]: "be_nat (be_bytes n v) = v mod 256 ^ n"
proof (induction n arbitrary: v)
  case 0
  show ?case by simp
next
  case (Suc n)
  have "unat (word_of_nat v :: u8) = v mod 256"
    by (simp add: unat_of_nat)
  then show ?case
    by (simp add: Suc be_nat_snoc mod_mult2_eq mult.commute)
qed

lemma be_bytes_be_nat [byte_simps]: "be_bytes (length bs) (be_nat bs) = bs"
proof (induction bs rule: rev_induct)
  case Nil
  show ?case by simp
next
  case (snoc b bs)
  have "(be_nat bs * 256 + unat b) div 256 = be_nat bs"
    using unat_u8_lt [of b] by simp
  moreover have "(word_of_nat (be_nat bs * 256 + unat b) :: u8) = b"
    by (rule word_eqI_unat) (simp add: unat_of_nat del: of_nat_add of_nat_mult)
  ultimately show ?case by (simp add: be_nat_snoc snoc)
qed

section \<open>Arrays\<close>

text \<open>\<open>memcpy\<close> into an array at an index.\<close>

definition store_at :: "nat \<Rightarrow> 'a list \<Rightarrow> 'a list \<Rightarrow> 'a list" where
  "store_at i xs data = take i data @ xs @ drop (i + length xs) data"

lemma length_store_at: "i + length xs \<le> length data \<Longrightarrow> length (store_at i xs data) = length data"
  by (simp add: store_at_def)

lemma take_store_at:
  "i + length xs \<le> length data \<Longrightarrow> take (i + length xs) (store_at i xs data) = take i data @ xs"
  by (simp add: store_at_def)

lemma nth_store_at:
  "i + length xs \<le> length data \<Longrightarrow> k < length data \<Longrightarrow>
   store_at i xs data ! k = (if i \<le> k \<and> k < i + length xs then xs ! (k - i) else data ! k)"
  by (auto simp: store_at_def nth_append min_def)

end
