(* ===== verification/Mem.thy ===== *)
theory Mem
  imports Prelude
begin

text \<open>
  \<^verbatim>\<open>crypto/mem.c\<close>: allocation with a size header, constant-time comparison, the FNV-1a
  hash and the string functions. libc's malloc is a parameter \<open>mal\<close>: for a number of bytes
  it gives the block (whose bytes are arbitrary) or \<open>None\<close>. A C string is the memory from
  its first byte on, so a byte list with a 0 in it.
\<close>

type_synonym malloc_fn = "nat \<Rightarrow> u8 list option"

definition malloc_lawful :: "malloc_fn \<Rightarrow> bool" where
  "malloc_lawful mal \<longleftrightarrow> (\<forall>n b. mal n = Some b \<longrightarrow> length b = n)"

section \<open>Allocation\<close>

definition OPENSSL_MALLOC_PREFIX :: nat where
  "OPENSSL_MALLOC_PREFIX = 8"

text \<open>
  The block handed to the caller starts after the size header; the sum passed to malloc is
  computed in \<open>size_t\<close>.
\<close>

definition OPENSSL_malloc :: "malloc_fn \<Rightarrow> nat \<Rightarrow> u8 list option" where
  "OPENSSL_malloc mal n =
     (case mal (sz (n + OPENSSL_MALLOC_PREFIX)) of
        None \<Rightarrow> None
      | Some ptr \<Rightarrow> Some (drop OPENSSL_MALLOC_PREFIX ptr))"

definition OPENSSL_realloc :: "malloc_fn \<Rightarrow> u8 list option \<Rightarrow> nat \<Rightarrow> u8 list option" where
  "OPENSSL_realloc mal orig new_size =
     (case orig of
        None \<Rightarrow> OPENSSL_malloc mal new_size
      | Some old \<Rightarrow>
          (case OPENSSL_malloc mal new_size of
             None \<Rightarrow> None
           | Some ret \<Rightarrow>
               (let to_copy = (if length old < new_size then length old else new_size)
                in Some (take to_copy old @ drop to_copy ret))))"

definition OPENSSL_memdup :: "malloc_fn \<Rightarrow> u8 list \<Rightarrow> u8 list option" where
  "OPENSSL_memdup mal data =
     (if length data = 0 then None
      else case OPENSSL_malloc mal (length data) of
             None \<Rightarrow> None
           | Some ret \<Rightarrow> Some (data @ drop (length data) ret))"

lemma OPENSSL_malloc_length:
  assumes "malloc_lawful mal" "OPENSSL_malloc mal n = Some b"
  shows "length b = sz (n + 8) - 8"
  using assms
  by (auto simp: OPENSSL_malloc_def OPENSSL_MALLOC_PREFIX_def malloc_lawful_def
      split: option.splits)

lemma OPENSSL_malloc_usable:
  assumes "malloc_lawful mal" "OPENSSL_malloc mal n = Some b" "n + 8 < 2 ^ 64"
  shows "length b = n"
  using OPENSSL_malloc_length [OF assms(1,2)] assms(3) by simp

text \<open>
  A request within 8 bytes of the largest \<open>size_t\<close> wraps: malloc is asked for fewer than 8
  bytes, so the caller's block has no usable byte at all.
\<close>

lemma OPENSSL_malloc_wraps:
  assumes "malloc_lawful mal" "OPENSSL_malloc mal n = Some b" "n < 2 ^ 64" "2 ^ 64 \<le> n + 8"
  shows "b = []"
proof -
  have "sz (n + 8) = n + 8 - 2 ^ 64"
    using assms(3,4) by (simp add: sz_def mod_if)
  then have "sz (n + 8) - 8 = 0" using assms(3) by simp
  then show ?thesis using OPENSSL_malloc_length [OF assms(1,2)] by simp
qed

lemma OPENSSL_memdup_eq:
  assumes "malloc_lawful mal" "OPENSSL_memdup mal data = Some b" "length data + 8 < 2 ^ 64"
  shows "b = data"
  using assms
  by (auto simp: OPENSSL_memdup_def dest: OPENSSL_malloc_usable split: if_splits option.splits)

text \<open>A successful \<open>realloc\<close> keeps the bytes both blocks have.\<close>

lemma OPENSSL_realloc_prefix:
  assumes "malloc_lawful mal" "OPENSSL_realloc mal (Some old) n = Some b" "n + 8 < 2 ^ 64"
  shows "length b = n \<and> take (min (length old) n) b = take n old"
  using assms
  by (auto simp: OPENSSL_realloc_def Let_def min_def dest: OPENSSL_malloc_usable
      split: option.splits if_splits)

section \<open>Comparison and hashing\<close>

text \<open>
  \<open>CRYPTO_memcmp\<close> reads both arrays to the end: the accumulator \<open>x\<close> collects the
  differing bits. Both lists have the length the C caller passes.
\<close>

fun memcmp_loop :: "u8 \<Rightarrow> u8 list \<Rightarrow> u8 list \<Rightarrow> u8" where
  "memcmp_loop x (a # as) (b # bs) = memcmp_loop (x OR (a XOR b)) as bs"
| "memcmp_loop x as bs = x"

definition CRYPTO_memcmp :: "u8 list \<Rightarrow> u8 list \<Rightarrow> u8" where
  "CRYPTO_memcmp a b = memcmp_loop 0 a b"

lemma or_eq_0_iff: "(x OR y = 0) \<longleftrightarrow> x = 0 \<and> y = (0 :: 'a::len word)"
  by (metis or.left_neutral or_eq_0_iff)

lemma xor_eq_0_iff: "(x XOR y = 0) \<longleftrightarrow> x = (y :: 'a::len word)"
  by (metis xor.left_neutral xor.assoc xor_self_eq)

lemma memcmp_loop_eq_0:
  "length as = length bs \<Longrightarrow> memcmp_loop x as bs = 0 \<longleftrightarrow> x = 0 \<and> as = bs"
  by (induction x as bs rule: memcmp_loop.induct) (auto simp: or_eq_0_iff xor_eq_0_iff)

lemma CRYPTO_memcmp_eq_0 [simp]:
  "length a = length b \<Longrightarrow> CRYPTO_memcmp a b = 0 \<longleftrightarrow> a = b"
  by (simp add: CRYPTO_memcmp_def memcmp_loop_eq_0)

definition OPENSSL_hash32 :: "u8 list \<Rightarrow> u32" where
  "OPENSSL_hash32 bs = foldl (\<lambda>h b. (h XOR ucast b) * 16777619) 2166136261 bs"

section \<open>C strings\<close>

text \<open>The bytes of the C string that starts a memory region, and its length (libc's strlen).\<close>

definition c_str :: "u8 list \<Rightarrow> u8 list" where
  "c_str s = takeWhile (\<lambda>c. c \<noteq> 0) s"

definition c_strlen :: "u8 list \<Rightarrow> nat" where
  "c_strlen s = length (c_str s)"

lemma c_str_Nil [simp]: "c_str [] = []"
  by (simp add: c_str_def)

lemma c_str_Cons [simp]: "c_str (c # s) = (if c = 0 then [] else c # c_str s)"
  by (simp add: c_str_def)

lemma c_str_terminated [simp]: "0 \<notin> set s \<Longrightarrow> c_str (s @ 0 # r) = s"
  by (induction s) auto

fun strnlen_loop :: "nat \<Rightarrow> u8 list \<Rightarrow> nat \<Rightarrow> nat" where
  "strnlen_loop i s 0 = i"
| "strnlen_loop i [] (Suc n) = i"
| "strnlen_loop i (c # s) (Suc n) = (if c = 0 then i else strnlen_loop (Suc i) s n)"

definition OPENSSL_strnlen :: "u8 list \<Rightarrow> nat \<Rightarrow> nat" where
  "OPENSSL_strnlen s len = strnlen_loop 0 s len"

lemma strnlen_loop_eq: "strnlen_loop i s n = i + min n (length (c_str s))"
  by (induction i s n rule: strnlen_loop.induct) auto

lemma OPENSSL_strnlen_eq: "OPENSSL_strnlen s n = min n (c_strlen s)"
  by (simp add: OPENSSL_strnlen_def strnlen_loop_eq c_strlen_def)

definition OPENSSL_strdup :: "malloc_fn \<Rightarrow> u8 list option \<Rightarrow> u8 list option" where
  "OPENSSL_strdup mal s =
     (case s of
        None \<Rightarrow> None
      | Some str \<Rightarrow>
          (let len = sz (c_strlen str + 1)
           in case OPENSSL_malloc mal len of
                None \<Rightarrow> None
              | Some ret \<Rightarrow> Some (take len str @ drop len ret)))"

definition OPENSSL_strndup :: "malloc_fn \<Rightarrow> u8 list option \<Rightarrow> nat \<Rightarrow> u8 list option" where
  "OPENSSL_strndup mal s n =
     (case s of
        None \<Rightarrow> None
      | Some str \<Rightarrow>
          (let n' = OPENSSL_strnlen str n; alloc_size = sz (n' + 1)
           in if alloc_size < n' then None
              else case OPENSSL_malloc mal alloc_size of
                     None \<Rightarrow> None
                   | Some ret \<Rightarrow> Some (take n' str @ [0] @ drop (n' + 1) ret)))"

lemma OPENSSL_strndup_eq:
  assumes "malloc_lawful mal" "OPENSSL_strndup mal (Some str) n = Some b"
    and "length str + 9 < 2 ^ 64"
  shows "b = take n (c_str str) @ [0]"
proof -
  let ?m = "min n (c_strlen str)"
  have m: "?m \<le> length str"
    by (simp add: c_strlen_def c_str_def min.coboundedI2 length_takeWhile_le)
  then obtain ret where ret: "OPENSSL_malloc mal (?m + 1) = Some ret"
    and b: "b = take ?m str @ [0] @ drop (?m + 1) ret"
    using assms(2,3)
    by (auto simp: OPENSSL_strndup_def OPENSSL_strnlen_eq Let_def split: if_splits option.splits)
  have "length ret = ?m + 1"
    using OPENSSL_malloc_usable [OF assms(1) ret] assms(3) m by simp
  moreover have "take ?m str = take n (c_str str)"
    by (metis c_str_def c_strlen_def take_all_iff takeWhile_eq_take min.commute
        min_def nle_le take_take)
  ultimately show ?thesis using b by simp
qed

text \<open>\<open>char\<close> is signed on the platforms of the app: a character is compared as an int.\<close>

definition OPENSSL_tolower :: "int \<Rightarrow> int" where
  "OPENSSL_tolower c = (if 65 \<le> c \<and> c \<le> 90 then c + (97 - 65) else c)"

fun OPENSSL_strncasecmp :: "u8 list \<Rightarrow> u8 list \<Rightarrow> nat \<Rightarrow> int" where
  "OPENSSL_strncasecmp a b 0 = 0"
| "OPENSSL_strncasecmp (a # as) (b # bs) (Suc n) =
     (let aa = OPENSSL_tolower (sint a); bb = OPENSSL_tolower (sint b)
      in if aa < bb then -1 else if aa > bb then 1 else if aa = 0 then 0
         else OPENSSL_strncasecmp as bs n)"
| "OPENSSL_strncasecmp as bs (Suc n) = 0"

text \<open>
  The unbounded loop of \<open>OPENSSL_strcasecmp\<close> ends at a 0 or a difference; strings without a
  terminator (a read past the end in C) are outside the model and give 0.
\<close>

fun OPENSSL_strcasecmp :: "u8 list \<Rightarrow> u8 list \<Rightarrow> int" where
  "OPENSSL_strcasecmp (a # as) (b # bs) =
     (let aa = OPENSSL_tolower (sint a); bb = OPENSSL_tolower (sint b)
      in if aa < bb then -1 else if aa > bb then 1 else if aa = 0 then 0
         else OPENSSL_strcasecmp as bs)"
| "OPENSSL_strcasecmp as bs = 0"

lemma OPENSSL_tolower_0 [simp]: "OPENSSL_tolower c = 0 \<longleftrightarrow> c = 0"
  by (auto simp: OPENSSL_tolower_def)

definition c_fold :: "u8 list \<Rightarrow> int list" where
  "c_fold s = map (\<lambda>c. OPENSSL_tolower (sint c)) (c_str s)"

lemma sint_eq_0_iff [simp]: "sint (x :: 'a::len word) = 0 \<longleftrightarrow> x = 0"
  using signed_word_eqI [of x 0] by auto

lemma c_fold_Cons:
  "c_fold (c # s) = (if c = 0 then [] else OPENSSL_tolower (sint c) # c_fold s)"
  by (simp add: c_fold_def)

lemma OPENSSL_strcasecmp_Cons_eq_0:
  "OPENSSL_strcasecmp (a # as) (b # bs) = 0 \<longleftrightarrow>
     OPENSSL_tolower (sint a) = OPENSSL_tolower (sint b) \<and>
     (a = 0 \<or> OPENSSL_strcasecmp as bs = 0)"
proof -
  have "OPENSSL_strcasecmp (a # as) (b # bs) = 0 \<longleftrightarrow>
      OPENSSL_tolower (sint a) = OPENSSL_tolower (sint b) \<and>
      (OPENSSL_tolower (sint a) = 0 \<or> OPENSSL_strcasecmp as bs = 0)"
    by (cases "OPENSSL_tolower (sint a)" "OPENSSL_tolower (sint b)" rule: linorder_cases)
      (auto simp: Let_def simp del: OPENSSL_tolower_0)
  then show ?thesis by simp
qed

lemma OPENSSL_strcasecmp_eq_0:
  assumes "0 \<in> set a" "0 \<in> set b"
  shows "OPENSSL_strcasecmp a b = 0 \<longleftrightarrow> c_fold a = c_fold b"
  using assms
proof (induction a b rule: OPENSSL_strcasecmp.induct)
  case (1 a as b bs)
  have z: "OPENSSL_tolower (sint a) = OPENSSL_tolower (sint b) \<Longrightarrow> a = 0 \<longleftrightarrow> b = 0"
    by (metis OPENSSL_tolower_0 sint_eq_0_iff)
  show ?case
  proof (cases "OPENSSL_tolower (sint a) = OPENSSL_tolower (sint b)")
    case eq: True
    show ?thesis
    proof (cases "a = 0")
      case True
      with eq z show ?thesis by (simp add: OPENSSL_strcasecmp_Cons_eq_0 c_fold_Cons)
    next
      case False
      with eq z have "b \<noteq> 0" by simp
      with False eq 1 show ?thesis
        by (simp add: OPENSSL_strcasecmp_Cons_eq_0 c_fold_Cons del: OPENSSL_strcasecmp.simps)
    qed
  next
    case False
    then show ?thesis
      by (auto simp: OPENSSL_strcasecmp_Cons_eq_0 c_fold_Cons simp del: OPENSSL_strcasecmp.simps)
  qed
qed simp_all

lemma OPENSSL_strcasecmp_antisym:
  "OPENSSL_strcasecmp b a = - OPENSSL_strcasecmp a b"
  by (induction a b rule: OPENSSL_strcasecmp.induct) (auto simp: Let_def)

text \<open>
  \<open>OPENSSL_strlcpy\<close>: the loop writes \<open>dst\<close> from index \<open>d\<close> on, while there is room for a
  byte and the terminator.
\<close>

fun strlcpy_loop :: "u8 list \<Rightarrow> nat \<Rightarrow> u8 list \<Rightarrow> nat \<Rightarrow> nat \<Rightarrow> u8 list \<times> nat \<times> u8 list \<times> nat \<times> nat"
where
  "strlcpy_loop dst d [] dst_size l = (dst, d, [], dst_size, l)"
| "strlcpy_loop dst d (c # src) dst_size l =
     (if dst_size > 1 \<and> c \<noteq> 0
      then strlcpy_loop (dst[d := c]) (Suc d) src (dst_size - 1) (Suc l)
      else (dst, d, c # src, dst_size, l))"

definition strlcpy_at :: "u8 list \<Rightarrow> nat \<Rightarrow> u8 list \<Rightarrow> nat \<Rightarrow> u8 list \<times> nat" where
  "strlcpy_at dst d0 src dst_size =
     (case strlcpy_loop dst d0 src dst_size 0 of
        (dst', d, src', dst_size', l) \<Rightarrow>
          (if dst_size' \<noteq> 0 then dst'[d := 0] else dst', l + c_strlen src'))"

definition OPENSSL_strlcpy :: "u8 list \<Rightarrow> u8 list \<Rightarrow> nat \<Rightarrow> u8 list \<times> nat" where
  "OPENSSL_strlcpy dst src dst_size = strlcpy_at dst 0 src dst_size"

fun strlcat_loop :: "u8 list \<Rightarrow> nat \<Rightarrow> nat \<Rightarrow> nat \<times> nat" where
  "strlcat_loop [] dst_size l = (dst_size, l)"
| "strlcat_loop (c # dst) dst_size l =
     (if dst_size > 0 \<and> c \<noteq> 0 then strlcat_loop dst (dst_size - 1) (Suc l) else (dst_size, l))"

definition OPENSSL_strlcat :: "u8 list \<Rightarrow> u8 list \<Rightarrow> nat \<Rightarrow> u8 list \<times> nat" where
  "OPENSSL_strlcat dst src dst_size =
     (case strlcat_loop dst dst_size 0 of
        (dst_size', l) \<Rightarrow>
          (case strlcpy_at dst l src dst_size' of (dst', n) \<Rightarrow> (dst', l + n)))"

lemma strlcpy_at_spec:
  assumes "d + n \<le> length dst"
  shows "strlcpy_at dst d src n =
     (if n = 0 then dst
      else take d dst @ take (n - 1) (c_str src) @ [0]
             @ drop (d + min (n - 1) (c_strlen src) + 1) dst,
      c_strlen src)"
proof -
  have gen: "case strlcpy_loop dst d src n l of
        (dst', d', src', n', l') \<Rightarrow>
          (if n' \<noteq> 0 then dst'[d' := 0] else dst') =
             (if n = 0 then dst
              else take d dst @ take (n - 1) (c_str src) @ [0]
                   @ drop (d + min (n - 1) (length (c_str src)) + 1) dst)
          \<and> l' + length (c_str src') = l + length (c_str src)" for l
    using assms
  proof (induction dst d src n l rule: strlcpy_loop.induct)
    case (1 dst d n l)
    then show ?case
      by (auto simp: upd_conv_take_nth_drop)
  next
    case (2 dst d c src n l)
    show ?case
    proof (cases "n > 1 \<and> c \<noteq> 0")
      case True
      have *: "take (Suc d) (dst[d := c]) = take d dst @ [c]"
        using True 2(2) by (simp add: take_Suc_conv_app_nth)
      obtain m where m: "n = Suc (Suc m)"
        using True by (metis less_imp_Suc_add plus_1_eq_Suc add_Suc)
      show ?thesis
        using 2(1) [OF True] 2(2) True *
        by (auto simp: m take_Suc_Cons)
    next
      case False
      with 2(2) show ?thesis
        by (auto simp: upd_conv_take_nth_drop)
    qed
  qed
  show ?thesis
    using gen [of 0] by (auto simp: strlcpy_at_def c_strlen_def split: prod.splits)
qed

text \<open>
  \<open>strlcpy\<close> leaves a terminated prefix of the source, touches nothing past it, and returns
  the length of the source.
\<close>

lemma OPENSSL_strlcpy_spec:
  assumes "n \<le> length dst"
  shows "OPENSSL_strlcpy dst src n =
     (if n = 0 then dst
      else take (n - 1) (c_str src) @ [0] @ drop (min (n - 1) (c_strlen src) + 1) dst,
      c_strlen src)"
  using strlcpy_at_spec [of 0 n dst src] assms by (simp add: OPENSSL_strlcpy_def)

lemma strlcat_loop_eq:
  "strlcat_loop dst n l = (n - min n (length (c_str dst)), l + min n (length (c_str dst)))"
  by (induction dst n l rule: strlcat_loop.induct) auto

lemma OPENSSL_strlcat_spec:
  assumes "n \<le> length dst" "c_strlen dst < n"
  shows "c_str (fst (OPENSSL_strlcat dst src n)) = take (n - 1) (c_str dst @ c_str src)"
    and "snd (OPENSSL_strlcat dst src n) = c_strlen dst + c_strlen src"
proof -
  let ?d = "length (c_str dst)"
  have le: "?d + (n - ?d) \<le> length dst" using assms by (simp add: c_strlen_def)
  have pre: "take ?d dst = c_str dst"
    by (simp add: c_str_def flip: takeWhile_eq_take)
  have nz: "0 \<notin> set (take k (c_str s))" for k s
    unfolding c_str_def by (auto dest: in_set_takeD set_takeWhileD)
  have nz': "0 \<notin> set (c_str dst)" using nz [of ?d dst] by simp
  have "c_str (c_str dst @ take (n - Suc ?d) (c_str src) @ 0 # r) =
      c_str dst @ take (n - Suc ?d) (c_str src)" for r
    using c_str_terminated [of "c_str dst @ take (n - Suc ?d) (c_str src)" r] nz nz' by auto
  with assms show "c_str (fst (OPENSSL_strlcat dst src n)) = take (n - 1) (c_str dst @ c_str src)"
    and "snd (OPENSSL_strlcat dst src n) = c_strlen dst + c_strlen src"
    by (simp_all add: OPENSSL_strlcat_def strlcat_loop_eq strlcpy_at_spec [OF le] pre c_strlen_def)
qed

section \<open>Properties\<close>

text \<open>A malloc that never fails, to compute with.\<close>

definition zero_malloc :: malloc_fn where
  "zero_malloc n = Some (replicate n 0)"

lemma zero_malloc_lawful: "malloc_lawful zero_malloc"
  by (auto simp: malloc_lawful_def zero_malloc_def)

text \<open>C31: A successful \<open>OPENSSL_malloc\<close> of \<open>n\<close> bytes hands out \<open>n\<close> usable bytes, except that
  within 8 bytes of the largest \<open>size_t\<close> the sum with the size header wraps around unnoticed
  and the caller gets none.\<close>

theorem OPENSSL_malloc_usable_bytes:
  assumes "malloc_lawful mal" "OPENSSL_malloc mal n = Some b" "n < 2 ^ 64"
  shows "length b = (if n + 8 < 2 ^ 64 then n else 0)"
  using OPENSSL_malloc_usable [OF assms(1,2)] OPENSSL_malloc_wraps [OF assms] by auto

theorem OPENSSL_malloc_usable_bytes_witness:
  "length (the (OPENSSL_malloc zero_malloc (2 ^ 64 - 2))) = 0"
proof -
  have "OPENSSL_malloc zero_malloc (2 ^ 64 - 2) = Some (the (OPENSSL_malloc zero_malloc (2 ^ 64 - 2)))"
    by (simp add: OPENSSL_malloc_def zero_malloc_def)
  from OPENSSL_malloc_usable_bytes [OF zero_malloc_lawful this] show ?thesis by simp
qed

end
