(* ===== verification/Cbs.thy ===== *)
theory Cbs
  imports Mem
begin

text \<open>
  \<^verbatim>\<open>crypto/bytestring/cbs.c\<close>: the byte-string reader. A \<open>CBS\<close> (a pointer and a length) is
  the list of the bytes it views; advancing the pointer drops from its front. Every
  operation returns its result and the \<open>CBS\<close> it leaves behind, on failure too. An
  out-parameter of a failed call is not modelled: no caller reads one.
\<close>

type_synonym cbs = "u8 list"

section \<open>Bytes and integers\<close>

definition CBS_init :: "u8 list \<Rightarrow> nat \<Rightarrow> cbs" where
  "CBS_init data len = take len data"

definition cbs_get :: "nat \<Rightarrow> u8 list rd" where
  "cbs_get n cbs = (if length cbs < n then (None, cbs) else (Some (take n cbs), drop n cbs))"

definition CBS_skip :: "nat \<Rightarrow> cbs \<Rightarrow> bool \<times> cbs" where
  "CBS_skip len cbs =
     (case cbs_get len cbs of (None, c) \<Rightarrow> (False, c) | (Some _, c) \<Rightarrow> (True, c))"

definition CBS_data :: "cbs \<Rightarrow> u8 list" where
  "CBS_data cbs = cbs"

definition CBS_len :: "cbs \<Rightarrow> nat" where
  "CBS_len cbs = length cbs"

text \<open>Result flag, the stored pointer (\<open>None\<close> is NULL) and length.\<close>

definition CBS_stow :: "malloc_fn \<Rightarrow> cbs \<Rightarrow> bool \<times> u8 list option \<times> nat" where
  "CBS_stow mal cbs =
     (if length cbs = 0 then (True, None, 0)
      else case OPENSSL_memdup mal cbs of
             None \<Rightarrow> (False, None, 0)
           | Some p \<Rightarrow> (True, Some p, length cbs))"

definition CBS_strdup :: "malloc_fn \<Rightarrow> cbs \<Rightarrow> bool \<times> u8 list option" where
  "CBS_strdup mal cbs =
     (let p = OPENSSL_strndup mal (Some cbs) (length cbs) in (p \<noteq> None, p))"

definition CBS_contains_zero_byte :: "cbs \<Rightarrow> bool" where
  "CBS_contains_zero_byte cbs \<longleftrightarrow> 0 \<in> set cbs"

definition CBS_mem_equal :: "cbs \<Rightarrow> u8 list \<Rightarrow> bool" where
  "CBS_mem_equal cbs data =
     (if length data \<noteq> length cbs then False else CRYPTO_memcmp cbs data = 0)"

fun get_u_loop :: "u64 \<Rightarrow> u8 list \<Rightarrow> u64" where
  "get_u_loop result [] = result"
| "get_u_loop result (b # data) = get_u_loop (push_bit 8 result OR ucast b) data"

definition cbs_get_u :: "nat \<Rightarrow> u64 rd" where
  "cbs_get_u len cbs =
     (case cbs_get len cbs of
        (None, c) \<Rightarrow> (None, c)
      | (Some data, c) \<Rightarrow> (Some (get_u_loop 0 data), c))"

definition CBS_get_u8 :: "u8 rd" where
  "CBS_get_u8 cbs =
     (case cbs_get 1 cbs of (None, c) \<Rightarrow> (None, c) | (Some v, c) \<Rightarrow> (Some (hd v), c))"

definition CBS_get_u16 :: "u16 rd" where
  "CBS_get_u16 cbs =
     (case cbs_get_u 2 cbs of (None, c) \<Rightarrow> (None, c) | (Some v, c) \<Rightarrow> (Some (ucast v), c))"

definition CRYPTO_bswap2 :: "u16 \<Rightarrow> u16" where
  "CRYPTO_bswap2 x = drop_bit 8 x OR push_bit 8 x"

definition CRYPTO_bswap4 :: "u32 \<Rightarrow> u32" where
  "CRYPTO_bswap4 x =
     (let y = drop_bit 16 x OR push_bit 16 x
      in drop_bit 8 (y AND 0xff00ff00) OR push_bit 8 (y AND 0x00ff00ff))"

definition CRYPTO_bswap8 :: "u64 \<Rightarrow> u64" where
  "CRYPTO_bswap8 x =
     ucast (CRYPTO_bswap4 (ucast (drop_bit 32 x))) OR
     push_bit 32 (ucast (CRYPTO_bswap4 (ucast x)))"

definition CBS_get_u16le :: "u16 rd" where
  "CBS_get_u16le cbs =
     (case CBS_get_u16 cbs of
        (None, c) \<Rightarrow> (None, c) | (Some v, c) \<Rightarrow> (Some (CRYPTO_bswap2 v), c))"

definition CBS_get_u24 :: "u32 rd" where
  "CBS_get_u24 cbs =
     (case cbs_get_u 3 cbs of (None, c) \<Rightarrow> (None, c) | (Some v, c) \<Rightarrow> (Some (ucast v), c))"

definition CBS_get_u32 :: "u32 rd" where
  "CBS_get_u32 cbs =
     (case cbs_get_u 4 cbs of (None, c) \<Rightarrow> (None, c) | (Some v, c) \<Rightarrow> (Some (ucast v), c))"

definition CBS_get_u32le :: "u32 rd" where
  "CBS_get_u32le cbs =
     (case CBS_get_u32 cbs of
        (None, c) \<Rightarrow> (None, c) | (Some v, c) \<Rightarrow> (Some (CRYPTO_bswap4 v), c))"

definition CBS_get_u64 :: "u64 rd" where
  "CBS_get_u64 cbs = cbs_get_u 8 cbs"

definition CBS_get_u64le :: "u64 rd" where
  "CBS_get_u64le cbs =
     (case cbs_get_u 8 cbs of
        (None, c) \<Rightarrow> (None, c) | (Some v, c) \<Rightarrow> (Some (CRYPTO_bswap8 v), c))"

definition CBS_get_last_u8 :: "u8 rd" where
  "CBS_get_last_u8 cbs =
     (if length cbs = 0 then (None, cbs)
      else (Some (cbs ! (length cbs - 1)), take (length cbs - 1) cbs))"

definition CBS_get_bytes :: "nat \<Rightarrow> cbs rd" where
  "CBS_get_bytes len cbs =
     (case cbs_get len cbs of
        (None, c) \<Rightarrow> (None, c) | (Some v, c) \<Rightarrow> (Some (CBS_init v len), c))"

text \<open>The caller's array \<open>out\<close> gets its first \<open>len\<close> bytes overwritten.\<close>

definition CBS_copy_bytes :: "u8 list \<Rightarrow> nat \<Rightarrow> cbs \<Rightarrow> (bool \<times> u8 list) \<times> cbs" where
  "CBS_copy_bytes out len cbs =
     (case cbs_get len cbs of
        (None, c) \<Rightarrow> ((False, out), c)
      | (Some v, c) \<Rightarrow> ((True, v @ drop len out), c))"

definition cbs_get_length_prefixed :: "nat \<Rightarrow> cbs rd" where
  "cbs_get_length_prefixed len_len cbs =
     (case cbs_get_u len_len cbs of
        (None, c) \<Rightarrow> (None, c)
      | (Some len, c) \<Rightarrow> CBS_get_bytes (unat len) c)"

definition CBS_get_u8_length_prefixed :: "cbs rd" where
  "CBS_get_u8_length_prefixed cbs = cbs_get_length_prefixed 1 cbs"

definition CBS_get_u16_length_prefixed :: "cbs rd" where
  "CBS_get_u16_length_prefixed cbs = cbs_get_length_prefixed 2 cbs"

definition CBS_get_u24_length_prefixed :: "cbs rd" where
  "CBS_get_u24_length_prefixed cbs = cbs_get_length_prefixed 3 cbs"

section \<open>ASN.1 headers\<close>

definition CBS_ASN1_TAG_SHIFT :: nat where
  "CBS_ASN1_TAG_SHIFT = 24"

definition CBS_ASN1_CONSTRUCTED :: u32 where
  "CBS_ASN1_CONSTRUCTED = push_bit CBS_ASN1_TAG_SHIFT 0x20"

definition CBS_ASN1_TAG_NUMBER_MASK :: u32 where
  "CBS_ASN1_TAG_NUMBER_MASK = push_bit (5 + CBS_ASN1_TAG_SHIFT) 1 - 1"

definition CBS_ASN1_BOOLEAN :: u32 where "CBS_ASN1_BOOLEAN = 0x1"
definition CBS_ASN1_INTEGER :: u32 where "CBS_ASN1_INTEGER = 0x2"
definition CBS_ASN1_BITSTRING :: u32 where "CBS_ASN1_BITSTRING = 0x3"
definition CBS_ASN1_OCTETSTRING :: u32 where "CBS_ASN1_OCTETSTRING = 0x4"
definition CBS_ASN1_SEQUENCE :: u32 where "CBS_ASN1_SEQUENCE = 0x10 OR CBS_ASN1_CONSTRUCTED"

text \<open>The do-while loop, one byte per round.\<close>

fun parse_base128_loop :: "u64 \<Rightarrow> u64 rd" where
  "parse_base128_loop v [] = (None, [])"
| "parse_base128_loop v (b # cbs) =
     (if drop_bit (64 - 7) v \<noteq> 0 then (None, cbs)
      else if v = 0 \<and> b = 0x80 then (None, cbs)
      else let v' = push_bit 7 v OR ucast (b AND 0x7f)
           in if b AND 0x80 \<noteq> 0 then parse_base128_loop v' cbs else (Some v', cbs))"

definition parse_base128_integer :: "u64 rd" where
  "parse_base128_integer cbs = parse_base128_loop 0 cbs"

definition parse_asn1_tag :: "u32 rd" where
  "parse_asn1_tag cbs =
     (case CBS_get_u8 cbs of
        (None, c) \<Rightarrow> (None, c)
      | (Some tag_byte, c) \<Rightarrow>
          (let tag = push_bit CBS_ASN1_TAG_SHIFT ((ucast tag_byte :: u32) AND 0xe0);
               tag_number = ucast (tag_byte AND 0x1f) :: u32
           in if tag_number = 0x1f
              then (case parse_base128_integer c of
                      (None, c') \<Rightarrow> (None, c')
                    | (Some v, c') \<Rightarrow>
                        if v > ucast CBS_ASN1_TAG_NUMBER_MASK \<or> v < 0x1f then (None, c')
                        else (Some (tag OR ucast v), c'))
              else (Some (tag OR tag_number), c)))"

text \<open>
  The element with its header, the tag and the header's length. The input is advanced only
  by the final \<open>CBS_get_bytes\<close>. An indefinite-length header (BER only) is returned alone.
\<close>

definition cbs_get_any_asn1_element :: "bool \<Rightarrow> (cbs \<times> u32 \<times> nat) rd" where
  "cbs_get_any_asn1_element ber_ok cbs =
     (case parse_asn1_tag cbs of
        (None, _) \<Rightarrow> (None, cbs)
      | (Some tag, header) \<Rightarrow>
     (case CBS_get_u8 header of
        (None, _) \<Rightarrow> (None, cbs)
      | (Some length_byte, header') \<Rightarrow>
     (let header_len = CBS_len cbs - CBS_len header';
          finish = (\<lambda>len out_header_len.
            (case CBS_get_bytes len cbs of
               (None, c) \<Rightarrow> (None, c)
             | (Some out, c) \<Rightarrow> (Some (out, tag, out_header_len), c)))
      in if length_byte AND 0x80 = 0
         then finish (sz (unat length_byte + header_len)) header_len
         else
           (let num_bytes = unat (length_byte AND 0x7f)
            in if ber_ok \<and> tag AND CBS_ASN1_CONSTRUCTED \<noteq> 0 \<and> num_bytes = 0
               then finish header_len header_len
               else if num_bytes = 0 \<or> num_bytes > 4 then (None, cbs)
               else (case cbs_get_u num_bytes header' of
                       (None, _) \<Rightarrow> (None, cbs)
                     | (Some len64, _) \<Rightarrow>
                         if len64 < 128 then (None, cbs)
                         else if drop_bit ((num_bytes - 1) * 8) len64 = 0 then (None, cbs)
                         else let len = unat len64
                              in if sz (len + header_len + num_bytes) < len then (None, cbs)
                                 else finish (sz (len + header_len + num_bytes))
                                        (header_len + num_bytes))))))"

definition CBS_get_any_asn1_element :: "(cbs \<times> u32 \<times> nat) rd" where
  "CBS_get_any_asn1_element cbs = cbs_get_any_asn1_element False cbs"

definition CBS_get_any_ber_asn1_element :: "(cbs \<times> u32 \<times> nat) rd" where
  "CBS_get_any_ber_asn1_element cbs = cbs_get_any_asn1_element True cbs"

definition CBS_get_any_asn1 :: "(cbs \<times> u32) rd" where
  "CBS_get_any_asn1 cbs =
     (case CBS_get_any_asn1_element cbs of
        (None, c) \<Rightarrow> (None, c)
      | (Some (out, tag, header_len), c) \<Rightarrow>
          (case CBS_skip header_len out of
             (False, _) \<Rightarrow> (None, c)
           | (True, out') \<Rightarrow> (Some (out', tag), c)))"

definition cbs_get_asn1 :: "u32 \<Rightarrow> bool \<Rightarrow> cbs rd" where
  "cbs_get_asn1 tag_value skip_header cbs =
     (case CBS_get_any_asn1_element cbs of
        (None, c) \<Rightarrow> (None, c)
      | (Some (out, tag, header_len), c) \<Rightarrow>
          if tag \<noteq> tag_value then (None, c)
          else if skip_header
          then (case CBS_skip header_len out of
                  (False, _) \<Rightarrow> (None, c)
                | (True, out') \<Rightarrow> (Some out', c))
          else (Some out, c))"

definition CBS_get_asn1 :: "u32 \<Rightarrow> cbs rd" where
  "CBS_get_asn1 tag_value cbs = cbs_get_asn1 tag_value True cbs"

definition CBS_get_asn1_element :: "u32 \<Rightarrow> cbs rd" where
  "CBS_get_asn1_element tag_value cbs = cbs_get_asn1 tag_value False cbs"

definition CBS_peek_asn1_tag :: "u32 \<Rightarrow> cbs \<Rightarrow> bool" where
  "CBS_peek_asn1_tag tag_value cbs =
     (if CBS_len cbs < 1 then False
      else case parse_asn1_tag cbs of
             (None, _) \<Rightarrow> False
           | (Some actual_tag, _) \<Rightarrow> tag_value = actual_tag)"

section \<open>Typed ASN.1 values\<close>

fun asn1_uint64_loop :: "u64 \<Rightarrow> u8 list \<Rightarrow> u64 option" where
  "asn1_uint64_loop v [] = Some v"
| "asn1_uint64_loop v (b # data) =
     (if drop_bit 56 v \<noteq> 0 then None
      else asn1_uint64_loop (push_bit 8 v OR ucast b) data)"

definition CBS_get_asn1_uint64 :: "u64 rd" where
  "CBS_get_asn1_uint64 cbs =
     (case CBS_get_asn1 CBS_ASN1_INTEGER cbs of
        (None, c) \<Rightarrow> (None, c)
      | (Some bytes, c) \<Rightarrow>
          (let data = CBS_data bytes; len = CBS_len bytes
           in if len = 0 then (None, c)
              else if data ! 0 AND 0x80 \<noteq> 0 then (None, c)
              else if data ! 0 = 0 \<and> len > 1 \<and> data ! 1 AND 0x80 = 0 then (None, c)
              else (asn1_uint64_loop 0 data, c)))"

text \<open>
  \<open>u.bytes\<close> is the little-endian image of the 64-bit result: the data reversed, extended
  with the sign. \<open>le_word\<close> reads such an image back.
\<close>

definition le_word :: "u8 list \<Rightarrow> u64" where
  "le_word bytes = word_of_nat (be_nat (rev bytes))"

definition CBS_get_asn1_int64 :: "u64 rd" where
  "CBS_get_asn1_int64 cbs =
     (case CBS_get_asn1 CBS_ASN1_INTEGER cbs of
        (None, c) \<Rightarrow> (None, c)
      | (Some bytes, c) \<Rightarrow>
          (let data = CBS_data bytes; len = CBS_len bytes
           in if len = 0 \<or> len > 8 then (None, c)
              else if len > 1 \<and> data ! 0 = 0 \<and> data ! 1 AND 0x80 = 0 then (None, c)
              else if len > 1 \<and> data ! 0 = 0xff \<and> data ! 1 AND 0x80 \<noteq> 0 then (None, c)
              else let is_negative = (data ! 0 AND 0x80 \<noteq> 0);
                       ext = replicate 8 (if is_negative then 0xff else 0);
                       u = map (\<lambda>i. data ! (len - i - 1)) [0..<len] @ drop len ext
                   in (Some (le_word u), c)))"

definition CBS_get_asn1_bool :: "int rd" where
  "CBS_get_asn1_bool cbs =
     (case CBS_get_asn1 CBS_ASN1_BOOLEAN cbs of
        (None, c) \<Rightarrow> (None, c)
      | (Some bytes, c) \<Rightarrow>
          if CBS_len bytes \<noteq> 1 then (None, c)
          else let value = CBS_data bytes ! 0
               in if value \<noteq> 0 \<and> value \<noteq> 0xff then (None, c) else (Some (if value = 0 then 0 else 1), c))"

text \<open>
  The optional element: \<open>Some None\<close> when it is absent (the C function then succeeds with
  \<open>*out_present\<close> 0 and leaves \<open>out\<close> alone).
\<close>

definition CBS_get_optional_asn1 :: "u32 \<Rightarrow> cbs option rd" where
  "CBS_get_optional_asn1 tag cbs =
     (if CBS_peek_asn1_tag tag cbs
      then (case CBS_get_asn1 tag cbs of
              (None, c) \<Rightarrow> (None, c) | (Some out, c) \<Rightarrow> (Some (Some out), c))
      else (Some None, cbs))"

text \<open>An absent octet string sets \<open>out\<close> to the empty string; the flag says whether it was present.\<close>

definition CBS_get_optional_asn1_octet_string :: "u32 \<Rightarrow> (cbs \<times> bool) rd" where
  "CBS_get_optional_asn1_octet_string tag cbs =
     (case CBS_get_optional_asn1 tag cbs of
        (None, c) \<Rightarrow> (None, c)
      | (Some None, c) \<Rightarrow> (Some (CBS_init [] 0, False), c)
      | (Some (Some child), c) \<Rightarrow>
          (case CBS_get_asn1 CBS_ASN1_OCTETSTRING child of
             (None, _) \<Rightarrow> (None, c)
           | (Some out, child') \<Rightarrow>
               if CBS_len child' \<noteq> 0 then (None, c) else (Some (out, True), c)))"

definition CBS_get_optional_asn1_uint64 :: "u32 \<Rightarrow> u64 \<Rightarrow> u64 rd" where
  "CBS_get_optional_asn1_uint64 tag default_value cbs =
     (case CBS_get_optional_asn1 tag cbs of
        (None, c) \<Rightarrow> (None, c)
      | (Some None, c) \<Rightarrow> (Some default_value, c)
      | (Some (Some child), c) \<Rightarrow>
          (case CBS_get_asn1_uint64 child of
             (None, _) \<Rightarrow> (None, c)
           | (Some out, child') \<Rightarrow>
               if CBS_len child' \<noteq> 0 then (None, c) else (Some out, c)))"

definition CBS_get_optional_asn1_bool :: "u32 \<Rightarrow> int \<Rightarrow> int rd" where
  "CBS_get_optional_asn1_bool tag default_value cbs =
     (case CBS_get_optional_asn1 tag cbs of
        (None, c) \<Rightarrow> (None, c)
      | (Some None, c) \<Rightarrow> (Some default_value, c)
      | (Some (Some child), c) \<Rightarrow>
          (case CBS_get_asn1 CBS_ASN1_BOOLEAN child of
             (None, _) \<Rightarrow> (None, c)
           | (Some child2, child') \<Rightarrow>
               if CBS_len child2 \<noteq> 1 \<or> CBS_len child' \<noteq> 0 then (None, c)
               else let boolean = CBS_data child2 ! 0
                    in if boolean = 0 then (Some 0, c)
                       else if boolean = 0xff then (Some 1, c)
                       else (None, c)))"

definition CBS_is_valid_asn1_bitstring :: "cbs \<Rightarrow> bool" where
  "CBS_is_valid_asn1_bitstring cbs =
     (case CBS_get_u8 cbs of
        (None, _) \<Rightarrow> False
      | (Some num_unused_bits, in') \<Rightarrow>
          if num_unused_bits > 7 then False
          else if num_unused_bits = 0 then True
          else (case CBS_get_last_u8 in' of
                  (None, _) \<Rightarrow> False
                | (Some l, _) \<Rightarrow> l AND (push_bit (unat num_unused_bits) 1 - 1) = 0))"

definition CBS_asn1_bitstring_has_bit :: "cbs \<Rightarrow> nat \<Rightarrow> bool" where
  "CBS_asn1_bitstring_has_bit cbs n =
     (if \<not> CBS_is_valid_asn1_bitstring cbs then False
      else let byte_num = n div 8 + 1; bit_num = 7 - n mod 8
           in byte_num < CBS_len cbs \<and> CBS_data cbs ! byte_num AND push_bit bit_num 1 \<noteq> 0)"

section \<open>Evaluating readers\<close>

lemmas asn1_tag_defs = CBS_ASN1_INTEGER_def CBS_ASN1_SEQUENCE_def CBS_ASN1_OCTETSTRING_def CBS_ASN1_BOOLEAN_def
  CBS_ASN1_CONSTRUCTED_def CBS_ASN1_TAG_SHIFT_def CBS_ASN1_TAG_NUMBER_MASK_def

end
