(* ===== verification/Cbb.thy ===== *)
theory Cbb
  imports Cbs
begin

text \<open>
  \<^verbatim>\<open>crypto/bytestring/cbb.c\<close>: the byte-string builder. All \<open>CBB\<close>s of one message share one
  buffer (\<open>cbb_buffer_st\<close>); the open ones form a chain from the root, each the \<open>child\<close> of
  the one before. The model keeps the buffer and that chain; the argument \<open>d\<close> of an operation
  is the depth in the chain of the \<open>CBB\<close> it is called on (0 for the root). A depth with no
  open \<open>CBB\<close> is one whose \<open>base\<close> pointer has been cleared, so the operation fails. The
  buffer holds the \<open>len\<close> bytes written so far; space handed out for the caller to fill is
  modelled by the bytes the caller stores there.
\<close>

record cbb_buffer =
  bb_buf :: "u8 list"
  bb_cap :: nat
  bb_can_resize :: bool
  bb_error :: bool

record cbb_child =
  ch_offset :: nat
  ch_pending_len_len :: nat
  ch_pending_is_asn1 :: bool

record cbb =
  cb_base :: "cbb_buffer option"
  cb_kids :: "cbb_child list"

section \<open>The shared buffer\<close>

definition CBB_zero :: cbb where
  "CBB_zero = \<lparr>cb_base = None, cb_kids = []\<rparr>"

text \<open>\<open>sizeof(struct cbb_buffer_st)\<close> on a 64-bit platform.\<close>

definition sizeof_cbb_buffer_st :: nat where
  "sizeof_cbb_buffer_st = 32"

definition cbb_init :: "malloc_fn \<Rightarrow> nat \<Rightarrow> cbb \<Rightarrow> bool \<times> cbb" where
  "cbb_init mal cap c =
     (case OPENSSL_malloc mal sizeof_cbb_buffer_st of
        None \<Rightarrow> (False, c)
      | Some _ \<Rightarrow>
          (True, c\<lparr>cb_base := Some \<lparr>bb_buf = [], bb_cap = cap, bb_can_resize = True,
                                    bb_error = False\<rparr>\<rparr>))"

definition CBB_init :: "malloc_fn \<Rightarrow> nat \<Rightarrow> bool \<times> cbb" where
  "CBB_init mal initial_capacity =
     (if initial_capacity > 0 \<and> OPENSSL_malloc mal initial_capacity = None
      then (False, CBB_zero)
      else cbb_init mal initial_capacity CBB_zero)"

definition CBB_init_fixed :: "malloc_fn \<Rightarrow> nat \<Rightarrow> bool \<times> cbb" where
  "CBB_init_fixed mal len =
     (case cbb_init mal len CBB_zero of
        (False, c) \<Rightarrow> (False, c)
      | (True, c) \<Rightarrow> (True, c\<lparr>cb_base := map_option (bb_can_resize_update (\<lambda>_. False)) (cb_base c)\<rparr>))"

definition CBB_cleanup :: "nat \<Rightarrow> cbb \<Rightarrow> cbb" where
  "CBB_cleanup d c = (if d \<noteq> 0 then c else c\<lparr>cb_base := None\<rparr>)"

definition cbb_buffer_reserve :: "malloc_fn \<Rightarrow> nat \<Rightarrow> cbb_buffer \<Rightarrow> bool \<times> cbb_buffer" where
  "cbb_buffer_reserve mal len base =
     (let newlen = sz (length (bb_buf base) + len)
      in if newlen < length (bb_buf base) then (False, base\<lparr>bb_error := True\<rparr>)
         else if newlen > bb_cap base then
           (let newcap = sz (bb_cap base * 2)
            in if \<not> bb_can_resize base then (False, base\<lparr>bb_error := True\<rparr>)
               else let newcap' = (if newcap < bb_cap base \<or> newcap < newlen then newlen else newcap)
                    in case OPENSSL_realloc mal (Some (bb_buf base)) newcap' of
                         None \<Rightarrow> (False, base\<lparr>bb_error := True\<rparr>)
                       | Some newbuf \<Rightarrow>
                           (True, base\<lparr>bb_buf := take (length (bb_buf base)) newbuf,
                                       bb_cap := newcap'\<rparr>))
         else (True, base))"

text \<open>\<open>bs\<close> are the bytes the caller stores in the new space.\<close>

definition cbb_buffer_add :: "malloc_fn \<Rightarrow> u8 list \<Rightarrow> cbb_buffer \<Rightarrow> bool \<times> cbb_buffer" where
  "cbb_buffer_add mal bs base =
     (case cbb_buffer_reserve mal (length bs) base of
        (False, b) \<Rightarrow> (False, b)
      | (True, b) \<Rightarrow> (True, b\<lparr>bb_buf := bb_buf b @ bs\<rparr>))"

text \<open>The loop that stores \<open>v\<close> big-endian; what is left of \<open>v\<close> must be 0.\<close>

fun store_be_loop :: "nat \<Rightarrow> u64 \<Rightarrow> u8 list \<Rightarrow> u8 list \<times> u64" where
  "store_be_loop 0 v acc = (acc, v)"
| "store_be_loop (Suc i) v acc = store_be_loop i (drop_bit 8 v) (ucast v # acc)"

definition cbb_buffer_add_u :: "malloc_fn \<Rightarrow> u64 \<Rightarrow> nat \<Rightarrow> cbb_buffer \<Rightarrow> bool \<times> cbb_buffer" where
  "cbb_buffer_add_u mal v len_len base =
     (if len_len = 0 then (True, base)
      else case store_be_loop len_len v [] of
        (bs, v') \<Rightarrow>
          (case cbb_buffer_add mal bs base of
             (False, b) \<Rightarrow> (False, b)
           | (True, b) \<Rightarrow> if v' \<noteq> 0 then (False, b\<lparr>bb_error := True\<rparr>) else (True, b)))"

section \<open>Length prefixes\<close>

fun put_len_loop :: "nat \<Rightarrow> nat \<Rightarrow> u8 list \<Rightarrow> nat \<Rightarrow> u8 list \<times> nat" where
  "put_len_loop 0 off buf len = (buf, len)"
| "put_len_loop (Suc i) off buf len =
     put_len_loop i off (buf[off + i := word_of_nat len]) (len div 256)"

definition cbb_put_len :: "cbb_buffer \<Rightarrow> cbb_child \<Rightarrow> nat \<Rightarrow> bool \<times> cbb_buffer \<times> cbb_child" where
  "cbb_put_len base ch len =
     (case put_len_loop (ch_pending_len_len ch) (ch_offset ch) (bb_buf base) len of
        (buf', len') \<Rightarrow>
          if len' \<noteq> 0 then (False, base\<lparr>bb_buf := buf', bb_error := True\<rparr>, ch)
          else (True, base\<lparr>bb_buf := buf'\<rparr>, ch))"

text \<open>
  How a DER length is written: the number of length bytes, the initial byte and what is left
  to store after it.
\<close>

definition asn1_len_form :: "nat \<Rightarrow> nat \<times> u8 \<times> nat" where
  "asn1_len_form len =
     (if len > 0xffffff then (5, 0x80 OR 4, len)
      else if len > 0xffff then (4, 0x80 OR 3, len)
      else if len > 0xff then (3, 0x80 OR 2, len)
      else if len > 0x7f then (2, 0x80 OR 1, len)
      else (1, word_of_nat len, 0))"

text \<open>
  The end of \<open>CBB_flush\<close>: the length of the child's contents goes into its prefix. A DER
  length longer than one byte first moves the contents along.
\<close>

definition cbb_close_child ::
  "malloc_fn \<Rightarrow> cbb_buffer \<Rightarrow> cbb_child \<Rightarrow> bool \<times> cbb_buffer \<times> cbb_child" where
  "cbb_close_child mal base ch =
     (let child_start = sz (ch_offset ch + ch_pending_len_len ch);
          len = length (bb_buf base) - child_start
      in if ch_pending_is_asn1 ch then
           (if len > 0xfffffffe then (False, base\<lparr>bb_error := True\<rparr>, ch)
            else
              (case asn1_len_form len of
                 (len_len, initial_length_byte, len') \<Rightarrow>
                   (case (if len_len \<noteq> (1 :: nat)
                          then (case cbb_buffer_add mal (replicate (len_len - 1) 0) base of
                                  (False, b) \<Rightarrow> (False, b)
                                | (True, b) \<Rightarrow>
                                    (True, b\<lparr>bb_buf :=
                                       take (child_start + (len_len - 1)) (bb_buf b) @
                                       take len (drop child_start (bb_buf b))\<rparr>))
                          else (True, base)) of
                      (False, b) \<Rightarrow> (False, b\<lparr>bb_error := True\<rparr>, ch)
                    | (True, b) \<Rightarrow>
                        cbb_put_len (b\<lparr>bb_buf := (bb_buf b)[ch_offset ch := initial_length_byte]\<rparr>)
                          (ch\<lparr>ch_offset := ch_offset ch + 1, ch_pending_len_len := len_len - 1\<rparr>)
                          len')))
         else cbb_put_len base ch len)"

fun flush_chain ::
  "malloc_fn \<Rightarrow> cbb_buffer \<Rightarrow> cbb_child list \<Rightarrow> bool \<times> cbb_buffer \<times> cbb_child list" where
  "flush_chain mal base [] = (\<not> bb_error base, base, [])"
| "flush_chain mal base (ch # kids) =
     (if bb_error base then (False, base, ch # kids)
      else if ch_pending_len_len ch = 0 then (True, base, ch # kids)
      else let child_start = sz (ch_offset ch + ch_pending_len_len ch)
           in (case flush_chain mal base kids of
                 (False, b, kids') \<Rightarrow> (False, b\<lparr>bb_error := True\<rparr>, ch # kids')
               | (True, b, kids') \<Rightarrow>
                   if child_start < ch_offset ch \<or> length (bb_buf b) < child_start
                   then (False, b\<lparr>bb_error := True\<rparr>, ch # kids')
                   else (case cbb_close_child mal b ch of
                           (False, b', ch') \<Rightarrow> (False, b', ch' # kids')
                         | (True, b', _) \<Rightarrow> (True, b', []))))"

definition CBB_flush :: "malloc_fn \<Rightarrow> nat \<Rightarrow> cbb \<Rightarrow> bool \<times> cbb" where
  "CBB_flush mal d c =
     (case cb_base c of
        None \<Rightarrow> (False, c)
      | Some base \<Rightarrow>
          if d > length (cb_kids c) then (False, c)
          else (case flush_chain mal base (drop d (cb_kids c)) of
                  (ok, b, kids') \<Rightarrow>
                    (ok, c\<lparr>cb_base := Some b, cb_kids := take d (cb_kids c) @ kids'\<rparr>)))"

text \<open>Flush, then an operation on the buffer: the shape of most functions of the file.\<close>

definition cbb_with_base :: "(cbb_buffer \<Rightarrow> bool \<times> cbb_buffer) \<Rightarrow> cbb \<Rightarrow> bool \<times> cbb" where
  "cbb_with_base f c =
     (case cb_base c of
        None \<Rightarrow> (False, c)
      | Some base \<Rightarrow> (case f base of (ok, b) \<Rightarrow> (ok, c\<lparr>cb_base := Some b\<rparr>)))"

definition cbb_on_base ::
  "malloc_fn \<Rightarrow> nat \<Rightarrow> (cbb_buffer \<Rightarrow> bool \<times> cbb_buffer) \<Rightarrow> cbb \<Rightarrow> bool \<times> cbb" where
  "cbb_on_base mal d f c =
     (case CBB_flush mal d c of
        (False, c') \<Rightarrow> (False, c')
      | (True, c') \<Rightarrow> cbb_with_base f c')"

text \<open>
  \<open>out_set\<close> says that both out-pointers are given. The result is the finished byte string.
\<close>

definition CBB_finish :: "malloc_fn \<Rightarrow> bool \<Rightarrow> nat \<Rightarrow> cbb \<Rightarrow> u8 list option \<times> cbb" where
  "CBB_finish mal out_set d c =
     (if d \<noteq> 0 then (None, c)
      else case CBB_flush mal d c of
        (False, c') \<Rightarrow> (None, c')
      | (True, c') \<Rightarrow>
          (case cb_base c' of
             None \<Rightarrow> (None, c')
           | Some base \<Rightarrow>
               if bb_can_resize base \<and> \<not> out_set then (None, c')
               else (Some (bb_buf base), CBB_cleanup d c')))"

text \<open>The first byte of the contents of the \<open>CBB\<close> at depth \<open>d\<close>, as an index of the buffer.\<close>

definition cbb_start :: "nat \<Rightarrow> cbb \<Rightarrow> nat" where
  "cbb_start d c =
     (if d = 0 then 0
      else ch_offset (cb_kids c ! (d - 1)) + ch_pending_len_len (cb_kids c ! (d - 1)))"

definition CBB_data :: "nat \<Rightarrow> cbb \<Rightarrow> u8 list" where
  "CBB_data d c =
     (case cb_base c of None \<Rightarrow> [] | Some base \<Rightarrow> drop (cbb_start d c) (bb_buf base))"

definition CBB_len :: "nat \<Rightarrow> cbb \<Rightarrow> nat" where
  "CBB_len d c =
     (case cb_base c of None \<Rightarrow> 0 | Some base \<Rightarrow> length (bb_buf base) - cbb_start d c)"

section \<open>Adding data\<close>

definition CBB_add_bytes :: "malloc_fn \<Rightarrow> nat \<Rightarrow> u8 list \<Rightarrow> cbb \<Rightarrow> bool \<times> cbb" where
  "CBB_add_bytes mal d data c = cbb_on_base mal d (cbb_buffer_add mal data) c"

text \<open>\<open>data\<close>: what the caller stores through \<open>*out_data\<close>.\<close>

definition CBB_add_space :: "malloc_fn \<Rightarrow> nat \<Rightarrow> u8 list \<Rightarrow> cbb \<Rightarrow> bool \<times> cbb" where
  "CBB_add_space mal d data c = cbb_on_base mal d (cbb_buffer_add mal data) c"

definition CBB_reserve :: "malloc_fn \<Rightarrow> nat \<Rightarrow> nat \<Rightarrow> cbb \<Rightarrow> bool \<times> cbb" where
  "CBB_reserve mal d len c = cbb_on_base mal d (cbb_buffer_reserve mal len) c"

definition CBB_did_write :: "nat \<Rightarrow> u8 list \<Rightarrow> cbb \<Rightarrow> bool \<times> cbb" where
  "CBB_did_write d data c =
     (case cb_base c of
        None \<Rightarrow> (False, c)
      | Some base \<Rightarrow>
          (let newlen = sz (length (bb_buf base) + length data)
           in if length (cb_kids c) \<noteq> d \<or> newlen < length (bb_buf base) \<or> newlen > bb_cap base
              then (False, c)
              else (True, c\<lparr>cb_base := Some (base\<lparr>bb_buf := bb_buf base @ data\<rparr>)\<rparr>)))"

definition CBB_add_u8 :: "malloc_fn \<Rightarrow> nat \<Rightarrow> u8 \<Rightarrow> cbb \<Rightarrow> bool \<times> cbb" where
  "CBB_add_u8 mal d v c = cbb_on_base mal d (cbb_buffer_add_u mal (ucast v) 1) c"

definition CBB_add_u16 :: "malloc_fn \<Rightarrow> nat \<Rightarrow> u16 \<Rightarrow> cbb \<Rightarrow> bool \<times> cbb" where
  "CBB_add_u16 mal d v c = cbb_on_base mal d (cbb_buffer_add_u mal (ucast v) 2) c"

definition CBB_add_u16le :: "malloc_fn \<Rightarrow> nat \<Rightarrow> u16 \<Rightarrow> cbb \<Rightarrow> bool \<times> cbb" where
  "CBB_add_u16le mal d v c = CBB_add_u16 mal d (CRYPTO_bswap2 v) c"

definition CBB_add_u24 :: "malloc_fn \<Rightarrow> nat \<Rightarrow> u32 \<Rightarrow> cbb \<Rightarrow> bool \<times> cbb" where
  "CBB_add_u24 mal d v c = cbb_on_base mal d (cbb_buffer_add_u mal (ucast v) 3) c"

definition CBB_add_u32 :: "malloc_fn \<Rightarrow> nat \<Rightarrow> u32 \<Rightarrow> cbb \<Rightarrow> bool \<times> cbb" where
  "CBB_add_u32 mal d v c = cbb_on_base mal d (cbb_buffer_add_u mal (ucast v) 4) c"

definition CBB_add_u32le :: "malloc_fn \<Rightarrow> nat \<Rightarrow> u32 \<Rightarrow> cbb \<Rightarrow> bool \<times> cbb" where
  "CBB_add_u32le mal d v c = CBB_add_u32 mal d (CRYPTO_bswap4 v) c"

definition CBB_add_u64 :: "malloc_fn \<Rightarrow> nat \<Rightarrow> u64 \<Rightarrow> cbb \<Rightarrow> bool \<times> cbb" where
  "CBB_add_u64 mal d v c = cbb_on_base mal d (cbb_buffer_add_u mal v 8) c"

definition CBB_add_u64le :: "malloc_fn \<Rightarrow> nat \<Rightarrow> u64 \<Rightarrow> cbb \<Rightarrow> bool \<times> cbb" where
  "CBB_add_u64le mal d v c = CBB_add_u64 mal d (CRYPTO_bswap8 v) c"

definition CBB_discard_child :: "nat \<Rightarrow> cbb \<Rightarrow> cbb" where
  "CBB_discard_child d c =
     (case cb_base c of
        None \<Rightarrow> c
      | Some base \<Rightarrow>
          if length (cb_kids c) \<le> d then c
          else c\<lparr>cb_base := Some (base\<lparr>bb_buf := take (ch_offset (cb_kids c ! d)) (bb_buf base)\<rparr>),
                 cb_kids := take d (cb_kids c)\<rparr>)"

section \<open>Opening a child\<close>

definition cbb_open_child :: "nat \<Rightarrow> nat \<Rightarrow> nat \<Rightarrow> bool \<Rightarrow> cbb \<Rightarrow> cbb" where
  "cbb_open_child d offset len_len is_asn1 c =
     c\<lparr>cb_kids := take d (cb_kids c) @
         [\<lparr>ch_offset = offset, ch_pending_len_len = len_len, ch_pending_is_asn1 = is_asn1\<rparr>]\<rparr>"

definition cbb_base_len :: "cbb \<Rightarrow> nat" where
  "cbb_base_len c = (case cb_base c of None \<Rightarrow> 0 | Some base \<Rightarrow> length (bb_buf base))"

definition cbb_add_length_prefixed :: "malloc_fn \<Rightarrow> nat \<Rightarrow> nat \<Rightarrow> cbb \<Rightarrow> bool \<times> cbb" where
  "cbb_add_length_prefixed mal d len_len c =
     (case CBB_flush mal d c of
        (False, c1) \<Rightarrow> (False, c1)
      | (True, c1) \<Rightarrow>
          (let offset = cbb_base_len c1
           in case cbb_with_base (cbb_buffer_add mal (replicate len_len 0)) c1 of
                (False, c2) \<Rightarrow> (False, c2)
              | (True, c2) \<Rightarrow> (True, cbb_open_child d offset len_len False c2)))"

definition CBB_add_u8_length_prefixed :: "malloc_fn \<Rightarrow> nat \<Rightarrow> cbb \<Rightarrow> bool \<times> cbb" where
  "CBB_add_u8_length_prefixed mal d c = cbb_add_length_prefixed mal d 1 c"

definition CBB_add_u16_length_prefixed :: "malloc_fn \<Rightarrow> nat \<Rightarrow> cbb \<Rightarrow> bool \<times> cbb" where
  "CBB_add_u16_length_prefixed mal d c = cbb_add_length_prefixed mal d 2 c"

definition CBB_add_u24_length_prefixed :: "malloc_fn \<Rightarrow> nat \<Rightarrow> cbb \<Rightarrow> bool \<times> cbb" where
  "CBB_add_u24_length_prefixed mal d c = cbb_add_length_prefixed mal d 3 c"

function base128_len_loop :: "u64 \<Rightarrow> nat \<Rightarrow> nat" where
  "base128_len_loop copy len_len =
     (if copy > 0 then base128_len_loop (drop_bit 7 copy) (len_len + 1) else len_len)"
  by pat_completeness auto
termination
proof (relation "measure (\<lambda>(copy, _). unat copy)")
  fix copy :: u64 and len_len :: nat
  assume "copy > 0"
  then have "0 < unat copy" by (simp add: unat_gt_0 word_gt_0)
  then have "unat (drop_bit 7 copy) < unat copy" by (simp add: unat_drop_bit)
  then show "((drop_bit 7 copy, len_len + 1), copy, len_len) \<in> measure (\<lambda>(copy, _). unat copy)"
    by simp
qed simp

declare base128_len_loop.simps [simp del]

definition base128_len :: "u64 \<Rightarrow> nat" where
  "base128_len v = (let len_len = base128_len_loop v 0 in if len_len = 0 then 1 else len_len)"

definition base128_byte :: "u64 \<Rightarrow> nat \<Rightarrow> u8" where
  "base128_byte v i =
     (let byte = ucast (drop_bit (7 * i) v AND 0x7f)
      in if i \<noteq> 0 then byte OR 0x80 else byte)"

fun base128_add_loop :: "malloc_fn \<Rightarrow> nat \<Rightarrow> u64 \<Rightarrow> nat \<Rightarrow> cbb \<Rightarrow> bool \<times> cbb" where
  "base128_add_loop mal d v 0 c = (True, c)"
| "base128_add_loop mal d v (Suc i) c =
     (case CBB_add_u8 mal d (base128_byte v i) c of
        (False, c') \<Rightarrow> (False, c')
      | (True, c') \<Rightarrow> base128_add_loop mal d v i c')"

definition add_base128_integer :: "malloc_fn \<Rightarrow> nat \<Rightarrow> u64 \<Rightarrow> cbb \<Rightarrow> bool \<times> cbb" where
  "add_base128_integer mal d v c = base128_add_loop mal d v (base128_len v) c"

definition CBB_add_asn1 :: "malloc_fn \<Rightarrow> nat \<Rightarrow> u32 \<Rightarrow> cbb \<Rightarrow> bool \<times> cbb" where
  "CBB_add_asn1 mal d tag c =
     (case CBB_flush mal d c of
        (False, c1) \<Rightarrow> (False, c1)
      | (True, c1) \<Rightarrow>
          (let tag_bits = ucast (drop_bit CBS_ASN1_TAG_SHIFT tag) AND (0xe0 :: u8);
               tag_number = tag AND CBS_ASN1_TAG_NUMBER_MASK
           in case (if tag_number \<ge> 0x1f
                    then (case CBB_add_u8 mal d (tag_bits OR 0x1f) c1 of
                            (False, c2) \<Rightarrow> (False, c2)
                          | (True, c2) \<Rightarrow> add_base128_integer mal d (ucast tag_number) c2)
                    else CBB_add_u8 mal d (tag_bits OR ucast tag_number) c1) of
                (False, c3) \<Rightarrow> (False, c3)
              | (True, c3) \<Rightarrow>
                  (let offset = cbb_base_len c3
                   in case CBB_add_u8 mal d 0 c3 of
                        (False, c4) \<Rightarrow> (False, c4)
                      | (True, c4) \<Rightarrow> (True, cbb_open_child d offset 1 True c4))))"

section \<open>Typed ASN.1 values\<close>

text \<open>\<open>n\<close> counts the bytes still to come, so byte \<open>7 - i\<close> of the C loop is \<open>n - 1\<close>.\<close>

fun uint64_loop :: "malloc_fn \<Rightarrow> nat \<Rightarrow> u64 \<Rightarrow> nat \<Rightarrow> bool \<Rightarrow> cbb \<Rightarrow> bool \<times> bool \<times> cbb" where
  "uint64_loop mal d value 0 started c = (True, started, c)"
| "uint64_loop mal d value (Suc n) started c =
     (let byte = ucast (drop_bit (8 * n) value AND 0xff) :: u8
      in if \<not> started \<and> byte = 0 then uint64_loop mal d value n started c
         else case (if \<not> started \<and> byte AND 0x80 \<noteq> 0 then CBB_add_u8 mal d 0 c else (True, c)) of
                (False, c') \<Rightarrow> (False, started, c')
              | (True, c') \<Rightarrow>
                  (case CBB_add_u8 mal d byte c' of
                     (False, c'') \<Rightarrow> (False, True, c'')
                   | (True, c'') \<Rightarrow> uint64_loop mal d value n True c''))"

definition CBB_add_asn1_uint64 :: "malloc_fn \<Rightarrow> nat \<Rightarrow> u64 \<Rightarrow> cbb \<Rightarrow> bool \<times> cbb" where
  "CBB_add_asn1_uint64 mal d value c =
     (case CBB_add_asn1 mal d CBS_ASN1_INTEGER c of
        (False, c1) \<Rightarrow> (False, c1)
      | (True, c1) \<Rightarrow>
          (case uint64_loop mal (Suc d) value 8 False c1 of
             (False, _, c2) \<Rightarrow> (False, c2)
           | (True, started, c2) \<Rightarrow>
               (case (if \<not> started then CBB_add_u8 mal (Suc d) 0 c2 else (True, c2)) of
                  (False, c3) \<Rightarrow> (False, c3)
                | (True, c3) \<Rightarrow> CBB_flush mal d c3)))"

text \<open>Byte \<open>i\<close> of the little-endian image of the 64-bit value.\<close>

definition u_byte :: "u64 \<Rightarrow> nat \<Rightarrow> u8" where
  "u_byte value i = ucast (drop_bit (8 * i) value)"

fun int64_start :: "u64 \<Rightarrow> nat \<Rightarrow> nat" where
  "int64_start value 0 = 0"
| "int64_start value (Suc s) =
     (if u_byte value (Suc s) = 0xff \<and> u_byte value s AND 0x80 \<noteq> 0
      then int64_start value s else Suc s)"

fun int64_add_loop :: "malloc_fn \<Rightarrow> nat \<Rightarrow> u64 \<Rightarrow> nat \<Rightarrow> cbb \<Rightarrow> bool \<times> cbb" where
  "int64_add_loop mal d value 0 c = (True, c)"
| "int64_add_loop mal d value (Suc i) c =
     (case CBB_add_u8 mal d (u_byte value i) c of
        (False, c') \<Rightarrow> (False, c')
      | (True, c') \<Rightarrow> int64_add_loop mal d value i c')"

text \<open>The argument is the 64-bit pattern of the signed value.\<close>

definition CBB_add_asn1_int64 :: "malloc_fn \<Rightarrow> nat \<Rightarrow> u64 \<Rightarrow> cbb \<Rightarrow> bool \<times> cbb" where
  "CBB_add_asn1_int64 mal d value c =
     (if sint value \<ge> 0 then CBB_add_asn1_uint64 mal d value c
      else let start = int64_start value 7
           in case CBB_add_asn1 mal d CBS_ASN1_INTEGER c of
                (False, c1) \<Rightarrow> (False, c1)
              | (True, c1) \<Rightarrow>
                  (case int64_add_loop mal (Suc d) value (start + 1) c1 of
                     (False, c2) \<Rightarrow> (False, c2)
                   | (True, c2) \<Rightarrow> CBB_flush mal d c2))"

definition CBB_add_asn1_octet_string :: "malloc_fn \<Rightarrow> nat \<Rightarrow> u8 list \<Rightarrow> cbb \<Rightarrow> bool \<times> cbb" where
  "CBB_add_asn1_octet_string mal d data c =
     (case CBB_add_asn1 mal d CBS_ASN1_OCTETSTRING c of
        (False, c1) \<Rightarrow> (False, c1)
      | (True, c1) \<Rightarrow>
          (case CBB_add_bytes mal (Suc d) data c1 of
             (False, c2) \<Rightarrow> (False, c2)
           | (True, c2) \<Rightarrow> CBB_flush mal d c2))"

definition CBB_add_asn1_bool :: "malloc_fn \<Rightarrow> nat \<Rightarrow> int \<Rightarrow> cbb \<Rightarrow> bool \<times> cbb" where
  "CBB_add_asn1_bool mal d value c =
     (case CBB_add_asn1 mal d CBS_ASN1_BOOLEAN c of
        (False, c1) \<Rightarrow> (False, c1)
      | (True, c1) \<Rightarrow>
          (case CBB_add_u8 mal (Suc d) (if value \<noteq> 0 then 0xff else 0) c1 of
             (False, c2) \<Rightarrow> (False, c2)
           | (True, c2) \<Rightarrow> CBB_flush mal d c2))"

end
