(* ===== verification/CbbSpec.thy ===== *)
theory CbbSpec
  imports Cbb
begin

text \<open>
  What a \<open>CBB\<close> promises. The abstract builder is a stack of byte strings, one per open
  \<open>CBB\<close> from the root to the innermost, with no placeholder for the prefixes; closing one
  puts its prefix and contents at the end of its parent. \<open>cbb_frames\<close> and \<open>cbb_kinds\<close> read
  that stack off the shared buffer, and every operation of the builder is shown to act on it
  as its abstract counterpart.
\<close>

datatype prefix = Fixed nat | Der

definition der_len :: "nat \<Rightarrow> u8 list" where
  "der_len n =
     (if n \<le> 0x7f then [word_of_nat n]
      else if n \<le> 0xff then 0x81 # be_bytes 1 n
      else if n \<le> 0xffff then 0x82 # be_bytes 2 n
      else if n \<le> 0xffffff then 0x83 # be_bytes 3 n
      else 0x84 # be_bytes 4 n)"

primrec prefix_bytes :: "prefix \<Rightarrow> nat \<Rightarrow> u8 list" where
  "prefix_bytes (Fixed n) len = be_bytes n len"
| "prefix_bytes Der len = der_len len"

definition prefix_of :: "cbb_child \<Rightarrow> prefix" where
  "prefix_of ch = (if ch_pending_is_asn1 ch then Der else Fixed (ch_pending_len_len ch))"

definition with_prefix :: "prefix \<Rightarrow> u8 list \<Rightarrow> u8 list" where
  "with_prefix k bs = prefix_bytes k (length bs) @ bs"

fun close_frames :: "prefix list \<Rightarrow> u8 list list \<Rightarrow> u8 list" where
  "close_frames (k # ks) (x # xs) = x @ with_prefix k (close_frames ks xs)"
| "close_frames ks xs = concat xs"

fun frames_from :: "nat \<Rightarrow> u8 list \<Rightarrow> cbb_child list \<Rightarrow> u8 list list" where
  "frames_from start buf [] = [drop start buf]"
| "frames_from start buf (ch # kids) =
     take (ch_offset ch - start) (drop start buf)
       # frames_from (ch_offset ch + ch_pending_len_len ch) buf kids"

fun chain_ok :: "nat \<Rightarrow> nat \<Rightarrow> cbb_child list \<Rightarrow> bool" where
  "chain_ok start len [] \<longleftrightarrow> start \<le> len"
| "chain_ok start len (ch # kids) \<longleftrightarrow>
     start \<le> ch_offset ch \<and> 0 < ch_pending_len_len ch \<and>
     (ch_pending_is_asn1 ch \<longrightarrow> ch_pending_len_len ch = 1) \<and>
     chain_ok (ch_offset ch + ch_pending_len_len ch) len kids"

definition buf_ok :: "cbb_buffer \<Rightarrow> bool" where
  "buf_ok b \<longleftrightarrow> length (bb_buf b) < 2 ^ 64"

lemma chain_ok_le: "chain_ok start len kids \<Longrightarrow> start \<le> len"
  by (induction start len kids rule: chain_ok.induct) auto

lemma chain_ok_mono: "chain_ok start len kids \<Longrightarrow> len \<le> len' \<Longrightarrow> chain_ok start len' kids"
  by (induction start len kids rule: chain_ok.induct) auto

lemma frames_from_nonempty [simp]: "frames_from start buf kids \<noteq> []"
  by (cases kids) auto

lemma length_frames_from [simp]: "length (frames_from start buf kids) = Suc (length kids)"
  by (induction start buf kids rule: frames_from.induct) auto

lemma frames_from_append:
  "chain_ok start (length buf) kids \<Longrightarrow>
   frames_from start (buf @ bs) kids =
     butlast (frames_from start buf kids) @ [last (frames_from start buf kids) @ bs]"
proof (induction start buf kids rule: frames_from.induct)
  case (1 start buf)
  then show ?case by simp
next
  case (2 start buf ch kids)
  then have "ch_offset ch \<le> length buf" by (auto dest: chain_ok_le)
  with 2 show ?case by simp
qed

section \<open>The buffer operations\<close>

lemma cbb_buffer_reserve_True:
  assumes "cbb_buffer_reserve mal len base = (True, b)"
  shows "bb_buf b = bb_buf base \<and> bb_error b = bb_error base \<and>
         bb_can_resize b = bb_can_resize base \<and> length (bb_buf base) \<le> sz (length (bb_buf base) + len)"
  using assms
  by (auto simp: cbb_buffer_reserve_def Let_def OPENSSL_realloc_def split: if_splits option.splits)

lemma sz_add_ge:
  assumes "a \<le> sz (a + b)" "b < 2 ^ 64"
  shows "a + b < 2 ^ 64"
proof (rule ccontr)
  assume "\<not> a + b < 2 ^ 64"
  moreover have a: "a < 2 ^ 64" using assms(1) sz_lt le_less_trans by blast
  ultimately have "sz (a + b) < a" using assms(2) sz_overflow_iff [of a b] by simp
  with assms(1) show False by simp
qed

lemma cbb_buffer_add_True:
  assumes "cbb_buffer_add mal bs base = (True, b)" "length bs < 2 ^ 64"
  shows "bb_buf b = bb_buf base @ bs \<and> bb_error b = bb_error base \<and>
         bb_can_resize b = bb_can_resize base \<and> buf_ok b"
  using assms
  by (auto simp: cbb_buffer_add_def buf_ok_def split: prod.splits bool.splits
      dest!: cbb_buffer_reserve_True sz_add_ge)

lemma store_be_loop_eq:
  "store_be_loop n v acc = (be_bytes n (unat v) @ acc, drop_bit (8 * n) v)"
proof (induction n v acc rule: store_be_loop.induct)
  case (1 v acc)
  show ?case by simp
next
  case (2 n v acc)
  have "(ucast v :: u8) = word_of_nat (unat v)" by simp
  moreover have "unat (drop_bit 8 v) = unat v div 256" by (simp add: unat_drop_bit)
  moreover have "drop_bit (8 * n) (drop_bit 8 v) = drop_bit (8 * Suc n) v"
    by (simp add: drop_bit_drop_bit add.commute)
  ultimately show ?case using 2 by simp
qed

lemma drop_bit_eq_0_iff_unat: "drop_bit n (v :: 'a::len word) = 0 \<longleftrightarrow> unat v < 2 ^ n"
proof -
  have "drop_bit n v = 0 \<longleftrightarrow> unat (drop_bit n v) = 0" by (simp add: unat_eq_zero)
  also have "\<dots> \<longleftrightarrow> unat v < 2 ^ n" by (simp add: unat_drop_bit div_eq_0_iff)
  finally show ?thesis .
qed

lemma cbb_buffer_add_u_True:
  assumes "cbb_buffer_add_u mal v n base = (True, b)" "n < 2 ^ 64" "buf_ok base"
  shows "bb_buf b = bb_buf base @ be_bytes n (unat v) \<and> bb_error b = bb_error base \<and>
         bb_can_resize b = bb_can_resize base \<and> buf_ok b \<and> (0 < n \<longrightarrow> unat v < 256 ^ n)"
proof (cases "n = 0")
  case True
  with assms show ?thesis by (auto simp: cbb_buffer_add_u_def)
next
  case False
  with assms have "cbb_buffer_add mal (be_bytes n (unat v)) base = (True, b)"
    and "drop_bit (8 * n) v = 0"
    by (auto simp: cbb_buffer_add_u_def store_be_loop_eq split: prod.splits bool.splits if_splits)
  then show ?thesis
    using cbb_buffer_add_True [of mal "be_bytes n (unat v)" base b] assms(2)
    by (simp add: drop_bit_eq_0_iff_unat power_mult)
qed

section \<open>Closing a child\<close>

lemma put_len_loop_eq:
  assumes "off + n \<le> length buf"
  shows "put_len_loop n off buf len =
     (take off buf @ be_bytes n len @ drop (off + n) buf, len div 256 ^ n)"
  using assms
proof (induction n off buf len rule: put_len_loop.induct)
  case (1 off buf len)
  then show ?case by simp
next
  case (2 i off buf len)
  have "drop (off + i) (buf[off + i := word_of_nat len]) =
      word_of_nat len # drop (Suc (off + i)) buf"
    using 2(2) by (simp add: Cons_nth_drop_Suc [symmetric])
  moreover have "take off (buf[off + i := word_of_nat len]) = take off buf" by simp
  ultimately show ?case
    using 2 by (simp add: div_mult2_eq)
qed

lemma cbb_put_len_True:
  assumes "cbb_put_len base ch len = (True, b, ch')"
    and "ch_offset ch + ch_pending_len_len ch \<le> length (bb_buf base)"
  shows "b = base\<lparr>bb_buf := take (ch_offset ch) (bb_buf base)
               @ be_bytes (ch_pending_len_len ch) len
               @ drop (ch_offset ch + ch_pending_len_len ch) (bb_buf base)\<rparr>
         \<and> len < 256 ^ ch_pending_len_len ch"
  using assms by (auto simp: cbb_put_len_def put_len_loop_eq div_eq_0_iff split: if_splits)


text \<open>A DER length of at most \<open>0xfffffffe\<close> in one initial byte and \<open>extra\<close> more.\<close>

lemma cbb_close_der_extra:
  assumes add: "cbb_buffer_add mal (replicate extra 0) base = (True, b)"
    and buf: "bb_buf base = pre @ [z] @ contents" and extra: "extra < 2 ^ 64"
    and b': "b' = b\<lparr>bb_buf := (take (Suc (length pre) + extra) (bb_buf b) @
               take (length contents) (drop (Suc (length pre)) (bb_buf b)))[length pre := ini]\<rparr>"
    and put: "cbb_put_len b' (ch\<lparr>ch_offset := length pre + 1, ch_pending_len_len := extra\<rparr>)
               (length contents) = (True, b'', ch')"
  shows "bb_buf b'' = pre @ ini # be_bytes extra (length contents) @ contents \<and>
         bb_error b'' = bb_error base \<and> bb_can_resize b'' = bb_can_resize base \<and> buf_ok b''"
proof -
  have bufb: "bb_buf b = pre @ [z] @ contents @ replicate extra 0"
    and e: "bb_error b = bb_error base" "bb_can_resize b = bb_can_resize base" "buf_ok b"
    using cbb_buffer_add_True [OF add] extra buf by auto
  have len: "length (take (Suc (length pre) + extra) (bb_buf b)) = Suc (length pre) + extra"
    by (simp add: bufb)
  obtain junk where junk: "take (Suc (length pre) + extra) (bb_buf b) = pre @ z # junk"
    and ljunk: "length junk = extra"
    by (rule that [of "take extra (contents @ replicate extra 0)"]) (simp_all add: bufb)
  have rest: "take (length contents) (drop (Suc (length pre)) (bb_buf b)) = contents"
    by (simp add: bufb)
  have nb: "b' = b\<lparr>bb_buf := pre @ ini # junk @ contents\<rparr>"
    unfolding b' by (simp only: rest junk) simp
  show ?thesis
    using cbb_put_len_True [OF put [unfolded nb]] ljunk e by (simp add: buf_ok_def bufb)
qed

lemma asn1_len_form_long:
  assumes "\<not> len \<le> 0x7f"
  obtains extra ini where "asn1_len_form len = (Suc extra, ini, len)" "0 < extra" "extra < 2 ^ 64"
    "len \<le> 0xfffffffe \<longrightarrow> der_len len = ini # be_bytes extra len"
proof -
  note form = that
  consider "len > 0xffffff" | "0xffff < len" "len \<le> 0xffffff"
    | "0xff < len" "len \<le> 0xffff" | "len \<le> 0xff"
    by linarith
  then show thesis
  proof cases
    case 1
    then show thesis by (intro form [of 4 "0x84"]) (simp_all add: asn1_len_form_def der_len_def)
  next
    case 2
    then show thesis by (intro form [of 3 "0x83"]) (simp_all add: asn1_len_form_def der_len_def)
  next
    case 3
    then show thesis by (intro form [of 2 "0x82"]) (simp_all add: asn1_len_form_def der_len_def)
  next
    case 4
    with assms show thesis
      by (intro form [of 1 "0x81"]) (simp_all add: asn1_len_form_def der_len_def)
  qed
qed

lemma cbb_close_child_True:
  assumes close: "cbb_close_child mal base ch = (True, b, ch')"
    and le: "ch_offset ch + ch_pending_len_len ch \<le> length (bb_buf base)"
    and pend: "ch_pending_is_asn1 ch \<longrightarrow> ch_pending_len_len ch = 1"
    and ok: "buf_ok base"
  shows "bb_buf b = take (ch_offset ch) (bb_buf base) @
             with_prefix (prefix_of ch) (drop (ch_offset ch + ch_pending_len_len ch) (bb_buf base))
         \<and> bb_error b = bb_error base \<and> bb_can_resize b = bb_can_resize base \<and> buf_ok b"
proof -
  let ?cs = "ch_offset ch + ch_pending_len_len ch"
  have cs: "sz ?cs = ?cs" using le ok by (simp add: buf_ok_def)
  define contents where "contents = drop ?cs (bb_buf base)"
  have len: "length (bb_buf base) - ?cs = length contents" by (simp add: contents_def)
  show ?thesis
  proof (cases "ch_pending_is_asn1 ch")
    case False
    then have "cbb_put_len base ch (length contents) = (True, b, ch')"
      using close by (simp add: cbb_close_child_def cs len Let_def)
    with False le show ?thesis
      using ok by (auto simp: with_prefix_def prefix_of_def contents_def buf_ok_def
          dest!: cbb_put_len_True)
  next
    case True
    with pend have p1: "ch_pending_len_len ch = 1" by simp
    note cs1 = cs [unfolded p1, simplified] and len1 = len [unfolded p1, simplified]
    define pre where "pre = take (ch_offset ch) (bb_buf base)"
    have lpre: "length pre = ch_offset ch" using le p1 by (simp add: pre_def)
    obtain z where buf: "bb_buf base = pre @ [z] @ contents"
      using le p1 unfolding pre_def contents_def
      by (metis Cons_nth_drop_Suc One_nat_def Suc_eq_plus1 Suc_le_lessD append_Cons append_Nil
          append_take_drop_id)
    note der = cbb_close_der_extra [where pre = pre and contents = contents and z = z and base = base,
        OF _ buf, unfolded lpre]
    show ?thesis
    proof (cases "length contents \<le> 0x7f")
      case small: True
      with close True have "cbb_put_len (base\<lparr>bb_buf := (bb_buf base)[ch_offset ch := word_of_nat (length contents)]\<rparr>)
          (ch\<lparr>ch_offset := ch_offset ch + 1, ch_pending_len_len := 0\<rparr>) 0 = (True, b, ch')"
        by (auto simp: cbb_close_child_def cs1 len1 p1 Let_def asn1_len_form_def split: if_splits)
      with small True p1 lpre show ?thesis
        using ok by (auto simp: buf with_prefix_def prefix_of_def der_len_def cbb_put_len_def
            list_update_append buf_ok_def)
    next
      case False
      then obtain extra ini where form: "asn1_len_form (length contents) = (Suc extra, ini, length contents)"
        and extra: "0 < extra" "extra < 2 ^ 64"
        and dl: "length contents \<le> 0xfffffffe \<longrightarrow> der_len (length contents) = ini # be_bytes extra (length contents)"
        by (rule asn1_len_form_long)
      with close True obtain b1 b2 where "length contents \<le> 0xfffffffe"
        "cbb_buffer_add mal (replicate extra 0) base = (True, b1)"
        "b2 = b1\<lparr>bb_buf := (take (Suc (ch_offset ch) + extra) (bb_buf b1) @
               take (length contents) (drop (Suc (ch_offset ch)) (bb_buf b1)))[ch_offset ch := ini]\<rparr>"
        "cbb_put_len b2 (ch\<lparr>ch_offset := ch_offset ch + 1, ch_pending_len_len := extra\<rparr>)
               (length contents) = (True, b, ch')"
        by (auto simp: cbb_close_child_def cs1 len1 p1 Let_def split: if_splits prod.splits bool.splits)
      with der [of mal extra b1 b2 ini ch b ch'] True p1 lpre extra dl show ?thesis
        by (simp add: buf with_prefix_def prefix_of_def)
    qed
  qed
qed

section \<open>Flushing\<close>

lemma flush_chain_error: "bb_error base \<Longrightarrow> \<exists>b ks. flush_chain mal base kids = (False, b, ks)"
  by (cases kids) auto

lemma flush_chain_True:
  assumes "flush_chain mal base kids = (True, b, ks)"
    and "chain_ok start (length (bb_buf base)) kids" "buf_ok base"
  shows "ks = [] \<and> \<not> bb_error b \<and> bb_can_resize b = bb_can_resize base \<and> buf_ok b \<and>
         bb_buf b = take start (bb_buf base) @
           close_frames (map prefix_of kids) (frames_from start (bb_buf base) kids)"
  using assms
proof (induction kids arbitrary: start b ks)
  case Nil
  then show ?case by auto
next
  case (Cons ch kids)
  let ?buf = "bb_buf base" and ?s = "ch_offset ch + ch_pending_len_len ch"
  from Cons.prems(2) have chain: "chain_ok ?s (length ?buf) kids" "start \<le> ch_offset ch"
    "0 < ch_pending_len_len ch" "ch_pending_is_asn1 ch \<longrightarrow> ch_pending_len_len ch = 1"
    by auto
  have le: "?s \<le> length ?buf" using chain(1) by (rule chain_ok_le)
  have sz: "sz ?s = ?s" using le Cons.prems(3) by (simp add: buf_ok_def)
  from Cons.prems(1) chain(3) sz obtain b1 ks1 ch'
    where rec: "flush_chain mal base kids = (True, b1, ks1)"
      and close: "cbb_close_child mal b1 ch = (True, b, ch')" and ks: "ks = []"
    by (auto simp: Let_def split: if_splits prod.splits bool.splits)
  let ?X = "close_frames (map prefix_of kids) (frames_from ?s ?buf kids)"
  have b1: "\<not> bb_error b1" "bb_can_resize b1 = bb_can_resize base" "buf_ok b1"
    and buf1: "bb_buf b1 = take ?s ?buf @ ?X"
    using Cons.IH [OF rec chain(1) Cons.prems(3)] by simp_all
  have "take (ch_offset ch) (bb_buf b1) = take (ch_offset ch) ?buf" "drop ?s (bb_buf b1) = ?X"
    using le by (simp_all add: buf1 min_def)
  with cbb_close_child_True [OF close _ chain(4) b1(3)] b1 le
  have b: "bb_buf b = take (ch_offset ch) ?buf @ with_prefix (prefix_of ch) ?X"
    "\<not> bb_error b" "bb_can_resize b = bb_can_resize base" "buf_ok b"
    by (simp_all add: buf1)
  have "take (ch_offset ch) ?buf = take start ?buf @ take (ch_offset ch - start) (drop start ?buf)"
    using chain(2) by (metis le_add_diff_inverse take_add)
  with b ks show ?case by simp
qed

section \<open>The abstract builder\<close>

definition cbb_frames :: "cbb \<Rightarrow> u8 list list" where
  "cbb_frames c =
     (case cb_base c of None \<Rightarrow> [] | Some b \<Rightarrow> frames_from 0 (bb_buf b) (cb_kids c))"

definition cbb_kinds :: "cbb \<Rightarrow> prefix list" where
  "cbb_kinds c = map prefix_of (cb_kids c)"

definition cbb_depth :: "cbb \<Rightarrow> nat" where
  "cbb_depth c = length (cb_kids c)"

definition cbb_growable :: "cbb \<Rightarrow> bool" where
  "cbb_growable c = (case cb_base c of None \<Rightarrow> False | Some b \<Rightarrow> bb_can_resize b)"

text \<open>
  The invariant of a builder that is in use: the open children are nested inside the buffer,
  each with room for its prefix.
\<close>

definition cbb_wf :: "cbb \<Rightarrow> bool" where
  "cbb_wf c =
     (case cb_base c of
        None \<Rightarrow> False
      | Some b \<Rightarrow> buf_ok b \<and> chain_ok 0 (length (bb_buf b)) (cb_kids c))"

text \<open>
  \<open>cbb_writes d bs c c'\<close>: from \<open>c\<close> to \<open>c'\<close> the children below depth \<open>d\<close> were closed into
  their parents and \<open>bs\<close> was written at depth \<open>d\<close>; nothing else changed.
\<close>

definition cbb_writes :: "nat \<Rightarrow> u8 list \<Rightarrow> cbb \<Rightarrow> cbb \<Rightarrow> bool" where
  "cbb_writes d bs c c' \<longleftrightarrow>
     cbb_wf c' \<and> d \<le> cbb_depth c \<and> cbb_depth c' = d \<and> cbb_kinds c' = take d (cbb_kinds c) \<and>
     cbb_growable c' = cbb_growable c \<and>
     cbb_frames c' = take d (cbb_frames c) @
       [close_frames (drop d (cbb_kinds c)) (drop d (cbb_frames c)) @ bs]"

fun chain_end :: "nat \<Rightarrow> cbb_child list \<Rightarrow> nat" where
  "chain_end start [] = start"
| "chain_end start (ch # kids) = chain_end (ch_offset ch + ch_pending_len_len ch) kids"

fun frames_init :: "nat \<Rightarrow> u8 list \<Rightarrow> cbb_child list \<Rightarrow> u8 list list" where
  "frames_init start buf [] = []"
| "frames_init start buf (ch # kids) =
     take (ch_offset ch - start) (drop start buf)
       # frames_init (ch_offset ch + ch_pending_len_len ch) buf kids"

lemma length_frames_init [simp]: "length (frames_init start buf kids) = length kids"
  by (induction start buf kids rule: frames_init.induct) auto

lemma chain_ok_append:
  "chain_ok start len (ks1 @ ks2) \<longleftrightarrow>
     chain_ok start (chain_end start ks1) ks1 \<and> chain_ok (chain_end start ks1) len ks2"
  by (induction start ks1 rule: chain_end.induct) auto

lemma frames_from_split:
  "frames_from start buf (ks1 @ ks2) =
     frames_init start buf ks1 @ frames_from (chain_end start ks1) buf ks2"
  by (induction start buf ks1 rule: frames_init.induct) auto

lemma frames_init_cong:
  assumes "chain_ok start e kids" "take e buf = take e buf'"
  shows "frames_init start buf kids = frames_init start buf' kids"
  using assms
proof (induction start buf kids rule: frames_init.induct)
  case (1 start buf)
  show ?case by simp
next
  case (2 start buf ch kids)
  then have "ch_offset ch \<le> e" by (auto dest: chain_ok_le)
  then have "take (ch_offset ch) buf = take (ch_offset ch) buf'"
    using 2(3) by (metis min.absorb1 take_take)
  then show ?case using 2 by (simp flip: drop_take)
qed

lemma frames_from_init:
  "frames_from start buf kids = frames_init start buf kids @ [drop (chain_end start kids) buf]"
  using frames_from_split [of start buf kids "[]"] by simp

lemma close_frames_single [simp]: "close_frames [] [x] = x"
  by simp

theorem CBB_flush_writes:
  assumes "CBB_flush mal d c = (True, c')" "cbb_wf c"
  shows "cbb_writes d [] c c'"
    and "cb_kids c' = take d (cb_kids c)"
    and "\<exists>b. cb_base c' = Some b \<and> \<not> bb_error b"
proof -
  from assms obtain base b ks where base: "cb_base c = Some base" and d: "d \<le> length (cb_kids c)"
    and fl: "flush_chain mal base (drop d (cb_kids c)) = (True, b, ks)"
    and c': "c' = c\<lparr>cb_base := Some b, cb_kids := take d (cb_kids c) @ ks\<rparr>"
    by (auto simp: CBB_flush_def split: option.splits if_splits prod.splits)
  let ?k1 = "take d (cb_kids c)" and ?k2 = "drop d (cb_kids c)" and ?buf = "bb_buf base"
  let ?e = "chain_end 0 ?k1"
  have wf: "buf_ok base" "chain_ok 0 ?e ?k1" "chain_ok ?e (length ?buf) ?k2"
    using assms(2) chain_ok_append [of 0 "length ?buf" ?k1 ?k2]
    by (simp_all add: cbb_wf_def base)
  have e: "?e \<le> length ?buf" using wf(3) by (rule chain_ok_le)
  let ?X = "close_frames (map prefix_of ?k2) (frames_from ?e ?buf ?k2)"
  from flush_chain_True [OF fl wf(3) wf(1)]
  have b: "ks = []" "\<not> bb_error b" "bb_can_resize b = bb_can_resize base" "buf_ok b"
    "bb_buf b = take ?e ?buf @ ?X" by auto
  have init: "frames_init 0 (bb_buf b) ?k1 = frames_init 0 ?buf ?k1"
    by (rule frames_init_cong [OF wf(2)]) (use e in \<open>simp add: b\<close>)
  have fr: "cbb_frames c = frames_init 0 ?buf ?k1 @ frames_from ?e ?buf ?k2"
    using frames_from_split [of 0 ?buf ?k1 ?k2] by (simp add: cbb_frames_def base)
  have dropX: "drop ?e (bb_buf b) = ?X" using e by (simp add: b)
  have fr': "cbb_frames c' = frames_init 0 ?buf ?k1 @ [?X]"
    by (simp add: cbb_frames_def c' b(1) frames_from_init init dropX)
  have len: "length (frames_init 0 ?buf ?k1) = d" using d by simp
  have "?e \<le> length (bb_buf b)" using e by (simp add: b)
  then have "chain_ok 0 (length (bb_buf b)) ?k1" by (rule chain_ok_mono [OF wf(2)])
  with b d show "cbb_writes d [] c c'"
    unfolding cbb_writes_def fr fr'
    by (simp add: cbb_wf_def c' cbb_depth_def cbb_kinds_def cbb_growable_def base len
        take_map drop_map)
  show "cb_kids c' = take d (cb_kids c)" by (simp add: c' b)
  show "\<exists>b. cb_base c' = Some b \<and> \<not> bb_error b" using b by (simp add: c')
qed

lemma length_cbb_frames: "cbb_wf c \<Longrightarrow> length (cbb_frames c) = Suc (cbb_depth c)"
  by (auto simp: cbb_wf_def cbb_frames_def cbb_depth_def split: option.splits)

lemma length_cbb_kinds [simp]: "length (cbb_kinds c) = cbb_depth c"
  by (simp add: cbb_kinds_def cbb_depth_def)

lemma cbb_writes_wf: "cbb_writes d bs c c' \<Longrightarrow> cbb_wf c' \<and> cbb_depth c' = d \<and> d \<le> cbb_depth c"
  by (simp add: cbb_writes_def)

lemma cbb_writes_trans:
  assumes "cbb_writes d xs c c1" "cbb_writes d ys c1 c2" "cbb_wf c"
  shows "cbb_writes d (xs @ ys) c c2"
proof -
  have "length (take d (cbb_frames c)) = d"
    using assms(1,3) length_cbb_frames [of c] by (simp add: cbb_writes_def)
  with assms show ?thesis by (simp add: cbb_writes_def)
qed

lemma cbb_on_base_writes:
  assumes "cbb_on_base mal d f c = (True, c')" "cbb_wf c"
    and f: "\<And>base b. f base = (True, b) \<Longrightarrow> buf_ok base \<Longrightarrow>
      bb_buf b = bb_buf base @ bs \<and> bb_can_resize b = bb_can_resize base \<and> buf_ok b"
  shows "cbb_writes d bs c c'"
proof -
  from assms(1) obtain c1 base b where fl: "CBB_flush mal d c = (True, c1)"
    and base: "cb_base c1 = Some base" and fb: "f base = (True, b)"
    and c': "c' = c1\<lparr>cb_base := Some b\<rparr>"
    by (auto simp: cbb_on_base_def cbb_with_base_def split: prod.splits bool.splits option.splits)
  have w: "cbb_writes d [] c c1" using CBB_flush_writes(1) [OF fl assms(2)] .
  then have wf: "buf_ok base" "chain_ok 0 (length (bb_buf base)) (cb_kids c1)"
    by (auto simp: cbb_writes_def cbb_wf_def base)
  note b = f [OF fb wf(1)]
  have "cbb_frames c' = butlast (cbb_frames c1) @ [last (cbb_frames c1) @ bs]"
    by (simp add: cbb_frames_def c' base b frames_from_append [OF wf(2)])
  moreover have "chain_ok 0 (length (bb_buf b)) (cb_kids c1)"
    by (rule chain_ok_mono [OF wf(2)]) (simp add: b)
  ultimately show ?thesis
    using w b by (simp add: cbb_writes_def cbb_wf_def c' cbb_depth_def cbb_kinds_def
        cbb_growable_def base)
qed

lemma CBB_add_bytes_writes:
  assumes "CBB_add_bytes mal d bs c = (True, c')" "cbb_wf c" "length bs < 2 ^ 64"
  shows "cbb_writes d bs c c'"
  using assms(1) unfolding CBB_add_bytes_def
  by (rule cbb_on_base_writes [OF _ assms(2)]) (auto dest: cbb_buffer_add_True [OF _ assms(3)])

lemma cbb_add_u_writes:
  assumes "cbb_on_base mal d (cbb_buffer_add_u mal v n) c = (True, c')" "cbb_wf c" "n < 2 ^ 64"
  shows "cbb_writes d (be_bytes n (unat v)) c c'"
  using assms(1)
  by (rule cbb_on_base_writes [OF _ assms(2)]) (auto dest!: cbb_buffer_add_u_True [OF _ assms(3)])

text \<open>A value too wide for its bytes is refused.\<close>

lemma cbb_add_u_fits:
  assumes "cbb_on_base mal d (cbb_buffer_add_u mal v n) c = (True, c')" "cbb_wf c" "0 < n" "n < 2 ^ 64"
  shows "unat v < 256 ^ n"
proof -
  from assms(1) obtain c1 base b where fl: "CBB_flush mal d c = (True, c1)"
    and base: "cb_base c1 = Some base" and fb: "cbb_buffer_add_u mal v n base = (True, b)"
    by (auto simp: cbb_on_base_def cbb_with_base_def split: prod.splits bool.splits option.splits)
  have "buf_ok base"
    using CBB_flush_writes(1) [OF fl assms(2)] by (auto simp: cbb_writes_def cbb_wf_def base)
  with cbb_buffer_add_u_True [OF fb assms(4)] assms(3) show ?thesis by simp
qed

lemma be_bytes_1_ucast [simp]: "be_bytes (Suc 0) (unat (b :: u8)) = [b]"
  by simp

lemma CBB_add_u8_writes:
  assumes "CBB_add_u8 mal d v c = (True, c')" "cbb_wf c"
  shows "cbb_writes d [v] c c'"
  using cbb_add_u_writes [OF assms(1) [unfolded CBB_add_u8_def] assms(2)] by simp

section \<open>Opening and closing a child\<close>

definition cbb_opens :: "nat \<Rightarrow> u8 list \<Rightarrow> prefix \<Rightarrow> cbb \<Rightarrow> cbb \<Rightarrow> bool" where
  "cbb_opens d bs k c c' \<longleftrightarrow>
     cbb_wf c' \<and> d \<le> cbb_depth c \<and> cbb_depth c' = Suc d \<and>
     cbb_kinds c' = take d (cbb_kinds c) @ [k] \<and> cbb_growable c' = cbb_growable c \<and>
     cbb_frames c' = take d (cbb_frames c) @
       [close_frames (drop d (cbb_kinds c)) (drop d (cbb_frames c)) @ bs, []]"

lemma cbb_opens_wf: "cbb_opens d bs k c c' \<Longrightarrow> cbb_wf c' \<and> cbb_depth c' = Suc d"
  by (simp add: cbb_opens_def)

lemma cbb_opens_writes:
  assumes "cbb_opens d bs k c c1" "cbb_writes (Suc d) xs c1 c2" "cbb_wf c"
  shows "cbb_frames c2 = take d (cbb_frames c) @
           [close_frames (drop d (cbb_kinds c)) (drop d (cbb_frames c)) @ bs, xs]"
    and "cbb_kinds c2 = take d (cbb_kinds c) @ [k]"
proof -
  have "length (take d (cbb_frames c)) = d" "length (take d (cbb_kinds c)) = d"
    using assms(1,3) length_cbb_frames [of c] by (simp_all add: cbb_opens_def)
  with assms(1,2) show "cbb_frames c2 = take d (cbb_frames c) @
           [close_frames (drop d (cbb_kinds c)) (drop d (cbb_frames c)) @ bs, xs]"
    and "cbb_kinds c2 = take d (cbb_kinds c) @ [k]"
    by (simp_all add: cbb_opens_def cbb_writes_def)
qed

lemma cbb_opens_close:
  assumes "cbb_opens d bs k c c1" "cbb_writes (Suc d) xs c1 c2" "cbb_writes d ys c2 c3" "cbb_wf c"
  shows "cbb_writes d (bs @ with_prefix k xs @ ys) c c3"
proof -
  have l: "length (take d (cbb_frames c)) = d" "length (take d (cbb_kinds c)) = d"
    using assms(1,4) length_cbb_frames [of c] by (simp_all add: cbb_opens_def)
  note c2 = cbb_opens_writes [OF assms(1,2,4)]
  show ?thesis
    using assms(1,2,3) l by (simp add: cbb_writes_def cbb_opens_def c2)
qed

lemma cbb_open_child_opens:
  assumes "cbb_writes d (bs @ replicate n 0) c c1" "0 < n" "n < 2 ^ 64" "asn1 \<longrightarrow> n = 1"
    and off: "off + n = cbb_base_len c1"
  shows "cbb_opens d bs (if asn1 then Der else Fixed n) c (cbb_open_child d off n asn1 c1)"
proof -
  let ?ch = "\<lparr>ch_offset = off, ch_pending_len_len = n, ch_pending_is_asn1 = asn1\<rparr>"
  from assms(1) obtain base where base: "cb_base c1 = Some base" and wf: "buf_ok base"
    "chain_ok 0 (length (bb_buf base)) (cb_kids c1)" and d: "length (cb_kids c1) = d"
    by (auto simp: cbb_writes_def cbb_wf_def cbb_depth_def split: option.splits)
  let ?e = "chain_end 0 (cb_kids c1)"
  have offn: "off + n = length (bb_buf base)" using off by (simp add: cbb_base_len_def base)
  let ?L = "close_frames (drop d (cbb_kinds c)) (drop d (cbb_frames c)) @ bs"
  have fr: "frames_init 0 (bb_buf base) (cb_kids c1) @ [drop ?e (bb_buf base)] =
      take d (cbb_frames c) @ [?L @ replicate n 0]"
    using assms(1) by (simp add: cbb_writes_def cbb_frames_def base frames_from_init)
  then have init: "frames_init 0 (bb_buf base) (cb_kids c1) = take d (cbb_frames c)"
    and last: "drop ?e (bb_buf base) = ?L @ replicate n 0" by simp_all
  have "length (bb_buf base) - ?e = length ?L + n"
    using arg_cong [OF last, of length] by simp
  with offn have len: "off - ?e = length ?L" and e: "?e \<le> off"
    using assms(2) by auto
  have L: "take (off - ?e) (drop ?e (bb_buf base)) = ?L"
    by (simp add: last len)
  have ch: "chain_ok 0 (length (bb_buf base)) (cb_kids c1 @ [?ch])"
    using wf(2) chain_ok_append [of 0 "length (bb_buf base)" "cb_kids c1" "[]"] e offn assms(2,4)
    by (simp add: chain_ok_append)
  have fr': "frames_from 0 (bb_buf base) (cb_kids c1 @ [?ch]) = take d (cbb_frames c) @ [?L, []]"
    by (simp add: frames_from_split init L offn del: take_append append_assoc)
  show ?thesis
    using assms(1) wf ch d fr'
    by (simp add: cbb_opens_def cbb_writes_def cbb_wf_def cbb_open_child_def base cbb_depth_def
        cbb_kinds_def cbb_growable_def cbb_frames_def prefix_of_def)
qed

section \<open>Starting and finishing\<close>

lemma CBB_init_wf:
  assumes "CBB_init mal cap = (True, c)"
  shows "cbb_wf c" "cbb_depth c = 0" "cbb_frames c = [[]]" "cbb_growable c"
  using assms
  by (auto simp: CBB_init_def cbb_init_def CBB_zero_def cbb_wf_def cbb_depth_def cbb_frames_def
      cbb_growable_def buf_ok_def split: if_splits option.splits)

text \<open>Finishing closes every open child into its parent.\<close>

lemma CBB_finish_frames:
  assumes "CBB_finish mal out_set d c = (Some bs, c')" "cbb_wf c"
  shows "d = 0 \<and> bs = close_frames (cbb_kinds c) (cbb_frames c) \<and> cb_base c' = None"
proof -
  from assms(1) obtain c1 base where d: "d = 0" and fl: "CBB_flush mal d c = (True, c1)"
    and base: "cb_base c1 = Some base" and bs: "bs = bb_buf base" and c': "c' = CBB_cleanup d c1"
    by (auto simp: CBB_finish_def split: prod.splits bool.splits option.splits if_splits)
  from CBB_flush_writes [OF fl assms(2)] d
  have "cb_kids c1 = []" "cbb_frames c1 = [close_frames (cbb_kinds c) (cbb_frames c)]"
    by (simp_all add: cbb_writes_def)
  then show ?thesis by (simp add: cbb_frames_def base bs c' d CBB_cleanup_def)
qed

lemma CBB_finish_root:
  assumes "CBB_finish mal out_set d c = (Some bs, c')" "cbb_wf c" "cbb_depth c = 0"
  shows "cbb_frames c = [bs]"
proof -
  have "length (cbb_frames c) = 1" "cbb_kinds c = []"
    using length_cbb_frames [OF assms(2)] assms(3) length_cbb_kinds [of c]
    by (simp_all flip: length_0_conv)
  then show ?thesis
    using CBB_finish_frames [OF assms(1,2)] by (auto simp: length_Suc_conv)
qed

section \<open>Lengths that fit\<close>

text \<open>
  A prefix is never written for contents it cannot describe: flushing fails instead.
\<close>

primrec prefix_fits :: "prefix \<Rightarrow> nat \<Rightarrow> bool" where
  "prefix_fits (Fixed n) len \<longleftrightarrow> len < 256 ^ n"
| "prefix_fits Der len \<longleftrightarrow> len \<le> 0xfffffffe"

fun frames_fit :: "prefix list \<Rightarrow> u8 list list \<Rightarrow> bool" where
  "frames_fit (k # ks) (x # xs) \<longleftrightarrow>
     frames_fit ks xs \<and> prefix_fits k (length (close_frames ks xs))"
| "frames_fit ks xs \<longleftrightarrow> True"

lemma cbb_close_child_fits:
  assumes close: "cbb_close_child mal base ch = (True, b, ch')"
    and le: "ch_offset ch + ch_pending_len_len ch \<le> length (bb_buf base)"
    and ok: "buf_ok base"
  shows "prefix_fits (prefix_of ch) (length (bb_buf base) - (ch_offset ch + ch_pending_len_len ch))"
proof -
  have cs: "sz (ch_offset ch + ch_pending_len_len ch) = ch_offset ch + ch_pending_len_len ch"
    using le ok by (simp add: buf_ok_def)
  show ?thesis
  proof (cases "ch_pending_is_asn1 ch")
    case True
    with close cs show ?thesis
      by (auto simp: cbb_close_child_def prefix_of_def Let_def split: if_splits)
  next
    case False
    with close cs cbb_put_len_True [OF _ le] show ?thesis
      by (auto simp: cbb_close_child_def prefix_of_def Let_def)
  qed
qed

lemma flush_chain_fits:
  assumes "flush_chain mal base kids = (True, b, ks)"
    and "chain_ok start (length (bb_buf base)) kids" "buf_ok base"
  shows "frames_fit (map prefix_of kids) (frames_from start (bb_buf base) kids)"
  using assms
proof (induction kids arbitrary: start b ks)
  case Nil
  then show ?case by simp
next
  case (Cons ch kids)
  let ?buf = "bb_buf base" and ?s = "ch_offset ch + ch_pending_len_len ch"
  from Cons.prems(2) have chain: "chain_ok ?s (length ?buf) kids" "0 < ch_pending_len_len ch" by auto
  have le: "?s \<le> length ?buf" using chain(1) by (rule chain_ok_le)
  have sz: "sz ?s = ?s" using le Cons.prems(3) by (simp add: buf_ok_def)
  from Cons.prems(1) chain(2) sz obtain b1 ks1 ch'
    where rec: "flush_chain mal base kids = (True, b1, ks1)"
      and close: "cbb_close_child mal b1 ch = (True, b, ch')"
    by (auto simp: Let_def split: if_splits prod.splits bool.splits)
  from flush_chain_True [OF rec chain(1) Cons.prems(3)]
  have "buf_ok b1" "length (bb_buf b1) = ?s +
      length (close_frames (map prefix_of kids) (frames_from ?s ?buf kids))"
    using le by simp_all
  with cbb_close_child_fits [OF close] Cons.IH [OF rec chain(1) Cons.prems(3)] show ?case by simp
qed

lemma CBB_flush_fits:
  assumes "CBB_flush mal d c = (True, c')" "cbb_wf c"
  shows "frames_fit (drop d (cbb_kinds c)) (drop d (cbb_frames c))"
proof -
  from assms obtain base b ks where base: "cb_base c = Some base" and d: "d \<le> length (cb_kids c)"
    and fl: "flush_chain mal base (drop d (cb_kids c)) = (True, b, ks)"
    by (auto simp: CBB_flush_def split: option.splits if_splits prod.splits)
  let ?k1 = "take d (cb_kids c)" and ?k2 = "drop d (cb_kids c)" and ?buf = "bb_buf base"
  let ?e = "chain_end 0 ?k1"
  have wf: "buf_ok base" "chain_ok ?e (length ?buf) ?k2"
    using assms(2) chain_ok_append [of 0 "length ?buf" ?k1 ?k2]
    by (simp_all add: cbb_wf_def base)
  have "cbb_frames c = frames_init 0 ?buf ?k1 @ frames_from ?e ?buf ?k2"
    using frames_from_split [of 0 ?buf ?k1 ?k2] by (simp add: cbb_frames_def base)
  with flush_chain_fits [OF fl wf(2,1)] d show ?thesis
    by (simp add: cbb_kinds_def drop_map)
qed

lemma cbb_opens_close_fits:
  assumes "cbb_opens d bs k c c1" "cbb_writes (Suc d) xs c1 c2" "CBB_flush mal d c2 = (True, c3)" "cbb_wf c"
  shows "prefix_fits k (length xs)"
proof -
  have l: "length (take d (cbb_frames c)) = d" "length (take d (cbb_kinds c)) = d"
    using assms(1,4) length_cbb_frames [of c] by (simp_all add: cbb_opens_def)
  have "cbb_wf c2" using assms(2) by (simp add: cbb_writes_def)
  from CBB_flush_fits [OF assms(3) this] show ?thesis
    using l by (simp add: cbb_opens_writes [OF assms(1,2,4)])
qed

end
