(* ===== verification/CbbLive.thy ===== *)
theory CbbLive
  imports CbbSpec
begin

text \<open>
  Progress of the builder of \<^verbatim>\<open>cbb.c\<close>: on a growable builder without an error and with a malloc that does not fail, an
  operation on the innermost \<open>CBB\<close> succeeds.
\<close>

definition malloc_total :: "malloc_fn \<Rightarrow> bool" where
  "malloc_total mal \<longleftrightarrow> (\<forall>n. \<exists>b. mal n = Some b \<and> length b = n)"

definition cbb_live :: "nat \<Rightarrow> cbb \<Rightarrow> bool" where
  "cbb_live d c \<longleftrightarrow>
     (\<exists>b. cb_base c = Some b \<and> \<not> bb_error b \<and> bb_can_resize b \<and> buf_ok b) \<and> length (cb_kids c) = d"

lemma OPENSSL_malloc_total:
  assumes "malloc_total mal"
  shows "\<exists>b. OPENSSL_malloc mal n = Some b"
proof -
  obtain b where "mal (sz (n + OPENSSL_MALLOC_PREFIX)) = Some b"
    using assms unfolding malloc_total_def by blast
  then show ?thesis by (simp add: OPENSSL_malloc_def)
qed

lemma OPENSSL_realloc_total: "malloc_total mal \<Longrightarrow> \<exists>b. OPENSSL_realloc mal (Some old) n = Some b"
  using OPENSSL_malloc_total [of mal n] by (auto simp: OPENSSL_realloc_def)

lemma cbb_buffer_add_live:
  assumes "malloc_total mal" "bb_can_resize base" "length (bb_buf base) + length bs < 2 ^ 64"
  shows "\<exists>b. cbb_buffer_add mal bs base = (True, b)"
proof -
  obtain f where "\<And>n. OPENSSL_realloc mal (Some (bb_buf base)) n = Some (f n)"
    using OPENSSL_realloc_total [OF assms(1), of "bb_buf base"] by metis
  then show ?thesis
    using assms by (simp add: cbb_buffer_add_def cbb_buffer_reserve_def Let_def)
qed

lemma CBB_flush_live:
  assumes "cbb_live d c"
  shows "CBB_flush mal d c = (True, c)"
  using assms by (auto simp: cbb_live_def CBB_flush_def)

lemma cbb_on_base_live:
  assumes "cbb_live d c"
    and f: "\<And>base. cb_base c = Some base \<Longrightarrow> \<exists>b. f base = (True, b) \<and> bb_buf b = bb_buf base @ bs \<and>
      bb_error b = bb_error base \<and> bb_can_resize b = bb_can_resize base \<and> buf_ok b"
  shows "\<exists>c'. cbb_on_base mal d f c = (True, c') \<and> cbb_live d c' \<and> cbb_base_len c' = cbb_base_len c + length bs"
proof -
  from assms(1) obtain base where base: "cb_base c = Some base" by (auto simp: cbb_live_def)
  from f [OF this] obtain b where "f base = (True, b)" "bb_buf b = bb_buf base @ bs"
    "bb_error b = bb_error base" "bb_can_resize b = bb_can_resize base" "buf_ok b" by blast
  then show ?thesis
    using assms(1) base
    by (auto simp: cbb_on_base_def CBB_flush_live [OF assms(1)] cbb_with_base_def cbb_live_def cbb_base_len_def)
qed

lemma CBB_add_bytes_live:
  assumes "malloc_total mal" "cbb_live d c" "cbb_base_len c + length bs < 2 ^ 64"
  shows "\<exists>c'. CBB_add_bytes mal d bs c = (True, c') \<and> cbb_live d c' \<and>
    cbb_base_len c' = cbb_base_len c + length bs"
  unfolding CBB_add_bytes_def
proof (rule cbb_on_base_live [OF assms(2)])
  fix base assume base: "cb_base c = Some base"
  with assms(2) have "bb_can_resize base" by (auto simp: cbb_live_def)
  moreover have len: "length (bb_buf base) + length bs < 2 ^ 64" using assms(3) base by (simp add: cbb_base_len_def)
  ultimately obtain b where b: "cbb_buffer_add mal bs base = (True, b)"
    using cbb_buffer_add_live [OF assms(1)] by blast
  with cbb_buffer_add_True [OF b] len
  show "\<exists>b. cbb_buffer_add mal bs base = (True, b) \<and> bb_buf b = bb_buf base @ bs \<and>
      bb_error b = bb_error base \<and> bb_can_resize b = bb_can_resize base \<and> buf_ok b" by simp
qed

lemma cbb_add_u_live:
  assumes "malloc_total mal" "cbb_live d c" "cbb_base_len c + n < 2 ^ 64" "unat v < 256 ^ n" "0 < n"
  shows "\<exists>c'. cbb_on_base mal d (cbb_buffer_add_u mal v n) c = (True, c') \<and> cbb_live d c' \<and>
    cbb_base_len c' = cbb_base_len c + n"
proof -
  let ?bs = "be_bytes n (unat v)"
  have z: "drop_bit (8 * n) v = 0" using assms(4) by (simp add: drop_bit_eq_0_iff_unat power_mult)
  have eq: "cbb_buffer_add_u mal v n = cbb_buffer_add mal ?bs"
    using z assms(5)
    by (auto simp: cbb_buffer_add_u_def store_be_loop_eq split: prod.splits bool.splits)
  have "cbb_on_base mal d (cbb_buffer_add_u mal v n) c = CBB_add_bytes mal d ?bs c"
    by (simp add: CBB_add_bytes_def cbb_on_base_def cbb_with_base_def eq)
  then show ?thesis using CBB_add_bytes_live [OF assms(1,2), of ?bs] assms(3) by simp
qed

lemma CBB_add_u8_live:
  assumes "malloc_total mal" "cbb_live d c" "cbb_base_len c + 1 < 2 ^ 64"
  shows "\<exists>c'. CBB_add_u8 mal d v c = (True, c') \<and> cbb_live d c' \<and> cbb_base_len c' = cbb_base_len c + 1"
  unfolding CBB_add_u8_def using cbb_add_u_live [OF assms(1,2), of 1 "ucast v"] assms(3) by simp

lemma CBB_init_live:
  assumes "malloc_total mal"
  shows "\<exists>c. CBB_init mal cap = (True, c) \<and> cbb_live 0 c \<and> cbb_base_len c = 0"
  using OPENSSL_malloc_total [OF assms, of cap] OPENSSL_malloc_total [OF assms, of sizeof_cbb_buffer_st]
  by (auto simp: CBB_init_def cbb_init_def CBB_zero_def cbb_live_def cbb_base_len_def buf_ok_def)

lemma CBB_finish_live:
  assumes "cbb_live 0 c"
  shows "\<exists>bs c'. CBB_finish mal True 0 c = (Some bs, c')"
  using assms CBB_flush_live [OF assms] by (auto simp: CBB_finish_def cbb_live_def)

lemma cbb_live_wf: "cbb_live 0 c \<Longrightarrow> cbb_wf c \<and> cbb_depth c = 0"
  by (auto simp: cbb_live_def cbb_wf_def cbb_depth_def)

section \<open>A builder to compute with\<close>

text \<open>Builders with room to spare, on which the operations can be evaluated.\<close>

definition sample_base :: "nat \<Rightarrow> u8 list \<Rightarrow> cbb_buffer" where
  "sample_base cap bs = \<lparr>bb_buf = bs, bb_cap = cap, bb_can_resize = True, bb_error = False\<rparr>"

definition sample_cbb :: "nat \<Rightarrow> u8 list \<Rightarrow> nat list \<Rightarrow> cbb" where
  "sample_cbb cap bs offs = \<lparr>cb_base = Some (sample_base cap bs),
     cb_kids = map (\<lambda>off. \<lparr>ch_offset = off, ch_pending_len_len = 1, ch_pending_is_asn1 = True\<rparr>) offs\<rparr>"

named_theorems sample_simps \<open>steps of the sample builder\<close>

lemma zero_malloc_total: "malloc_total zero_malloc"
  by (simp add: malloc_total_def zero_malloc_def)

lemma sample_init [sample_simps]: "CBB_init zero_malloc cap = (True, sample_cbb cap [] [])"
  by (simp add: CBB_init_def cbb_init_def CBB_zero_def sample_cbb_def sample_base_def OPENSSL_malloc_def zero_malloc_def)

lemma sample_flush [sample_simps]:
  "length offs = d \<Longrightarrow> CBB_flush zero_malloc d (sample_cbb cap bs offs) = (True, sample_cbb cap bs offs)"
  by (simp add: CBB_flush_def sample_cbb_def sample_base_def)

lemma sample_finish [sample_simps]:
  "CBB_finish zero_malloc True 0 (sample_cbb cap bs []) = (Some bs, CBB_zero)"
  by (simp add: CBB_finish_def sample_flush) (simp add: sample_cbb_def sample_base_def CBB_cleanup_def CBB_zero_def)

lemma sample_buffer_add:
  assumes "length bs + length xs \<le> cap" "cap < 128"
  shows "cbb_buffer_add zero_malloc xs (sample_base cap bs) = (True, sample_base cap (bs @ xs))"
proof -
  have "sz (length bs + length xs) = length bs + length xs" using assms by simp
  with assms show ?thesis by (simp add: cbb_buffer_add_def cbb_buffer_reserve_def sample_base_def)
qed

lemma sample_add_bytes [sample_simps]:
  assumes "length offs = d" "length bs + length xs \<le> cap" "cap < 128"
  shows "CBB_add_bytes zero_malloc d xs (sample_cbb cap bs offs) = (True, sample_cbb cap (bs @ xs) offs)"
  using sample_buffer_add [OF assms(2,3)] assms(1)
  by (simp add: CBB_add_bytes_def cbb_on_base_def sample_flush)
    (simp add: cbb_with_base_def sample_cbb_def)

lemma sample_add_u8 [sample_simps]:
  assumes "length offs = d" "length bs < cap" "cap < 128"
  shows "CBB_add_u8 zero_malloc d b (sample_cbb cap bs offs) = (True, sample_cbb cap (bs @ [b]) offs)"
proof -
  have "unat (ucast b :: u64) < 2 ^ 8" by simp
  then have "drop_bit 8 (ucast b :: u64) = 0" unfolding drop_bit_eq_0_iff_unat .
  then have "store_be_loop 1 (ucast b) [] = ([b], 0)" by (simp add: store_be_loop_eq)
  then have "cbb_buffer_add_u zero_malloc (ucast b) 1 (sample_base cap bs) = (True, sample_base cap (bs @ [b]))"
    using sample_buffer_add [of bs "[b]"] assms by (simp add: cbb_buffer_add_u_def)
  then show ?thesis
    using assms(1) by (simp add: CBB_add_u8_def cbb_on_base_def sample_flush)
      (simp add: cbb_with_base_def sample_cbb_def)
qed

lemma sample_add_asn1 [sample_simps]:
  assumes "length offs = d" "length bs + 2 \<le> cap" "cap < 128" "tag AND CBS_ASN1_TAG_NUMBER_MASK < 0x1f"
  shows "CBB_add_asn1 zero_malloc d tag (sample_cbb cap bs offs) =
     (True, sample_cbb cap (bs @ [(ucast (drop_bit CBS_ASN1_TAG_SHIFT tag) AND 0xe0) OR
        ucast (tag AND CBS_ASN1_TAG_NUMBER_MASK), 0]) (offs @ [Suc (length bs)]))"
proof -
  have "\<not> 0x1f \<le> tag AND CBS_ASN1_TAG_NUMBER_MASK" using assms(4) by simp
  with assms show ?thesis
    by (simp add: CBB_add_asn1_def Let_def sample_flush sample_add_u8)
      (simp add: sample_cbb_def cbb_base_len_def cbb_open_child_def sample_base_def)
qed

lemma sample_close [sample_simps]:
  assumes "length offs = d" "off < length bs" "length bs \<le> 64"
  shows "CBB_flush zero_malloc d (sample_cbb cap bs (offs @ [off])) =
     (True, sample_cbb cap (bs[off := word_of_nat (length bs - Suc off)]) offs)"
proof -
  have z: "sz (Suc off) = Suc off" using assms by simp
  have l: "asn1_len_form (length bs - Suc off) = (1, word_of_nat (length bs - Suc off), 0)"
    using assms by (simp add: asn1_len_form_def)
  show ?thesis
    using assms by (simp add: CBB_flush_def sample_cbb_def sample_base_def cbb_close_child_def z Let_def l cbb_put_len_def)
qed

lemmas sample_close_root [sample_simps] = sample_close [of "[]" 0, simplified]

lemmas uint64_loop_numeral [sample_simps] = uint64_loop.simps(2) [where n = "pred_numeral k" for k, folded numeral_eq_Suc]
section \<open>Properties\<close>

text \<open>C2: Flushing a builder refines closing frames: the contents of the children below the \<open>CBB\<close>
  it is called on are put, each after a prefix with its exact length, at the end of their
  parents, everything else is kept, and it succeeds only when every length fits its prefix.\<close>

theorem CBB_flush_refines:
  assumes "CBB_flush mal d c = (True, c')" "cbb_wf c"
  shows "cbb_writes d [] c c' \<and> frames_fit (drop d (cbb_kinds c)) (drop d (cbb_frames c))"
  using CBB_flush_writes(1) CBB_flush_fits assms by blast

theorem CBB_flush_refines_witness:
  "cbb_frames (sample_cbb 64 [0xaa, 0x30, 2, 5, 6] []) = [[0xaa, 0x30, 2, 5, 6]] \<and>
   CBB_flush zero_malloc 0 (sample_cbb 64 [0xaa, 0x30, 0, 5, 6] [2]) =
     (True, sample_cbb 64 [0xaa, 0x30, 2, 5, 6] [])"
proof -
  let ?c = "sample_cbb 64 [0xaa, 0x30, 0, 5, 6] [2]" and ?c' = "sample_cbb 64 [0xaa, 0x30, 2, 5, 6] []"
  have fl: "CBB_flush zero_malloc 0 ?c = (True, ?c')" by (simp add: sample_close_root numeral_2_eq_2)
  have "cbb_wf ?c" by (simp add: cbb_wf_def sample_cbb_def sample_base_def buf_ok_def)
  with CBB_flush_refines [OF fl] have "cbb_writes 0 [] ?c ?c'" by blast
  then have "cbb_frames ?c' = [[0xaa, 0x30, 2, 5, 6]]"
    by (simp add: cbb_writes_def cbb_frames_def cbb_kinds_def sample_cbb_def sample_base_def
        prefix_of_def with_prefix_def der_len_def)
  with fl show ?thesis by blast
qed



end
