(* ===== verification/CbsSpec.thy ===== *)
theory CbsSpec
  imports Cbs CbbSpec
begin

text \<open>
  What the reader returns, in terms of the bytes in front of it: integers are the big-endian
  value of the bytes taken, base-128 integers and tags have exactly one encoding.
\<close>

section \<open>Taking bytes\<close>

lemma cbs_get_append [rd_simps]: "length xs = n \<Longrightarrow> cbs_get n (xs @ r) = (Some xs, r)"
  by (auto simp: cbs_get_def)

lemma cbs_get_Some: "cbs_get n bs = (Some xs, r) \<longleftrightarrow> bs = xs @ r \<and> length xs = n"
  by (auto simp: cbs_get_def)

lemma cbs_get_None: "cbs_get n bs = (None, r) \<longleftrightarrow> r = bs \<and> length bs < n"
  by (auto simp: cbs_get_def)

lemma get_u_loop_eq: "get_u_loop acc bs = acc * 256 ^ length bs + of_nat (be_nat bs)"
proof (induction acc bs rule: get_u_loop.induct)
  case (1 result)
  then show ?case by simp
next
  case (2 result b data)
  have "push_bit 8 result AND (ucast b :: u64) = 0"
    by (rule push_bit_and_disjoint) simp
  then have "push_bit 8 result OR ucast b = push_bit 8 result + (ucast b :: u64)"
    by (rule disjunctive_add_eq_or [symmetric])
  also have "\<dots> = result * 256 + of_nat (unat b)"
    by (simp add: push_bit_eq_mult mult.commute)
  finally have eq: "push_bit 8 result OR ucast b = result * 256 + of_nat (unat b)" .
  show ?case
    unfolding get_u_loop.simps be_nat_Cons using 2 [unfolded eq]
    by (simp add: eq algebra_simps)
qed

lemma get_u_loop_0: "get_u_loop 0 bs = word_of_nat (be_nat bs)"
  by (simp add: get_u_loop_eq)

lemma be_nat_lt_64: "length bs \<le> 8 \<Longrightarrow> be_nat bs < 2 ^ 64"
proof -
  assume "length bs \<le> 8"
  then have "(256 :: nat) ^ length bs \<le> 256 ^ 8" by (intro power_increasing) auto
  then show ?thesis using be_nat_lt [of bs] by simp
qed

lemma unat_get_u_loop [byte_simps]: "length bs \<le> 8 \<Longrightarrow> unat (get_u_loop 0 bs) = be_nat bs"
  using be_nat_lt_64 [of bs] by (simp add: get_u_loop_0 unat_of_nat)

lemma cbs_get_u_append [rd_simps]:
  "length xs = n \<Longrightarrow> cbs_get_u n (xs @ r) = (Some (word_of_nat (be_nat xs)), r)"
  by (simp add: cbs_get_u_def rd_simps get_u_loop_0)

lemma cbs_get_u_Some:
  "cbs_get_u n bs = (Some v, r) \<longleftrightarrow>
     (\<exists>xs. bs = xs @ r \<and> length xs = n \<and> v = word_of_nat (be_nat xs))"
  by (auto simp: cbs_get_u_def cbs_get_Some get_u_loop_0 rd_simps split: prod.splits option.splits)

lemma CBS_get_u8_Cons [simp]: "CBS_get_u8 (b # r) = (Some b, r)"
  by (simp add: CBS_get_u8_def cbs_get_def)

lemma CBS_get_u8_Nil [simp]: "CBS_get_u8 [] = (None, [])"
  by (simp add: CBS_get_u8_def cbs_get_def)

lemma CBS_get_u8_Some: "CBS_get_u8 bs = (Some b, r) \<longleftrightarrow> bs = b # r"
  by (cases bs) auto

lemma CBS_get_bytes_eq: "CBS_get_bytes n bs = cbs_get n bs"
  by (auto simp: CBS_get_bytes_def CBS_init_def cbs_get_def)

section \<open>Base-128 integers\<close>

definition base128_bytes :: "u64 \<Rightarrow> u8 list" where
  "base128_bytes v = map (base128_byte v) (rev [0..<base128_len v])"

lemma base128_len_loop_eq:
  assumes "unat c < 128 ^ n" "n = 0 \<or> 128 ^ (n - 1) \<le> unat c"
  shows "base128_len_loop c k = k + n"
  using assms
proof (induction n arbitrary: c k)
  case 0
  then have "c = 0" by (simp add: unat_eq_zero)
  then show ?case by (simp add: base128_len_loop.simps)
next
  case (Suc n)
  then have "0 < unat c" by (metis diff_Suc_1 nat.simps(3) zero_less_numeral zero_less_power less_le_trans)
  then have c: "c > 0" by (simp add: word_gt_0 unat_gt_0)
  have "unat (drop_bit 7 c) < 128 ^ n"
    using Suc.prems(1) by (simp add: unat_drop_bit less_mult_imp_div_less mult.commute)
  moreover have "n = 0 \<or> 128 ^ (n - 1) \<le> unat (drop_bit 7 c)"
  proof (cases n)
    case (Suc m)
    with Suc.prems(2) have "128 * 128 ^ m \<le> unat c" by simp
    then show ?thesis by (simp add: unat_drop_bit Suc less_eq_div_iff_mult_less_eq mult.commute)
  qed simp
  ultimately show ?case using Suc.IH c by (subst base128_len_loop.simps) simp
qed

lemma base128_len_eq:
  assumes "unat v < 128 ^ n" "n = 1 \<or> 128 ^ (n - 1) \<le> unat v" "0 < n"
  shows "base128_len v = n"
proof (cases "unat v = 0")
  case True
  with assms have "n = 1" by auto
  with True show ?thesis by (simp add: base128_len_def base128_len_loop_eq [of v 0])
next
  case False
  with assms have "n = 0 \<or> 128 ^ (n - 1) \<le> unat v" by auto
  from base128_len_loop_eq [OF assms(1) this] assms(3) show ?thesis by (simp add: base128_len_def)
qed

lemma base128_len_ex:
  obtains "unat v < 128 ^ base128_len v" "0 < base128_len v"
    "base128_len v = 1 \<or> 128 ^ (base128_len v - 1) \<le> unat v"
proof -
  define n where "n = (LEAST n. unat v < 128 ^ n)"
  have "unat v < 128 ^ 10" by (rule less_le_trans [OF unat_u64_lt]) simp
  then have n: "unat v < 128 ^ n" unfolding n_def by (rule LeastI)
  show thesis
  proof (cases "n = 0")
    case True
    with n have "unat v = 0" by simp
    then have "base128_len v = 1" by (intro base128_len_eq) auto
    then show thesis using that \<open>unat v = 0\<close> by simp
  next
    case False
    then have "128 ^ (n - 1) \<le> unat v"
      unfolding n_def by (metis diff_less linorder_not_less neq0_conv not_less_Least zero_less_one)
    with n False have "base128_len v = n" by (intro base128_len_eq) auto
    then show thesis using that n False \<open>128 ^ (n - 1) \<le> unat v\<close> by simp
  qed
qed


lemma base128_bytes_nonempty [simp]: "base128_bytes v \<noteq> []"
  by (rule base128_len_ex [of v]) (simp add: base128_bytes_def)

lemma base128_byte_bits:
  "bit (base128_byte v i) n \<longleftrightarrow> (if n = 7 then i \<noteq> 0 else n < 7 \<and> bit v (7 * i + n))"
  by (auto simp: base128_byte_def mask_simps bit_simps Let_def)

lemma base128_step:
  "push_bit 7 (drop_bit (7 * Suc i) v) OR ucast (base128_byte v i AND 0x7f) = drop_bit (7 * i) v"
  by (rule bit_word_eqI) (auto simp: mask_simps bit_simps base128_byte_bits algebra_simps)

lemma parse_base128_loop_bytes:
  assumes "0 < n" "drop_bit (7 * n) v \<noteq> 0 \<or> n = 1 \<or> drop_bit (7 * (n - 1)) v \<noteq> 0"
  shows "parse_base128_loop (drop_bit (7 * n) v) (map (base128_byte v) (rev [0..<n]) @ r) = (Some v, r)"
  using assms
proof (induction n)
  case (Suc n)
  have "drop_bit 57 (drop_bit (7 * Suc n) v) = 0"
    by (rule bit_word_eqI) (auto simp: bit_simps)
  moreover have "drop_bit (7 * Suc n) v = 0 \<and> base128_byte v n = 0x80 \<Longrightarrow> False"
  proof -
    assume a: "drop_bit (7 * Suc n) v = 0 \<and> base128_byte v n = 0x80"
    then have "drop_bit (7 * n) v = 0" using base128_step [of n v] by simp
    moreover have "bit (base128_byte v n) 7" using a by (simp add: bit_simps)
    then have "n \<noteq> 0" using base128_byte_bits [of v n 7] by simp
    ultimately show False using a Suc.prems(2) by auto
  qed
  moreover have "base128_byte v n AND 0x80 = 0 \<longleftrightarrow> n = 0"
    by (simp add: mask_simps base128_byte_bits)
  moreover have "drop_bit (7 * n) v = 0 \<Longrightarrow> drop_bit (7 * Suc n) v = 0"
    using drop_bit_drop_bit [of 7 "7 * n" v] by (simp add: add.commute)
  ultimately show ?case
    using Suc by (cases "n = 0") (auto simp: base128_step simp del: mult_Suc_right)
qed simp

theorem parse_base128_bytes: "parse_base128_integer (base128_bytes v @ r) = (Some v, r)"
proof (rule base128_len_ex [of v])
  assume l: "unat v < 128 ^ base128_len v" "0 < base128_len v"
    "base128_len v = 1 \<or> 128 ^ (base128_len v - 1) \<le> unat v"
  have "drop_bit (7 * base128_len v) v = 0"
    using l(1) by (simp add: drop_bit_eq_0_iff_unat power_mult)
  moreover have "base128_len v = 1 \<or> drop_bit (7 * (base128_len v - 1)) v \<noteq> 0"
    using l(3) by (simp add: drop_bit_eq_0_iff_unat power_mult not_less)
  ultimately show ?thesis
    using parse_base128_loop_bytes [of "base128_len v" v r] l(2)
    by (simp add: parse_base128_integer_def base128_bytes_def)
qed


text \<open>Conversely, what the reader accepts is what the builder writes.\<close>

lemma u8_eqI_7:
  assumes "\<And>m. m < 7 \<Longrightarrow> bit (b :: u8) m = bit c m" "bit b 7 = bit c 7"
  shows "b = c"
proof (rule bit_word_eqI)
  fix m assume "m < LENGTH(8)"
  then consider "m < 7" | "m = 7" by fastforce
  then show "bit b m = bit c m" using assms by cases auto
qed

lemma unat_lt_128: "(b :: u8) AND 0x80 = 0 \<Longrightarrow> unat b < 128"
proof -
  assume "b AND 0x80 = 0"
  then have "take_bit 7 b = b" by (intro u8_eqI_7) (simp_all add: mask_simps bit_simps)
  then have "take_bit 7 (unat b) = unat b" by (metis unsigned_take_bit_eq)
  then show ?thesis using take_bit_nat_less_exp [of 7 "unat b"] by simp
qed

lemma parse_base128_loop_Some:
  assumes "parse_base128_loop v bs = (Some w, r)"
  shows "\<exists>n>0. bs = map (base128_byte w) (rev [0..<n]) @ r \<and> drop_bit (7 * n) w = v \<and>
           (v \<noteq> 0 \<or> n = 1 \<or> drop_bit (7 * (n - 1)) w \<noteq> 0)"
  using assms
proof (induction v bs rule: parse_base128_loop.induct)
  case (2 v b cbs)
  let ?v = "push_bit 7 v OR ucast (b AND 0x7f)"
  from 2(2) have v57: "drop_bit 57 v = 0" and nz: "\<not> (v = 0 \<and> b = 0x80)"
    by (auto split: if_splits)
  have v: "drop_bit 7 ?v = v"
  proof (rule bit_word_eqI)
    fix m assume "m < LENGTH(64)"
    moreover have "\<not> bit v (m - 57 + 57)" using arg_cong [OF v57, of "\<lambda>x. bit x (m - 57)"]
      by (simp add: bit_simps add.commute)
    ultimately show "bit (drop_bit 7 ?v) m = bit v m"
      by (cases "m < 57") (auto simp: mask_simps bit_simps)
  qed
  have low: "n < 7 \<Longrightarrow> bit ?v n \<longleftrightarrow> bit b n" for n by (auto simp: mask_simps bit_simps)
  show ?case
  proof (cases "b AND 0x80 = 0")
    case True
    with 2(2) v57 nz have w: "w = ?v" "r = cbs" by (auto simp: Let_def split: if_splits)
    have b: "b = base128_byte w 0"
      by (rule u8_eqI_7) (use True low w(1) in \<open>simp_all add: base128_byte_bits mask_simps\<close>)
    have "bs = map (base128_byte w) (rev [0..<1]) @ cbs \<and> drop_bit (7 * 1) w = v" if "bs = b # cbs" for bs
    proof -
      have "map (base128_byte w) (rev [0..<1]) = [b]" using b by simp
      then show ?thesis using that v by (simp add: w(1))
    qed
    then show ?thesis using w(2) by (intro exI [of _ 1]) auto
  next
    case False
    with 2(2) v57 nz have "parse_base128_loop ?v cbs = (Some w, r)"
      by (auto simp: Let_def split: if_splits)
    with 2(1) v57 nz False obtain n where n: "n > 0" "cbs = map (base128_byte w) (rev [0..<n]) @ r"
      "drop_bit (7 * n) w = ?v" by (auto simp: Let_def)
    have b: "b = base128_byte w n"
    proof (rule u8_eqI_7)
      fix m :: nat assume "m < 7"
      moreover from this have "bit b m = bit (drop_bit (7 * n) w) m" using low n(3) by simp
      ultimately show "bit b m = bit (base128_byte w n) m" by (simp add: base128_byte_bits bit_simps)
    next
      show "bit b 7 = bit (base128_byte w n) 7"
        using False n(1) by (simp add: base128_byte_bits mask_simps)
    qed
    have "drop_bit (7 * Suc n) w = drop_bit 7 (drop_bit (7 * n) w)" by (simp add: drop_bit_drop_bit add.commute)
    then have d: "drop_bit (7 * Suc n) w = v" using n(3) v by simp
    have "v \<noteq> 0 \<or> drop_bit (7 * n) w \<noteq> 0"
    proof (rule ccontr)
      assume c: "\<not> (v \<noteq> 0 \<or> drop_bit (7 * n) w \<noteq> 0)"
      then have "\<not> bit ?v m" for m using n(3) by simp
      then have "\<not> bit b m" if "m < 7" for m using low that by blast
      moreover have "\<not> bit (0x80 :: u8) m" if "m < 7" for m using that by (subst bit_0x80) simp
      ultimately have "b = 0x80"
        using False by (intro u8_eqI_7) (simp_all add: mask_simps)
      with c nz show False by simp
    qed
    with b d n show ?thesis by (intro exI [of _ "Suc n"]) auto
  qed
qed simp

theorem parse_base128_canonical:
  assumes "parse_base128_integer bs = (Some v, r)"
  shows "bs = base128_bytes v @ r"
proof -
  from assms obtain n where n: "n > 0" "bs = map (base128_byte v) (rev [0..<n]) @ r"
    "drop_bit (7 * n) v = 0" "n = 1 \<or> drop_bit (7 * (n - 1)) v \<noteq> 0"
    unfolding parse_base128_integer_def by (metis parse_base128_loop_Some)
  then have "base128_len v = n"
    by (intro base128_len_eq) (auto simp: drop_bit_eq_0_iff_unat power_mult not_less)
  with n show ?thesis by (simp add: base128_bytes_def)
qed

text \<open>The base-128 reader accepts exactly the shortest encoding of a 64-bit value, and reads
  that value back.\<close>

theorem parse_base128_exact:
  "parse_base128_integer bs = (Some v, r) \<longleftrightarrow> bs = base128_bytes v @ r"
  using parse_base128_bytes parse_base128_canonical by blast

lemmas element_eval = CBS_get_any_asn1_element_def CBS_get_any_ber_asn1_element_def
  cbs_get_any_asn1_element_def parse_asn1_tag_def CBS_get_u8_def cbs_get_u_def CBS_get_bytes_eq
  cbs_get_def CBS_len_def CBS_get_asn1_def cbs_get_asn1_def CBS_skip_def asn1_tag_defs

end
