(* ===== verification/Der.thy ===== *)
theory Der
  imports CbsSpec
begin

text \<open>
  The DER the builder writes and the reader accepts: the bytes of tags, lengths, base-128
  integers, INTEGERs and whole elements as functions, the builder operations shown to write
  exactly them, and the reader shown to accept exactly them.
\<close>

section \<open>The builder writes DER\<close>

definition tag_octet_bits :: "u32 \<Rightarrow> u8" where
  "tag_octet_bits tag = ucast (drop_bit CBS_ASN1_TAG_SHIFT tag) AND 0xe0"

definition der_tag :: "u32 \<Rightarrow> u8 list" where
  "der_tag tag =
     (let tag_number = tag AND CBS_ASN1_TAG_NUMBER_MASK
      in if tag_number \<ge> 0x1f then (tag_octet_bits tag OR 0x1f) # base128_bytes (ucast tag_number)
         else [tag_octet_bits tag OR ucast tag_number])"

definition der_element :: "u32 \<Rightarrow> u8 list \<Rightarrow> u8 list" where
  "der_element tag contents = der_tag tag @ with_prefix Der contents"

lemma cbb_writes_refl:
  assumes "cbb_wf c" "cbb_depth c = d"
  shows "cbb_writes d [] c c"
proof -
  have "length (cbb_frames c) = Suc d" using length_cbb_frames [OF assms(1)] assms(2) by simp
  then obtain fs x where fs: "cbb_frames c = fs @ [x]" "length fs = d"
    by (metis length_Suc_conv_rev)
  with assms show ?thesis by (simp add: cbb_writes_def)
qed

lemma CBB_flush_at_depth:
  assumes "CBB_flush mal d c = (ok, c')" "cbb_wf c" "cbb_depth c = d"
  shows "c' = c"
  using assms
  by (auto simp: CBB_flush_def cbb_wf_def cbb_depth_def split: option.splits)

lemma CBB_add_u8_base_len:
  assumes "CBB_add_u8 mal d v c = (True, c')" "cbb_wf c" "cbb_depth c = d"
  shows "cbb_base_len c' = Suc (cbb_base_len c)"
proof -
  from assms(1) obtain c1 base b where fl: "CBB_flush mal d c = (True, c1)"
    and base: "cb_base c1 = Some base" and fb: "cbb_buffer_add_u mal (ucast v) 1 base = (True, b)"
    and c': "c' = c1\<lparr>cb_base := Some b\<rparr>"
    by (auto simp: CBB_add_u8_def cbb_on_base_def cbb_with_base_def
        split: prod.splits bool.splits option.splits)
  have [simp]: "c1 = c" using CBB_flush_at_depth [OF fl assms(2,3)] .
  have "buf_ok base" using assms(2) base by (simp add: cbb_wf_def)
  then show ?thesis
    using cbb_buffer_add_u_True [OF fb] base by (simp add: c' cbb_base_len_def)
qed

lemma base128_add_loop_writes:
  assumes "base128_add_loop mal d v n c = (True, c')" "cbb_wf c" "cbb_depth c = d"
  shows "cbb_writes d (map (base128_byte v) (rev [0..<n])) c c'"
  using assms
proof (induction mal d v n c rule: base128_add_loop.induct)
  case (1 mal d v c)
  then show ?case by (simp add: cbb_writes_refl)
next
  case (2 mal d v i c)
  from 2(2) obtain c1 where u8: "CBB_add_u8 mal d (base128_byte v i) c = (True, c1)"
    and loop: "base128_add_loop mal d v i c1 = (True, c')"
    by (auto split: prod.splits bool.splits)
  have w: "cbb_writes d [base128_byte v i] c c1" using CBB_add_u8_writes [OF u8 2(3)] .
  then have "cbb_writes d (map (base128_byte v) (rev [0..<i])) c1 c'"
    using 2(1) [OF u8 [symmetric] refl loop] by (simp add: cbb_writes_def)
  from cbb_writes_trans [OF w this 2(3)] show ?case by simp
qed

lemma add_base128_integer_writes:
  assumes "add_base128_integer mal d v c = (True, c')" "cbb_wf c" "cbb_depth c = d"
  shows "cbb_writes d (base128_bytes v) c c'"
  using base128_add_loop_writes [OF assms(1) [unfolded add_base128_integer_def] assms(2,3)]
  by (simp add: base128_bytes_def)

lemma CBB_add_asn1_opens:
  assumes "CBB_add_asn1 mal d tag c = (True, c')" "cbb_wf c"
  shows "cbb_opens d (der_tag tag) Der c c'"
proof -
  let ?bits = "ucast (drop_bit CBS_ASN1_TAG_SHIFT tag) AND (0xe0 :: u8)"
    and ?num = "tag AND CBS_ASN1_TAG_NUMBER_MASK"
  from assms(1) obtain c1 c3 c4 where fl: "CBB_flush mal d c = (True, c1)"
    and tag: "(if ?num \<ge> 0x1f
               then (case CBB_add_u8 mal d (?bits OR 0x1f) c1 of
                       (False, c2) \<Rightarrow> (False, c2)
                     | (True, c2) \<Rightarrow> add_base128_integer mal d (ucast ?num) c2)
               else CBB_add_u8 mal d (?bits OR ucast ?num) c1) = (True, c3)"
    and len: "CBB_add_u8 mal d 0 c3 = (True, c4)"
    and c': "c' = cbb_open_child d (cbb_base_len c3) 1 True c4"
    by (auto simp: CBB_add_asn1_def Let_def split: prod.splits bool.splits)
  have w0: "cbb_writes d [] c c1" using CBB_flush_writes(1) [OF fl assms(2)] .
  then have wf1: "cbb_wf c1" "cbb_depth c1 = d" by (simp_all add: cbb_writes_def)
  have w1: "cbb_writes d (der_tag tag) c1 c3"
  proof (cases "?num \<ge> 0x1f")
    case True
    with tag obtain c2 where "CBB_add_u8 mal d (?bits OR 0x1f) c1 = (True, c2)"
      and b: "add_base128_integer mal d (ucast ?num) c2 = (True, c3)"
      by (auto split: prod.splits bool.splits)
    then have w: "cbb_writes d [?bits OR 0x1f] c1 c2" using CBB_add_u8_writes wf1 by blast
    then have "cbb_writes d (base128_bytes (ucast ?num)) c2 c3"
      using add_base128_integer_writes [OF b] by (simp add: cbb_writes_def)
    from cbb_writes_trans [OF w this wf1(1)] True show ?thesis by (simp add: der_tag_def tag_octet_bits_def Let_def)
  next
    case False
    with tag CBB_add_u8_writes wf1(1) show ?thesis by (simp add: der_tag_def tag_octet_bits_def Let_def)
  qed
  then have wf3: "cbb_wf c3" "cbb_depth c3 = d" by (simp_all add: cbb_writes_def)
  have w2: "cbb_writes d (der_tag tag @ [0]) c c4"
    using cbb_writes_trans [OF cbb_writes_trans [OF w0 w1 assms(2)]
        CBB_add_u8_writes [OF len wf3(1)] assms(2)] by simp
  show ?thesis
    unfolding c' using cbb_open_child_opens [of d "der_tag tag" 1 c c4 True] w2
      CBB_add_u8_base_len [OF len wf3] by simp
qed

lemma cbb_add_length_prefixed_opens:
  assumes "cbb_add_length_prefixed mal d n c = (True, c')" "cbb_wf c" "0 < n" "n < 2 ^ 64"
  shows "cbb_opens d [] (Fixed n) c c'"
proof -
  from assms(1) obtain c1 c2 where fl: "CBB_flush mal d c = (True, c1)"
    and add: "cbb_with_base (cbb_buffer_add mal (replicate n 0)) c1 = (True, c2)"
    and c': "c' = cbb_open_child d (cbb_base_len c1) n False c2"
    by (auto simp: cbb_add_length_prefixed_def Let_def split: prod.splits bool.splits)
  have "CBB_add_bytes mal d (replicate n 0) c = (True, c2)"
    using fl add by (simp add: CBB_add_bytes_def cbb_on_base_def)
  then have w: "cbb_writes d ([] @ replicate n 0) c c2"
    using CBB_add_bytes_writes assms(2,4) by fastforce
  have "cbb_base_len c2 = cbb_base_len c1 + n"
    using add assms(4)
    by (auto simp: cbb_with_base_def cbb_base_len_def dest: cbb_buffer_add_True
        split: option.splits prod.splits)
  with cbb_open_child_opens [OF w assms(3,4), of False] show ?thesis unfolding c' by simp
qed

text \<open>One element built in one go: the tag, the contents by any means, the flush.\<close>

lemma cbb_element_writes:
  assumes "CBB_add_asn1 mal d tag c = (True, c1)" "cbb_writes (Suc d) xs c1 c2"
    and "CBB_flush mal d c2 = (True, c3)" "cbb_wf c"
  shows "cbb_writes d (der_element tag xs) c c3"
proof -
  have "cbb_wf c2" using assms(2) by (simp add: cbb_writes_def)
  from cbb_opens_close [OF CBB_add_asn1_opens [OF assms(1,4)] assms(2)
      CBB_flush_writes(1) [OF assms(3) this] assms(4)]
  show ?thesis by (simp add: der_element_def)
qed

lemma CBB_add_asn1_octet_string_writes:
  assumes "CBB_add_asn1_octet_string mal d data c = (True, c')" "cbb_wf c" "length data < 2 ^ 64"
  shows "cbb_writes d (der_element CBS_ASN1_OCTETSTRING data) c c'" "length data \<le> 0xfffffffe"
proof -
  from assms(1) obtain c1 c2 where a: "CBB_add_asn1 mal d CBS_ASN1_OCTETSTRING c = (True, c1)"
    "CBB_add_bytes mal (Suc d) data c1 = (True, c2)" "CBB_flush mal d c2 = (True, c')"
    by (auto simp: CBB_add_asn1_octet_string_def split: prod.splits bool.splits)
  have "cbb_wf c1" using CBB_add_asn1_opens [OF a(1) assms(2)] by (simp add: cbb_opens_def)
  note w = CBB_add_bytes_writes [OF a(2) this assms(3)]
  show "cbb_writes d (der_element CBS_ASN1_OCTETSTRING data) c c'"
    using cbb_element_writes [OF a(1) w a(3) assms(2)] .
  show "length data \<le> 0xfffffffe"
    using cbb_opens_close_fits [OF CBB_add_asn1_opens [OF a(1) assms(2)] w a(3) assms(2)] by simp
qed

lemma CBB_add_asn1_bool_writes:
  assumes "CBB_add_asn1_bool mal d value c = (True, c')" "cbb_wf c"
  shows "cbb_writes d (der_element CBS_ASN1_BOOLEAN [if value \<noteq> 0 then 0xff else 0]) c c'"
proof -
  from assms(1) obtain c1 c2 where a: "CBB_add_asn1 mal d CBS_ASN1_BOOLEAN c = (True, c1)"
    "CBB_add_u8 mal (Suc d) (if value \<noteq> 0 then 0xff else 0) c1 = (True, c2)"
    "CBB_flush mal d c2 = (True, c')"
    by (auto simp: CBB_add_asn1_bool_def split: prod.splits bool.splits)
  have "cbb_wf c1" using CBB_add_asn1_opens [OF a(1) assms(2)] by (simp add: cbb_opens_def)
  from cbb_element_writes [OF a(1) CBB_add_u8_writes [OF a(2) this] a(3) assms(2)]
  show ?thesis .
qed

section \<open>The reader reads DER\<close>

text \<open>The identifier octets of every 32-bit tag read back as that tag, and only they do.\<close>

lemma tag_number_mask [mask_simps]: "x AND CBS_ASN1_TAG_NUMBER_MASK = take_bit 29 x"
  by (simp add: CBS_ASN1_TAG_NUMBER_MASK_def CBS_ASN1_TAG_SHIFT_def take_bit_eq_mask
      mask_eq_exp_minus_1)

lemma bit_tag_octet_bits [mask_simps]:
  "bit (tag_octet_bits tag) n \<longleftrightarrow> 5 \<le> n \<and> n < 8 \<and> bit tag (24 + n)"
  by (auto simp: tag_octet_bits_def mask_simps bit_simps CBS_ASN1_TAG_SHIFT_def)

lemma tag_recompose:
  "push_bit CBS_ASN1_TAG_SHIFT ((ucast (tag_octet_bits tag OR x) :: u32) AND 0xe0) OR
     (tag AND CBS_ASN1_TAG_NUMBER_MASK) = tag"
  if "\<And>n. 5 \<le> n \<Longrightarrow> \<not> bit (x :: u8) n"
proof (rule bit_word_eqI)
  fix m assume m: "m < LENGTH(32)"
  show "bit (push_bit CBS_ASN1_TAG_SHIFT ((ucast (tag_octet_bits tag OR x) :: u32) AND 0xe0) OR
     (tag AND CBS_ASN1_TAG_NUMBER_MASK)) m = bit tag m"
    using m that [of "m - 24"] by (cases "m < 29") (auto simp: mask_simps bit_simps CBS_ASN1_TAG_SHIFT_def)
qed


lemma tag_octet_low:
  assumes "\<And>n. 5 \<le> n \<Longrightarrow> \<not> bit (x :: u8) n"
  shows "(tag_octet_bits tag OR x) AND 0x1f = x"
proof (rule bit_word_eqI)
  fix m assume "m < LENGTH(8)"
  then show "bit ((tag_octet_bits tag OR x) AND 0x1f) m = bit x m"
    using assms [of m] by (cases "m < 5") (auto simp: mask_simps bit_simps)
qed

lemma not_bit_of_less: "unat x < 2 ^ k \<Longrightarrow> k \<le> n \<Longrightarrow> \<not> bit (x :: 'a::len word) n"
proof -
  assume a: "unat x < 2 ^ k" "k \<le> n"
  then have "take_bit k x = x" by (intro take_bit_eq_self_of_unat)
  then have "bit x n = bit (take_bit k x) n" by simp
  then show "\<not> bit x n" using a(2) by (simp add: bit_simps)
qed

lemma unat_less_1f_32: "x < 0x1f \<longleftrightarrow> unat (x :: u32) < 31"
  by (simp add: word_less_nat_alt)

lemma unat_less_1f_64: "x < 0x1f \<longleftrightarrow> unat (x :: u64) < 31"
  by (simp add: word_less_nat_alt)

theorem parse_asn1_tag_der_tag: "parse_asn1_tag (der_tag tag @ r) = (Some tag, r)"
proof -
  let ?num = "tag AND CBS_ASN1_TAG_NUMBER_MASK"
  show ?thesis
  proof (cases "0x1f \<le> ?num")
    case True
    have low: "(tag_octet_bits tag OR 0x1f) AND 0x1f = (0x1f :: u8)"
      by (rule tag_octet_low) (rule not_bit_of_less [of _ 5], simp_all)
    have "unat ?num < 2 ^ 29"
      using take_bit_nat_less_exp [of 29 "unat tag"] by (simp add: mask_simps unsigned_take_bit_eq)
    then have "\<not> (ucast CBS_ASN1_TAG_NUMBER_MASK :: u64) < ucast ?num"
      by (simp add: word_less_nat_alt CBS_ASN1_TAG_NUMBER_MASK_def CBS_ASN1_TAG_SHIFT_def)
    moreover have "\<not> (ucast ?num :: u64) < 0x1f"
      using True unfolding unat_less_1f_64 by (simp add: word_le_nat_alt)
    moreover have "(ucast (ucast ?num :: u64) :: u32) = ?num"
      by (rule bit_word_eqI) (simp add: bit_simps)
    ultimately show ?thesis
      using True tag_recompose [of "0x1f" tag, OF not_bit_of_less [of _ 5]]
      by (simp add: parse_asn1_tag_def der_tag_def low parse_base128_bytes Let_def)
  next
    case False
    then have num: "unat ?num < 31" by (simp add: unat_less_1f_32 not_le)
    define x :: u8 where "x = ucast ?num"
    have ux: "unat x = unat ?num"
      using num by (simp add: x_def unsigned_ucast_eq take_bit_nat_eq_self)
    then have "\<not> bit x n" if "5 \<le> n" for n
      using num that ux by (intro not_bit_of_less [of x 5 n]) simp_all
    then have low: "(tag_octet_bits tag OR x) AND 0x1f = x"
      and rec: "push_bit CBS_ASN1_TAG_SHIFT ((ucast (tag_octet_bits tag OR x) :: u32) AND 0xe0) OR ?num = tag"
      using tag_octet_low tag_recompose by blast+
    have ucx: "(ucast x :: u32) = ?num" by (rule word_eqI_unat) (simp add: ux)
    have "?num \<noteq> 0x1f" using num by auto
    then show ?thesis
      using False rec
      by (simp add: parse_asn1_tag_def der_tag_def Let_def low ucx flip: x_def)
  qed
qed


lemma tag_decompose:
  assumes "unat num < 2 ^ 29"
    and tag: "tag = push_bit CBS_ASN1_TAG_SHIFT ((ucast (b :: u8) :: u32) AND 0xe0) OR num"
  shows "tag AND CBS_ASN1_TAG_NUMBER_MASK = num" "tag_octet_bits tag = b AND 0xe0"
proof -
  have num: "\<not> bit num n" if "29 \<le> n" for n using assms(1) that by (rule not_bit_of_less)
  show "tag AND CBS_ASN1_TAG_NUMBER_MASK = num"
  proof (rule bit_word_eqI)
    fix m assume "m < LENGTH(32)"
    then show "bit (tag AND CBS_ASN1_TAG_NUMBER_MASK) m = bit num m"
      using num [of m] by (cases "m < 29") (auto simp: tag mask_simps bit_simps CBS_ASN1_TAG_SHIFT_def)
  qed
  show "tag_octet_bits tag = b AND 0xe0"
  proof (rule bit_word_eqI)
    fix m assume "m < LENGTH(8)"
    then show "bit (tag_octet_bits tag) m = bit (b AND 0xe0) m"
      using num [of "24 + m"]
      by (cases "5 \<le> m") (auto simp: bit_tag_octet_bits tag mask_simps bit_simps CBS_ASN1_TAG_SHIFT_def)
  qed
qed

lemma octet_split: "(b AND 0xe0) OR (b AND 0x1f) = (b :: u8)"
proof (rule bit_word_eqI)
  fix m assume "m < LENGTH(8)"
  then show "bit ((b AND 0xe0) OR (b AND 0x1f)) m = bit b m"
    by (cases "m < 5") (auto simp: mask_simps bit_simps)
qed

theorem parse_asn1_tag_canonical:
  assumes "parse_asn1_tag bs = (Some tag, r)"
  shows "bs = der_tag tag @ r"
proof -
  from assms obtain b c where bs: "bs = b # c" by (cases bs) (auto simp: parse_asn1_tag_def)
  let ?t = "push_bit CBS_ASN1_TAG_SHIFT ((ucast b :: u32) AND 0xe0)"
  show ?thesis
  proof (cases "(ucast (b AND 0x1f) :: u32) = 0x1f")
    case True
    with assms obtain v where p: "parse_base128_integer c = (Some v, r)"
      and v: "\<not> v > ucast CBS_ASN1_TAG_NUMBER_MASK" "\<not> v < 0x1f" and tag: "tag = ?t OR ucast v"
      by (auto simp: parse_asn1_tag_def bs Let_def split: prod.splits option.splits if_splits)
    have v29: "unat v < 2 ^ 29"
      using v(1) by (simp add: word_less_nat_alt CBS_ASN1_TAG_NUMBER_MASK_def CBS_ASN1_TAG_SHIFT_def)
    then have uv: "unat (ucast v :: u32) = unat v"
      by (simp add: unsigned_ucast_eq take_bit_nat_eq_self)
    note d = tag_decompose [of "ucast v" tag b, unfolded uv, OF v29 tag]
    have "(ucast (ucast v :: u32) :: u64) = v" by (rule word_eqI_unat) (simp add: uv)
    moreover have "0x1f \<le> (ucast v :: u32)" using v(2) by (simp add: word_le_nat_alt uv word_less_nat_alt)
    moreover have "b AND 0x1f = (0x1f :: u8)"
      using arg_cong [OF True, of unat] by (intro word_eqI_unat) simp
    then have "(b AND 0xe0) OR 0x1f = b" using octet_split [of b] by simp
    ultimately show ?thesis
      using parse_base128_canonical [OF p] by (simp add: bs der_tag_def Let_def d)
  next
    case False
    let ?n = "ucast (b AND 0x1f) :: u32"
    from False assms have tag: "tag = ?t OR ?n" and r: "r = c"
      by (auto simp: parse_asn1_tag_def bs Let_def)
    have lt: "unat ?n < 2 ^ 5"
      using take_bit_nat_less_exp [of 5 "unat b"] by (simp add: mask_simps unsigned_take_bit_eq)
    then have "unat ?n < 2 ^ 29" by simp
    note d = tag_decompose [OF this tag]
    have "unat ?n \<noteq> unat (0x1f :: u32)" using False word_eqI_unat by blast
    with lt have "\<not> 0x1f \<le> ?n" by (simp add: word_le_nat_alt)
    moreover have "(ucast ?n :: u8) = b AND 0x1f" by (rule bit_word_eqI) (simp add: bit_simps)
    ultimately show ?thesis
      by (simp add: bs r der_tag_def Let_def d octet_split)
  qed
qed

section \<open>Elements\<close>

definition der_long_byte :: "nat \<Rightarrow> u8" where
  "der_long_byte k = 0x80 OR word_of_nat k"

lemma der_long_byte_simps:
  assumes "1 \<le> k" "k \<le> 4"
  shows "der_long_byte k AND 0x80 \<noteq> 0" "unat (der_long_byte k AND 0x7f) = k"
proof -
  consider "k = 1" | "k = 2" | "k = 3" | "k = 4" using assms by linarith
  then show "der_long_byte k AND 0x80 \<noteq> 0" "unat (der_long_byte k AND 0x7f) = k"
    by (cases; simp add: der_long_byte_def)+
qed

lemma der_len_long:
  assumes "1 \<le> k" "k \<le> 4" "128 \<le> n" "256 ^ (k - 1) \<le> n" "n < 256 ^ k"
  shows "der_len n = der_long_byte k # be_bytes k n"
proof -
  consider "k = 1" | "k = 2" | "k = 3" | "k = 4" using assms by linarith
  then show ?thesis
    using assms by cases (simp_all add: der_len_def der_long_byte_def)
qed

lemma der_len_cases:
  assumes "n < 2 ^ 32"
  obtains (short) "n < 128" "der_len n = [word_of_nat n]"
  | (long) k where "1 \<le> k" "k \<le> 4" "128 \<le> n" "256 ^ (k - 1) \<le> n" "n < 256 ^ k"
      "der_len n = der_long_byte k # be_bytes k n"
proof (cases "n < 128")
  case True
  then show thesis by (intro short) (simp_all add: der_len_def)
next
  case False
  consider "n < 256 ^ 1" | "256 ^ 1 \<le> n" "n < 256 ^ 2" | "256 ^ 2 \<le> n" "n < 256 ^ 3" | "256 ^ 3 \<le> n"
    by linarith
  then obtain k where "1 \<le> k" "k \<le> 4" "256 ^ (k - 1) \<le> n" "n < 256 ^ k"
  proof cases
    case 1 then show ?thesis using False by (intro that [of 1]) auto
  next
    case 2 then show ?thesis by (intro that [of 2]) auto
  next
    case 3 then show ?thesis by (intro that [of 3]) auto
  next
    case 4 then show ?thesis using assms by (intro that [of 4]) auto
  qed
  with False der_len_long [of k n] show thesis by (intro long [of k]) auto
qed

lemma pow_2_8: "(2 :: nat) ^ (k * 8) = 256 ^ k"
  using power_mult [of "2 :: nat" 8 k] by (simp add: mult.commute)

lemma length_der_tag: "1 \<le> length (der_tag tag) \<and> length (der_tag tag) \<le> 11"
proof -
  have "base128_len v \<le> 10" for v
  proof (rule base128_len_ex [of v], rule ccontr)
    assume l: "base128_len v = 1 \<or> 128 ^ (base128_len v - 1) \<le> unat v" and "\<not> base128_len v \<le> 10"
    then have "(128 :: nat) ^ 10 \<le> 128 ^ (base128_len v - 1)" by (intro power_increasing) auto
    with l \<open>\<not> base128_len v \<le> 10\<close> have "128 ^ 10 \<le> unat v" by linarith
    moreover have "unat v < 128 ^ 10" by (rule less_le_trans [OF unat_u64_lt]) simp
    ultimately show False by linarith
  qed
  then show ?thesis by (simp add: der_tag_def Let_def base128_bytes_def)
qed

theorem CBS_get_any_asn1_element_der:
  assumes "length xs < 2 ^ 32"
  shows "cbs_get_any_asn1_element ber_ok (der_element tag xs @ r) =
    (Some (der_element tag xs, tag, length (der_element tag xs) - length xs), r)"
  using assms
proof (cases rule: der_len_cases)
  case short
  let ?e = "der_element tag xs"
  have e: "?e @ r = der_tag tag @ word_of_nat (length xs) # xs @ r"
    by (simp add: der_element_def with_prefix_def short)
  have u: "unat (word_of_nat (length xs) :: u8) = length xs"
    using short(1) by (simp add: unat_of_nat)
  then have "word_of_nat (length xs) AND 0x80 = (0 :: u8)"
    using not_bit_of_less [of "word_of_nat (length xs) :: u8" 7 7] short(1) by (simp add: mask_simps)
  moreover have "length ?e = length (der_tag tag) + 1 + length xs"
    by (simp add: der_element_def with_prefix_def short)
  moreover have "cbs_get (length ?e) (?e @ r) = (Some ?e, r)" by (simp add: rd_simps)
  ultimately show ?thesis
    using u short(1) length_der_tag [of tag]
    unfolding cbs_get_any_asn1_element_def CBS_get_bytes_eq
    by (simp add: e parse_asn1_tag_der_tag CBS_len_def Let_def add.commute add.left_commute)
next
  case (long k)
  let ?e = "der_element tag xs" and ?n = "length xs"
  have e: "?e @ r = der_tag tag @ der_long_byte k # be_bytes k ?n @ xs @ r"
    by (simp add: der_element_def with_prefix_def long)
  have b: "der_long_byte k AND 0x80 \<noteq> 0" "unat (der_long_byte k AND 0x7f) = k"
    using der_long_byte_simps long by auto
  have u: "unat (word_of_nat ?n :: u64) = ?n"
    using assms by (simp add: unat_of_nat)
  have g: "cbs_get_u k (be_bytes k ?n @ xs @ r) = (Some (word_of_nat ?n), xs @ r)"
    using long(5) by (simp add: rd_simps be_nat_be_bytes)
  have "\<not> (word_of_nat ?n :: u64) < 128"
    using long(3) u by (simp add: word_less_nat_alt)
  moreover have "drop_bit ((k - 1) * 8) (word_of_nat ?n :: u64) \<noteq> 0"
    using long(4) u by (simp add: drop_bit_eq_0_iff_unat pow_2_8 not_less del: One_nat_def)
  moreover have "length ?e = length (der_tag tag) + Suc k + ?n"
    by (simp add: der_element_def with_prefix_def long)
  moreover have "cbs_get (length ?e) (?e @ r) = (Some ?e, r)" by (simp add: rd_simps)
  ultimately show ?thesis
    using u long(1,2) b g length_der_tag [of tag] assms
    unfolding cbs_get_any_asn1_element_def CBS_get_bytes_eq
    by (simp add: e parse_asn1_tag_der_tag CBS_len_def Let_def add.commute add.left_commute)
qed


lemma cbs_get_prefix:
  assumes "cbs_get n (xs @ ys) = (Some e, r)" "length xs \<le> n"
  shows "e = xs @ take (n - length xs) ys \<and> ys = take (n - length xs) ys @ r \<and> n - length xs \<le> length ys"
  using assms by (auto simp: cbs_get_def split: if_splits)

theorem CBS_get_any_asn1_element_canonical:
  assumes "CBS_get_any_asn1_element bs = (Some (e, tag, hl), r)" "length bs < 2 ^ 64"
  shows "\<exists>xs. e = der_element tag xs \<and> bs = e @ r \<and> length xs < 2 ^ 32 \<and> hl = length e - length xs"
proof -
  from assms(1) obtain h b h' where t: "parse_asn1_tag bs = (Some tag, h)" and h: "h = b # h'"
    by (cases "snd (parse_asn1_tag bs)")
      (auto simp: CBS_get_any_asn1_element_def cbs_get_any_asn1_element_def Let_def
        split: prod.splits option.splits if_splits)
  have bs: "bs = der_tag tag @ b # h'" using parse_asn1_tag_canonical [OF t] h by simp
  have hlen: "CBS_len bs - CBS_len h' = length (der_tag tag) + 1" by (simp add: bs CBS_len_def)
  show ?thesis
  proof (cases "b AND 0x80 = 0")
    case True
    then have lt: "unat b < 128" by (rule unat_lt_128)
    from assms(1) True have g: "cbs_get (unat b + (length (der_tag tag) + 1)) bs = (Some e, r)"
      and hl: "hl = length (der_tag tag) + 1"
      using length_der_tag [of tag] lt
      by (auto simp: CBS_get_any_asn1_element_def cbs_get_any_asn1_element_def t h hlen
          CBS_get_bytes_eq split: prod.splits option.splits)
    have "cbs_get (unat b + (length (der_tag tag) + 1)) ((der_tag tag @ [b]) @ h') = (Some e, r)"
      using g bs by simp
    from cbs_get_prefix [OF this]
    have "e = (der_tag tag @ [b]) @ take (unat b) h'" "h' = take (unat b) h' @ r" "unat b \<le> length h'"
      by simp_all
    moreover have "der_len (unat b) = [b]" using lt by (simp add: der_len_def)
    ultimately show ?thesis
      using bs lt hl
      by (intro exI [of _ "take (unat b) h'"])
        (auto simp: der_element_def with_prefix_def min_absorb2)
  next
    case False
    let ?k = "unat (b AND 0x7f)"
    let ?t = "length (der_tag tag)"
    from assms(1) False obtain len64 h'' where k: "1 \<le> ?k" "?k \<le> 4"
      and u: "cbs_get_u ?k h' = (Some len64, h'')"
      and l: "\<not> len64 < 128" "drop_bit ((?k - 1) * 8) len64 \<noteq> 0"
      and g: "cbs_get (sz (unat len64 + (?t + 1) + ?k)) bs = (Some e, r)"
      and hl: "hl = ?t + 1 + ?k"
      by (auto simp: CBS_get_any_asn1_element_def cbs_get_any_asn1_element_def t h hlen Let_def
          CBS_get_bytes_eq split: prod.splits option.splits if_splits)
    from u obtain ys where h': "h' = ys @ h''" and ys: "length ys = ?k"
      and len64: "len64 = word_of_nat (be_nat ys)"
      by (auto simp: cbs_get_u_Some)
    define n where "n = be_nat ys"
    have n: "n < 256 ^ ?k" using be_nat_lt [of ys] ys by (simp add: n_def)
    also have "(256 :: nat) ^ ?k \<le> 256 ^ 4" using k by (intro power_increasing) auto
    finally have n32: "n < 2 ^ 32" by simp
    then have ul: "unat len64 = n" by (simp add: len64 n_def unat_of_nat)
    have "128 \<le> n" using l(1) ul by (simp add: word_less_nat_alt)
    moreover have "256 ^ (?k - 1) \<le> n"
      using l(2) ul by (simp add: drop_bit_eq_0_iff_unat pow_2_8 not_less del: One_nat_def)
    ultimately have dl: "der_len n = der_long_byte ?k # be_bytes ?k n"
      using k n by (intro der_len_long)
    have "b = 0x80 OR (b AND 0x7f)"
      by (subst or.commute, rule u8_eqI_7) (use False in \<open>simp_all add: mask_simps bit_simps\<close>)
    then have b: "der_long_byte ?k = b" by (simp add: der_long_byte_def)
    have ysn: "be_bytes ?k n = ys" using be_bytes_be_nat [of ys] ys by (simp add: n_def)
    have "sz (n + (?t + 1) + ?k) = ?t + 1 + ?k + n"
      using k n32 length_der_tag [of tag] by simp
    then have "cbs_get (?t + 1 + ?k + n) ((der_tag tag @ b # ys) @ h'') = (Some e, r)"
      using g ul bs h' by simp
    from cbs_get_prefix [OF this] ys
    have "e = (der_tag tag @ b # ys) @ take n h''" "h'' = take n h'' @ r" "n \<le> length h''"
      by simp_all
    then show ?thesis
      using bs n32 hl h' dl b ysn ys
      by (intro exI [of _ "take n h''"])
        (auto simp: der_element_def with_prefix_def min_absorb2)
  qed
qed


text \<open>In BER too an element is at least two header bytes long and includes its header.\<close>

lemma cbs_get_any_asn1_element_split:
  assumes "cbs_get_any_asn1_element ber_ok bs = (Some (out, tag, hl), r)"
  shows "bs = out @ r \<and> 2 \<le> hl \<and> hl \<le> length out"
proof -
  from assms obtain h b h' where t: "parse_asn1_tag bs = (Some tag, h)" and h: "h = b # h'"
    by (cases "snd (parse_asn1_tag bs)")
      (auto simp: cbs_get_any_asn1_element_def Let_def split: prod.splits option.splits if_splits)
  let ?t = "length (der_tag tag)"
  have hl: "CBS_len bs - CBS_len h' = ?t + 1"
    using parse_asn1_tag_canonical [OF t] h by (simp add: CBS_len_def)
  have t1: "1 \<le> ?t" "?t \<le> 11" using length_der_tag [of tag] by auto
  have z: "sz (k + n) = k + n" if "k < 2 ^ 32" "n < 100" for k n using that by simp
  consider (short) "b AND 0x80 = 0" "cbs_get (sz (unat b + (?t + 1))) bs = (Some out, r)" "hl = ?t + 1"
    | (indefinite) "cbs_get (?t + 1) bs = (Some out, r)" "hl = ?t + 1"
    | (long) k len64 h'' where "k \<le> 4" "cbs_get_u k h' = (Some len64, h'')"
        "cbs_get (sz (unat len64 + (?t + 1) + k)) bs = (Some out, r)" "hl = ?t + 1 + k"
    using assms
    by (auto simp: cbs_get_any_asn1_element_def t h hl Let_def CBS_get_bytes_eq
        split: prod.splits option.splits if_splits)
  then show ?thesis
  proof cases
    case short
    then show ?thesis using z [of "unat b" "?t + 1"] unat_lt_128 [of b] t1 by (auto simp: cbs_get_Some)
  next
    case indefinite
    then show ?thesis using t1 by (auto simp: cbs_get_Some)
  next
    case (long k len64 h'')
    from long(2) obtain xs where xs: "length xs = k" "len64 = word_of_nat (be_nat xs)"
      by (auto simp: cbs_get_u_Some)
    have "be_nat xs < 256 ^ k" using be_nat_lt [of xs] xs by simp
    also have "(256 :: nat) ^ k \<le> 256 ^ 4" using long(1) by (intro power_increasing) auto
    finally have "be_nat xs < 2 ^ 32" by simp
    then have "unat len64 < 2 ^ 32" by (simp add: xs(2) unat_of_nat)
    then show ?thesis
      using long z [of "unat len64" "?t + 1 + k"] t1 by (auto simp: cbs_get_Some add.assoc)
  qed
qed

text \<open>An element that is not accepted leaves the input where it was.\<close>

lemma cbs_get_any_asn1_element_None:
  "cbs_get_any_asn1_element ber_ok bs = (None, r) \<Longrightarrow> r = bs"
  by (auto simp: cbs_get_any_asn1_element_def Let_def CBS_get_bytes_eq cbs_get_None
      split: prod.splits option.splits if_splits)

lemma length_der_element_ge: "length xs \<le> length (der_element tag xs)"
  by (simp add: der_element_def with_prefix_def)

lemma drop_der_header:
  "drop (length (der_element tag xs) - length xs) (der_element tag xs) = xs"
  by (simp add: der_element_def with_prefix_def)

lemma CBS_skip_der_header:
  "CBS_skip (length (der_element tag xs) - length xs) (der_element tag xs) = (True, xs)"
  using length_der_element_ge [of xs tag]
  by (simp add: CBS_skip_def cbs_get_def drop_der_header)

lemma CBS_get_asn1_der_element [rd_simps]:
  "length xs < 2 ^ 32 \<Longrightarrow> CBS_get_asn1 tag (der_element tag xs @ r) = (Some xs, r)"
  by (simp add: CBS_get_asn1_def cbs_get_asn1_def CBS_get_any_asn1_element_def
      CBS_get_any_asn1_element_der CBS_skip_der_header)

lemma CBS_get_any_asn1_der_element [rd_simps]:
  "length xs < 2 ^ 32 \<Longrightarrow> CBS_get_any_asn1 (der_element tag xs @ r) = (Some (xs, tag), r)"
  by (simp add: CBS_get_any_asn1_def CBS_get_any_asn1_element_def
      CBS_get_any_asn1_element_der CBS_skip_der_header)

lemma CBS_get_asn1_Some:
  assumes "CBS_get_asn1 tag bs = (Some xs, r)" "length bs < 2 ^ 64"
  shows "bs = der_element tag xs @ r" "length xs < 2 ^ 32"
proof -
  from assms(1) obtain e hl where g: "CBS_get_any_asn1_element bs = (Some (e, tag, hl), r)"
    and s: "CBS_skip hl e = (True, xs)"
    by (auto simp: CBS_get_asn1_def cbs_get_asn1_def split: prod.splits option.splits bool.splits if_splits)
  from CBS_get_any_asn1_element_canonical [OF g assms(2)] obtain ys
    where ys: "e = der_element tag ys" "bs = e @ r" "length ys < 2 ^ 32" "hl = length e - length ys"
    by blast
  with s CBS_skip_der_header [of tag ys] have "xs = ys" by simp
  with ys show "bs = der_element tag xs @ r" "length xs < 2 ^ 32" by simp_all
qed

section \<open>Properties\<close>

text \<open>The tag reader accepts exactly the DER form of a tag: one octet for numbers below 31, the
  shortest high-number form above.\<close>

theorem parse_asn1_tag_exact:
  "parse_asn1_tag bs = (Some tag, r) \<longleftrightarrow> bs = der_tag tag @ r"
  using parse_asn1_tag_der_tag parse_asn1_tag_canonical by blast

text \<open>C1: The element reader accepts an input iff it starts with the unique DER form (minimal tag,
  minimal definite length) of some contents of less than \<open>2 ^ 32\<close> bytes, and returns that
  element, its tag, its header length and the rest.\<close>

theorem CBS_get_any_asn1_element_exact:
  assumes "length bs < 2 ^ 64"
  shows "CBS_get_any_asn1_element bs = (Some (e, tag, hl), r) \<longleftrightarrow>
    (\<exists>xs. length xs < 2 ^ 32 \<and> e = der_element tag xs \<and> bs = e @ r \<and> hl = length e - length xs)"
  using CBS_get_any_asn1_element_canonical [OF _ assms] CBS_get_any_asn1_element_der
  unfolding CBS_get_any_asn1_element_def by metis

theorem CBS_get_any_asn1_element_exact_witness:
  "CBS_get_any_asn1_element [4, 1, 0x55, 0] = (Some ([4, 1, 0x55], 4, 2), [0])"
proof -
  have "der_element 4 [0x55] = [4, 1, 0x55]"
    by (simp add: der_element_def der_tag_def tag_octet_bits_def with_prefix_def der_len_def
        CBS_ASN1_TAG_NUMBER_MASK_def CBS_ASN1_TAG_SHIFT_def)
  then show ?thesis
    using CBS_get_any_asn1_element_exact [of "[4, 1, 0x55, 0]" "[4, 1, 0x55]" 4 2 "[0]"]
    by (auto intro: exI [of _ "[0x55]"])
qed

text \<open>The element reader, in DER and in BER mode, splits its input: what it returns is a prefix
  that holds the header, and on failure the input is left as it was.\<close>

theorem cbs_get_any_asn1_element_safe:
  "case cbs_get_any_asn1_element ber_ok bs of
     (None, r) \<Rightarrow> r = bs
   | (Some (out, tag, hl), r) \<Rightarrow> bs = out @ r \<and> 2 \<le> hl \<and> hl \<le> length out"
  by (auto dest: cbs_get_any_asn1_element_None cbs_get_any_asn1_element_split split: prod.split option.split)

end
