(* ===== verification/DerInt.thy ===== *)
theory DerInt
  imports Der
begin

text \<open>
  ASN.1 INTEGERs and BOOLEANs: the contents the builder writes for a 64-bit value, and the
  reader as its inverse.
\<close>

section \<open>Minimal big-endian strings\<close>

definition strip0 :: "u8 list \<Rightarrow> u8 list" where
  "strip0 xs = dropWhile (\<lambda>b. b = 0) xs"

text \<open>A string of significant bytes is made non-negative by a zero byte in front.\<close>

definition pad0 :: "u8 list \<Rightarrow> u8 list" where
  "pad0 xs = (if xs \<noteq> [] \<and> hd xs AND 0x80 \<noteq> 0 then 0 # xs else xs)"

definition uint_contents :: "u64 \<Rightarrow> u8 list" where
  "uint_contents v =
     (let s = strip0 (be_bytes 8 (unat v)) in if s = [] then [0] else pad0 s)"

lemma strip0_Nil [simp]: "strip0 [] = []"
  by (simp add: strip0_def)

lemma strip0_Cons: "strip0 (b # bs) = (if b = 0 then strip0 bs else b # bs)"
  by (simp add: strip0_def)

lemma be_nat_strip0 [simp]: "be_nat (strip0 xs) = be_nat xs"
proof (induction xs)
  case (Cons b xs)
  then show ?case by (cases "b = 0") (simp_all only: strip0_Cons if_True if_False, simp add: be_nat_Cons)
qed simp

lemma hd_strip0: "strip0 xs \<noteq> [] \<Longrightarrow> hd (strip0 xs) \<noteq> 0"
  using hd_dropWhile [of "\<lambda>b. b = 0" xs] by (simp add: strip0_def)

lemma length_strip0: "length (strip0 xs) \<le> length xs"
  by (simp add: strip0_def length_dropWhile_le)

lemma be_nat_ge: "xs \<noteq> [] \<Longrightarrow> hd xs \<noteq> 0 \<Longrightarrow> 256 ^ (length xs - 1) \<le> be_nat xs"
proof -
  assume "xs \<noteq> []" "hd xs \<noteq> 0"
  then obtain b bs where "xs = b # bs" "0 < unat b" by (cases xs) (auto simp: unat_gt_0)
  then show ?thesis by (simp add: be_nat_Cons trans_le_add1)
qed

lemma be_nat_inject_strip0:
  assumes "be_nat xs = be_nat ys"
  shows "strip0 xs = strip0 ys"
proof -
  let ?x = "strip0 xs" and ?y = "strip0 ys"
  have e: "be_nat ?x = be_nat ?y" using assms by simp
  have z: "be_nat s = 0 \<longleftrightarrow> s = []" if "s = strip0 t" for s t
  proof (cases "s = []")
    case False
    then have "(256 :: nat) ^ (length s - 1) \<le> be_nat s"
      using hd_strip0 [of t] that by (intro be_nat_ge) auto
    then have "0 < be_nat s" by (rule less_le_trans [rotated]) simp
    with False show ?thesis by simp
  qed simp
  have le: "length s \<le> length t" if "be_nat s = be_nat t" "s = strip0 s'" "s \<noteq> []" for s t s'
  proof (rule ccontr)
    assume "\<not> length s \<le> length t"
    then have "(256 :: nat) ^ length t \<le> 256 ^ (length s - 1)" by (intro power_increasing) auto
    also have "\<dots> \<le> be_nat s" using that hd_strip0 [of s'] by (intro be_nat_ge) auto
    finally show False using that be_nat_lt [of t] by simp
  qed
  have "length ?x = length ?y"
  proof (cases "?x = [] \<or> ?y = []")
    case True
    then show ?thesis using e z [of ?x xs] z [of ?y ys] by auto
  next
    case False
    then show ?thesis using le [OF e] le [OF e [symmetric]] by (metis le_antisym)
  qed
  then show ?thesis using e be_bytes_be_nat by metis
qed

lemma be_nat_replicate0 [simp]: "be_nat (replicate n 0 @ xs) = be_nat xs"
  by (induction n) (auto simp: be_nat_Cons)

lemma be_bytes_Suc_front: "be_bytes (Suc n) v = word_of_nat (v div 256 ^ n) # be_bytes n v"
proof (induction n arbitrary: v)
  case (Suc n)
  have "be_bytes (Suc (Suc n)) v = be_bytes (Suc n) (v div 256) @ [word_of_nat v]" by simp
  also have "be_bytes (Suc n) (v div 256) = word_of_nat (v div 256 div 256 ^ n) # be_bytes n (v div 256)"
    by (rule Suc)
  also have "v div 256 div 256 ^ n = v div 256 ^ Suc n"
    by (simp add: div_mult2_eq)
  finally show ?case by simp
qed simp

section \<open>The reader\<close>

lemma asn1_uint64_loop_eq:
  "asn1_uint64_loop v xs =
     (if unat v * 256 ^ length xs + be_nat xs < 2 ^ 64
      then Some (word_of_nat (unat v * 256 ^ length xs + be_nat xs)) else None)"
proof (induction v xs rule: asn1_uint64_loop.induct)
  case (1 v)
  then show ?case by simp
next
  case (2 v b data)
  show ?case
  proof (cases "drop_bit 56 v = 0")
    case True
    then have "unat v * 2 ^ 8 < 2 ^ LENGTH(64)" by (simp add: drop_bit_eq_0_iff_unat)
    then have u: "unat (push_bit 8 v OR ucast b) = unat v * 256 + unat b"
      using unat_shift_or [of v 8 "ucast b"] by simp
    have "unat (push_bit 8 v OR ucast b) * 256 ^ length data + be_nat data =
        unat v * 256 ^ length (b # data) + be_nat (b # data)"
      unfolding u by (simp add: be_nat_Cons algebra_simps)
    with True 2 show ?thesis by simp
  next
    case False
    then have "2 ^ 56 \<le> unat v" by (simp add: drop_bit_eq_0_iff_unat not_less)
    then have "(2 :: nat) ^ 56 * 256 \<le> unat v * (256 * 256 ^ length data)"
      by (intro mult_le_mono) simp_all
    then have "2 ^ 64 \<le> unat v * 256 ^ length (b # data) + be_nat (b # data)" by simp
    with False show ?thesis by simp
  qed
qed

text \<open>Contents the reader accepts for a non-negative INTEGER.\<close>

definition uint_ok :: "u8 list \<Rightarrow> bool" where
  "uint_ok xs \<longleftrightarrow> xs \<noteq> [] \<and> xs ! 0 AND 0x80 = 0 \<and>
     \<not> (xs ! 0 = 0 \<and> length xs > 1 \<and> xs ! 1 AND 0x80 = 0)"

lemma uint_ok_pad0_strip0:
  assumes "uint_ok xs"
  shows "xs = (if strip0 xs = [] then [0] else pad0 (strip0 xs))"
proof -
  obtain b bs where xs: "xs = b # bs" using assms by (cases xs) (auto simp: uint_ok_def)
  show ?thesis
  proof (cases bs)
    case Nil
    with xs assms show ?thesis by (auto simp: strip0_Cons pad0_def uint_ok_def)
  next
    case (Cons c cs)
    with xs assms show ?thesis by (auto simp: strip0_Cons pad0_def uint_ok_def)
  qed
qed

lemma uint_ok_contents: "uint_ok (uint_contents v)"
proof -
  let ?s = "strip0 (be_bytes 8 (unat v))"
  have "?s = [] \<or> hd ?s \<noteq> 0" using hd_strip0 by blast
  then show ?thesis
    by (cases ?s) (auto simp: uint_contents_def uint_ok_def pad0_def Let_def)
qed

lemma be_nat_pad0 [simp]: "be_nat (pad0 xs) = be_nat xs"
  by (simp add: pad0_def be_nat_Cons)

lemma be_nat_uint_contents [simp]: "be_nat (uint_contents v) = unat v"
proof -
  have "be_nat (be_bytes 8 (unat v)) = unat v"
    using unat_u64_lt [of v] by (simp add: be_nat_be_bytes)
  then have "be_nat (strip0 (be_bytes 8 (unat v))) = unat v" by simp
  then show ?thesis
    by (cases "strip0 (be_bytes 8 (unat v)) = []")
      (simp_all add: uint_contents_def Let_def be_nat_Cons del: be_nat_strip0)
qed

lemma uint_contents_unique:
  assumes "uint_ok xs" "be_nat xs = unat v"
  shows "xs = uint_contents v"
proof -
  have "strip0 xs = strip0 (be_bytes 8 (unat v))"
    using assms(2) unat_u64_lt [of v] by (intro be_nat_inject_strip0) (simp add: be_nat_be_bytes)
  then show ?thesis
    using uint_ok_pad0_strip0 [OF assms(1)] unfolding uint_contents_def Let_def by metis
qed

lemma length_uint_contents: "length (uint_contents v) \<le> 9"
  using length_strip0 [of "be_bytes 8 (unat v)"]
  by (simp add: uint_contents_def Let_def pad0_def)

lemma CBS_get_asn1_uint64_eq:
  "CBS_get_asn1_uint64 bs =
     (case CBS_get_asn1 CBS_ASN1_INTEGER bs of
        (None, c) \<Rightarrow> (None, c)
      | (Some xs, c) \<Rightarrow>
          (if uint_ok xs \<and> be_nat xs < 2 ^ 64 then Some (word_of_nat (be_nat xs)) else None, c))"
  by (auto simp: CBS_get_asn1_uint64_def uint_ok_def CBS_data_def CBS_len_def Let_def
      asn1_uint64_loop_eq split: prod.splits option.splits)

theorem CBS_get_asn1_uint64_contents:
  "CBS_get_asn1_uint64 (der_element CBS_ASN1_INTEGER (uint_contents v) @ r) = (Some v, r)"
  using length_uint_contents [of v] uint_ok_contents [of v] unat_u64_lt [of v]
  by (simp add: CBS_get_asn1_uint64_eq rd_simps)

theorem CBS_get_asn1_uint64_canonical:
  assumes "CBS_get_asn1_uint64 bs = (Some v, r)" "length bs < 2 ^ 64"
  shows "bs = der_element CBS_ASN1_INTEGER (uint_contents v) @ r"
proof -
  from assms(1) obtain xs where xs: "CBS_get_asn1 CBS_ASN1_INTEGER bs = (Some xs, r)" "uint_ok xs"
    "be_nat xs < 2 ^ 64" "v = word_of_nat (be_nat xs)"
    by (auto simp: CBS_get_asn1_uint64_eq split: prod.splits option.splits if_splits)
  then have "be_nat xs = unat v" by (simp add: unat_of_nat)
  from uint_contents_unique [OF xs(2) this] CBS_get_asn1_Some(1) [OF xs(1) assms(2)]
  show ?thesis by simp
qed


section \<open>The writer\<close>

lemma be_bytes_mod: "be_bytes n (v mod 256 ^ n) = be_bytes n v"
  by (metis be_bytes_be_nat be_nat_be_bytes length_be_bytes)

lemma ucast_drop_bit_byte: "(ucast (drop_bit (8 * n) v) :: u8) = word_of_nat (unat (v :: u64) div 256 ^ n)"
proof -
  have "(ucast (drop_bit (8 * n) v) :: u8) = word_of_nat (unat (drop_bit (8 * n) v))"
    by simp
  then show ?thesis by (simp add: unat_drop_bit power_mult)
qed

lemma ucast_and_0xff [simp]: "(ucast (v AND 0xff) :: u8) = ucast (v :: u64)"
  by (rule bit_word_eqI) (simp add: mask_simps bit_simps)

lemma uint64_loop_writes:
  assumes "uint64_loop mal d v n started c = (True, started', c')" "cbb_wf c" "cbb_depth c = d"
  shows "cbb_writes d (if started then be_bytes n (unat v) else pad0 (strip0 (be_bytes n (unat v)))) c c'
    \<and> started' = (started \<or> strip0 (be_bytes n (unat v)) \<noteq> [])"
  using assms
proof (induction mal d v n started c rule: uint64_loop.induct)
  case (1 mal d v started c)
  then show ?case by (auto simp: cbb_writes_refl pad0_def)
next
  case (2 mal d v n started c)
  let ?b = "word_of_nat (unat v div 256 ^ n) :: u8"
  have byte: "(ucast (drop_bit (8 * n) v) :: u8) = ?b"
    by (rule ucast_drop_bit_byte)
  note front = be_bytes_Suc_front [of n "unat v"]
  show ?case
  proof (cases "\<not> started \<and> ?b = 0")
    case True
    with 2 byte show ?thesis by (simp add: front strip0_Cons del: be_bytes.simps(2))
  next
    case False
    then obtain c1 c2 where
      one: "(if \<not> started \<and> ?b AND 0x80 \<noteq> 0 then CBB_add_u8 mal d 0 c else (True, c)) = (True, c1)"
      and two: "CBB_add_u8 mal d ?b c1 = (True, c2)"
      and rest: "uint64_loop mal d v n True c2 = (True, started', c')"
      using 2(3) by (auto simp: byte Let_def split: prod.splits bool.splits if_splits)
    have w1: "cbb_writes d (if \<not> started \<and> ?b AND 0x80 \<noteq> 0 then [0] else []) c c1"
      using one 2(4,5) by (auto dest: CBB_add_u8_writes intro: cbb_writes_refl split: if_splits)
    then have "cbb_wf c1" by (simp add: cbb_writes_def)
    with two have w2: "cbb_writes d [?b] c1 c2" by (rule CBB_add_u8_writes)
    have "cbb_writes d (be_bytes n (unat v)) c2 c' \<and> started'"
      using 2(2) [OF _ _ _ _ _ _ rest] False byte one two w2 by (simp add: cbb_writes_def)
    then show ?thesis
      using cbb_writes_trans [OF cbb_writes_trans [OF w1 w2 2(4)] _ 2(4)] False
      by (auto simp: front strip0_Cons pad0_def simp del: be_bytes.simps(2) split: if_splits)
  qed
qed

theorem CBB_add_asn1_uint64_writes:
  assumes "CBB_add_asn1_uint64 mal d v c = (True, c')" "cbb_wf c"
  shows "cbb_writes d (der_element CBS_ASN1_INTEGER (uint_contents v)) c c'"
proof -
  from assms(1) obtain c1 st c2 c3 where a: "CBB_add_asn1 mal d CBS_ASN1_INTEGER c = (True, c1)"
    and l: "uint64_loop mal (Suc d) v 8 False c1 = (True, st, c2)"
    and z: "(if \<not> st then CBB_add_u8 mal (Suc d) 0 c2 else (True, c2)) = (True, c3)"
    and f: "CBB_flush mal d c3 = (True, c')"
    by (auto simp: CBB_add_asn1_uint64_def split: prod.splits bool.splits)
  have wf1: "cbb_wf c1" "cbb_depth c1 = Suc d"
    using CBB_add_asn1_opens [OF a assms(2)] by (simp_all add: cbb_opens_def)
  note w = uint64_loop_writes [OF l wf1]
  then have wf2: "cbb_wf c2" "cbb_depth c2 = Suc d" by (simp_all add: cbb_writes_def)
  have "cbb_writes (Suc d) (if \<not> st then [0] else []) c2 c3"
    using z wf2 by (auto dest: CBB_add_u8_writes intro: cbb_writes_refl split: if_splits)
  from cbb_writes_trans [OF conjunct1 [OF w] this wf1(1)] w
  have "cbb_writes (Suc d) (uint_contents v) c1 c3"
    by (auto simp: uint_contents_def Let_def pad0_def split: if_splits)
  from cbb_element_writes [OF a this f assms(2)] show ?thesis .
qed

section \<open>Signed values\<close>

definition int_contents :: "u64 \<Rightarrow> u8 list" where
  "int_contents v =
     (if sint v \<ge> 0 then uint_contents v
      else be_bytes (Suc (int64_start v 7)) (unat v))"

lemma u_byte_eq: "u_byte v i = word_of_nat (unat v div 256 ^ i)"
  by (simp only: u_byte_def ucast_drop_bit_byte)

lemma int64_add_loop_writes:
  assumes "int64_add_loop mal d v n c = (True, c')" "cbb_wf c" "cbb_depth c = d"
  shows "cbb_writes d (be_bytes n (unat v)) c c'"
  using assms
proof (induction mal d v n c rule: int64_add_loop.induct)
  case (1 mal d v c)
  then show ?case by (simp add: cbb_writes_refl)
next
  case (2 mal d v i c)
  from 2(2) obtain c1 where u8: "CBB_add_u8 mal d (u_byte v i) c = (True, c1)"
    and loop: "int64_add_loop mal d v i c1 = (True, c')"
    by (auto split: prod.splits bool.splits)
  have w: "cbb_writes d [u_byte v i] c c1" using CBB_add_u8_writes [OF u8 2(3)] .
  then have "cbb_writes d (be_bytes i (unat v)) c1 c'"
    using 2(1) [OF u8 [symmetric] refl loop] by (simp add: cbb_writes_def)
  from cbb_writes_trans [OF w this 2(3)] show ?case
    by (simp only: be_bytes_Suc_front u_byte_eq append_Cons append_Nil)
qed

theorem CBB_add_asn1_int64_writes:
  assumes "CBB_add_asn1_int64 mal d v c = (True, c')" "cbb_wf c"
  shows "cbb_writes d (der_element CBS_ASN1_INTEGER (int_contents v)) c c'"
proof (cases "sint v \<ge> 0")
  case True
  with assms show ?thesis
    by (auto simp: CBB_add_asn1_int64_def int_contents_def dest: CBB_add_asn1_uint64_writes)
next
  case False
  with assms(1) obtain c1 c2 where a: "CBB_add_asn1 mal d CBS_ASN1_INTEGER c = (True, c1)"
    and l: "int64_add_loop mal (Suc d) v (int64_start v 7 + 1) c1 = (True, c2)"
    and f: "CBB_flush mal d c2 = (True, c')"
    by (auto simp: CBB_add_asn1_int64_def Let_def split: prod.splits bool.splits)
  have "cbb_wf c1" "cbb_depth c1 = Suc d"
    using CBB_add_asn1_opens [OF a assms(2)] by (simp_all add: cbb_opens_def)
  from cbb_element_writes [OF a int64_add_loop_writes [OF l this] f assms(2)] False
  show ?thesis by (simp add: int_contents_def)
qed

section \<open>The signed reader\<close>

text \<open>Contents the reader accepts for a signed INTEGER, and their sign extension to 8 bytes.\<close>

definition int_ok :: "u8 list \<Rightarrow> bool" where
  "int_ok xs \<longleftrightarrow> xs \<noteq> [] \<and> length xs \<le> 8 \<and>
     \<not> (length xs > 1 \<and> xs ! 0 = 0 \<and> xs ! 1 AND 0x80 = 0) \<and>
     \<not> (length xs > 1 \<and> xs ! 0 = 0xff \<and> xs ! 1 AND 0x80 \<noteq> 0)"

definition sign_byte :: "u8 \<Rightarrow> u8" where
  "sign_byte b = (if b AND 0x80 \<noteq> 0 then 0xff else 0)"

definition sext8 :: "u8 list \<Rightarrow> u8 list" where
  "sext8 xs = replicate (8 - length xs) (sign_byte (xs ! 0)) @ xs"

lemma map_nth_rev: "map (\<lambda>i. xs ! (length xs - i - 1)) [0..<length xs] = rev xs"
  by (rule nth_equalityI) (auto simp: rev_nth)

lemma CBS_get_asn1_int64_eq:
  "CBS_get_asn1_int64 bs =
     (case CBS_get_asn1 CBS_ASN1_INTEGER bs of
        (None, c) \<Rightarrow> (None, c)
      | (Some xs, c) \<Rightarrow> (if int_ok xs then Some (word_of_nat (be_nat (sext8 xs))) else None, c))"
proof -
  have "le_word (map (\<lambda>i. xs ! (length xs - i - 1)) [0..<length xs] @
      drop (length xs) (replicate 8 (if xs ! 0 AND 0x80 \<noteq> 0 then 0xff else 0))) =
      word_of_nat (be_nat (sext8 xs))" for xs
    by (simp only: map_nth_rev le_word_def sext8_def sign_byte_def drop_replicate rev_append
        rev_rev_ident rev_replicate)
  then show ?thesis
    unfolding CBS_get_asn1_int64_def CBS_data_def CBS_len_def Let_def
    by (auto simp: int_ok_def simp del: map_append split: prod.splits option.splits)
qed

lemma int_ok_sext8_le:
  assumes "int_ok xs" "int_ok ys" "sext8 xs = sext8 ys" "length xs \<le> length ys"
  shows "xs = ys"
proof -
  let ?e = "sign_byte (xs ! 0)"
  have l: "length xs \<le> 8" "length ys \<le> 8" "xs \<noteq> []" using assms by (auto simp: int_ok_def)
  have "ys = drop (8 - length ys) (sext8 ys)" using l by (simp add: sext8_def)
  also have "\<dots> = drop (8 - length ys) (sext8 xs)" using assms(3) by simp
  also have "\<dots> = replicate (length ys - length xs) ?e @ xs"
    using l assms(4) by (simp add: sext8_def)
  finally have ys: "ys = replicate (length ys - length xs) ?e @ xs" .
  obtain x xs' where xs: "xs = x # xs'" using l(3) by (cases xs) auto
  show ?thesis
  proof (cases "length ys - length xs")
    case 0
    with ys show ?thesis by simp
  next
    case (Suc m)
    have e: "?e = 0 \<or> ?e = 0xff" "?e AND 0x80 = 0 \<longleftrightarrow> ?e = 0" "x AND 0x80 = 0 \<longleftrightarrow> ?e = 0"
      by (auto simp: sign_byte_def xs)
    have "ys ! 0 = ?e" "ys ! 1 = (if m = 0 then x else ?e)" "length ys > 1"
      using ys Suc xs by (subst ys; cases m; simp)+
    with assms(2) e show ?thesis by (auto simp: int_ok_def split: if_splits)
  qed
qed

lemma int_ok_sext8_unique: "int_ok xs \<Longrightarrow> int_ok ys \<Longrightarrow> sext8 xs = sext8 ys \<Longrightarrow> xs = ys"
  using int_ok_sext8_le [of xs ys] int_ok_sext8_le [of ys xs] by (cases "length xs \<le> length ys") auto

lemma int64_start_spec:
  assumes "u_byte v t AND 0x80 \<noteq> 0"
  shows "int64_start v t \<le> t \<and> u_byte v (int64_start v t) AND 0x80 \<noteq> 0 \<and>
    be_bytes (Suc t) (unat v) = replicate (t - int64_start v t) 0xff @ be_bytes (Suc (int64_start v t)) (unat v) \<and>
    (int64_start v t = 0 \<or> \<not> (u_byte v (int64_start v t) = 0xff \<and>
       u_byte v (int64_start v t - 1) AND 0x80 \<noteq> 0))"
  using assms
proof (induction t)
  case (Suc s)
  show ?case
  proof (cases "u_byte v (Suc s) = 0xff \<and> u_byte v s AND 0x80 \<noteq> 0")
    case True
    then have "be_bytes (Suc (Suc s)) (unat v) = 0xff # be_bytes (Suc s) (unat v)"
      by (simp only: be_bytes_Suc_front [of "Suc s"] u_byte_eq)
    with True Suc.IH show ?thesis by (simp add: Suc_diff_le del: be_bytes.simps(2))
  next
    case False
    then have "int64_start v (Suc s) = Suc s" by auto
    with Suc.prems False show ?thesis by (simp del: int64_start.simps be_bytes.simps(2))
  qed
qed simp

lemma sint_neg_iff: "sint (v :: u64) < 0 \<longleftrightarrow> u_byte v 7 AND 0x80 \<noteq> 0"
  using bit_last_iff [of v] by (simp add: mask_simps u_byte_def bit_simps)


lemma be_nat_8_unique:
  assumes "length xs = 8" "be_nat xs = unat v"
  shows "xs = be_bytes 8 (unat v)"
  using be_bytes_be_nat [of xs] assms by simp

lemma uint_contents_small:
  assumes "unat v < 2 ^ 63"
  shows "int_ok (uint_contents v)" "sext8 (uint_contents v) = be_bytes 8 (unat v)"
proof -
  let ?xs = "uint_contents v"
  have ok: "uint_ok ?xs" by (rule uint_ok_contents)
  have "length ?xs \<le> 8"
  proof (rule ccontr)
    assume "\<not> length ?xs \<le> 8"
    then have l9: "length ?xs = 9" using length_uint_contents [of v] by simp
    then obtain b c cs where xs: "?xs = b # c # cs" and cs: "length cs = 7"
      by (cases ?xs; cases "tl ?xs") auto
    have v: "unat v = unat b * 256 ^ 8 + (unat c * 256 ^ 7 + be_nat cs)"
      using be_nat_uint_contents [of v] cs by (simp add: xs be_nat_Cons)
    then have "unat b = 0" using assms by (cases "unat b") auto
    then have "b = 0" by (simp add: unat_eq_zero)
    with ok l9 have "bit c 7" by (simp add: uint_ok_def xs mask_simps)
    then have "\<not> unat c < 2 ^ 7" using not_bit_of_less [of c 7 7] by blast
    with v assms show False by simp
  qed
  with ok show "int_ok ?xs"
    by (auto simp: int_ok_def uint_ok_def)
  with ok \<open>length ?xs \<le> 8\<close> show "sext8 ?xs = be_bytes 8 (unat v)"
    by (intro be_nat_8_unique) (simp_all add: sext8_def sign_byte_def uint_ok_def)
qed

lemma bit_u64_63: "bit (v :: u64) (63 + n) \<Longrightarrow> \<not> bit v 63 \<Longrightarrow> False"
  by (cases n) (auto dest: bit_imp_le_length)

lemma int_contents_spec: "int_ok (int_contents v) \<and> sext8 (int_contents v) = be_bytes 8 (unat v)"
proof (cases "sint v \<ge> 0")
  case True
  then have "\<not> bit v 63" using bit_last_iff [of v] by simp
  then have "drop_bit 63 v = 0"
    by (intro bit_word_eqI) (auto simp: bit_simps gr0_conv_Suc dest: bit_imp_le_length elim: bit_u64_63)
  then have "unat v < 2 ^ 63" by (simp add: drop_bit_eq_0_iff_unat)
  with True show ?thesis by (simp add: int_contents_def uint_contents_small)
next
  case False
  let ?s = "int64_start v 7"
  have "u_byte v 7 AND 0x80 \<noteq> 0" using False sint_neg_iff [of v] by simp
  note s = int64_start_spec [OF this]
  have xs: "int_contents v = u_byte v ?s # be_bytes ?s (unat v)"
    using False by (simp only: int_contents_def if_False be_bytes_Suc_front u_byte_eq)
  have nth1: "be_bytes ?s (unat v) ! 0 = u_byte v (?s - 1)" if "0 < ?s"
    using that be_bytes_Suc_front [of "?s - 1" "unat v"] by (simp add: u_byte_eq)
  have "u_byte v ?s \<noteq> 0" using s by auto
  then have ok: "int_ok (int_contents v)" using s nth1 by (cases "?s = 0") (auto simp: int_ok_def xs)
  have "sext8 (int_contents v) = replicate (7 - ?s) 0xff @ int_contents v"
    using s by (simp add: sext8_def sign_byte_def xs)
  also have "\<dots> = be_bytes 8 (unat v)"
    using s False by (simp add: int_contents_def eval_nat_numeral del: be_bytes.simps(2))
  finally show ?thesis using ok by simp
qed

theorem CBS_get_asn1_int64_contents:
  "CBS_get_asn1_int64 (der_element CBS_ASN1_INTEGER (int_contents v) @ r) = (Some v, r)"
proof -
  have "length (int_contents v) \<le> 8" using int_contents_spec [of v] by (simp add: int_ok_def)
  then have "CBS_get_asn1 CBS_ASN1_INTEGER (der_element CBS_ASN1_INTEGER (int_contents v) @ r)
      = (Some (int_contents v), r)" by (intro rd_simps) simp
  then show ?thesis
    using int_contents_spec [of v]
    by (simp add: CBS_get_asn1_int64_eq be_nat_be_bytes del: be_bytes.simps)
qed

theorem CBS_get_asn1_int64_canonical:
  assumes "CBS_get_asn1_int64 bs = (Some v, r)" "length bs < 2 ^ 64"
  shows "bs = der_element CBS_ASN1_INTEGER (int_contents v) @ r"
proof -
  from assms(1) obtain xs where xs: "CBS_get_asn1 CBS_ASN1_INTEGER bs = (Some xs, r)" "int_ok xs"
    "v = word_of_nat (be_nat (sext8 xs))"
    by (auto simp: CBS_get_asn1_int64_eq split: prod.splits option.splits if_splits)
  have "length (sext8 xs) = 8" using xs(2) by (simp add: sext8_def int_ok_def)
  moreover from this have "be_nat (sext8 xs) = unat v"
    using be_nat_lt_64 [of "sext8 xs"] by (simp add: xs(3) unat_of_nat)
  ultimately have "sext8 xs = sext8 (int_contents v)"
    using be_nat_8_unique int_contents_spec by metis
  with int_ok_sext8_unique [OF xs(2)] int_contents_spec have "xs = int_contents v" by metis
  with CBS_get_asn1_Some(1) [OF xs(1) assms(2)] show ?thesis by simp
qed

section \<open>Properties\<close>

text \<open>C27: The unsigned INTEGER reader accepts exactly the DER form of a 64-bit value and returns that
  value: no leading zeros, no negative number, no overflow.\<close>

theorem CBS_get_asn1_uint64_exact:
  assumes "length bs < 2 ^ 64"
  shows "CBS_get_asn1_uint64 bs = (Some v, r) \<longleftrightarrow>
    bs = der_element CBS_ASN1_INTEGER (uint_contents v) @ r"
  using CBS_get_asn1_uint64_contents CBS_get_asn1_uint64_canonical [OF _ assms] by blast

lemma get_asn1_examples:
  "CBS_get_asn1 2 [2, 1, 0xff] = (Some [0xff], [])" "CBS_get_asn1 2 [2, 2, 0, 0x80] = (Some [0, 0x80], [])"
  by (simp_all add: element_eval)

theorem CBS_get_asn1_uint64_exact_witness:
  "CBS_get_asn1_uint64 [2, 2, 0, 0x80] = (Some 0x80, []) \<and>
   [2, 2, 0, 0x80] = der_element CBS_ASN1_INTEGER (uint_contents 0x80)"
proof -
  have e: "CBS_get_asn1_uint64 [2, 2, 0, 0x80] = (Some 0x80, [])"
    by (simp add: CBS_get_asn1_uint64_eq get_asn1_examples CBS_ASN1_INTEGER_def uint_ok_def be_nat_def)
  with CBS_get_asn1_uint64_exact [of "[2, 2, 0, 0x80]" "0x80" "[]"] show ?thesis by simp
qed

text \<open>C28: The signed INTEGER reader accepts exactly the DER form of a value of two's complement 64-bit
  range and returns that value.\<close>

theorem CBS_get_asn1_int64_exact:
  assumes "length bs < 2 ^ 64"
  shows "CBS_get_asn1_int64 bs = (Some v, r) \<longleftrightarrow>
    bs = der_element CBS_ASN1_INTEGER (int_contents v) @ r"
  using CBS_get_asn1_int64_contents CBS_get_asn1_int64_canonical [OF _ assms] by blast

lemma replicate_7: "replicate 7 x = [x, x, x, x, x, x, x]"
  by (simp add: numeral_eq_Suc)

theorem CBS_get_asn1_int64_exact_witness:
  "CBS_get_asn1_int64 [2, 1, 0xff] = (Some (-1), []) \<and>
   [2, 1, 0xff] = der_element CBS_ASN1_INTEGER (int_contents (-1))"
proof -
  have s: "sext8 [0xff] = [0xff, 0xff, 0xff, 0xff, 0xff, 0xff, 0xff, 0xff]"
    by (simp add: sext8_def sign_byte_def replicate_7)
  have n: "be_nat [0xff, 0xff, 0xff, 0xff, 0xff, 0xff, 0xff, 0xff] = 2 ^ 64 - 1"
    by (simp add: be_nat_def)
  have ok: "int_ok [0xff]" by (simp add: int_ok_def)
  have w: "(word_of_nat (2 ^ 64 - 1) :: u64) = -1" by simp
  have e: "CBS_get_asn1_int64 [2, 1, 0xff] = (Some (-1), [])"
    unfolding CBS_get_asn1_int64_eq CBS_ASN1_INTEGER_def get_asn1_examples prod.case option.case s n w
    using ok by simp
  with CBS_get_asn1_int64_exact [of "[2, 1, 0xff]" "-1" "[]"] show ?thesis by simp
qed

end
