(* ===== verification/Codec.thy ===== *)
theory Codec
  imports DerInt CbbLive
begin

text \<open>
  The contract between a writer of \<^verbatim>\<open>cbb.c\<close> and the reader of \<^verbatim>\<open>cbs.c\<close> that goes with it,
  as two locales: \<open>wire_format\<close> (every value has exactly one encoding and the reader accepts
  no other byte string) and \<open>cbb_codec\<close> (the builder operation appends that encoding). What
  follows from the contract, round trips of whole sequences of fields through the builder and
  the reader, is proved once; the interpretations discharge the contract for each operation.
\<close>

section \<open>The contract\<close>

fun get_all :: "'a rd \<Rightarrow> nat \<Rightarrow> cbs \<Rightarrow> 'a list option \<times> cbs" where
  "get_all get 0 bs = (Some [], bs)"
| "get_all get (Suc n) bs =
     (case get bs of
        (None, r) \<Rightarrow> (None, r)
      | (Some x, r) \<Rightarrow>
          (case get_all get n r of (None, r') \<Rightarrow> (None, r') | (Some xs, r') \<Rightarrow> (Some (x # xs), r')))"

fun put_all ::
  "(malloc_fn \<Rightarrow> nat \<Rightarrow> 'a \<Rightarrow> cbb \<Rightarrow> bool \<times> cbb) \<Rightarrow> malloc_fn \<Rightarrow> nat \<Rightarrow> 'a list \<Rightarrow> cbb \<Rightarrow> bool \<times> cbb"
where
  "put_all put mal d [] c = (True, c)"
| "put_all put mal d (x # xs) c =
     (case put mal d x c of (False, c') \<Rightarrow> (False, c') | (True, c') \<Rightarrow> put_all put mal d xs c')"

locale wire_format =
  fixes ok :: "'a \<Rightarrow> bool"
    and enc :: "'a \<Rightarrow> u8 list"
    and get :: "'a rd"
  assumes get_enc: "ok x \<Longrightarrow> get (enc x @ r) = (Some x, r)"
    and get_Some: "get bs = (Some x, r) \<Longrightarrow> length bs < 2 ^ 64 \<Longrightarrow> bs = enc x @ r \<and> ok x"
begin

lemma enc_prefix_free:
  assumes "ok x" "ok y" "enc x @ r = enc y @ s"
  shows "x = y \<and> r = s"
proof -
  have "get (enc y @ s) = (Some x, r)" using get_enc [OF assms(1), of r] unfolding assms(3) .
  then show ?thesis using get_enc [OF assms(2), of s] by simp
qed

lemma get_all_enc:
  "\<forall>x \<in> set xs. ok x \<Longrightarrow> get_all get (length xs) (concat (map enc xs) @ r) = (Some xs, r)"
  by (induction xs) (auto simp: get_enc)

lemma get_all_Some:
  "get_all get n bs = (Some xs, r) \<Longrightarrow> length bs < 2 ^ 64 \<Longrightarrow>
   bs = concat (map enc xs) @ r \<and> length xs = n \<and> (\<forall>x \<in> set xs. ok x)"
proof (induction n arbitrary: bs xs)
  case (Suc n)
  from Suc.prems(1) obtain x ys r1 where g: "get bs = (Some x, r1)"
    and rest: "get_all get n r1 = (Some ys, r)" and xs: "xs = x # ys"
    by (auto split: prod.splits option.splits)
  from get_Some [OF g Suc.prems(2)] have bs: "bs = enc x @ r1" "ok x" by auto
  then have "length r1 < 2 ^ 64" using Suc.prems(2) by simp
  from Suc.IH [OF rest this] bs xs show ?case by simp
qed auto

end

locale cbb_codec = wire_format ok enc get
  for ok :: "'a \<Rightarrow> bool" and enc :: "'a \<Rightarrow> u8 list" and get :: "'a rd" +
  fixes dom :: "'a \<Rightarrow> bool"
    and put :: "malloc_fn \<Rightarrow> nat \<Rightarrow> 'a \<Rightarrow> cbb \<Rightarrow> bool \<times> cbb"
  assumes put_writes:
    "put mal d x c = (True, c') \<Longrightarrow> dom x \<Longrightarrow> cbb_wf c \<Longrightarrow> cbb_writes d (enc x) c c' \<and> ok x"
begin

lemma put_all_writes:
  assumes "put_all put mal d xs c = (True, c')" "cbb_wf c" "cbb_depth c = d"
    and "\<forall>x \<in> set xs. dom x"
  shows "cbb_writes d (concat (map enc xs)) c c' \<and> (\<forall>x \<in> set xs. ok x)"
  using assms
proof (induction xs arbitrary: c)
  case Nil
  then show ?case by (simp add: cbb_writes_refl)
next
  case (Cons x xs)
  from Cons.prems(1) obtain c1 where p: "put mal d x c = (True, c1)"
    and rest: "put_all put mal d xs c1 = (True, c')"
    by (auto split: prod.splits bool.splits)
  have w: "cbb_writes d (enc x) c c1" "ok x" using put_writes [OF p _ Cons.prems(2)] Cons.prems(4) by auto
  then have "cbb_wf c1" "cbb_depth c1 = d" by (simp_all add: cbb_writes_def)
  from Cons.IH [OF rest this] Cons.prems(4) w cbb_writes_trans [OF w(1) _ Cons.prems(2)] show ?case by simp
qed

text \<open>A message of fields written to a fresh builder and finished is read back field by field.\<close>

lemma message_roundtrip:
  assumes init: "CBB_init mal cap = (True, c0)"
    and put: "put_all put mal 0 xs c0 = (True, c1)"
    and fin: "CBB_finish mal True 0 c1 = (Some bs, c2)"
    and dom: "\<forall>x \<in> set xs. dom x"
  shows "get_all get (length xs) bs = (Some xs, []) \<and> bs = concat (map enc xs)"
proof -
  have c0: "cbb_wf c0" "cbb_depth c0 = 0" "cbb_frames c0 = [[]]"
    using CBB_init_wf [OF init] by auto
  note w = put_all_writes [OF put c0(1,2) dom]
  have "bs = concat (map enc xs)"
    using CBB_finish_root [OF fin] w c0 by (simp add: cbb_writes_def cbb_depth_def cbb_kinds_def)
  then show ?thesis using get_all_enc [of xs "[]"] w by simp
qed

end

section \<open>Byte order\<close>

lemma bswap_masks:
  "(0x00ff00ff :: u32) = mask 8 OR push_bit 16 (mask 8)"
  "(0xff00ff00 :: u32) = push_bit 8 (mask 8 OR push_bit 16 (mask 8))"
  by (simp_all add: mask_eq_exp_minus_1)

lemma bit_bswap2: "n < 8 \<Longrightarrow> bit (CRYPTO_bswap2 x) n = bit x (8 + n)"
  "n < 8 \<Longrightarrow> bit (CRYPTO_bswap2 x) (8 + n) = bit x n"
  by (auto simp: CRYPTO_bswap2_def bit_simps dest: bit_imp_le_length)

lemma bit_bswap4:
  assumes "n < 8"
  shows "bit (CRYPTO_bswap4 x) n = bit x (24 + n)" "bit (CRYPTO_bswap4 x) (8 + n) = bit x (16 + n)"
    "bit (CRYPTO_bswap4 x) (16 + n) = bit x (8 + n)" "bit (CRYPTO_bswap4 x) (24 + n) = bit x n"
  using assms unfolding CRYPTO_bswap4_def Let_def bswap_masks
  by (auto simp: bit_simps dest: bit_imp_le_length)


definition byte_at :: "'a::len word \<Rightarrow> nat \<Rightarrow> u8" where
  "byte_at w i = ucast (drop_bit (8 * i) w)"

lemma bit_byte_at: "bit (byte_at w i) n \<longleftrightarrow> n < 8 \<and> bit w (8 * i + n)"
  by (auto simp: byte_at_def bit_simps)

lemma byte_at_eq: "byte_at w i = word_of_nat (unat w div 256 ^ i)"
proof -
  have "byte_at w i = word_of_nat (unat (drop_bit (8 * i) w))" by (simp add: byte_at_def)
  then show ?thesis by (simp add: unat_drop_bit power_mult)
qed

lemma be_bytes_byte_at: "be_bytes n (unat w) = map (byte_at w) (rev [0..<n])"
  by (induction n) (simp_all add: be_bytes_Suc_front byte_at_eq del: be_bytes.simps(2))

lemma be_bytes_rev:
  assumes "\<And>i. i < n \<Longrightarrow> byte_at y i = byte_at x (n - 1 - i)"
  shows "be_bytes n (unat y) = rev (be_bytes n (unat x))"
  using assms by (auto simp: be_bytes_byte_at rev_map rev_nth intro!: nth_equalityI)

lemma less_4_cases: "i < 4 \<Longrightarrow> i = 0 \<or> i = 1 \<or> i = 2 \<or> i = (3 :: nat)"
  by linarith

lemma byte_at_bswap2: "i < 2 \<Longrightarrow> byte_at (CRYPTO_bswap2 x) i = byte_at x (1 - i)"
proof -
  assume "i < 2"
  then have "i = 0 \<or> i = 1" by linarith
  then show ?thesis
    using bit_bswap2 [of _ x] by (auto intro!: bit_word_eqI simp: bit_byte_at)
qed

lemma byte_at_bswap4: "i < 4 \<Longrightarrow> byte_at (CRYPTO_bswap4 x) i = byte_at x (3 - i)"
  using bit_bswap4 [of _ x]
  by (auto intro!: bit_word_eqI simp: bit_byte_at dest!: less_4_cases)

lemma byte_at_bswap8_lo:
  "i < 4 \<Longrightarrow> byte_at (CRYPTO_bswap8 x) i = byte_at (CRYPTO_bswap4 (ucast (drop_bit 32 x))) i"
  by (rule bit_word_eqI) (auto simp: bit_byte_at CRYPTO_bswap8_def bit_simps)

lemma byte_at_bswap8_hi:
  "i < 4 \<Longrightarrow> byte_at (CRYPTO_bswap8 x) (4 + i) = byte_at (CRYPTO_bswap4 (ucast x)) i"
proof (rule bit_word_eqI)
  fix n assume "i < 4" "n < LENGTH(8)"
  moreover have "\<not> bit w (8 * (4 + i) + n)" for w :: u32
    using bit_imp_le_length [of w "8 * (4 + i) + n"] by auto
  ultimately show "bit (byte_at (CRYPTO_bswap8 x) (4 + i)) n = bit (byte_at (CRYPTO_bswap4 (ucast x)) i) n"
    by (simp add: bit_byte_at CRYPTO_bswap8_def bit_simps add.assoc)
qed

lemma byte_at_halves:
  "byte_at (drop_bit 32 x) i = byte_at (x :: u64) (4 + i)"
  "i < 4 \<Longrightarrow> byte_at (ucast x :: u32) i = byte_at (x :: u64) i"
  by (auto intro!: bit_word_eqI simp: bit_byte_at bit_simps add.assoc)

lemma byte_at_bswap8:
  assumes "i < 8"
  shows "byte_at (CRYPTO_bswap8 x) i = byte_at x (7 - i)"
proof (cases "i < 4")
  case True
  then show ?thesis
    by (simp add: byte_at_bswap8_lo byte_at_bswap4 byte_at_halves)
next
  case False
  then obtain j where "i = 4 + j" "j < 4" using assms that [of "i - 4"] by simp
  then show ?thesis
    using byte_at_bswap8_hi [of j x] by (simp add: byte_at_bswap4 byte_at_halves)
qed

lemma be_bytes_bswap:
  "be_bytes 2 (unat (CRYPTO_bswap2 a)) = rev (be_bytes 2 (unat a))"
  "be_bytes 4 (unat (CRYPTO_bswap4 b)) = rev (be_bytes 4 (unat b))"
  "be_bytes 8 (unat (CRYPTO_bswap8 c)) = rev (be_bytes 8 (unat c))"
  by (rule be_bytes_rev; simp add: byte_at_bswap2 byte_at_bswap4 byte_at_bswap8)+

lemma be_bytes_inject:
  "unat x < 256 ^ n \<Longrightarrow> unat y < 256 ^ n \<Longrightarrow> be_bytes n (unat x) = be_bytes n (unat y) \<Longrightarrow> x = y"
  by (metis be_nat_be_bytes mod_less word_eqI_unat)

lemma bswap_involution [simp]:
  "CRYPTO_bswap2 (CRYPTO_bswap2 a) = a" "CRYPTO_bswap4 (CRYPTO_bswap4 b) = b"
  "CRYPTO_bswap8 (CRYPTO_bswap8 c) = c"
proof -
  show "CRYPTO_bswap2 (CRYPTO_bswap2 a) = a"
    by (rule be_bytes_inject [of _ 2])
      (use unat_lt_pow [of a] unat_lt_pow [of "CRYPTO_bswap2 (CRYPTO_bswap2 a)"] in
        \<open>simp_all only: be_bytes_bswap(1) rev_rev_ident, simp_all\<close>)
  show "CRYPTO_bswap4 (CRYPTO_bswap4 b) = b"
    by (rule be_bytes_inject [of _ 4])
      (use unat_lt_pow [of b] unat_lt_pow [of "CRYPTO_bswap4 (CRYPTO_bswap4 b)"] in
        \<open>simp_all only: be_bytes_bswap(2) rev_rev_ident, simp_all\<close>)
  show "CRYPTO_bswap8 (CRYPTO_bswap8 c) = c"
    by (rule be_bytes_inject [of _ 8])
      (simp_all only: be_bytes_bswap(3) rev_rev_ident, simp_all)
qed

section \<open>The operations keep the contract\<close>

lemma be_field_get:
  assumes "unat x < 256 ^ n"
  shows "cbs_get_u n (be_bytes n (unat (x :: 'a::len word)) @ r) = (Some (word_of_nat (unat x)), r)"
  using assms by (simp add: rd_simps be_nat_be_bytes)

lemma be_field_Some:
  assumes "cbs_get_u n bs = (Some v, r)" "n \<le> 8"
  shows "bs = be_bytes n (unat v) @ r \<and> unat v < 256 ^ n"
proof -
  from assms(1) obtain xs where xs: "bs = xs @ r" "length xs = n" "v = word_of_nat (be_nat xs)"
    by (auto simp: cbs_get_u_Some)
  then have "unat v = be_nat xs"
    using be_nat_lt_64 [of xs] assms(2) by (simp add: unat_of_nat)
  then show ?thesis using xs be_bytes_be_nat [of xs] be_nat_lt [of xs] by simp
qed

interpretation u8: cbb_codec "\<lambda>_. True" "\<lambda>v. [v]" CBS_get_u8 "\<lambda>_. True" CBB_add_u8
  by unfold_locales (auto simp: CBS_get_u8_Some dest: CBB_add_u8_writes)

lemma ucast_up_down:
  "LENGTH('a) \<le> LENGTH('b) \<Longrightarrow> ucast (ucast (v :: 'a::len word) :: 'b::len word) = v"
  by (rule bit_word_eqI) (simp add: bit_simps)

lemma unat_ucast_down_id:
  "unat v < 2 ^ LENGTH('a) \<Longrightarrow> unat (ucast (v :: 'b::len word) :: 'a::len word) = unat v"
  by (simp add: unsigned_ucast_eq take_bit_nat_eq_self)

lemma u16_get: "CBS_get_u16 (be_bytes 2 (unat v) @ r) = (Some v, r)"
  using unat_lt_pow [of v] by (simp add: CBS_get_u16_def be_field_get ucast_up_down del: be_bytes.simps)

lemma u16_Some: "CBS_get_u16 bs = (Some v, r) \<Longrightarrow> bs = be_bytes 2 (unat v) @ r"
  by (auto simp: CBS_get_u16_def unat_ucast_down_id split: prod.splits option.splits dest!: be_field_Some)

lemma u16_put: "CBB_add_u16 mal d v c = (True, c') \<Longrightarrow> cbb_wf c \<Longrightarrow> cbb_writes d (be_bytes 2 (unat v)) c c'"
  unfolding CBB_add_u16_def by (drule (1) cbb_add_u_writes) (simp_all add: unat_ucast_up)

interpretation u16: cbb_codec "\<lambda>_. True" "\<lambda>v. be_bytes 2 (unat v)" CBS_get_u16 "\<lambda>_. True" CBB_add_u16
  by unfold_locales (simp_all add: u16_get u16_Some u16_put del: be_bytes.simps)

interpretation u16le: cbb_codec "\<lambda>_. True" "\<lambda>v. rev (be_bytes 2 (unat v))" CBS_get_u16le
  "\<lambda>_. True" CBB_add_u16le
  by unfold_locales
    (auto simp: CBS_get_u16le_def CBB_add_u16le_def u16_get be_bytes_bswap [symmetric]
      simp del: be_bytes.simps split: prod.splits option.splits dest: u16_Some u16_put)


lemma u24_get: "unat v < 2 ^ 24 \<Longrightarrow> CBS_get_u24 (be_bytes 3 (unat v) @ r) = (Some v, r)"
  by (simp add: CBS_get_u24_def be_field_get ucast_up_down del: be_bytes.simps)

lemma u24_Some: "CBS_get_u24 bs = (Some v, r) \<Longrightarrow> bs = be_bytes 3 (unat v) @ r \<and> unat v < 2 ^ 24"
  by (auto simp: CBS_get_u24_def unat_ucast_down_id split: prod.splits option.splits dest!: be_field_Some)

lemma u24_put:
  "CBB_add_u24 mal d v c = (True, c') \<Longrightarrow> cbb_wf c \<Longrightarrow>
   cbb_writes d (be_bytes 3 (unat v)) c c' \<and> unat v < 2 ^ 24"
  using cbb_add_u_writes [of mal d "ucast v" 3 c c'] cbb_add_u_fits [of mal d "ucast v" 3 c c']
  by (simp add: CBB_add_u24_def del: be_bytes.simps)

interpretation u24: cbb_codec "\<lambda>v. unat v < 2 ^ 24" "\<lambda>v. be_bytes 3 (unat v)" CBS_get_u24
  "\<lambda>_. True" CBB_add_u24
  by unfold_locales (auto simp: u24_get simp del: be_bytes.simps dest: u24_Some u24_put)

lemma u32_get: "CBS_get_u32 (be_bytes 4 (unat v) @ r) = (Some v, r)"
  using unat_lt_pow [of v] by (simp add: CBS_get_u32_def be_field_get ucast_up_down del: be_bytes.simps)

lemma u32_Some: "CBS_get_u32 bs = (Some v, r) \<Longrightarrow> bs = be_bytes 4 (unat v) @ r"
  by (auto simp: CBS_get_u32_def unat_ucast_down_id split: prod.splits option.splits dest!: be_field_Some)

lemma u32_put: "CBB_add_u32 mal d v c = (True, c') \<Longrightarrow> cbb_wf c \<Longrightarrow> cbb_writes d (be_bytes 4 (unat v)) c c'"
  unfolding CBB_add_u32_def by (drule (1) cbb_add_u_writes) simp_all

interpretation u32: cbb_codec "\<lambda>_. True" "\<lambda>v. be_bytes 4 (unat v)" CBS_get_u32 "\<lambda>_. True" CBB_add_u32
  by unfold_locales (simp_all add: u32_get u32_Some u32_put del: be_bytes.simps)

interpretation u32le: cbb_codec "\<lambda>_. True" "\<lambda>v. rev (be_bytes 4 (unat v))" CBS_get_u32le
  "\<lambda>_. True" CBB_add_u32le
  by unfold_locales
    (auto simp: CBS_get_u32le_def CBB_add_u32le_def u32_get be_bytes_bswap [symmetric]
      simp del: be_bytes.simps split: prod.splits option.splits dest: u32_Some u32_put)

lemma u64_get: "CBS_get_u64 (be_bytes 8 (unat v) @ r) = (Some v, r)"
  by (simp add: CBS_get_u64_def be_field_get del: be_bytes.simps)

lemma u64_Some: "CBS_get_u64 bs = (Some v, r) \<Longrightarrow> bs = be_bytes 8 (unat v) @ r"
  by (auto simp: CBS_get_u64_def dest!: be_field_Some)

lemma u64_put: "CBB_add_u64 mal d v c = (True, c') \<Longrightarrow> cbb_wf c \<Longrightarrow> cbb_writes d (be_bytes 8 (unat v)) c c'"
  unfolding CBB_add_u64_def by (drule (1) cbb_add_u_writes) simp_all

interpretation u64: cbb_codec "\<lambda>_. True" "\<lambda>v. be_bytes 8 (unat v)" CBS_get_u64 "\<lambda>_. True" CBB_add_u64
  by unfold_locales (simp_all add: u64_get u64_Some u64_put del: be_bytes.simps)

interpretation u64le: cbb_codec "\<lambda>_. True" "\<lambda>v. rev (be_bytes 8 (unat v))" CBS_get_u64le
  "\<lambda>_. True" CBB_add_u64le
  by unfold_locales
    (auto simp: CBS_get_u64le_def CBB_add_u64le_def u64_get [unfolded CBS_get_u64_def]
      be_bytes_bswap [symmetric] simp del: be_bytes.simps split: prod.splits option.splits
      dest: u64_Some [unfolded CBS_get_u64_def] u64_put)

text \<open>DER values.\<close>

interpretation asn1_uint64: cbb_codec "\<lambda>_. True" "\<lambda>v. der_element CBS_ASN1_INTEGER (uint_contents v)"
  CBS_get_asn1_uint64 "\<lambda>_. True" CBB_add_asn1_uint64
  by unfold_locales
    (simp_all add: CBS_get_asn1_uint64_contents CBS_get_asn1_uint64_canonical CBB_add_asn1_uint64_writes)

interpretation asn1_int64: cbb_codec "\<lambda>_. True" "\<lambda>v. der_element CBS_ASN1_INTEGER (int_contents v)"
  CBS_get_asn1_int64 "\<lambda>_. True" CBB_add_asn1_int64
  by unfold_locales
    (simp_all add: CBS_get_asn1_int64_contents CBS_get_asn1_int64_canonical CBB_add_asn1_int64_writes)

interpretation asn1_octets: cbb_codec "\<lambda>xs. length xs < 2 ^ 32" "der_element CBS_ASN1_OCTETSTRING"
  "CBS_get_asn1 CBS_ASN1_OCTETSTRING" "\<lambda>xs. length xs < 2 ^ 64" CBB_add_asn1_octet_string
proof unfold_locales
  fix bs x r assume "CBS_get_asn1 CBS_ASN1_OCTETSTRING bs = (Some x, r)" "length bs < 2 ^ 64"
  from CBS_get_asn1_Some [OF this]
  show "bs = der_element CBS_ASN1_OCTETSTRING x @ r \<and> length x < 2 ^ 32" by simp
next
  fix mal d x c c'
  assume "CBB_add_asn1_octet_string mal d x c = (True, c')" "length x < 2 ^ 64" "cbb_wf c"
  from CBB_add_asn1_octet_string_writes [OF this(1,3,2)]
  show "cbb_writes d (der_element CBS_ASN1_OCTETSTRING x) c c' \<and> length x < 2 ^ 32" by simp
qed (simp add: rd_simps)

lemma der_bool_get:
  "x = 0 \<or> x = 1 \<Longrightarrow>
   CBS_get_asn1_bool (der_element CBS_ASN1_BOOLEAN [if x \<noteq> 0 then 0xff else 0] @ r) = (Some x, r)"
  by (auto simp: CBS_get_asn1_bool_def rd_simps CBS_len_def CBS_data_def)

lemma der_bool_Some:
  assumes "CBS_get_asn1_bool bs = (Some x, r)" "length bs < 2 ^ 64"
  shows "bs = der_element CBS_ASN1_BOOLEAN [if x \<noteq> 0 then 0xff else 0] @ r \<and> (x = 0 \<or> x = 1)"
proof -
  from assms(1) obtain xs where g: "CBS_get_asn1 CBS_ASN1_BOOLEAN bs = (Some xs, r)"
    and xs: "length xs = 1" "xs ! 0 = (if x \<noteq> 0 then 0xff else 0)" "x = 0 \<or> x = 1"
    by (auto simp: CBS_get_asn1_bool_def CBS_len_def CBS_data_def Let_def
        split: prod.splits option.splits if_splits)
  then have "xs = [if x \<noteq> 0 then 0xff else 0]" by (cases xs) auto
  with CBS_get_asn1_Some(1) [OF g assms(2)] xs(3) show ?thesis by simp
qed

interpretation asn1_bool: cbb_codec "\<lambda>x. x = 0 \<or> x = 1"
  "\<lambda>x. der_element CBS_ASN1_BOOLEAN [if x \<noteq> 0 then 0xff else 0]" CBS_get_asn1_bool
  "\<lambda>x. x = 0 \<or> x = 1" CBB_add_asn1_bool
  by unfold_locales (simp_all only: der_bool_get der_bool_Some CBB_add_asn1_bool_writes simp_thms)

section \<open>Properties\<close>

lemma CBB_finish_flush:
  assumes "CBB_finish mal out_set d c = (Some bs, c')"
  shows "\<exists>c1. CBB_flush mal 0 c = (True, c1) \<and> (\<exists>b. cb_base c1 = Some b \<and> bs = bb_buf b)"
  using assms by (auto simp: CBB_finish_def split: prod.splits bool.splits option.splits if_splits)

text \<open>C3: A SEQUENCE of unsigned INTEGERs built field by field and finished is read back: the
  SEQUENCE reader accepts the whole output and the INTEGER reader returns the values in order.\<close>

theorem asn1_uint64s_roundtrip:
  assumes "CBB_init mal cap = (True, c0)" "CBB_add_asn1 mal 0 CBS_ASN1_SEQUENCE c0 = (True, c1)"
    and "put_all CBB_add_asn1_uint64 mal 1 vs c1 = (True, c2)"
    and "CBB_finish mal True 0 c2 = (Some bs, c3)"
  shows "\<exists>contents. CBS_get_asn1 CBS_ASN1_SEQUENCE bs = (Some contents, []) \<and>
    get_all CBS_get_asn1_uint64 (length vs) contents = (Some vs, [])"
proof -
  note c0 = CBB_init_wf [OF assms(1)]
  have op: "cbb_opens 0 (der_tag CBS_ASN1_SEQUENCE) Der c0 c1" using CBB_add_asn1_opens [OF assms(2) c0(1)] .
  then have c1: "cbb_wf c1" "cbb_depth c1 = 1" by (simp_all add: cbb_opens_def)
  let ?xs = "concat (map (\<lambda>v. der_element CBS_ASN1_INTEGER (uint_contents v)) vs)"
  have w: "cbb_writes (Suc 0) ?xs c1 c2"
    using asn1_uint64.put_all_writes [OF assms(3) c1] by simp
  obtain c4 b where fl: "CBB_flush mal 0 c2 = (True, c4)" and b: "cb_base c4 = Some b" "bs = bb_buf b"
    using CBB_finish_flush [OF assms(4)] by blast
  have e: "cbb_writes 0 (der_element CBS_ASN1_SEQUENCE ?xs) c0 c4"
    by (rule cbb_element_writes [OF assms(2) w fl c0(1)])
  then have "cbb_frames c4 = [der_element CBS_ASN1_SEQUENCE ?xs]" "cb_kids c4 = []"
    using c0 by (simp_all add: cbb_writes_def cbb_depth_def cbb_kinds_def)
  then have bs: "bs = der_element CBS_ASN1_SEQUENCE ?xs" using b by (simp add: cbb_frames_def)
  have "prefix_fits Der (length ?xs)" using cbb_opens_close_fits [OF op w fl c0(1)] .
  then have "length ?xs < 2 ^ 32" by simp
  then show ?thesis
    using CBS_get_asn1_der_element [of ?xs CBS_ASN1_SEQUENCE "[]"] asn1_uint64.get_all_enc [of vs "[]"] bs by simp
qed

lemma sample_add_5: "CBB_add_asn1_uint64 zero_malloc 1 5 (sample_cbb 64 [0x30, 0] [1]) = (True, sample_cbb 64 [0x30,0,2,1,5] [1])"
  using sample_close [of "[1]" 1 "Suc (Suc (Suc 0))" "[0x30, 0,2,0,5]" 64]
  by (simp add: CBB_add_asn1_uint64_def sample_simps asn1_tag_defs)

lemma sample_add_200: "CBB_add_asn1_uint64 zero_malloc 1 200 (sample_cbb 64 [0x30, 0,2,1,5] [1]) = (True, sample_cbb 64 [0x30,0,2,1,5,2,2,0,200] [1])"
  using sample_close [of "[1]" 1 "Suc (Suc (Suc (Suc (Suc (Suc 0)))))" "[0x30, 0,2,1,5,2,0,0,200]" 64]
  by (simp add: CBB_add_asn1_uint64_def sample_simps asn1_tag_defs)

theorem asn1_uint64s_roundtrip_witness:
  "\<exists>contents. CBS_get_asn1 CBS_ASN1_SEQUENCE [0x30, 7, 2, 1, 5, 2, 2, 0, 200] = (Some contents, []) \<and>
    get_all CBS_get_asn1_uint64 2 contents = (Some [5, 200], [])"
proof -
  have 1: "CBB_add_asn1 zero_malloc 0 CBS_ASN1_SEQUENCE (sample_cbb 64 [] []) = (True, sample_cbb 64 [0x30, 0] [1])"
    by (simp add: sample_simps asn1_tag_defs)
  have 2: "put_all CBB_add_asn1_uint64 zero_malloc 1 [5, 200] (sample_cbb 64 [0x30, 0] [1]) =
    (True, sample_cbb 64 [0x30,0,2,1,5,2,2,0,200] [1])"
    by (simp only: put_all.simps sample_add_5 sample_add_200 prod.case bool.case)
  have "CBB_flush zero_malloc 0 (sample_cbb 64 [0x30,0,2,1,5,2,2,0,200] [1]) = (True, sample_cbb 64 [0x30,7,2,1,5,2,2,0,200] [])"
    by (simp add: sample_close_root)
  then have 3: "CBB_finish zero_malloc True 0 (sample_cbb 64 [0x30,0,2,1,5,2,2,0,200] [1]) = (Some [0x30,7,2,1,5,2,2,0,200], CBB_zero)"
    by (simp add: CBB_finish_def) (simp add: sample_cbb_def sample_base_def CBB_cleanup_def CBB_zero_def)
  show ?thesis
    using asn1_uint64s_roundtrip [OF sample_init 1 2 3] by (simp only: list.size add_0 add_Suc_right numeral_2_eq_2 Nat.add_0_right)
qed

end
