(* ===== verification/Oid.thy ===== *)
theory Oid
  imports Codec CbbLive
begin

text \<open>
  Object identifiers: the dotted text form and the DER contents
  (\<open>CBS_asn1_oid_to_text\<close> of \<^verbatim>\<open>cbs.c\<close>, \<open>CBB_add_asn1_oid_from_text\<close> of \<^verbatim>\<open>cbb.c\<close>), and that
  each is the inverse of the other.
\<close>

section \<open>The operations\<close>

text \<open>The text \<open>BIO_snprintf\<close> writes for the conversion \<open>PRIu64\<close>.\<close>

fun dec_digits :: "nat \<Rightarrow> u8 list" where
  "dec_digits n =
     (if n < 10 then [word_of_nat (48 + n)] else dec_digits (n div 10) @ [word_of_nat (48 + n mod 10)])"

declare dec_digits.simps [simp del]

definition add_decimal :: "malloc_fn \<Rightarrow> nat \<Rightarrow> u64 \<Rightarrow> cbb \<Rightarrow> bool \<times> cbb" where
  "add_decimal mal d v c = CBB_add_bytes mal d (dec_digits (unat v)) c"

lemma parse_base128_loop_length: "length (snd (parse_base128_loop v bs)) < length bs \<or> bs = []"
proof (induction v bs rule: parse_base128_loop.induct)
  case (2 v b cbs)
  show ?case
  proof (cases "drop_bit (64 - 7) v \<noteq> 0 \<or> (v = 0 \<and> b = 0x80) \<or> b AND 0x80 = 0")
    case True
    then show ?thesis by (auto simp: Let_def)
  next
    case False
    with 2 have "length (snd (parse_base128_loop (push_bit 7 v OR ucast (b AND 0x7f)) cbs)) < length cbs
        \<or> cbs = []" by simp
    with False show ?thesis by (auto simp: Let_def less_Suc_eq)
  qed
qed simp

lemma parse_base128_integer_length:
  "parse_base128_integer bs = (Some v, r) \<Longrightarrow> length r < length bs"
  using parse_base128_loop_length [of 0 bs]
  by (cases bs) (auto simp: parse_base128_integer_def)

function oid_to_text_loop :: "malloc_fn \<Rightarrow> cbs \<Rightarrow> cbb \<Rightarrow> bool \<times> cbb" where
  "oid_to_text_loop mal copy c =
     (if CBS_len copy = 0 then (True, c)
      else case parse_base128_integer copy of
             (None, _) \<Rightarrow> (False, c)
           | (Some v, copy') \<Rightarrow>
               (case CBB_add_u8 mal 0 46 c of
                  (False, c') \<Rightarrow> (False, c')
                | (True, c') \<Rightarrow>
                    (case add_decimal mal 0 v c' of
                       (False, c'') \<Rightarrow> (False, c'')
                     | (True, c'') \<Rightarrow> oid_to_text_loop mal copy' c'')))"
  by pat_completeness auto
termination
  by (relation "measure (\<lambda>(_, bs, _). length bs)")
    (auto dest!: parse_base128_integer_length sym [where t = "parse_base128_integer _"])

declare oid_to_text_loop.simps [simp del]

text \<open>The first component holds two arcs.\<close>

definition oid_first_to_text :: "malloc_fn \<Rightarrow> u64 \<Rightarrow> cbb \<Rightarrow> bool \<times> cbb" where
  "oid_first_to_text mal v c0 =
     (if v \<ge> 80
      then (case CBB_add_bytes mal 0 [50, 46] c0 of
              (False, c1) \<Rightarrow> (False, c1) | (True, c1) \<Rightarrow> add_decimal mal 0 (v - 80) c1)
      else (case add_decimal mal 0 (v div 40) c0 of
              (False, c1) \<Rightarrow> (False, c1)
            | (True, c1) \<Rightarrow>
                (case CBB_add_u8 mal 0 46 c1 of
                   (False, c2) \<Rightarrow> (False, c2)
                 | (True, c2) \<Rightarrow> add_decimal mal 0 (v mod 40) c2)))"

definition CBS_asn1_oid_to_text :: "malloc_fn \<Rightarrow> cbs \<Rightarrow> u8 list option" where
  "CBS_asn1_oid_to_text mal cbs =
     (case CBB_init mal 32 of
        (False, _) \<Rightarrow> None
      | (True, c0) \<Rightarrow>
     (case parse_base128_integer cbs of
        (None, _) \<Rightarrow> None
      | (Some v, copy) \<Rightarrow>
     (case oid_first_to_text mal v c0 of
        (False, _) \<Rightarrow> None
      | (True, c3) \<Rightarrow>
     (case oid_to_text_loop mal copy c3 of
        (False, _) \<Rightarrow> None
      | (True, c4) \<Rightarrow>
     (case CBB_add_u8 mal 0 0 c4 of
        (False, _) \<Rightarrow> None
      | (True, c5) \<Rightarrow> fst (CBB_finish mal True 0 c5))))))"

definition UINT64_MAX :: u64 where
  "UINT64_MAX = 0xffffffffffffffff"

fun dotted_loop :: "u64 \<Rightarrow> bool \<Rightarrow> u64 rd" where
  "dotted_loop out seen [] = (if seen then Some out else None, [])"
| "dotted_loop out seen (u # cbs) =
     (if u = 46 \<and> CBS_len cbs > 0 then (if seen then Some out else None, cbs)
      else if u < 48 \<or> u > 57 \<or> (seen \<and> out = 0) \<or> out > UINT64_MAX div 10 \<or>
              out * 10 > UINT64_MAX - ucast (u - 48) then (None, cbs)
      else dotted_loop (out * 10 + ucast (u - 48)) True cbs)"

definition parse_dotted_decimal :: "u64 rd" where
  "parse_dotted_decimal cbs = dotted_loop 0 False cbs"

lemma dotted_loop_length: "length (snd (dotted_loop out seen bs)) < length bs \<or> bs = []"
  by (induction out seen bs rule: dotted_loop.induct) (auto simp: less_Suc_eq)

lemma parse_dotted_decimal_length:
  "parse_dotted_decimal bs = (Some v, r) \<Longrightarrow> length r < length bs"
  using dotted_loop_length [of 0 False bs]
  by (cases bs) (auto simp: parse_dotted_decimal_def)

function oid_from_text_loop :: "malloc_fn \<Rightarrow> nat \<Rightarrow> cbs \<Rightarrow> cbb \<Rightarrow> bool \<times> cbb" where
  "oid_from_text_loop mal d cbs c =
     (if CBS_len cbs > 0
      then (case parse_dotted_decimal cbs of
              (None, _) \<Rightarrow> (False, c)
            | (Some a, cbs') \<Rightarrow>
                (case add_base128_integer mal d a c of
                   (False, c') \<Rightarrow> (False, c')
                 | (True, c') \<Rightarrow> oid_from_text_loop mal d cbs' c'))
      else (True, c))"
  by pat_completeness auto
termination
  by (relation "measure (\<lambda>(_, _, bs, _). length bs)")
    (auto dest!: parse_dotted_decimal_length sym [where t = "parse_dotted_decimal _"])

declare oid_from_text_loop.simps [simp del]

definition CBB_add_asn1_oid_from_text ::
  "malloc_fn \<Rightarrow> nat \<Rightarrow> u8 list \<Rightarrow> nat \<Rightarrow> cbb \<Rightarrow> bool \<times> cbb" where
  "CBB_add_asn1_oid_from_text mal d txt len c =
     (case CBB_flush mal d c of
        (False, c1) \<Rightarrow> (False, c1)
      | (True, c1) \<Rightarrow>
     (case parse_dotted_decimal (CBS_init txt len) of
        (None, _) \<Rightarrow> (False, c1)
      | (Some a, cbs) \<Rightarrow>
     (case parse_dotted_decimal cbs of
        (None, _) \<Rightarrow> (False, c1)
      | (Some b, cbs') \<Rightarrow>
          if a > 2 \<or> (a < 2 \<and> b > 39) \<or> b > UINT64_MAX - 80 then (False, c1)
          else (case add_base128_integer mal d (40 * a + b) c1 of
                  (False, c2) \<Rightarrow> (False, c2)
                | (True, c2) \<Rightarrow> oid_from_text_loop mal d cbs' c2))))"

section \<open>Decimal numbers\<close>

lemma dec_digits_nonempty [simp]: "dec_digits n \<noteq> []"
  by (subst dec_digits.simps) simp

definition digit :: "nat \<Rightarrow> u8" where
  "digit n = word_of_nat (48 + n)"

lemma unat_digit [simp]: "n < 10 \<Longrightarrow> unat (digit n) = 48 + n"
  by (simp add: digit_def unat_of_nat del: of_nat_add)

lemma digit_facts [simp]:
  assumes "n < 10"
  shows "digit n \<noteq> 46" "\<not> digit n < 48" "\<not> digit n > 57" "unat (digit n - 48) = n"
proof -
  note u = unat_digit [OF assms]
  show "digit n \<noteq> 46" using u by auto
  show "\<not> digit n < 48" "\<not> digit n > 57" using u assms by (simp_all add: word_less_nat_alt)
  then show "unat (digit n - 48) = n" using u by (simp add: unat_sub word_le_nat_alt)
qed

lemma digit_ex:
  assumes "\<not> u < (48 :: u8)" "\<not> u > 57"
  obtains n where "n < 10" "u = digit n"
proof
  show "unat u - 48 < 10" using assms by (simp add: word_less_nat_alt)
  show "u = digit (unat u - 48)"
    using assms by (intro word_eqI_unat) (simp add: word_less_nat_alt)
qed

lemma dec_digits_snoc:
  "dec_digits n = (if n < 10 then [digit n] else dec_digits (n div 10) @ [digit (n mod 10)])"
  by (subst dec_digits.simps) (simp add: digit_def)

lemma decimal_overflow:
  assumes "unat x < 10"
  shows "(out > UINT64_MAX div 10 \<or> out * 10 > UINT64_MAX - x) \<longleftrightarrow> 2 ^ 64 \<le> unat out * 10 + unat x"
proof (cases "unat out \<le> (2 ^ 64 - 1) div 10")
  case True
  then have "unat (out * 10) = unat out * 10"
    by (subst unat_mult_lem [THEN iffD1]) simp_all
  moreover have "unat (UINT64_MAX - x) = 2 ^ 64 - 1 - unat x"
    using assms by (subst unat_sub) (simp_all add: UINT64_MAX_def word_le_nat_alt)
  moreover have "\<not> out > UINT64_MAX div 10"
    using True by (simp add: UINT64_MAX_def word_less_nat_alt unat_div)
  ultimately show ?thesis using assms True by (auto simp: word_less_nat_alt)
next
  case False
  then have "out > UINT64_MAX div 10" by (simp add: UINT64_MAX_def word_less_nat_alt unat_div)
  with False show ?thesis by simp
qed

lemma digit_step:
  assumes "n < 10"
  shows "out * 10 + ucast (digit n - 48) = (word_of_nat (unat out * 10 + n) :: u64)"
proof -
  have "out * 10 + ucast (digit n - 48) = (word_of_nat (unat out * 10 + unat (digit n - 48)) :: u64)"
    by simp
  then show ?thesis using assms by simp
qed

lemma dotted_loop_digit:
  assumes "n < 10"
  shows "dotted_loop out seen (digit n # cbs) =
     (if (seen \<and> out = 0) \<or> 2 ^ 64 \<le> unat out * 10 + n then (None, cbs)
      else dotted_loop (word_of_nat (unat out * 10 + n)) True cbs)"
proof -
  let ?x = "ucast (digit n - 48) :: u64"
  have x: "unat ?x = n" using assms by simp
  note digit_step [OF assms, of out]
  moreover have "(out > UINT64_MAX div 10 \<or> out * 10 > UINT64_MAX - ?x) \<longleftrightarrow> 2 ^ 64 \<le> unat out * 10 + n"
    using decimal_overflow [of ?x out] x assms by simp
  ultimately show ?thesis using assms by auto
qed

lemma dotted_loop_dec_digits:
  "n < 2 ^ 64 \<Longrightarrow> dotted_loop 0 False (dec_digits n @ rest) = dotted_loop (word_of_nat n) True rest"
proof (induction n arbitrary: rest rule: dec_digits.induct)
  case (1 n)
  show ?case
  proof (cases "n < 10")
    case True
    then show ?thesis by (simp add: dec_digits_snoc [of n] dotted_loop_digit del: dotted_loop.simps)
  next
    case False
    have lt: "n div 10 < 2 ^ 64" using 1(2) by (simp add: less_le_trans [OF div_less_dividend])
    have u: "unat (word_of_nat (n div 10) :: u64) = n div 10"
      using lt by (simp add: unat_of_nat)
    then have "(word_of_nat (n div 10) :: u64) \<noteq> 0" using False by (metis div_greater_zero_iff less_irrefl linorder_not_less unat_0 zero_less_numeral)
    then show ?thesis
      using False 1(1) [OF False lt, of "digit (n mod 10) # rest"] 1(2) u
      by (simp add: dec_digits_snoc [of n] dotted_loop_digit del: dotted_loop.simps)
  qed
qed

text \<open>A component ends at the end of the string or at a dot that is not the last character.\<close>

definition dot_tail :: "u8 list \<Rightarrow> u8 list" where
  "dot_tail r = (if r = [] then [] else 46 # r)"

lemma parse_dotted_decimal_digits:
  "parse_dotted_decimal (dec_digits (unat v) @ dot_tail r) = (Some v, r)"
  using dotted_loop_dec_digits [of "unat v" "dot_tail r"]
  by (auto simp: parse_dotted_decimal_def dot_tail_def CBS_len_def)

lemma dotted_loop_Some:
  assumes "dotted_loop out seen bs = (Some v, r)" "\<not> seen \<Longrightarrow> out = 0"
  shows "(if seen then dec_digits (unat out) else []) @ bs = dec_digits (unat v) @ dot_tail r"
  using assms
proof (induction out seen bs rule: dotted_loop.induct)
  case (1 out seen)
  then show ?case by (auto simp: dot_tail_def split: if_splits)
next
  case (2 out seen u cbs)
  show ?case
  proof (cases "u = 46 \<and> CBS_len cbs > 0")
    case True
    with 2(2) show ?thesis by (auto simp: dot_tail_def CBS_len_def split: if_splits)
  next
    case False
    then have nd: "\<not> u < 48" "\<not> u > 57" using 2(2) by (auto split: if_splits)
    then obtain n where n: "n < 10" "u = digit n" by (rule digit_ex)
    have ok: "\<not> ((seen \<and> out = 0) \<or> 2 ^ 64 \<le> unat out * 10 + n)"
      and rec: "dotted_loop (word_of_nat (unat out * 10 + n)) True cbs = (Some v, r)"
      using 2(2) n by (auto simp: dotted_loop_digit simp del: dotted_loop.simps split: if_splits)
    have u: "unat (word_of_nat (unat out * 10 + n) :: u64) = unat out * 10 + n"
      using ok by (simp add: unat_of_nat del: of_nat_add of_nat_mult)
    have cond: "\<not> (u < 48 \<or> u > 57 \<or> (seen \<and> out = 0) \<or> out > UINT64_MAX div 10 \<or>
              out * 10 > UINT64_MAX - ucast (u - 48))"
      using 2(2) False by (auto split: if_splits)
    then have "dec_digits (unat out * 10 + n) @ cbs = dec_digits (unat v) @ dot_tail r"
      using 2(1) [OF False] rec n digit_step [OF n(1), of out] u by simp
    moreover have "dec_digits (unat out * 10 + n) =
        (if seen then dec_digits (unat out) else []) @ [digit n]"
    proof (cases seen)
      case True
      then have "0 < unat out" using ok by (simp add: unat_gt_0)
      then show ?thesis using True n(1) by (subst dec_digits_snoc) simp
    next
      case False
      with 2(3) n(1) show ?thesis by (subst dec_digits_snoc) simp
    qed
    ultimately show ?thesis using n by simp
  qed
qed


lemma parse_dotted_decimal_Some:
  "parse_dotted_decimal bs = (Some v, r) \<Longrightarrow> bs = dec_digits (unat v) @ dot_tail r"
  using dotted_loop_Some [of 0 False bs v r] by (simp add: parse_dotted_decimal_def)

section \<open>Text and contents\<close>

fun oid_text :: "u64 list \<Rightarrow> u8 list" where
  "oid_text [] = []"
| "oid_text (a # arcs) = dec_digits (unat a) @ dot_tail (oid_text arcs)"

definition oid_valid :: "u64 list \<Rightarrow> bool" where
  "oid_valid arcs =
     (case arcs of
        a # b # _ \<Rightarrow> a \<le> 2 \<and> (a < 2 \<longrightarrow> b \<le> 39) \<and> b \<le> UINT64_MAX - 80
      | _ \<Rightarrow> False)"

definition oid_contents :: "u64 list \<Rightarrow> u8 list" where
  "oid_contents arcs =
     (case arcs of
        a # b # rest \<Rightarrow> base128_bytes (40 * a + b) @ concat (map base128_bytes rest)
      | _ \<Rightarrow> [])"

lemma parse_dotted_decimal_text: "parse_dotted_decimal (oid_text (a # arcs)) = (Some a, oid_text arcs)"
  by (simp add: parse_dotted_decimal_digits)

lemma oid_text_inject: "oid_text xs = oid_text ys \<longleftrightarrow> xs = ys"
proof (induction xs arbitrary: ys)
  case Nil
  then show ?case by (cases ys) auto
next
  case (Cons x xs)
  show ?case
  proof
    assume e: "oid_text (x # xs) = oid_text ys"
    then obtain y ys' where ys: "ys = y # ys'" by (cases ys) auto
    from e parse_dotted_decimal_text [of x xs] parse_dotted_decimal_text [of y ys']
    show "x # xs = ys" using Cons.IH by (simp add: ys)
  qed simp
qed

lemma oid_from_text_loop_writes:
  assumes "oid_from_text_loop mal d cbs c = (True, c')" "cbb_wf c" "cbb_depth c = d"
  shows "\<exists>arcs. cbs = oid_text arcs \<and> cbb_writes d (concat (map base128_bytes arcs)) c c'"
  using assms
proof (induction mal d cbs c rule: oid_from_text_loop.induct)
  case (1 mal d cbs c)
  show ?case
  proof (cases "cbs = []")
    case True
    with 1(2-) show ?thesis
      by (intro exI [of _ "[]"]) (simp add: oid_from_text_loop.simps CBS_len_def cbb_writes_refl)
  next
    case False
    with 1(2) obtain a cbs' c1 where p: "parse_dotted_decimal cbs = (Some a, cbs')"
      and add: "add_base128_integer mal d a c = (True, c1)"
      and rest: "oid_from_text_loop mal d cbs' c1 = (True, c')"
      by (subst (asm) oid_from_text_loop.simps)
        (auto simp: CBS_len_def split: prod.splits option.splits bool.splits)
    have w: "cbb_writes d (base128_bytes a) c c1"
      using add_base128_integer_writes [OF add 1(3,4)] .
    then have "cbb_wf c1" "cbb_depth c1 = d" by (simp_all add: cbb_writes_def)
    with 1(1) [OF _ p [symmetric] refl add [symmetric] refl rest] False
    obtain arcs where "cbs' = oid_text arcs" "cbb_writes d (concat (map base128_bytes arcs)) c1 c'"
      by (auto simp: CBS_len_def)
    with parse_dotted_decimal_Some [OF p] cbb_writes_trans [OF w _ 1(3)] show ?thesis
      by (intro exI [of _ "a # arcs"]) simp
  qed
qed

theorem CBB_add_asn1_oid_from_text_writes:
  assumes "CBB_add_asn1_oid_from_text mal d txt len c = (True, c')" "cbb_wf c"
  shows "\<exists>arcs. oid_valid arcs \<and> take len txt = oid_text arcs \<and> cbb_writes d (oid_contents arcs) c c'"
proof -
  from assms(1) obtain c1 a cbs b cbs' c2 where fl: "CBB_flush mal d c = (True, c1)"
    and a: "parse_dotted_decimal (take len txt) = (Some a, cbs)"
    and b: "parse_dotted_decimal cbs = (Some b, cbs')"
    and ok: "\<not> (a > 2 \<or> (a < 2 \<and> b > 39) \<or> b > UINT64_MAX - 80)"
    and add: "add_base128_integer mal d (40 * a + b) c1 = (True, c2)"
    and rest: "oid_from_text_loop mal d cbs' c2 = (True, c')"
    by (auto simp: CBB_add_asn1_oid_from_text_def CBS_init_def
        split: prod.splits option.splits bool.splits if_splits)
  have w0: "cbb_writes d [] c c1" using CBB_flush_writes(1) [OF fl assms(2)] .
  then have wf1: "cbb_wf c1" "cbb_depth c1 = d" by (simp_all add: cbb_writes_def)
  have w1: "cbb_writes d (base128_bytes (40 * a + b)) c1 c2"
    using add_base128_integer_writes [OF add wf1] .
  then have "cbb_wf c2" "cbb_depth c2 = d" by (simp_all add: cbb_writes_def)
  from oid_from_text_loop_writes [OF rest this] obtain arcs where arcs: "cbs' = oid_text arcs"
    "cbb_writes d (concat (map base128_bytes arcs)) c2 c'" by blast
  have "cbs \<noteq> []" using b by (auto simp: parse_dotted_decimal_def)
  then have "take len txt = oid_text (a # b # arcs)"
    using parse_dotted_decimal_Some [OF a] parse_dotted_decimal_Some [OF b] arcs(1) by simp
  moreover have "oid_valid (a # b # arcs)" using ok by (auto simp: oid_valid_def)
  moreover have "cbb_writes d (oid_contents (a # b # arcs)) c c'"
    using cbb_writes_trans [OF cbb_writes_trans [OF w0 w1 assms(2)] arcs(2) assms(2)]
    by (simp add: oid_contents_def)
  ultimately show ?thesis by blast
qed


section \<open>Contents to text\<close>

definition dotted :: "u64 \<Rightarrow> u8 list" where
  "dotted a = 46 # dec_digits (unat a)"

lemma oid_text_dotted: "oid_text (a # arcs) = dec_digits (unat a) @ concat (map dotted arcs)"
proof (induction arcs arbitrary: a)
  case (Cons b arcs)
  have "oid_text (b # arcs) \<noteq> []" by simp
  then show ?case using Cons [of b] by (simp add: dot_tail_def dotted_def)
qed (simp add: dot_tail_def)

lemma length_dec_digits: "n < 10 ^ k \<Longrightarrow> 0 < k \<Longrightarrow> length (dec_digits n) \<le> k"
proof (induction n arbitrary: k rule: dec_digits.induct)
  case (1 n)
  show ?case
  proof (cases "n < 10")
    case True
    with 1(3) show ?thesis by (simp add: dec_digits_snoc [of n])
  next
    case False
    from 1(3) obtain j where "k = Suc j" by (cases k) auto
    moreover have "0 < j" using False 1(2) \<open>k = Suc j\<close> by (cases j) auto
    ultimately have k: "k = Suc j" "0 < j" by auto
    then have "n div 10 < 10 ^ j" using 1(2) by (simp add: less_mult_imp_div_less mult.commute)
    with 1(1) [OF False this k(2)] False k show ?thesis by (simp add: dec_digits_snoc [of n])
  qed
qed

lemma length_dec_digits_u64: "length (dec_digits (unat (v :: u64))) \<le> 20"
  by (rule length_dec_digits) (rule less_le_trans [OF unat_u64_lt], simp_all)

lemma add_decimal_writes:
  assumes "add_decimal mal d v c = (True, c')" "cbb_wf c"
  shows "cbb_writes d (dec_digits (unat v)) c c'"
  using assms length_dec_digits_u64 [of v]
  by (intro CBB_add_bytes_writes) (simp_all add: add_decimal_def)

lemma oid_to_text_loop_writes:
  assumes "oid_to_text_loop mal copy c = (True, c')" "cbb_wf c" "cbb_depth c = 0"
  shows "\<exists>arcs. copy = concat (map base128_bytes arcs) \<and> cbb_writes 0 (concat (map dotted arcs)) c c'"
  using assms
proof (induction mal copy c rule: oid_to_text_loop.induct)
  case (1 mal copy c)
  show ?case
  proof (cases "copy = []")
    case True
    with 1(2-) show ?thesis
      by (intro exI [of _ "[]"]) (simp add: oid_to_text_loop.simps CBS_len_def cbb_writes_refl)
  next
    case False
    with 1(2) obtain a copy' c1 c2 where p: "parse_base128_integer copy = (Some a, copy')"
      and dot: "CBB_add_u8 mal 0 46 c = (True, c1)" and dec: "add_decimal mal 0 a c1 = (True, c2)"
      and rest: "oid_to_text_loop mal copy' c2 = (True, c')"
      by (subst (asm) oid_to_text_loop.simps)
        (auto simp: CBS_len_def split: prod.splits option.splits bool.splits)
    have w1: "cbb_writes 0 [46] c c1" using CBB_add_u8_writes [OF dot 1(3)] .
    then have "cbb_wf c1" by (simp add: cbb_writes_def)
    from cbb_writes_trans [OF w1 add_decimal_writes [OF dec this] 1(3)]
    have w: "cbb_writes 0 (dotted a) c c2" by (simp add: dotted_def)
    then have "cbb_wf c2" "cbb_depth c2 = 0" by (simp_all add: cbb_writes_def)
    with 1(1) [OF _ p [symmetric] refl dot [symmetric] refl dec [symmetric] refl rest] False
    obtain arcs where "copy' = concat (map base128_bytes arcs)" "cbb_writes 0 (concat (map dotted arcs)) c2 c'"
      by (auto simp: CBS_len_def)
    with parse_base128_canonical [OF p] cbb_writes_trans [OF w _ 1(3)] show ?thesis
      by (intro exI [of _ "a # arcs"]) simp
  qed
qed

text \<open>The two arcs in the first component.\<close>

definition oid_split :: "u64 \<Rightarrow> u64 \<times> u64" where
  "oid_split v = (if v \<ge> 80 then (2, v - 80) else (v div 40, v mod 40))"

lemma oid_split_valid:
  assumes "oid_split v = (a, b)"
  shows "oid_valid (a # b # rest)" "40 * a + b = v"
proof -
  show "40 * a + b = v"
  proof (cases "v \<ge> 80")
    case True
    with assms show ?thesis by (auto simp: oid_split_def)
  next
    case False
    then have "a = v div 40" "b = v mod 40" using assms by (auto simp: oid_split_def)
    then show ?thesis by (metis mult_div_mod_eq)
  qed
  show "oid_valid (a # b # rest)"
  proof (cases "v \<ge> 80")
    case True
    then have ab: "a = 2" "b = v - 80" using assms by (simp_all add: oid_split_def)
    have "unat (v - 80) = unat v - 80" using True by (simp add: unat_sub)
    moreover have "unat v < 18446744073709551616" by simp
    then have "unat v - 80 \<le> 18446744073709551535" by linarith
    ultimately have "b \<le> UINT64_MAX - 80" by (simp add: ab UINT64_MAX_def word_le_nat_alt)
    then show ?thesis by (simp add: oid_valid_def ab)
  next
    case False
    then have ab: "a = v div 40" "b = v mod 40" and lt: "unat v < 80"
      using assms by (auto simp: oid_split_def word_le_nat_alt)
    have "unat a = unat v div 40" "unat b = unat v mod 40"
      by (simp_all add: ab unat_div unat_mod)
    then have "unat a \<le> 1" "unat b \<le> 39" using lt by auto
    then show ?thesis by (simp add: oid_valid_def word_le_nat_alt UINT64_MAX_def)
  qed
qed

lemma oid_first_to_text_writes:
  assumes "oid_first_to_text mal v c = (True, c')" "cbb_wf c" "oid_split v = (a, b)"
  shows "cbb_writes 0 (dec_digits (unat a) @ dotted b) c c'"
proof (cases "v \<ge> 80")
  case True
  with assms(1) obtain c1 where two: "CBB_add_bytes mal 0 [50, 46] c = (True, c1)"
    and dec: "add_decimal mal 0 (v - 80) c1 = (True, c')"
    by (auto simp: oid_first_to_text_def split: prod.splits bool.splits)
  have w1: "cbb_writes 0 [50, 46] c c1" using CBB_add_bytes_writes [OF two assms(2)] by simp
  then have "cbb_wf c1" by (simp add: cbb_writes_def)
  from cbb_writes_trans [OF w1 add_decimal_writes [OF dec this] assms(2)]
  show ?thesis using True assms(3)
    by (auto simp: oid_split_def dotted_def dec_digits_snoc [of 2] digit_def)
next
  case False
  with assms(1) obtain c1 c2 where dec: "add_decimal mal 0 (v div 40) c = (True, c1)"
    and dot: "CBB_add_u8 mal 0 46 c1 = (True, c2)" and dec2: "add_decimal mal 0 (v mod 40) c2 = (True, c')"
    by (auto simp: oid_first_to_text_def split: prod.splits bool.splits)
  have w1: "cbb_writes 0 (dec_digits (unat a)) c c1"
    using add_decimal_writes [OF dec assms(2)] False assms(3) by (auto simp: oid_split_def)
  then have wf1: "cbb_wf c1" by (simp add: cbb_writes_def)
  have w2: "cbb_writes 0 [46] c1 c2" using CBB_add_u8_writes [OF dot wf1] .
  then have "cbb_wf c2" by (simp add: cbb_writes_def)
  from add_decimal_writes [OF dec2 this] False assms(3)
  have w3: "cbb_writes 0 (dec_digits (unat b)) c2 c'" by (auto simp: oid_split_def)
  from cbb_writes_trans [OF cbb_writes_trans [OF w1 w2 assms(2)] w3 assms(2)]
  show ?thesis by (simp add: dotted_def)
qed

theorem CBS_asn1_oid_to_text_Some:
  assumes "CBS_asn1_oid_to_text mal cbs = Some t"
  shows "\<exists>arcs. oid_valid arcs \<and> cbs = oid_contents arcs \<and> t = oid_text arcs @ [0]"
proof -
  from assms obtain c0 v copy c3 c4 c5 c6 where init: "CBB_init mal 32 = (True, c0)"
    and p: "parse_base128_integer cbs = (Some v, copy)"
    and first: "oid_first_to_text mal v c0 = (True, c3)"
    and loop: "oid_to_text_loop mal copy c3 = (True, c4)"
    and z: "CBB_add_u8 mal 0 0 c4 = (True, c5)" and fin: "CBB_finish mal True 0 c5 = (Some t, c6)"
    by (cases "CBB_finish mal True 0 (snd (CBB_add_u8 mal 0 0 (snd (oid_to_text_loop mal
          (snd (parse_base128_integer cbs)) (snd (oid_first_to_text mal
            (the (fst (parse_base128_integer cbs))) (snd (CBB_init mal 32))))))))")
      (auto simp: CBS_asn1_oid_to_text_def split: prod.splits option.splits bool.splits)
  note c0 = CBB_init_wf [OF init]
  obtain a b where ab: "oid_split v = (a, b)" by (cases "oid_split v")
  have w0: "cbb_writes 0 (dec_digits (unat a) @ dotted b) c0 c3"
    using oid_first_to_text_writes [OF first c0(1) ab] .
  then have "cbb_wf c3" "cbb_depth c3 = 0" by (simp_all add: cbb_writes_def)
  from oid_to_text_loop_writes [OF loop this] obtain arcs
    where arcs: "copy = concat (map base128_bytes arcs)" and w1: "cbb_writes 0 (concat (map dotted arcs)) c3 c4"
    by blast
  then have "cbb_wf c4" by (simp add: cbb_writes_def)
  with cbb_writes_trans [OF cbb_writes_trans [OF w0 w1 c0(1)] CBB_add_u8_writes [OF z] c0(1)]
  have w: "cbb_writes 0 (oid_text (a # b # arcs) @ [0]) c0 c5"
    by (simp add: oid_text_dotted del: oid_text.simps)
  have "t = oid_text (a # b # arcs) @ [0]"
    using CBB_finish_root [OF fin] w c0 by (simp add: cbb_writes_def cbb_depth_def cbb_kinds_def del: oid_text.simps)
  moreover have "cbs = oid_contents (a # b # arcs)"
    using parse_base128_canonical [OF p] arcs oid_split_valid(2) [OF ab] by (simp add: oid_contents_def)
  ultimately show ?thesis using oid_split_valid(1) [OF ab] by blast
qed



section \<open>Every identifier has a text\<close>

lemma oid_split_of_valid:
  assumes "oid_valid (a # b # rest)"
  shows "oid_split (40 * a + b) = (a, b)"
proof -
  have v: "unat a \<le> 2" "unat a < 2 \<longrightarrow> unat b \<le> 39" "unat b \<le> 2 ^ 64 - 81"
    using assms by (auto simp: oid_valid_def word_le_nat_alt word_less_nat_alt UINT64_MAX_def)
  have u: "unat (40 * a + b) = 40 * unat a + unat b"
    using v by (simp add: unat_word_ariths)
  show ?thesis
  proof (cases "unat a = 2")
    case True
    then have "a = 2" by (intro word_eqI_unat) simp
    then show ?thesis using u v by (simp add: oid_split_def word_le_nat_alt)
  next
    case False
    then have lt: "unat a < 2" "unat b \<le> 39" using v by auto
    then have "\<not> 80 \<le> 40 * a + b" using u by (simp add: word_le_nat_alt)
    moreover have "(40 * a + b) div 40 = a"
      using lt by (intro word_eqI_unat) (simp add: unat_div u)
    moreover have "(40 * a + b) mod 40 = b"
      using lt by (intro word_eqI_unat) (simp add: unat_mod u)
    ultimately show ?thesis by (simp add: oid_split_def)
  qed
qed

lemma oid_to_text_loop_live:
  assumes "malloc_total mal" "cbb_live 0 c" "cbb_base_len c + 21 * length arcs < 2 ^ 64"
  shows "\<exists>c'. oid_to_text_loop mal (concat (map base128_bytes arcs)) c = (True, c') \<and> cbb_live 0 c' \<and>
    cbb_base_len c' \<le> cbb_base_len c + 21 * length arcs"
  using assms(2,3)
proof (induction arcs arbitrary: c)
  case Nil
  then show ?case by (simp add: oid_to_text_loop.simps CBS_len_def)
next
  case (Cons a arcs)
  let ?copy = "base128_bytes a @ concat (map base128_bytes arcs)"
  have ne: "?copy \<noteq> []" by simp
  obtain c1 where c1: "CBB_add_u8 mal 0 46 c = (True, c1)" "cbb_live 0 c1" "cbb_base_len c1 = cbb_base_len c + 1"
    using CBB_add_u8_live [OF assms(1) Cons.prems(1)] Cons.prems(2) by fastforce
  have l: "length (dec_digits (unat a)) \<le> 20" by (rule length_dec_digits_u64)
  then obtain c2 where c2: "add_decimal mal 0 a c1 = (True, c2)" "cbb_live 0 c2"
    "cbb_base_len c2 \<le> cbb_base_len c + 21"
    using CBB_add_bytes_live [OF assms(1) c1(2), of "dec_digits (unat a)"] c1(3) Cons.prems(2)
    unfolding add_decimal_def by fastforce
  from Cons.IH [OF c2(2)] c2(3) Cons.prems(2)
  obtain c3 where "oid_to_text_loop mal (concat (map base128_bytes arcs)) c2 = (True, c3)" "cbb_live 0 c3"
    "cbb_base_len c3 \<le> cbb_base_len c2 + 21 * length arcs" by fastforce
  then show ?case
    using ne c1(1) c2(1,3)
    by (subst oid_to_text_loop.simps) (auto simp: CBS_len_def parse_base128_bytes)
qed

lemma oid_first_to_text_live:
  assumes "malloc_total mal" "cbb_live 0 c" "cbb_base_len c = 0"
  shows "\<exists>c'. oid_first_to_text mal v c = (True, c') \<and> cbb_live 0 c' \<and> cbb_base_len c' \<le> 41"
proof (cases "v \<ge> 80")
  case True
  obtain c1 where c1: "CBB_add_bytes mal 0 [50, 46] c = (True, c1)" "cbb_live 0 c1" "cbb_base_len c1 = 2"
    using CBB_add_bytes_live [OF assms(1,2), of "[50, 46]"] assms(3) by auto
  with True show ?thesis
    using CBB_add_bytes_live [OF assms(1) c1(2), of "dec_digits (unat (v - 80))"]
      length_dec_digits_u64 [of "v - 80"]
    by (fastforce simp: oid_first_to_text_def add_decimal_def)
next
  case False
  let ?a = "dec_digits (unat (v div 40))" and ?b = "dec_digits (unat (v mod 40))"
  have l: "length ?a \<le> 20" "length ?b \<le> 20" by (rule length_dec_digits_u64)+
  obtain c1 where c1: "CBB_add_bytes mal 0 ?a c = (True, c1)" "cbb_live 0 c1" "cbb_base_len c1 = length ?a"
    using CBB_add_bytes_live [OF assms(1,2), of ?a] assms(3) l by fastforce
  obtain c2 where c2: "CBB_add_u8 mal 0 46 c1 = (True, c2)" "cbb_live 0 c2" "cbb_base_len c2 = length ?a + 1"
    using CBB_add_u8_live [OF assms(1) c1(2)] c1(3) l by fastforce
  obtain c3 where "CBB_add_bytes mal 0 ?b c2 = (True, c3)" "cbb_live 0 c3"
    "cbb_base_len c3 = length ?a + 1 + length ?b"
    using CBB_add_bytes_live [OF assms(1) c2(2), of ?b] c2(3) l by fastforce
  with False c1 c2 l show ?thesis by (simp add: oid_first_to_text_def add_decimal_def)
qed

lemma base128_append_inject:
  "base128_bytes x @ r = base128_bytes y @ s \<longleftrightarrow> x = y \<and> r = s"
  using parse_base128_bytes [of x r] parse_base128_bytes [of y s] by (metis option.inject prod.inject)

lemma concat_base128_inject:
  "concat (map base128_bytes xs) = concat (map base128_bytes ys) \<longleftrightarrow> xs = ys"
proof (induction xs arbitrary: ys)
  case Nil
  show ?case by (cases ys) auto
next
  case (Cons x xs)
  show ?case by (cases ys) (simp_all add: base128_append_inject Cons.IH)
qed

lemma oid_contents_inject:
  assumes "oid_valid xs" "oid_valid ys" "oid_contents xs = oid_contents ys"
  shows "xs = ys"
proof -
  obtain a b xs' c d ys' where xs: "xs = a # b # xs'" and ys: "ys = c # d # ys'"
    using assms(1,2) by (auto simp: oid_valid_def split: list.splits)
  have v: "40 * a + b = 40 * c + d" "xs' = ys'"
    using assms(3) by (simp_all add: xs ys oid_contents_def base128_append_inject concat_base128_inject)
  have "(a, b) = oid_split (40 * a + b)" "(c, d) = oid_split (40 * c + d)"
    using oid_split_of_valid [of a b xs'] oid_split_of_valid [of c d ys'] assms(1,2)
    by (simp_all add: xs ys)
  with v have "(a, b) = (c, d)" by simp
  then show ?thesis using v by (simp add: xs ys)
qed

theorem CBS_asn1_oid_to_text_total:
  assumes "oid_valid arcs" "malloc_total mal" "length arcs < 2 ^ 32"
  shows "CBS_asn1_oid_to_text mal (oid_contents arcs) = Some (oid_text arcs @ [0])"
proof -
  obtain a b rest where arcs: "arcs = a # b # rest"
    using assms(1) by (auto simp: oid_valid_def split: list.splits)
  let ?v = "40 * a + b" and ?rest = "concat (map base128_bytes rest)"
  obtain c0 where c0: "CBB_init mal 32 = (True, c0)" "cbb_live 0 c0" "cbb_base_len c0 = 0"
    using CBB_init_live [OF assms(2)] by blast
  obtain c1 where c1: "oid_first_to_text mal ?v c0 = (True, c1)" "cbb_live 0 c1" "cbb_base_len c1 \<le> 41"
    using oid_first_to_text_live [OF assms(2) c0(2,3)] by blast
  obtain c2 where c2: "oid_to_text_loop mal ?rest c1 = (True, c2)" "cbb_live 0 c2"
    "cbb_base_len c2 \<le> 41 + 21 * length rest"
    using oid_to_text_loop_live [OF assms(2) c1(2), of rest] c1(3) assms(3) arcs by fastforce
  obtain c3 where c3: "CBB_add_u8 mal 0 0 c2 = (True, c3)" "cbb_live 0 c3"
    using CBB_add_u8_live [OF assms(2) c2(2)] c2(3) assms(3) arcs by fastforce
  obtain t c4 where "CBB_finish mal True 0 c3 = (Some t, c4)"
    using CBB_finish_live [OF c3(2)] by blast
  with c0 c1 c2 c3 have "CBS_asn1_oid_to_text mal (oid_contents arcs) = Some t"
    by (simp add: CBS_asn1_oid_to_text_def arcs oid_contents_def parse_base128_bytes)
  with CBS_asn1_oid_to_text_Some [OF this] assms(1) show ?thesis
    using oid_contents_inject by auto
qed

section \<open>Properties\<close>

lemma length_oid_contents: "length arcs \<le> Suc (length (oid_contents arcs))" 
proof -
  have "length xs \<le> length (concat (map base128_bytes xs))" for xs
  proof (induction xs)
    case (Cons x xs)
    have "1 \<le> length (base128_bytes x)" by (simp add: Suc_le_eq)
    with Cons show ?case by simp
  qed simp
  note all = this
  show ?thesis
  proof (cases "\<exists>a b rest. arcs = a # b # rest")
    case True
    then obtain a b rest where arcs: "arcs = a # b # rest" by blast
    have "1 \<le> length (base128_bytes (40 * a + b))" by (simp add: Suc_le_eq)
    then show ?thesis using all [of rest] unfolding arcs oid_contents_def by simp
  next
    case False
    then show ?thesis by (cases arcs rule: remdups_adj.cases) auto
  qed
qed

text \<open>C24: With a malloc that does not fail, an identifier has a text iff its bytes are the contents of
  a list of at least two arcs of 64 bits, and the text is the arcs in decimal, joined by dots.\<close>

theorem CBS_asn1_oid_to_text_exact:
  assumes "malloc_total mal" "length cbs < 2 ^ 31"
  shows "CBS_asn1_oid_to_text mal cbs = Some t \<longleftrightarrow>
    (\<exists>arcs. oid_valid arcs \<and> cbs = oid_contents arcs \<and> t = oid_text arcs @ [0])"
proof
  assume "\<exists>arcs. oid_valid arcs \<and> cbs = oid_contents arcs \<and> t = oid_text arcs @ [0]"
  then obtain arcs where a: "oid_valid arcs" "cbs = oid_contents arcs" "t = oid_text arcs @ [0]" by blast
  have "length arcs < 2 ^ 32" using length_oid_contents [of arcs] assms(2) a(2) by simp
  with a assms(1) show "CBS_asn1_oid_to_text mal cbs = Some t"
    by (simp add: CBS_asn1_oid_to_text_total)
qed (rule CBS_asn1_oid_to_text_Some)

theorem CBS_asn1_oid_to_text_exact_witness:
  "CBS_asn1_oid_to_text zero_malloc [42] = Some [49, 46, 50, 0]"
proof -
  have b: "base128_bytes 42 = [42]"
    using base128_len_eq [of 42 1] by (simp add: base128_bytes_def base128_byte_def)
  have "oid_valid [1, 2]" "oid_contents [1, 2] = [42]" "oid_text [1, 2] @ [0] = [49, 46, 50, 0]"
    by (simp_all add: oid_valid_def oid_contents_def UINT64_MAX_def b dec_digits_snoc digit_def dot_tail_def)
  then show ?thesis
    using CBS_asn1_oid_to_text_exact [OF zero_malloc_total, of "[42]" "[49, 46, 50, 0]"] by auto
qed

text \<open>C25: Turning an identifier into text and the text back into contents writes the bytes one started
  from.\<close>

theorem oid_text_roundtrip:
  assumes "CBS_asn1_oid_to_text mal cbs = Some (t @ [0])"
    and "CBB_add_asn1_oid_from_text mal d t (length t) c = (True, c')" "cbb_wf c"
  shows "cbb_writes d cbs c c'"
proof -
  from CBS_asn1_oid_to_text_Some [OF assms(1)] obtain xs
    where xs: "cbs = oid_contents xs" "t = oid_text xs" by auto
  from CBB_add_asn1_oid_from_text_writes [OF assms(2,3)] obtain ys
    where "t = oid_text ys" "cbb_writes d (oid_contents ys) c c'" by auto
  with xs show ?thesis by (simp add: oid_text_inject)
qed

theorem oid_text_roundtrip_witness:
  "cbb_writes 0 [42] (sample_cbb 64 [] []) (sample_cbb 64 [42] [])"
proof -
  have p: "parse_dotted_decimal [49, 46, 50] = (Some 1, [50])" "parse_dotted_decimal [50] = (Some 2, [])"
    by (simp_all add: parse_dotted_decimal_def UINT64_MAX_def CBS_len_def)
  have b: "base128_len 42 = 1" "base128_byte 42 0 = 42" "base128_bytes 42 = [42]"
    using base128_len_eq [of 42 1] by (simp_all add: base128_byte_def base128_bytes_def)
  have wr: "CBB_add_asn1_oid_from_text zero_malloc 0 [49, 46, 50] (length [49, 46, 50 :: u8])
      (sample_cbb 64 [] []) = (True, sample_cbb 64 [42] [])"
    by (simp add: CBB_add_asn1_oid_from_text_def sample_simps p CBS_init_def UINT64_MAX_def
        add_base128_integer_def b oid_from_text_loop.simps CBS_len_def)
  have "oid_valid [1, 2]" "oid_contents [1, 2] = [42]" "oid_text [1, 2] = [49, 46, 50]"
    by (simp_all add: oid_valid_def oid_contents_def UINT64_MAX_def b dec_digits_snoc digit_def dot_tail_def)
  then have dec: "CBS_asn1_oid_to_text zero_malloc [42] = Some ([49, 46, 50] @ [0])"
    using CBS_asn1_oid_to_text_total [OF _ zero_malloc_total, of "[1, 2]"] by simp
  have "cbb_wf (sample_cbb 64 [] [])"
    by (simp add: cbb_wf_def sample_cbb_def sample_base_def buf_ok_def)
  from oid_text_roundtrip [OF dec wr this] show ?thesis .
qed

end
