(* ===== verification/Unicode.thy ===== *)
theory Unicode
  imports Codec
begin

text \<open>
  \<^verbatim>\<open>crypto/bytestring/unicode.c\<close>: one code point at a time in UTF-8, Latin-1, UCS-2 and
  UTF-32. Each reader and writer is an instance of the contract of theory \<open>Codec\<close>: the reader
  accepts exactly the encodings of valid code points, in shortest form.
\<close>

section \<open>The operations\<close>

definition is_valid_code_point :: "u32 \<Rightarrow> bool" where
  "is_valid_code_point v =
     (\<not> (v > 0x10ffff \<or> v AND 0xfffe = 0xfffe \<or> (v \<ge> 0xfdd0 \<and> v \<le> 0xfdef) \<or>
         (v \<ge> 0xd800 \<and> v \<le> 0xdfff)))"

definition BOTTOM_BITS :: "nat \<Rightarrow> u8" where
  "BOTTOM_BITS n = ucast ((push_bit n 1 :: u32) - 1)"

definition TOP_BITS :: "nat \<Rightarrow> u8" where
  "TOP_BITS n = NOT (BOTTOM_BITS (8 - n))"

fun utf8_loop :: "nat \<Rightarrow> u32 \<Rightarrow> u32 rd" where
  "utf8_loop 0 v cbs = (Some v, cbs)"
| "utf8_loop (Suc len) v cbs =
     (case CBS_get_u8 cbs of
        (None, c) \<Rightarrow> (None, c)
      | (Some b, c) \<Rightarrow>
          if b AND TOP_BITS 2 \<noteq> TOP_BITS 1 then (None, c)
          else utf8_loop len (push_bit 6 v OR ucast (b AND BOTTOM_BITS 6)) c)"

text \<open>The form the first byte announces: initial bits of the value, bytes to come, least value.\<close>

definition utf8_lead :: "u8 \<Rightarrow> (u32 \<times> nat \<times> u32) option" where
  "utf8_lead c =
     (if c AND TOP_BITS 3 = TOP_BITS 2 then Some (ucast (c AND BOTTOM_BITS 5), 1, 0x80)
      else if c AND TOP_BITS 4 = TOP_BITS 3 then Some (ucast (c AND BOTTOM_BITS 4), 2, 0x800)
      else if c AND TOP_BITS 5 = TOP_BITS 4 then Some (ucast (c AND BOTTOM_BITS 3), 3, 0x10000)
      else None)"

definition cbs_get_utf8 :: "u32 rd" where
  "cbs_get_utf8 cbs =
     (case CBS_get_u8 cbs of
        (None, c) \<Rightarrow> (None, c)
      | (Some b, c) \<Rightarrow>
          if b \<le> 0x7f then (Some (ucast b), c)
          else case utf8_lead b of
                 None \<Rightarrow> (None, c)
               | Some (v, len, lower_bound) \<Rightarrow>
                   (case utf8_loop len v c of
                      (None, c') \<Rightarrow> (None, c')
                    | (Some v', c') \<Rightarrow>
                        if \<not> is_valid_code_point v' \<or> v' < lower_bound then (None, c')
                        else (Some v', c')))"

definition cbs_get_latin1 :: "u32 rd" where
  "cbs_get_latin1 cbs =
     (case CBS_get_u8 cbs of (None, c) \<Rightarrow> (None, c) | (Some b, c) \<Rightarrow> (Some (ucast b), c))"

definition cbs_get_ucs2_be :: "u32 rd" where
  "cbs_get_ucs2_be cbs =
     (case CBS_get_u16 cbs of
        (None, c) \<Rightarrow> (None, c)
      | (Some v, c) \<Rightarrow> if \<not> is_valid_code_point (ucast v) then (None, c) else (Some (ucast v), c))"

definition cbs_get_utf32_be :: "u32 rd" where
  "cbs_get_utf32_be cbs =
     (case CBS_get_u32 cbs of
        (None, c) \<Rightarrow> (None, c)
      | (Some v, c) \<Rightarrow> if is_valid_code_point v then (Some v, c) else (None, c))"

definition cbb_get_utf8_len :: "u32 \<Rightarrow> nat" where
  "cbb_get_utf8_len u = (if u \<le> 0x7f then 1 else if u \<le> 0x7ff then 2 else if u \<le> 0xffff then 3 else 4)"

text \<open>The \<open>&&\<close>-chain of \<open>CBB_add_u8\<close> calls of a multi-byte form.\<close>

fun add_u8_chain :: "malloc_fn \<Rightarrow> nat \<Rightarrow> u8 list \<Rightarrow> cbb \<Rightarrow> bool \<times> cbb" where
  "add_u8_chain mal d [] c = (True, c)"
| "add_u8_chain mal d (b # bs) c =
     (case CBB_add_u8 mal d b c of (False, c') \<Rightarrow> (False, c') | (True, c') \<Rightarrow> add_u8_chain mal d bs c')"

definition utf8_tail :: "u32 \<Rightarrow> u8" where
  "utf8_tail w = ucast (ucast (TOP_BITS 1) OR (w AND ucast (BOTTOM_BITS 6)))"

definition cbb_add_utf8 :: "malloc_fn \<Rightarrow> nat \<Rightarrow> u32 \<Rightarrow> cbb \<Rightarrow> bool \<times> cbb" where
  "cbb_add_utf8 mal d u c =
     (if \<not> is_valid_code_point u then (False, c)
      else if u \<le> 0x7f then CBB_add_u8 mal d (ucast u) c
      else if u \<le> 0x7ff then
        add_u8_chain mal d [ucast (ucast (TOP_BITS 2) OR drop_bit 6 u), utf8_tail u] c
      else if u \<le> 0xffff then
        add_u8_chain mal d [ucast (ucast (TOP_BITS 3) OR drop_bit 12 u), utf8_tail (drop_bit 6 u),
                            utf8_tail u] c
      else if u \<le> 0x10ffff then
        add_u8_chain mal d [ucast (ucast (TOP_BITS 4) OR drop_bit 18 u), utf8_tail (drop_bit 12 u),
                            utf8_tail (drop_bit 6 u), utf8_tail u] c
      else (False, c))"

definition cbb_add_latin1 :: "malloc_fn \<Rightarrow> nat \<Rightarrow> u32 \<Rightarrow> cbb \<Rightarrow> bool \<times> cbb" where
  "cbb_add_latin1 mal d u c = (if u \<le> 0xff then CBB_add_u8 mal d (ucast u) c else (False, c))"

definition cbb_add_ucs2_be :: "malloc_fn \<Rightarrow> nat \<Rightarrow> u32 \<Rightarrow> cbb \<Rightarrow> bool \<times> cbb" where
  "cbb_add_ucs2_be mal d u c =
     (if u \<le> 0xffff \<and> is_valid_code_point u then CBB_add_u16 mal d (ucast u) c else (False, c))"

definition cbb_add_utf32_be :: "malloc_fn \<Rightarrow> nat \<Rightarrow> u32 \<Rightarrow> cbb \<Rightarrow> bool \<times> cbb" where
  "cbb_add_utf32_be mal d u c =
     (if is_valid_code_point u then CBB_add_u32 mal d u c else (False, c))"

section \<open>The encodings\<close>

definition utf8_bytes :: "u32 \<Rightarrow> u8 list" where
  "utf8_bytes u =
     (if u \<le> 0x7f then [ucast u]
      else if u \<le> 0x7ff then [ucast (ucast (TOP_BITS 2) OR drop_bit 6 u), utf8_tail u]
      else if u \<le> 0xffff then
        [ucast (ucast (TOP_BITS 3) OR drop_bit 12 u), utf8_tail (drop_bit 6 u), utf8_tail u]
      else [ucast (ucast (TOP_BITS 4) OR drop_bit 18 u), utf8_tail (drop_bit 12 u),
            utf8_tail (drop_bit 6 u), utf8_tail u])"

text \<open>Bit patterns as arithmetic on the value of a byte.\<close>

lemma bits_eval:
  "TOP_BITS 1 = 0x80" "TOP_BITS 2 = 0xc0" "TOP_BITS 3 = 0xe0" "TOP_BITS 4 = 0xf0" "TOP_BITS 5 = 0xf8"
  "BOTTOM_BITS 3 = 0x7" "BOTTOM_BITS 4 = 0xf" "BOTTOM_BITS 5 = 0x1f" "BOTTOM_BITS 6 = 0x3f"
  by (simp_all add: TOP_BITS_def BOTTOM_BITS_def)

lemma and_top:
  assumes "n \<le> 8"
  shows "(c AND push_bit n (mask (8 - n)) = push_bit n k) \<longleftrightarrow> drop_bit n c = take_bit (8 - n) (k :: u8)"
proof -
  have "c AND push_bit n (mask (8 - n)) = push_bit n (drop_bit n c)"
    using assms by (intro bit_word_eqI) (auto simp: bit_simps)
  moreover have "push_bit n (drop_bit n c) = push_bit n k \<longleftrightarrow> drop_bit n c = take_bit (8 - n) k"
  proof
    assume e: "push_bit n (drop_bit n c) = push_bit n k"
    show "drop_bit n c = take_bit (8 - n) k"
    proof (rule bit_word_eqI)
      fix m assume "m < LENGTH(8)"
      show "bit (drop_bit n c) m = bit (take_bit (8 - n) k) m"
        using arg_cong [OF e, of "\<lambda>w. bit w (n + m)"] assms
        by (cases "n + m < 8") (auto simp: bit_simps dest: bit_imp_le_length)
    qed
  next
    assume e: "drop_bit n c = take_bit (8 - n) k"
    show "push_bit n (drop_bit n c) = push_bit n k"
      unfolding e using assms by (intro bit_word_eqI) (auto simp: bit_simps)
  qed
  ultimately show ?thesis by simp
qed

lemma lead_tests:
  "c AND 0xe0 = 0xc0 \<longleftrightarrow> unat (c :: u8) div 32 = 6"
  "c AND 0xf0 = 0xe0 \<longleftrightarrow> unat (c :: u8) div 16 = 14"
  "c AND 0xf8 = 0xf0 \<longleftrightarrow> unat (c :: u8) div 8 = 30"
  "c AND 0xc0 = 0x80 \<longleftrightarrow> unat (c :: u8) div 64 = 2"
proof -
  have n: "drop_bit n c = k \<longleftrightarrow> unat c div 2 ^ n = unat k" for n and k :: u8
    by (metis unat_drop_bit word_eqI_unat)
  show "c AND 0xe0 = 0xc0 \<longleftrightarrow> unat c div 32 = 6"
    using and_top [of 5 c 6] n [of 5 6] by (simp add: mask_eq_exp_minus_1)
  show "c AND 0xf0 = 0xe0 \<longleftrightarrow> unat c div 16 = 14"
    using and_top [of 4 c 14] n [of 4 14] by (simp add: mask_eq_exp_minus_1)
  show "c AND 0xf8 = 0xf0 \<longleftrightarrow> unat c div 8 = 30"
    using and_top [of 3 c 30] n [of 3 30] by (simp add: mask_eq_exp_minus_1)
  show "c AND 0xc0 = 0x80 \<longleftrightarrow> unat c div 64 = 2"
    using and_top [of 6 c 2] n [of 6 2] by (simp add: mask_eq_exp_minus_1)
qed

lemma low_bits:
  "unat (c AND 0x7 :: u8) = unat c mod 8" "unat (c AND 0xf :: u8) = unat c mod 16"
  "unat (c AND 0x1f :: u8) = unat c mod 32" "unat (c AND 0x3f :: u8) = unat c mod 64"
  "unat (w AND 0x3f :: u32) = unat w mod 64"
proof -
  have m: "x AND mask n = take_bit n x" for n and x :: "'a::len word" by (simp add: take_bit_eq_mask)
  note t = unsigned_take_bit_eq [where 'a = nat] take_bit_eq_mod [where 'a = nat]
  show "unat (c AND 0x7 :: u8) = unat c mod 8" using m [of c 3] by (simp add: mask_eq_exp_minus_1 t)
  show "unat (c AND 0xf :: u8) = unat c mod 16" using m [of c 4] by (simp add: mask_eq_exp_minus_1 t)
  show "unat (c AND 0x1f :: u8) = unat c mod 32" using m [of c 5] by (simp add: mask_eq_exp_minus_1 t)
  show "unat (c AND 0x3f :: u8) = unat c mod 64" using m [of c 6] by (simp add: mask_eq_exp_minus_1 t)
  show "unat (w AND 0x3f :: u32) = unat w mod 64" using m [of w 6] by (simp add: mask_eq_exp_minus_1 t)
qed

lemma unat_or_lead:
  "unat x < 64 \<Longrightarrow> unat (0x80 OR x :: u32) = 128 + unat x"
  "unat x < 32 \<Longrightarrow> unat (0xc0 OR x :: u32) = 192 + unat x"
  "unat x < 16 \<Longrightarrow> unat (0xe0 OR x :: u32) = 224 + unat x"
  "unat x < 8 \<Longrightarrow> unat (0xf0 OR x :: u32) = 240 + unat x"
  using unat_shift_or [of "2 :: u32" 6 x] unat_shift_or [of "6 :: u32" 5 x]
    unat_shift_or [of "14 :: u32" 4 x] unat_shift_or [of "30 :: u32" 3 x]
  by simp_all

lemma unat_ucast_u32_u8: "unat (ucast (x :: u32) :: u8) = unat x mod 256"
  by (simp add: unsigned_ucast_eq take_bit_eq_mod [where 'a = nat])

lemma unat_utf8_tail: "unat (utf8_tail w) = 128 + unat w mod 64"
proof -
  have "unat (0x80 OR (w AND 0x3f)) = 128 + unat w mod 64"
    by (simp add: unat_or_lead low_bits)
  moreover have "128 + unat w mod 64 < 256" using mod_less_divisor [of 64 "unat w"] by linarith
  ultimately show ?thesis by (simp add: utf8_tail_def bits_eval bits_eval(1) [unfolded One_nat_def] unat_ucast_u32_u8)
qed

lemma utf8_bytes_unat:
  "u \<le> 0x10ffff \<Longrightarrow> map unat (utf8_bytes u) =
     (let n = unat u
      in if n < 0x80 then [n]
         else if n < 0x800 then [192 + n div 64, 128 + n mod 64]
         else if n < 0x10000 then [224 + n div 4096, 128 + n div 64 mod 64, 128 + n mod 64]
         else [240 + n div 262144, 128 + n div 4096 mod 64, 128 + n div 64 mod 64, 128 + n mod 64])"
proof -
  assume u: "u \<le> 0x10ffff"
  then have n: "unat u \<le> 0x10ffff" by (simp add: word_le_nat_alt)
  have l1: "unat u div 64 < 32" if "unat u < 0x800" using that by auto
  have l2: "unat u div 4096 < 16" if "unat u < 0x10000" using that by auto
  have l3: "unat u div 262144 < 8" using n by auto
  show ?thesis
    using l1 l2 l3 n
    by (simp add: utf8_bytes_def Let_def unat_utf8_tail bits_eval unat_ucast_u32_u8 unat_or_lead
        unat_drop_bit word_le_nat_alt)
qed

text \<open>One step of the loop, in numbers.\<close>

lemma utf8_loop_Cons:
  assumes "unat v < 2 ^ 26"
  shows "utf8_loop (Suc len) v (b # r) =
    (if unat b div 64 = 2 then utf8_loop len (word_of_nat (unat v * 64 + unat b mod 64)) r else (None, r))"
proof -
  have "unat (push_bit 6 v OR ucast (b AND 0x3f)) = unat v * 64 + unat b mod 64"
    using unat_shift_or [of v 6 "ucast (b AND 0x3f)"] assms by (simp add: low_bits)
  then have "push_bit 6 v OR ucast (b AND 0x3f) = word_of_nat (unat v * 64 + unat b mod 64)"
    using assms by (intro word_eqI_unat) (simp add: unat_of_nat del: of_nat_add of_nat_mult)
  then show ?thesis using lead_tests(4) [of b] by (simp add: bits_eval bits_eval(1) [unfolded One_nat_def])
qed

lemma utf8_lead_unat:
  "utf8_lead b =
     (if unat b div 32 = 6 then Some (word_of_nat (unat b mod 32), 1, 0x80)
      else if unat b div 16 = 14 then Some (word_of_nat (unat b mod 16), 2, 0x800)
      else if unat b div 8 = 30 then Some (word_of_nat (unat b mod 8), 3, 0x10000)
      else None)"
proof -
  have "ucast (b AND 0x1f) = (word_of_nat (unat b mod 32) :: u32)"
    "ucast (b AND 0xf) = (word_of_nat (unat b mod 16) :: u32)"
    "ucast (b AND 0x7) = (word_of_nat (unat b mod 8) :: u32)"
    by (rule word_eqI_unat, simp add: low_bits unat_of_nat)+
  then show ?thesis by (simp add: utf8_lead_def bits_eval lead_tests)
qed

lemma unat_word_of_nat_u32: "n < 2 ^ 32 \<Longrightarrow> unat (word_of_nat n :: u32) = n"
  by (simp add: unat_of_nat)

lemma utf8_eqI:
  assumes "u \<le> 0x10ffff" "map unat bs = map unat (utf8_bytes u)"
  shows "bs = utf8_bytes u"
proof (rule map_injective [OF assms(2)])
  show "inj (unat :: u8 \<Rightarrow> nat)" by (rule injI) (rule word_eqI_unat)
qed

lemma valid_le: "is_valid_code_point u \<Longrightarrow> u \<le> 0x10ffff"
  by (simp add: is_valid_code_point_def not_less)

text \<open>What the loop computes for one, two and three continuation bytes.\<close>

lemma utf8_loop_step:
  assumes "n < 2 ^ 26"
  shows "utf8_loop (Suc len) (word_of_nat n) (b # r) =
    (if unat b div 64 = 2 then utf8_loop len (word_of_nat (n * 64 + unat b mod 64)) r else (None, r))"
  using utf8_loop_Cons [of "word_of_nat n" len b r] assms by (simp add: unat_word_of_nat_u32)

lemma radix:
  fixes q k m :: nat
  assumes "q < k"
  shows "(m * k + q) div k = m" "(m * k + q) mod k = q"
  using assms by simp_all

lemma radix_tail: "(128 + n mod 64) div 64 = (2 :: nat)" "(128 + n mod 64) mod 64 = (n :: nat) mod 64"
  using radix [of "n mod 64" 64 2] by simp_all

lemma radix_lead:
  "n < 0x800 \<Longrightarrow> (192 + n div 64) div 32 = 6 \<and> (192 + n div 64) mod 32 = n div 64"
  "n < 0x10000 \<Longrightarrow> (224 + n div 4096) div 32 \<noteq> 6 \<and> (224 + n div 4096) div 16 = 14 \<and>
     (224 + n div 4096) mod 16 = n div 4096"
  "n \<le> 0x10ffff \<Longrightarrow> (240 + n div 262144) div 32 \<noteq> 6 \<and> (240 + n div 262144) div 16 \<noteq> 14 \<and>
     (240 + n div 262144) div 8 = 30 \<and> (240 + n div 262144) mod 8 = n div (262144 :: nat)"
proof -
  have "n div 64 < 32" if "n < 0x800" using that by auto
  then show "n < 0x800 \<Longrightarrow> (192 + n div 64) div 32 = 6 \<and> (192 + n div 64) mod 32 = n div 64"
    using radix [of "n div 64" 32 6] by simp
  have "n div 4096 < 16" if "n < 0x10000" using that by auto
  moreover have "(224 + q) div 32 = 7" if "q < 16" for q :: nat using radix [of q 32 7] that by simp
  ultimately show "n < 0x10000 \<Longrightarrow> (224 + n div 4096) div 32 \<noteq> 6 \<and> (224 + n div 4096) div 16 = 14 \<and>
     (224 + n div 4096) mod 16 = n div 4096"
    using radix [of "n div 4096" 16 14] by simp
  have q: "n div 262144 < 8" if "n \<le> 0x10ffff" using that by auto
  have d: "(240 + q) div 32 = 7" "(240 + q) div 16 = 15" if "q < 8" for q :: nat
    using radix [of "16 + q" 32 7] radix [of q 16 15] that by simp_all
  show "n \<le> 0x10ffff \<Longrightarrow> (240 + n div 262144) div 32 \<noteq> 6 \<and> (240 + n div 262144) div 16 \<noteq> 14 \<and>
     (240 + n div 262144) div 8 = 30 \<and> (240 + n div 262144) mod 8 = n div (262144 :: nat)"
    using radix [of "n div 262144" 8 30] q d [OF q] by simp
qed

lemma radix_join:
  "n div 4096 * 64 + n div 64 mod 64 = (n :: nat) div 64"
  "n div 262144 * 64 + n div 4096 mod 64 = (n :: nat) div 4096"
proof -
  show "n div 4096 * 64 + n div 64 mod 64 = (n :: nat) div 64"
    using div_mult_mod_eq [of "n div 64" 64] by (simp flip: div_mult2_eq)
  show "n div 262144 * 64 + n div 4096 mod 64 = (n :: nat) div 4096"
    using div_mult_mod_eq [of "n div 4096" 64] by (simp flip: div_mult2_eq)
qed

text \<open>The decoder on the four forms, in numbers.\<close>

lemma utf8_loop_0: "utf8_loop 0 v cbs = (Some v, cbs)"
  by simp

lemma word_of_nat_unat_u32: "word_of_nat (unat (u :: u32)) = u"
  by simp

theorem cbs_get_utf8_enc:
  assumes "is_valid_code_point u"
  shows "cbs_get_utf8 (utf8_bytes u @ r) = (Some u, r)"
proof -
  let ?n = "unat u"
  have le: "?n \<le> 0x10ffff" using valid_le [OF assms] by (simp add: word_le_nat_alt)
  note bytes = utf8_bytes_unat [OF valid_le [OF assms]]
  consider (1) "?n < 0x80" | (2) "0x80 \<le> ?n" "?n < 0x800"
    | (3) "0x800 \<le> ?n" "?n < 0x10000" | (4) "0x10000 \<le> ?n"
    by linarith
  then show ?thesis
  proof cases
    case 1
    then obtain b where "utf8_bytes u = [b]" "unat b = ?n" using bytes by (auto simp: Let_def)
    moreover from this have "ucast b = u" by (intro word_eqI_unat) simp
    ultimately show ?thesis using 1 by (simp add: cbs_get_utf8_def word_le_nat_alt)
  next
    case 2
    then obtain b c where bs: "utf8_bytes u = [b, c]" and b: "unat b = 192 + ?n div 64"
      and c: "unat c = 128 + ?n mod 64"
      using bytes by (auto simp: Let_def)
    have "utf8_lead b = Some (word_of_nat (?n div 64), Suc 0, 0x80)"
      unfolding utf8_lead_unat b using radix_lead(1) [OF 2(2)] by simp
    moreover have "utf8_loop (Suc 0) (word_of_nat (?n div 64)) (c # r) = (Some u, r)"
      using le utf8_loop_step [of "?n div 64" 0 c r] unfolding c radix_tail utf8_loop_0
      by (simp only: div_mult_mod_eq word_of_nat_unat_u32) simp
    moreover have "\<not> b \<le> 0x7f" "\<not> u < 0x80" using b 2 by (simp_all add: word_le_nat_alt word_less_nat_alt)
    ultimately show ?thesis
      using assms by (simp add: cbs_get_utf8_def bs del: utf8_loop.simps(2))
  next
    case 3
    then obtain b c e where bs: "utf8_bytes u = [b, c, e]" and b: "unat b = 224 + ?n div 4096"
      and c: "unat c = 128 + ?n div 64 mod 64" and e: "unat e = 128 + ?n mod 64"
      using bytes by (auto simp: Let_def)
    have "utf8_lead b = Some (word_of_nat (?n div 4096), Suc (Suc 0), 0x800)"
      unfolding utf8_lead_unat b using radix_lead(2) [OF 3(2)] by simp
    moreover have "utf8_loop (Suc (Suc 0)) (word_of_nat (?n div 4096)) (c # e # r)
        = utf8_loop (Suc 0) (word_of_nat (?n div 64)) (e # r)"
      using le utf8_loop_step [of "?n div 4096" "Suc 0" c "e # r"] unfolding c radix_tail radix_join
      by simp
    moreover have "utf8_loop (Suc 0) (word_of_nat (?n div 64)) (e # r) = (Some u, r)"
      using le utf8_loop_step [of "?n div 64" 0 e r] unfolding e radix_tail utf8_loop_0
      by (simp only: div_mult_mod_eq word_of_nat_unat_u32) simp
    moreover have "\<not> b \<le> 0x7f" "\<not> u < 0x800" using b 3 by (simp_all add: word_le_nat_alt word_less_nat_alt)
    ultimately show ?thesis
      using assms by (simp add: cbs_get_utf8_def bs del: utf8_loop.simps(2))
  next
    case 4
    then obtain b c e f where bs: "utf8_bytes u = [b, c, e, f]" and b: "unat b = 240 + ?n div 262144"
      and c: "unat c = 128 + ?n div 4096 mod 64" and e: "unat e = 128 + ?n div 64 mod 64"
      and f: "unat f = 128 + ?n mod 64"
      using bytes by (auto simp: Let_def)
    have "utf8_lead b = Some (word_of_nat (?n div 262144), Suc (Suc (Suc 0)), 0x10000)"
      unfolding utf8_lead_unat b using radix_lead(3) [OF le] by simp
    moreover have "utf8_loop (Suc (Suc (Suc 0))) (word_of_nat (?n div 262144)) (c # e # f # r)
        = utf8_loop (Suc (Suc 0)) (word_of_nat (?n div 4096)) (e # f # r)"
      using le utf8_loop_step [of "?n div 262144" "Suc (Suc 0)" c "e # f # r"]
      unfolding c radix_tail radix_join by simp
    moreover have "utf8_loop (Suc (Suc 0)) (word_of_nat (?n div 4096)) (e # f # r)
        = utf8_loop (Suc 0) (word_of_nat (?n div 64)) (f # r)"
      using le utf8_loop_step [of "?n div 4096" "Suc 0" e "f # r"] unfolding e radix_tail radix_join
      by simp
    moreover have "utf8_loop (Suc 0) (word_of_nat (?n div 64)) (f # r) = (Some u, r)"
      using le utf8_loop_step [of "?n div 64" 0 f r] unfolding f radix_tail utf8_loop_0
      by (simp only: div_mult_mod_eq word_of_nat_unat_u32) simp
    moreover have "\<not> b \<le> 0x7f" "\<not> u < 0x10000" using b 4 by (simp_all add: word_le_nat_alt word_less_nat_alt)
    ultimately show ?thesis
      using assms by (simp add: cbs_get_utf8_def bs del: utf8_loop.simps(2))
  qed
qed


lemma utf8_loop_Some:
  assumes "utf8_loop (Suc k) (word_of_nat n) bs = (Some v, r)" "n < 2 ^ 26"
  obtains c bs' x where "bs = c # bs'" "unat c = 128 + x" "x < 64"
    "utf8_loop k (word_of_nat (n * 64 + x)) bs' = (Some v, r)"
proof -
  from assms(1) obtain c bs' where bs: "bs = c # bs'" by (cases bs) auto
  with assms have d: "unat c div 64 = 2"
    and l: "utf8_loop k (word_of_nat (n * 64 + unat c mod 64)) bs' = (Some v, r)"
    by (auto simp: utf8_loop_step simp del: utf8_loop.simps split: if_splits)
  have "unat c = 128 + unat c mod 64" using div_mult_mod_eq [of "unat c" 64] unfolding d by simp
  from that [OF bs this _ l] show thesis by simp
qed

lemma utf8_lead_Some:
  assumes "utf8_lead b = Some (v, len, lb)"
  obtains (two) n where "v = word_of_nat n" "len = Suc 0" "lb = 0x80" "unat b = 192 + n" "n < 32"
  | (three) n where "v = word_of_nat n" "len = Suc (Suc 0)" "lb = 0x800" "unat b = 224 + n" "n < 16"
  | (four) n where "v = word_of_nat n" "len = Suc (Suc (Suc 0))" "lb = 0x10000" "unat b = 240 + n" "n < 8"
proof -
  consider (1) "unat b div 32 = 6" "v = word_of_nat (unat b mod 32)" "len = 1" "lb = 0x80"
    | (2) "unat b div 16 = 14" "v = word_of_nat (unat b mod 16)" "len = 2" "lb = 0x800"
    | (3) "unat b div 8 = 30" "v = word_of_nat (unat b mod 8)" "len = 3" "lb = 0x10000"
    using assms by (auto simp: utf8_lead_unat split: if_splits)
  then show thesis
  proof cases
    case 1
    then show thesis using two [of "unat b mod 32"] div_mult_mod_eq [of "unat b" 32] by simp
  next
    case 2
    then show thesis using three [of "unat b mod 16"] div_mult_mod_eq [of "unat b" 16] by simp
  next
    case 3
    then show thesis using four [of "unat b mod 8"] div_mult_mod_eq [of "unat b" 8] by simp
  qed
qed

lemma radix2: "y < 64 \<Longrightarrow> (m * 64 + y) div 64 = (m :: nat)" "y < 64 \<Longrightarrow> (m * 64 + y) mod 64 = (y :: nat)"
  by simp_all

lemma div_4096: "(n :: nat) div 4096 = n div 64 div 64" "(n :: nat) div 262144 = n div 64 div 64 div 64"
  by (simp_all flip: div_mult2_eq)

theorem cbs_get_utf8_Some:
  assumes "cbs_get_utf8 bs = (Some u, r)"
  shows "bs = utf8_bytes u @ r \<and> is_valid_code_point u"
proof -
  from assms obtain b c where bs: "bs = b # c" by (cases bs) (auto simp: cbs_get_utf8_def)
  show ?thesis
  proof (cases "b \<le> 0x7f")
    case True
    then have u: "u = ucast b" "c = r" "unat b < 128"
      using assms by (auto simp: cbs_get_utf8_def bs word_le_nat_alt)
    then have "unat u = unat b" by simp
    then have "utf8_bytes u = [b]"
      using u(3) by (intro utf8_eqI [symmetric]) (simp_all add: word_le_nat_alt utf8_bytes_unat)
    moreover have "is_valid_code_point u"
    proof -
      have "\<not> bit u 8" using not_bit_of_less [of u 7 8] u(3) \<open>unat u = unat b\<close> by simp
      moreover have "bit (0xfffe :: u32) 8" by simp
      ultimately have "u AND 0xfffe \<noteq> 0xfffe" by (metis bit_and_iff)
      then show ?thesis
        using u(3) \<open>unat u = unat b\<close> by (simp add: is_valid_code_point_def word_less_nat_alt word_le_nat_alt)
    qed
    ultimately show ?thesis using bs u by simp
  next
    case False
    with assms obtain v len lb where l: "utf8_lead b = Some (v, len, lb)"
      and loop: "utf8_loop len v c = (Some u, r)" and ok: "is_valid_code_point u" "lb \<le> u"
      by (auto simp: cbs_get_utf8_def bs not_less split: option.splits prod.splits if_splits)
    have "bs = utf8_bytes u @ r"
      using l
    proof (cases rule: utf8_lead_Some)
      case (two n)
      then obtain c1 x c' where c: "c = c1 # c'" "unat c1 = 128 + x" "x < 64"
        and e: "utf8_loop 0 (word_of_nat (n * 64 + x)) c' = (Some u, r)"
        using utf8_loop_Some [of 0 n c u r] loop by auto
      then have u: "unat u = n * 64 + x" "c' = r" using two by (auto simp: unat_of_nat simp del: of_nat_add of_nat_mult)
      then have "[b, c1] = utf8_bytes u"
        using two c ok valid_le [OF ok(1)]
        by (intro utf8_eqI) (simp_all add: utf8_bytes_unat word_le_nat_alt radix2 Let_def)
      then show ?thesis using bs c(1) u(2) by (metis append_Cons append_Nil)
    next
      case (three n)
      then obtain c1 x c' where c: "c = c1 # c'" "unat c1 = 128 + x" "x < 64"
        and l1: "utf8_loop (Suc 0) (word_of_nat (n * 64 + x)) c' = (Some u, r)"
        using utf8_loop_Some [of "Suc 0" n c u r] loop by auto
      from three c(3) obtain c2 y c'' where c2: "c' = c2 # c''" "unat c2 = 128 + y" "y < 64"
        and e: "utf8_loop 0 (word_of_nat ((n * 64 + x) * 64 + y)) c'' = (Some u, r)"
        using utf8_loop_Some [OF l1] by auto
      have "(n * 64 + x) * 64 + y < 2 ^ 32" using three c(3) c2(3) by simp
      with e have u: "unat u = (n * 64 + x) * 64 + y" "c'' = r"
        by (auto simp: unat_word_of_nat_u32 simp del: of_nat_add of_nat_mult)
      have "unat u div 64 = n * 64 + x" using radix2(1) [OF c2(3), of "n * 64 + x"] unfolding u(1) .
      then have d: "unat u mod 64 = y" "unat u div 64 mod 64 = x" "unat u div 64 div 64 = n"
        using radix2 [OF c(3), of n] radix2(2) [OF c2(3), of "n * 64 + x"] by (simp_all only: u(1))
      have "0x800 \<le> unat u" "unat u < 0x10000"
        using ok(2) three c(3) c2(3) u(1) by (simp_all add: word_le_nat_alt)
      then have "[b, c1, c2] = utf8_bytes u"
        using three(4) c(2) c2(2)
        by (intro utf8_eqI) (simp_all add: utf8_bytes_unat word_le_nat_alt div_4096 d Let_def)
      then show ?thesis using bs c(1) c2(1) u(2) by (metis append_Cons append_Nil)
    next
      case (four n)
      then obtain c1 x c' where c: "c = c1 # c'" "unat c1 = 128 + x" "x < 64"
        and l1: "utf8_loop (Suc (Suc 0)) (word_of_nat (n * 64 + x)) c' = (Some u, r)"
        using utf8_loop_Some [of "Suc (Suc 0)" n c u r] loop by auto
      from four c(3) obtain c2 y c'' where c2: "c' = c2 # c''" "unat c2 = 128 + y" "y < 64"
        and l2: "utf8_loop (Suc 0) (word_of_nat ((n * 64 + x) * 64 + y)) c'' = (Some u, r)"
        using utf8_loop_Some [OF l1] by auto
      from four c(3) c2(3) obtain c3 z c''' where c3: "c'' = c3 # c'''" "unat c3 = 128 + z" "z < 64"
        and e: "utf8_loop 0 (word_of_nat (((n * 64 + x) * 64 + y) * 64 + z)) c''' = (Some u, r)"
        using utf8_loop_Some [OF l2] by auto
      have "((n * 64 + x) * 64 + y) * 64 + z < 2 ^ 32" using four c(3) c2(3) c3(3) by simp
      with e have u: "unat u = ((n * 64 + x) * 64 + y) * 64 + z" "c''' = r"
        by (auto simp: unat_word_of_nat_u32 simp del: of_nat_add of_nat_mult)
      have q: "unat u div 64 = (n * 64 + x) * 64 + y"
        using radix2(1) [OF c3(3), of "(n * 64 + x) * 64 + y"] unfolding u(1) .
      then have q2: "unat u div 64 div 64 = n * 64 + x" "unat u div 64 mod 64 = y"
        using radix2 [OF c2(3), of "n * 64 + x"] by (simp_all only:)
      then have d: "unat u mod 64 = z" "unat u div 64 mod 64 = y" "unat u div 64 div 64 mod 64 = x"
        "unat u div 64 div 64 div 64 = n"
        using radix2 [OF c(3), of n] radix2(2) [OF c3(3), of "(n * 64 + x) * 64 + y"]
        by (simp_all only: u(1))
      have "0x10000 \<le> unat u" "unat u \<le> 0x10ffff"
        using ok(2) four valid_le [OF ok(1)] by (simp_all add: word_le_nat_alt)
      then have "[b, c1, c2, c3] = utf8_bytes u"
        using four(4) c(2) c2(2) c3(2)
        by (intro utf8_eqI) (simp_all add: utf8_bytes_unat word_le_nat_alt div_4096 d Let_def)
      then show ?thesis using bs c(1) c2(1) c3(1) u(2) by (metis append_Cons append_Nil)
    qed
    with ok show ?thesis by simp
  qed
qed


section \<open>The codecs\<close>

lemma add_u8_chain_writes:
  assumes "add_u8_chain mal d bs c = (True, c')" "cbb_wf c" "cbb_depth c = d"
  shows "cbb_writes d bs c c'"
  using assms
proof (induction mal d bs c rule: add_u8_chain.induct)
  case (1 mal d c)
  then show ?case by (simp add: cbb_writes_refl)
next
  case (2 mal d b bs c)
  from 2(2) obtain c1 where u8: "CBB_add_u8 mal d b c = (True, c1)"
    and rest: "add_u8_chain mal d bs c1 = (True, c')"
    by (auto split: prod.splits bool.splits)
  have w: "cbb_writes d [b] c c1" using CBB_add_u8_writes [OF u8 2(3)] .
  then have "cbb_writes d bs c1 c'" using 2(1) [OF u8 [symmetric] refl rest] by (simp add: cbb_writes_def)
  from cbb_writes_trans [OF w this 2(3)] show ?case by simp
qed

text \<open>The first byte may also close children; the bytes that follow are written where it was.\<close>

lemma add_u8_chain_writes_Cons:
  assumes "add_u8_chain mal d (b # bs) c = (True, c')" "cbb_wf c"
  shows "cbb_writes d (b # bs) c c'"
proof -
  from assms(1) obtain c1 where u8: "CBB_add_u8 mal d b c = (True, c1)"
    and rest: "add_u8_chain mal d bs c1 = (True, c')"
    by (auto split: prod.splits bool.splits)
  have w: "cbb_writes d [b] c c1" using CBB_add_u8_writes [OF u8 assms(2)] .
  then have "cbb_writes d bs c1 c'"
    using add_u8_chain_writes [OF rest] by (simp add: cbb_writes_def)
  from cbb_writes_trans [OF w this assms(2)] show ?thesis by simp
qed

lemma cbb_add_utf8_writes:
  assumes "cbb_add_utf8 mal d u c = (True, c')" "cbb_wf c"
  shows "cbb_writes d (utf8_bytes u) c c' \<and> is_valid_code_point u"
  using assms
  by (auto simp: cbb_add_utf8_def utf8_bytes_def simp del: add_u8_chain.simps split: if_splits
      dest: add_u8_chain_writes_Cons CBB_add_u8_writes)

lemma cbb_get_utf8_len_eq: "is_valid_code_point u \<Longrightarrow> cbb_get_utf8_len u = length (utf8_bytes u)"
  by (simp add: cbb_get_utf8_len_def utf8_bytes_def)

interpretation utf8: cbb_codec is_valid_code_point utf8_bytes cbs_get_utf8 "\<lambda>_. True" cbb_add_utf8
  by unfold_locales (simp_all add: cbs_get_utf8_enc cbs_get_utf8_Some cbb_add_utf8_writes)

lemma ucast_u8_u32_u8: "(ucast (ucast (b :: u8) :: u32) :: u8) = b"
  by (rule ucast_up_down) simp

lemma ucast_u32_u8_u32: "u \<le> 0xff \<Longrightarrow> ucast (ucast (u :: u32) :: u8) = u"
  by (rule word_eqI_unat) (simp add: unat_ucast_u32_u8 word_le_nat_alt)

lemma u8_le_ff: "(ucast (b :: u8) :: u32) \<le> 0xff"
  using unat_u8_lt [of b] by (simp add: word_le_nat_alt del: unat_u8_lt)

interpretation latin1: cbb_codec "\<lambda>u. u \<le> 0xff" "\<lambda>u. [ucast u]" cbs_get_latin1 "\<lambda>_. True" cbb_add_latin1
  by unfold_locales
    (auto simp: cbs_get_latin1_def cbb_add_latin1_def ucast_u8_u32_u8 ucast_u32_u8_u32 u8_le_ff
      CBS_get_u8_Some split: prod.splits option.splits if_splits dest: CBB_add_u8_writes)

lemma unat_ucast_u32_u16: "u \<le> 0xffff \<Longrightarrow> unat (ucast (u :: u32) :: u16) = unat u"
  by (rule unat_ucast_down_id) (simp add: word_le_nat_alt)

lemma ucast_u16_le: "(ucast (v :: u16) :: u32) \<le> 0xffff"
  using unat_lt_pow [of v] by (simp add: word_le_nat_alt unat_ucast_up)

lemma ucs2_get:
  assumes "u \<le> 0xffff" "is_valid_code_point u"
  shows "cbs_get_ucs2_be (be_bytes 2 (unat u) @ r) = (Some u, r)"
proof -
  have "CBS_get_u16 (be_bytes 2 (unat u) @ r) = (Some (ucast u), r)"
    using u16_get [of "ucast u" r] unfolding unat_ucast_u32_u16 [OF assms(1)] .
  moreover have "(ucast (ucast u :: u16) :: u32) = u"
    using assms(1) by (intro word_eqI_unat) (simp add: unat_ucast_up unat_ucast_u32_u16)
  ultimately show ?thesis using assms(2) by (simp add: cbs_get_ucs2_be_def del: be_bytes.simps)
qed

lemma ucs2_Some:
  "cbs_get_ucs2_be bs = (Some u, r) \<Longrightarrow>
   bs = be_bytes 2 (unat u) @ r \<and> u \<le> 0xffff \<and> is_valid_code_point u"
  by (auto simp: cbs_get_ucs2_be_def ucast_u16_le unat_ucast_up simp del: be_bytes.simps
      split: prod.splits option.splits if_splits dest!: u16_Some)

lemma ucs2_put:
  "cbb_add_ucs2_be mal d u c = (True, c') \<Longrightarrow> cbb_wf c \<Longrightarrow>
   cbb_writes d (be_bytes 2 (unat u)) c c' \<and> u \<le> 0xffff \<and> is_valid_code_point u"
  using u16_put [of mal d "ucast u" c c']
  by (auto simp: cbb_add_ucs2_be_def unat_ucast_u32_u16 simp del: be_bytes.simps split: if_splits)

interpretation ucs2: cbb_codec "\<lambda>u. u \<le> 0xffff \<and> is_valid_code_point u" "\<lambda>u. be_bytes 2 (unat u)"
  cbs_get_ucs2_be "\<lambda>_. True" cbb_add_ucs2_be
  by unfold_locales (simp_all only: ucs2_get ucs2_Some ucs2_put simp_thms)

interpretation utf32: cbb_codec is_valid_code_point "\<lambda>u. be_bytes 4 (unat u)" cbs_get_utf32_be
  "\<lambda>_. True" cbb_add_utf32_be
  by unfold_locales
    (auto simp: cbs_get_utf32_be_def cbb_add_utf32_be_def u32_get simp del: be_bytes.simps
      split: prod.splits option.splits if_splits dest: u32_Some u32_put)

section \<open>Properties\<close>

text \<open>C26: The UTF-8 reader accepts exactly the shortest encoding of a valid code point (no surrogate,
  no non-character, at most \<open>0x10ffff\<close>) and returns that code point and the rest.\<close>

theorem cbs_get_utf8_exact:
  "cbs_get_utf8 bs = (Some u, r) \<longleftrightarrow> is_valid_code_point u \<and> bs = utf8_bytes u @ r"
  using cbs_get_utf8_enc cbs_get_utf8_Some by blast

text \<open>A string of code points written with the UTF-8 writer is read back code point by code point.\<close>

theorem utf8_message_roundtrip:
  assumes "CBB_init mal cap = (True, c0)" "put_all cbb_add_utf8 mal 0 us c0 = (True, c1)"
    and "CBB_finish mal True 0 c1 = (Some bs, c2)"
  shows "get_all cbs_get_utf8 (length us) bs = (Some us, [])"
  using utf8.message_roundtrip [OF assms] by blast

theorem utf8_message_roundtrip_witness:
  "get_all cbs_get_utf8 2 [0x41, 0xc3, 0xa9] = (Some [0x41, 0xe9], [])"
proof -
  have v: "is_valid_code_point 0x41" "is_valid_code_point 0xe9"
    by (simp_all add: is_valid_code_point_def)
  have t: "utf8_tail 0xe9 = 0xa9" "ucast (ucast (TOP_BITS 2) OR (3 :: u32)) = (0xc3 :: u8)"
    by (simp_all add: utf8_tail_def TOP_BITS_def BOTTOM_BITS_def)
  have put: "put_all cbb_add_utf8 zero_malloc 0 [0x41, 0xe9] (sample_cbb 64 [] []) =
      (True, sample_cbb 64 [0x41, 0xc3, 0xa9] [])"
    by (simp add: cbb_add_utf8_def v t sample_simps)
  show ?thesis
    using utf8_message_roundtrip [OF sample_init put sample_finish]
    by (simp only: list.size add_0 add_Suc_right numeral_2_eq_2 Nat.add_0_right)
qed

end
