(* ===== verification/Ber.thy ===== *)
theory Ber
  imports Codec CbbLive
begin

text \<open>
  \<^verbatim>\<open>crypto/bytestring/ber.c\<close>: finding BER constructs (indefinite lengths, constructed
  strings) in an element, and rewriting it as DER. What the conversion writes is shown to be
  a sequence of DER elements with no such construct left.
\<close>

section \<open>The walk\<close>

definition kMaxDepth :: nat where
  "kMaxDepth = 2048"

definition string_types :: "u32 list" where
  "string_types =
     [CBS_ASN1_BITSTRING, CBS_ASN1_OCTETSTRING, 0xc, 0x12, 0x13, 0x14, 0x15, 0x16, 0x19, 0x1a,
      0x1b, 0x1c, 0x1e]"

definition is_string_type :: "u32 \<Rightarrow> bool" where
  "is_string_type tag \<longleftrightarrow> tag AND NOT CBS_ASN1_CONSTRUCTED \<in> set string_types"

definition is_indefinite :: "cbs \<Rightarrow> nat \<Rightarrow> bool" where
  "is_indefinite contents header_len \<longleftrightarrow>
     CBS_len contents = header_len \<and> header_len > 0 \<and> CBS_data contents ! (header_len - 1) = 0x80"

lemma CBS_skip_True: "CBS_skip n bs = (True, r) \<Longrightarrow> n \<le> length bs \<and> r = drop n bs"
  by (auto simp: CBS_skip_def cbs_get_def split: if_splits)

lemma ber_element_smaller:
  assumes "CBS_get_any_ber_asn1_element bs = (Some (contents, tag, hl), r)"
  shows "length r < length bs" "length contents \<le> length bs" "CBS_skip hl contents = (True, c) \<Longrightarrow> length c < length bs"
  using cbs_get_any_asn1_element_split [OF assms [unfolded CBS_get_any_ber_asn1_element_def]]
  by (auto dest!: CBS_skip_True)

text \<open>
  The loop of \<open>cbs_find_ber\<close>; \<open>ber_found\<close> is the caller's flag, which each call first clears.
  The result is the return value and the flag.
\<close>

function find_ber_loop :: "nat \<Rightarrow> bool \<Rightarrow> cbs \<Rightarrow> bool \<times> bool" where
  "find_ber_loop depth ber_found in' =
     (if CBS_len in' = 0 then (True, ber_found)
      else case CBS_get_any_ber_asn1_element in' of
        (None, _) \<Rightarrow> (False, ber_found)
      | (Some (contents, tag, header_len), rest) \<Rightarrow>
          if is_indefinite contents header_len then (True, True)
          else if tag AND CBS_ASN1_CONSTRUCTED \<noteq> 0 then
            (if is_string_type tag then (True, True)
             else case CBS_skip header_len contents of
                    (False, _) \<Rightarrow> (False, ber_found)
                  | (True, contents') \<Rightarrow>
                      if depth + 1 > kMaxDepth then (False, ber_found)
                      else (case find_ber_loop (depth + 1) False contents' of
                              (False, b) \<Rightarrow> (False, b)
                            | (True, b) \<Rightarrow> find_ber_loop depth b rest))
          else find_ber_loop depth ber_found rest)"
  by pat_completeness auto
termination
  by (relation "measure (\<lambda>(_, _, bs). length bs)")
    (auto dest: ber_element_smaller sym [where t = "CBS_get_any_ber_asn1_element _"]
      sym [where t = "CBS_skip _ _"])

declare find_ber_loop.simps [simp del]

definition cbs_find_ber :: "cbs \<Rightarrow> nat \<Rightarrow> bool \<times> bool" where
  "cbs_find_ber orig_in depth =
     (if depth > kMaxDepth then (False, False) else find_ber_loop depth False orig_in)"

section \<open>The conversion\<close>

definition is_eoc :: "nat \<Rightarrow> cbs \<Rightarrow> bool" where
  "is_eoc header_len contents \<longleftrightarrow> header_len = 2 \<and> CBS_len contents = 2 \<and> CBS_data contents = [0, 0]"

text \<open>
  Where the body of an element goes: into \<open>out\<close> itself inside a constructed string, else into
  a new child. Result: success, the string tag for the children, the depth of the target.
\<close>

definition convert_target ::
  "malloc_fn \<Rightarrow> u32 \<Rightarrow> nat \<Rightarrow> u32 \<Rightarrow> cbb \<Rightarrow> bool \<times> u32 \<times> nat \<times> cbb" where
  "convert_target mal string_tag out tag c =
     (if string_tag \<noteq> 0 then
        (if tag AND NOT CBS_ASN1_CONSTRUCTED \<noteq> string_tag then (False, string_tag, out, c)
         else (True, string_tag, out, c))
      else
        (let constructed_string = (tag AND CBS_ASN1_CONSTRUCTED \<noteq> 0 \<and> is_string_type tag);
             out_tag = (if constructed_string then tag AND NOT CBS_ASN1_CONSTRUCTED else tag);
             child_string_tag = (if constructed_string then out_tag else string_tag)
         in case CBB_add_asn1 mal out out_tag c of
              (False, c') \<Rightarrow> (False, child_string_tag, out, c')
            | (True, c') \<Rightarrow> (True, child_string_tag, Suc out, c')))"

text \<open>Result: success, the input left, the builder.\<close>

function cbs_convert_ber ::
  "malloc_fn \<Rightarrow> u32 \<Rightarrow> bool \<Rightarrow> nat \<Rightarrow> nat \<Rightarrow> cbs \<Rightarrow> cbb \<Rightarrow> bool \<times> cbs \<times> cbb" where
  "cbs_convert_ber mal string_tag looking_for_eoc depth out in' c =
     (if depth > kMaxDepth then (False, in', c)
      else if CBS_len in' = 0 then (\<not> looking_for_eoc, in', c)
      else case CBS_get_any_ber_asn1_element in' of
        (None, i) \<Rightarrow> (False, i, c)
      | (Some (contents, tag, header_len), i) \<Rightarrow>
          if is_eoc header_len contents then (looking_for_eoc, i, c)
          else case convert_target mal string_tag out tag c of
            (False, _, _, c1) \<Rightarrow> (False, i, c1)
          | (True, child_string_tag, target, c1) \<Rightarrow>
              if is_indefinite contents header_len then
                (case cbs_convert_ber mal child_string_tag True (depth + 1) target i c1 of
                   (False, i', c2) \<Rightarrow> (False, i', c2)
                 | (True, i', c2) \<Rightarrow>
                     (case CBB_flush mal out c2 of
                        (False, c3) \<Rightarrow> (False, i', c3)
                      | (True, c3) \<Rightarrow> cbs_convert_ber mal string_tag looking_for_eoc depth out i' c3))
              else case CBS_skip header_len contents of
                (False, _) \<Rightarrow> (False, i, c1)
              | (True, contents') \<Rightarrow>
                  (case (if tag AND CBS_ASN1_CONSTRUCTED \<noteq> 0
                         then (case cbs_convert_ber mal child_string_tag False (depth + 1) target contents' c1 of
                                 (ok, _, c2) \<Rightarrow> (ok, c2))
                         else CBB_add_bytes mal target (CBS_data contents') c1) of
                     (False, c2) \<Rightarrow> (False, i, c2)
                   | (True, c2) \<Rightarrow>
                       (case CBB_flush mal out c2 of
                          (False, c3) \<Rightarrow> (False, i, c3)
                        | (True, c3) \<Rightarrow> cbs_convert_ber mal string_tag looking_for_eoc depth out i c3)))"
  by pat_completeness auto

lemma ber_element_rest:
  "CBS_get_any_ber_asn1_element bs = (x, i) \<Longrightarrow> length i \<le> length bs"
  using ber_element_smaller(1) [of bs] cbs_get_any_asn1_element_None [of True bs i]
  by (cases x) (auto simp: CBS_get_any_ber_asn1_element_def intro: less_imp_le)

lemma cbs_convert_ber_length:
  assumes "cbs_convert_ber_dom (mal, string_tag, eoc, depth, out, in', c)"
  shows "length (fst (snd (cbs_convert_ber mal string_tag eoc depth out in' c))) \<le> length in'"
  using assms
proof (induction rule: cbs_convert_ber.pinduct)
  case (1 mal string_tag eoc depth out in' c)
  note eq = cbs_convert_ber.psimps [OF 1(1)]
  show ?case
  proof (cases "depth > kMaxDepth \<or> CBS_len in' = 0")
    case True
    then show ?thesis by (auto simp: eq)
  next
    case d: False
    then have d1: "\<not> kMaxDepth < depth" and d2: "CBS_len in' \<noteq> 0" by auto
    obtain x i where g: "CBS_get_any_ber_asn1_element in' = (x, i)" by (cases "CBS_get_any_ber_asn1_element in'")
    note i = ber_element_rest [OF g]
    show ?thesis
    proof (cases "x = None")
      case True
      with d g i show ?thesis by (simp add: eq)
    next
      case False
      then obtain contents tag hl where x: "x = Some (contents, tag, hl)" by (cases x) auto
      obtain ok cst tgt c1 where t: "convert_target mal string_tag out tag c = (ok, cst, tgt, c1)"
        by (cases "convert_target mal string_tag out tag c")
      show ?thesis
      proof (cases "is_eoc hl contents \<or> \<not> ok")
        case True
        with d g x i t show ?thesis by (auto simp: eq)
      next
        case e: False
        then have e1: "\<not> is_eoc hl contents" and ok: "ok = True" by auto
        show ?thesis
        proof (cases "is_indefinite contents hl")
          case True
          obtain ok2 i' c2 where r: "cbs_convert_ber mal cst True (depth + 1) tgt i c1 = (ok2, i', c2)"
            by (cases "cbs_convert_ber mal cst True (depth + 1) tgt i c1")
          obtain ok3 c3 where f: "CBB_flush mal out c2 = (ok3, c3)" by (cases "CBB_flush mal out c2")
          have "length i' \<le> length i"
            using 1(2) [OF d1 d2 g [symmetric] x refl refl e1 t [symmetric] ok refl refl True] r by simp
          moreover have "length (fst (snd (cbs_convert_ber mal string_tag eoc depth out i' c3))) \<le> length i'"
            if "ok2" "ok3"
            using 1(3) [OF d1 d2 g [symmetric] x refl refl e1 t [symmetric] ok refl refl True r [symmetric] _ refl f [symmetric]]
              that by simp
          ultimately show ?thesis
            using d g x i t r f e True by (auto simp: eq split: bool.splits)
        next
          case ni: False
          obtain sk contents' where s: "CBS_skip hl contents = (sk, contents')" by (cases "CBS_skip hl contents")
          obtain ok2 c2 where b: "(if tag AND CBS_ASN1_CONSTRUCTED \<noteq> 0
                         then (case cbs_convert_ber mal cst False (depth + 1) tgt contents' c1 of
                                 (ok, _, c2) \<Rightarrow> (ok, c2))
                         else CBB_add_bytes mal tgt (CBS_data contents') c1) = (ok2, c2)"
            by fastforce
          obtain ok3 c3 where f: "CBB_flush mal out c2 = (ok3, c3)" by (cases "CBB_flush mal out c2")
          have "length (fst (snd (cbs_convert_ber mal string_tag eoc depth out i c3))) \<le> length i"
            if "sk" "ok2" "ok3"
            using 1(5) [OF d1 d2 g [symmetric] x refl refl e1 t [symmetric] ok refl refl ni s [symmetric]
                _ b [symmetric] _ f [symmetric]] that by simp
          then show ?thesis
            using d g x i t b f s e ni by (auto simp: eq split: bool.splits)
        qed
      qed
    qed
  qed
qed

lemma cbs_convert_ber_rest:
  "(ok, i, c') = cbs_convert_ber mal string_tag eoc depth out in' c \<Longrightarrow>
   cbs_convert_ber_dom (mal, string_tag, eoc, depth, out, in', c) \<Longrightarrow>
   (Some (contents, tag, hl), in') = CBS_get_any_ber_asn1_element bs \<Longrightarrow> length i < length bs"
  using cbs_convert_ber_length [of mal string_tag eoc depth out in' c] ber_element_smaller(1) [of bs contents tag hl in']
  by (metis fst_conv le_less_trans snd_conv)

lemma cbs_convert_ber_total: "All cbs_convert_ber_dom"
  by (relation "measure (\<lambda>(_, _, _, _, _, bs, _). length bs)")
    (auto dest: cbs_convert_ber_rest ber_element_smaller sym [where t = "CBS_get_any_ber_asn1_element _"]
      sym [where t = "CBS_skip _ _"])

termination cbs_convert_ber by (rule cbs_convert_ber_total)

declare cbs_convert_ber.simps [simp del]

text \<open>
  The result: the output and whether it is newly allocated storage (else it aliases the input);
  and the input left.
\<close>

definition CBS_asn1_ber_to_der :: "malloc_fn \<Rightarrow> (cbs \<times> bool) rd" where
  "CBS_asn1_ber_to_der mal in' =
     (case cbs_find_ber in' 0 of
        (False, _) \<Rightarrow> (None, in')
      | (True, conversion_needed) \<Rightarrow>
          if \<not> conversion_needed then
            (case CBS_get_any_asn1_element in' of
               (None, i) \<Rightarrow> (None, i) | (Some (out, _, _), i) \<Rightarrow> (Some (out, False), i))
          else
            (case CBB_init mal (CBS_len in') of
               (False, _) \<Rightarrow> (None, in')
             | (True, c) \<Rightarrow>
                 (case cbs_convert_ber mal 0 False 0 0 in' c of
                    (False, i, _) \<Rightarrow> (None, i)
                  | (True, i, c') \<Rightarrow>
                      (case CBB_finish mal True 0 c' of
                         (None, _) \<Rightarrow> (None, i)
                       | (Some der, _) \<Rightarrow> (Some (CBS_init der (length der), True), i)))))"

lemma CBS_get_asn1_length:
  "CBS_get_asn1 tag bs = (Some xs, r) \<Longrightarrow> length r < length bs"
  using cbs_get_any_asn1_element_split [of False bs]
  by (fastforce simp: CBS_get_asn1_def cbs_get_asn1_def CBS_get_any_asn1_element_def
      split: prod.splits option.splits if_splits bool.splits)

function implicit_string_loop :: "malloc_fn \<Rightarrow> u32 \<Rightarrow> cbs \<Rightarrow> cbb \<Rightarrow> bool \<times> cbb" where
  "implicit_string_loop mal inner_tag child c =
     (if CBS_len child > 0
      then (case CBS_get_asn1 inner_tag child of
              (None, _) \<Rightarrow> (False, c)
            | (Some chunk, child') \<Rightarrow>
                (case CBB_add_bytes mal 0 (CBS_data chunk) c of
                   (False, c') \<Rightarrow> (False, c')
                 | (True, c') \<Rightarrow> implicit_string_loop mal inner_tag child' c'))
      else (True, c))"
  by pat_completeness auto
termination
  by (relation "measure (\<lambda>(_, _, bs, _). length bs)")
    (auto dest: CBS_get_asn1_length sym [where t = "CBS_get_asn1 _ _"])

declare implicit_string_loop.simps [simp del]

definition CBS_get_asn1_implicit_string :: "malloc_fn \<Rightarrow> u32 \<Rightarrow> u32 \<Rightarrow> (cbs \<times> bool) rd" where
  "CBS_get_asn1_implicit_string mal outer_tag inner_tag in' =
     (if CBS_peek_asn1_tag outer_tag in'
      then (case CBS_get_asn1 outer_tag in' of
              (None, i) \<Rightarrow> (None, i) | (Some out, i) \<Rightarrow> (Some (out, False), i))
      else case CBB_init mal (CBS_len in') of
        (False, _) \<Rightarrow> (None, in')
      | (True, result) \<Rightarrow>
          (case CBS_get_asn1 (outer_tag OR CBS_ASN1_CONSTRUCTED) in' of
             (None, i) \<Rightarrow> (None, i)
           | (Some child, i) \<Rightarrow>
               (case implicit_string_loop mal inner_tag child result of
                  (False, _) \<Rightarrow> (None, i)
                | (True, result') \<Rightarrow>
                    (case CBB_finish mal True 0 result' of
                       (None, _) \<Rightarrow> (None, i)
                     | (Some data, _) \<Rightarrow> (Some (CBS_init data (length data), True), i)))))"

section \<open>What the conversion writes\<close>

datatype der = Prim u32 "u8 list" | Cons u32 "der list"

fun der_bytes :: "der \<Rightarrow> u8 list" where
  "der_bytes (Prim tag xs) = der_element tag xs"
| "der_bytes (Cons tag ts) = der_element tag (concat (map der_bytes ts))"

text \<open>
  A DER value without constructed strings, nested at most \<open>n\<close> deep, whose lengths fit.
\<close>

fun der_ok :: "nat \<Rightarrow> der \<Rightarrow> bool" where
  "der_ok n (Prim tag xs) \<longleftrightarrow> tag AND CBS_ASN1_CONSTRUCTED = 0 \<and> length xs \<le> 0xfffffffe"
| "der_ok n (Cons tag ts) \<longleftrightarrow>
     0 < n \<and> tag AND CBS_ASN1_CONSTRUCTED \<noteq> 0 \<and> \<not> is_string_type tag \<and>
     length (concat (map der_bytes ts)) \<le> 0xfffffffe \<and> (\<forall>t \<in> set ts. der_ok (n - 1) t)"

definition der_forest :: "nat \<Rightarrow> u8 list \<Rightarrow> bool" where
  "der_forest n bs \<longleftrightarrow> (\<exists>ts. bs = concat (map der_bytes ts) \<and> (\<forall>t \<in> set ts. der_ok n t))"

lemma der_forest_Nil [simp]: "der_forest n []"
  unfolding der_forest_def by (rule exI [of _ "[]"]) simp

lemma der_forest_append: "der_forest n xs \<Longrightarrow> der_forest n ys \<Longrightarrow> der_forest n (xs @ ys)"
  unfolding der_forest_def
proof (elim exE conjE)
  fix ts us
  assume "xs = concat (map der_bytes ts)" "\<forall>t \<in> set ts. der_ok n t"
    "ys = concat (map der_bytes us)" "\<forall>t \<in> set us. der_ok n t"
  then show "\<exists>ts. xs @ ys = concat (map der_bytes ts) \<and> (\<forall>t \<in> set ts. der_ok n t)"
    by (intro exI [of _ "ts @ us"]) auto
qed

lemma der_forest_Prim:
  "tag AND CBS_ASN1_CONSTRUCTED = 0 \<Longrightarrow> length xs \<le> 0xfffffffe \<Longrightarrow> der_forest n (der_element tag xs)"
  unfolding der_forest_def by (rule exI [of _ "[Prim tag xs]"]) simp

lemma der_forest_Cons:
  assumes "tag AND CBS_ASN1_CONSTRUCTED \<noteq> 0" "\<not> is_string_type tag" "length xs \<le> 0xfffffffe"
    "der_forest (n - 1) xs" "0 < n"
  shows "der_forest n (der_element tag xs)"
proof -
  from assms(4) obtain ts where "xs = concat (map der_bytes ts)" "\<forall>t \<in> set ts. der_ok (n - 1) t"
    unfolding der_forest_def by blast
  with assms show ?thesis unfolding der_forest_def by (intro exI [of _ "[Cons tag ts]"]) simp
qed

lemma cleared_tag: "(tag AND NOT CBS_ASN1_CONSTRUCTED) AND CBS_ASN1_CONSTRUCTED = 0"
  by (simp add: and.assoc)

lemma string_type_nonzero: "is_string_type tag \<Longrightarrow> tag AND NOT CBS_ASN1_CONSTRUCTED \<noteq> 0"
  by (auto simp: is_string_type_def string_types_def CBS_ASN1_BITSTRING_def CBS_ASN1_OCTETSTRING_def)

text \<open>What a call promises: a forest outside strings, some bytes inside one.\<close>

definition convert_writes :: "u32 \<Rightarrow> nat \<Rightarrow> nat \<Rightarrow> cbb \<Rightarrow> cbb \<Rightarrow> bool" where
  "convert_writes string_tag depth out c c' \<longleftrightarrow>
     (\<exists>bs. cbb_writes out bs c c' \<and> (string_tag = 0 \<longrightarrow> der_forest (kMaxDepth - depth) bs))"

lemma convert_writes_trans:
  assumes "convert_writes st depth out c c1" "convert_writes st depth out c1 c2" "cbb_wf c"
  shows "convert_writes st depth out c c2"
  using assms cbb_writes_trans der_forest_append unfolding convert_writes_def by metis

lemma convert_writes_wf: "convert_writes st depth out c c' \<Longrightarrow> cbb_wf c' \<and> cbb_depth c' = out"
  unfolding convert_writes_def cbb_writes_def by auto

text \<open>
  One element: the target, whatever its body writes there (for an element read as constructed, a
  forest one level deeper), and the flush.
\<close>

lemma convert_element_writes:
  assumes t: "convert_target mal st out tag c = (True, cst, tgt, c1)" and wf: "cbb_wf c" "cbb_depth c = out"
    and body: "cbb_writes tgt bs c1 c2"
    and deeper: "cst = 0 \<Longrightarrow> tag AND CBS_ASN1_CONSTRUCTED \<noteq> 0 \<Longrightarrow>
      der_forest (kMaxDepth - Suc depth) bs \<and> depth < kMaxDepth"
    and fl: "CBB_flush mal out c2 = (True, c3)"
  shows "convert_writes st depth out c c3"
proof (cases "st = 0")
  case False
  with t have "tgt = out" "c1 = c" by (auto simp: convert_target_def split: if_splits)
  with body have w: "cbb_writes out bs c c2" by simp
  moreover from this have "cbb_writes out [] c2 c3"
    using CBB_flush_writes(1) [OF fl] by (simp add: cbb_writes_def)
  ultimately show ?thesis
    using cbb_writes_trans [OF w _ wf(1)] False unfolding convert_writes_def by blast
next
  case True
  define str where "str = (tag AND CBS_ASN1_CONSTRUCTED \<noteq> 0 \<and> is_string_type tag)"
  define otag where "otag = (if str then tag AND NOT CBS_ASN1_CONSTRUCTED else tag)"
  from t True have add: "CBB_add_asn1 mal out otag c = (True, c1)" and tgt: "tgt = Suc out"
    and cst: "cst = (if str then otag else 0)"
    by (auto simp: convert_target_def Let_def otag_def str_def split: prod.splits bool.splits)
  have w: "cbb_writes out (der_element otag bs) c c3"
    using cbb_element_writes [OF add body [unfolded tgt] fl wf(1)] .
  have len: "length bs \<le> 0xfffffffe"
    using cbb_opens_close_fits [OF CBB_add_asn1_opens [OF add wf(1)] body [unfolded tgt] fl wf(1)] by simp
  have "der_forest (kMaxDepth - depth) (der_element otag bs)"
  proof (cases "str \<or> tag AND CBS_ASN1_CONSTRUCTED = 0")
    case True
    then show ?thesis
      using len cleared_tag by (intro der_forest_Prim) (auto simp: otag_def str_def)
  next
    case False
    then have "\<not> is_string_type tag" "tag AND CBS_ASN1_CONSTRUCTED \<noteq> 0" "otag = tag" "cst = 0"
      by (auto simp: otag_def str_def cst)
    with deeper len show ?thesis by (auto intro!: der_forest_Cons)
  qed
  with w show ?thesis unfolding convert_writes_def by blast
qed

lemma convert_target_wf:
  assumes "convert_target mal st out tag c = (True, cst, tgt, c1)" "cbb_wf c" "cbb_depth c = out"
  shows "cbb_wf c1 \<and> cbb_depth c1 = tgt"
  using assms CBB_add_asn1_opens [of mal out _ c c1]
  by (auto simp: convert_target_def Let_def cbb_opens_def split: if_splits prod.splits bool.splits)

lemma cbs_convert_ber_depth: "cbs_convert_ber mal st eoc depth out in' c = (True, i, c') \<Longrightarrow> depth \<le> kMaxDepth"
  by (subst (asm) cbs_convert_ber.simps) (auto split: if_splits)

lemma cbs_convert_ber_le:
  "cbs_convert_ber mal st eoc depth out in' c = (ok, i, c') \<Longrightarrow> length i \<le> length in'"
  using cbs_convert_ber_length [of mal st eoc depth out in' c] cbs_convert_ber_total by auto

text \<open>The body of the loop for an element that has a target.\<close>

lemma cbs_convert_ber_element:
  assumes "\<not> kMaxDepth < depth" "CBS_len in' \<noteq> 0"
    and "CBS_get_any_ber_asn1_element in' = (Some (contents, tag, hl), j)" "\<not> is_eoc hl contents"
    and "convert_target mal st out tag c = (True, cst, tgt, c1)"
  shows "is_indefinite contents hl \<Longrightarrow> cbs_convert_ber mal st eoc depth out in' c =
      (case cbs_convert_ber mal cst True (depth + 1) tgt j c1 of
         (False, i', c2) \<Rightarrow> (False, i', c2)
       | (True, i', c2) \<Rightarrow>
           (case CBB_flush mal out c2 of
              (False, c3) \<Rightarrow> (False, i', c3)
            | (True, c3) \<Rightarrow> cbs_convert_ber mal st eoc depth out i' c3))"
    and "\<not> is_indefinite contents hl \<Longrightarrow> cbs_convert_ber mal st eoc depth out in' c =
      (case CBS_skip hl contents of
         (False, _) \<Rightarrow> (False, j, c1)
       | (True, contents') \<Rightarrow>
           (case (if tag AND CBS_ASN1_CONSTRUCTED \<noteq> 0
                  then (case cbs_convert_ber mal cst False (depth + 1) tgt contents' c1 of
                          (ok, _, c2) \<Rightarrow> (ok, c2))
                  else CBB_add_bytes mal tgt (CBS_data contents') c1) of
              (False, c2) \<Rightarrow> (False, j, c2)
            | (True, c2) \<Rightarrow>
                (case CBB_flush mal out c2 of
                   (False, c3) \<Rightarrow> (False, j, c3)
                 | (True, c3) \<Rightarrow> cbs_convert_ber mal st eoc depth out j c3)))"
  by (subst cbs_convert_ber.simps, simp add: assms cong: if_cong)+

lemma cbs_convert_ber_writes:
  assumes "cbs_convert_ber mal st eoc depth out in' c = (True, i, c')" "cbb_wf c" "cbb_depth c = out"
    and "length in' < 2 ^ 64"
  shows "convert_writes st depth out c c'"
  using assms
proof (induction mal st eoc depth out in' c arbitrary: i c' rule: cbs_convert_ber.induct)
  case (1 mal st eoc depth out in' c)
  have d1: "\<not> kMaxDepth < depth" using cbs_convert_ber_depth [OF 1(5)] by simp
  have rfl: "convert_writes st depth out c c"
    unfolding convert_writes_def using cbb_writes_refl [OF 1(6,7)] by (intro exI [of _ "[]"]) simp
  show ?case
  proof (cases "CBS_len in' = 0")
    case True
    with 1(5) rfl d1 show ?thesis by (subst (asm) cbs_convert_ber.simps) auto
  next
    case d2: False
    with 1(5) d1 obtain contents tag hl j where
      g: "CBS_get_any_ber_asn1_element in' = (Some (contents, tag, hl), j)"
      by (subst (asm) cbs_convert_ber.simps) (auto split: prod.splits option.splits)
    note small = ber_element_smaller [OF g]
    show ?thesis
    proof (cases "is_eoc hl contents")
      case True
      with 1(5) g d1 d2 rfl show ?thesis by (subst (asm) cbs_convert_ber.simps) auto
    next
      case e: False
      with 1(5) g d1 d2 obtain cst tgt c1 where t: "convert_target mal st out tag c = (True, cst, tgt, c1)"
        by (subst (asm) cbs_convert_ber.simps) (auto split: prod.splits option.splits bool.splits)
      have wf1: "cbb_wf c1" "cbb_depth c1 = tgt" using convert_target_wf [OF t 1(6,7)] by auto
      show ?thesis
      proof (cases "is_indefinite contents hl")
        case True
        with 1(5) obtain j' c2 c3
          where body: "cbs_convert_ber mal cst True (depth + 1) tgt j c1 = (True, j', c2)"
            and fl: "CBB_flush mal out c2 = (True, c3)"
            and rest: "cbs_convert_ber mal st eoc depth out j' c3 = (True, i, c')"
          by (auto simp: cbs_convert_ber_element(1) [OF d1 d2 g e t] split: prod.splits bool.splits)
        have "convert_writes cst (depth + 1) tgt c1 c2"
          using 1(1) [OF d1 d2 g [symmetric] refl refl refl e t [symmetric] refl refl refl True body wf1]
            small 1(8) by simp
        then obtain bs where w: "cbb_writes tgt bs c1 c2"
          "cst = 0 \<longrightarrow> der_forest (kMaxDepth - Suc depth) bs" unfolding convert_writes_def by auto
        have el: "convert_writes st depth out c c3"
          using convert_element_writes [OF t 1(6,7) w(1) _ fl] w(2) cbs_convert_ber_depth [OF body] by simp
        moreover have "convert_writes st depth out c3 c'"
          using 1(2) [OF d1 d2 g [symmetric] refl refl refl e t [symmetric] refl refl refl True
              body [symmetric] refl refl fl [symmetric] refl rest] convert_writes_wf [OF el]
            cbs_convert_ber_le [OF body] small 1(8) by simp
        ultimately show ?thesis using convert_writes_trans 1(6) by blast
      next
        case ni: False
        from 1(5) ni obtain contents' c2 c3
          where sk: "CBS_skip hl contents = (True, contents')"
            and body: "(if tag AND CBS_ASN1_CONSTRUCTED \<noteq> 0
                        then (case cbs_convert_ber mal cst False (depth + 1) tgt contents' c1 of
                                (ok, _, c2) \<Rightarrow> (ok, c2))
                        else CBB_add_bytes mal tgt (CBS_data contents') c1) = (True, c2)"
            and fl: "CBB_flush mal out c2 = (True, c3)"
            and rest: "cbs_convert_ber mal st eoc depth out j c3 = (True, i, c')"
          unfolding cbs_convert_ber_element(2) [OF d1 d2 g e t ni]
          by (auto simp del: if_split_asm split: prod.splits bool.splits)
        have len: "length contents' < 2 ^ 64" "length j < 2 ^ 64" using small(1) small(3) [OF sk] 1(8) by simp_all
        obtain bs where w: "cbb_writes tgt bs c1 c2"
          "cst = 0 \<Longrightarrow> tag AND CBS_ASN1_CONSTRUCTED \<noteq> 0 \<Longrightarrow>
            der_forest (kMaxDepth - Suc depth) bs \<and> depth < kMaxDepth"
        proof (cases "tag AND CBS_ASN1_CONSTRUCTED \<noteq> 0")
          case True
          with body obtain j' where b: "cbs_convert_ber mal cst False (depth + 1) tgt contents' c1 = (True, j', c2)"
            by (auto split: prod.splits)
          have "convert_writes cst (depth + 1) tgt c1 c2"
            using 1(3) [OF d1 d2 g [symmetric] refl refl refl e t [symmetric] refl refl refl ni
                sk [symmetric] refl True b wf1] len by simp
          with that cbs_convert_ber_depth [OF b] show thesis unfolding convert_writes_def by auto
        next
          case False
          with body have "CBB_add_bytes mal tgt contents' c1 = (True, c2)" by (simp add: CBS_data_def)
          from that [OF CBB_add_bytes_writes [OF this wf1(1) len(1)]] False show thesis by simp
        qed
        have el: "convert_writes st depth out c c3"
          using convert_element_writes [OF t 1(6,7) w fl] .
        moreover have "convert_writes st depth out c3 c'"
          using 1(4) [OF d1 d2 g [symmetric] refl refl refl e t [symmetric] refl refl refl ni
              sk [symmetric] refl body [symmetric] refl fl [symmetric] refl rest]
            convert_writes_wf [OF el] len by simp
        ultimately show ?thesis using convert_writes_trans 1(6) by blast
      qed
    qed
  qed
qed

section \<open>The walk on DER\<close>

lemma der_element_not_indefinite:
  "\<not> is_indefinite (der_element tag xs) (length (der_element tag xs) - length xs)"
proof (cases xs)
  case Nil
  have "der_element tag [] = der_tag tag @ [0]"
    by (simp add: der_element_def with_prefix_def der_len_def)
  with Nil show ?thesis by (simp add: is_indefinite_def CBS_data_def CBS_len_def)
next
  case (Cons x ys)
  then have "length (der_element tag xs) - length xs < length (der_element tag xs)"
    using length_der_element_ge [of xs tag] by simp
  then show ?thesis by (simp add: is_indefinite_def CBS_len_def)
qed

lemma der_element_nonempty [simp]: "der_element tag xs \<noteq> []"
  using length_der_tag [of tag] by (auto simp: der_element_def with_prefix_def)

lemma find_ber_loop_Nil: "find_ber_loop depth b [] = (True, b)"
  by (subst find_ber_loop.simps) (simp add: CBS_len_def)

lemma find_ber_loop_der:
  assumes "length xs < 2 ^ 32"
  shows "find_ber_loop depth b (der_element tag xs @ r) =
    (if tag AND CBS_ASN1_CONSTRUCTED \<noteq> 0 then
       (if is_string_type tag then (True, True)
        else if depth + 1 > kMaxDepth then (False, b)
        else (case find_ber_loop (depth + 1) False xs of
                (False, b') \<Rightarrow> (False, b') | (True, b') \<Rightarrow> find_ber_loop depth b' r))
     else find_ber_loop depth b r)"
  by (subst find_ber_loop.simps)
    (simp add: CBS_get_any_ber_asn1_element_def CBS_get_any_asn1_element_der [OF assms]
      der_element_not_indefinite CBS_skip_der_header CBS_len_def)

lemma find_ber_forest:
  assumes "\<forall>t \<in> set ts. der_ok n t" "n + depth = kMaxDepth"
  shows "find_ber_loop depth False (concat (map der_bytes ts)) = (True, False)"
  using assms
proof (induction n arbitrary: depth ts)
  case 0
  then show ?case
  proof (induction ts)
    case (Cons t ts)
    then show ?case by (cases t) (simp_all add: find_ber_loop_der)
  qed (simp add: find_ber_loop_Nil)
next
  case (Suc n)
  from Suc.prems show ?case
  proof (induction ts)
    case (Cons t ts)
    show ?case
    proof (cases t)
      case (Cons tag us)
      with Cons.prems Suc.IH [of us "Suc depth"] Cons.IH show ?thesis
        by (simp add: find_ber_loop_der)
    qed (use Cons in \<open>simp add: find_ber_loop_der\<close>)
  qed (simp add: find_ber_loop_Nil)
qed

text \<open>DER without constructed strings is left alone.\<close>

theorem cbs_find_ber_der: "der_forest kMaxDepth bs \<Longrightarrow> cbs_find_ber bs 0 = (True, False)"
  unfolding der_forest_def cbs_find_ber_def using find_ber_forest [of _ kMaxDepth 0] by auto

text \<open>
  What is rewritten is DER through and through, so a second run finds nothing to do.
\<close>

theorem CBS_asn1_ber_to_der_forest:
  assumes "CBS_asn1_ber_to_der mal in' = (Some (der, True), i)" "length in' < 2 ^ 64"
  shows "der_forest kMaxDepth der" "cbs_find_ber der 0 = (True, False)"
proof -
  from assms(1) obtain c c' c'' der' where init: "CBB_init mal (CBS_len in') = (True, c)"
    and conv: "cbs_convert_ber mal 0 False 0 0 in' c = (True, i, c')"
    and fin: "CBB_finish mal True 0 c' = (Some der', c'')" and der: "der = der'"
    by (auto simp: CBS_asn1_ber_to_der_def CBS_init_def
        split: prod.splits bool.splits option.splits if_splits)
  note c0 = CBB_init_wf [OF init]
  from cbs_convert_ber_writes [OF conv c0(1,2) assms(2)] obtain bs
    where w: "cbb_writes 0 bs c c'" and f: "der_forest kMaxDepth bs"
    unfolding convert_writes_def by auto
  have "der = bs"
    using CBB_finish_root [OF fin] w c0 by (simp add: der cbb_writes_def cbb_depth_def cbb_kinds_def)
  with f show "der_forest kMaxDepth der" by simp
  then show "cbs_find_ber der 0 = (True, False)" by (rule cbs_find_ber_der)
qed

text \<open>Without a BER construct the first element is returned as it is, and it is DER framed.\<close>

theorem CBS_asn1_ber_to_der_alias:
  assumes "CBS_asn1_ber_to_der mal in' = (Some (out, False), i)" "length in' < 2 ^ 64"
  shows "\<exists>tag xs. out = der_element tag xs \<and> in' = out @ i"
proof -
  from assms(1) obtain e tag hl where "CBS_get_any_asn1_element in' = (Some (e, tag, hl), i)" "out = e"
    by (auto simp: CBS_asn1_ber_to_der_def split: prod.splits bool.splits option.splits if_splits)
  with CBS_get_any_asn1_element_canonical [OF _ assms(2)] show ?thesis by blast
qed

lemma tag_tests:
  "(0x20000010 :: u32) AND CBS_ASN1_CONSTRUCTED \<noteq> 0" "\<not> is_string_type 0x20000010"
  "(0x20000004 :: u32) AND CBS_ASN1_CONSTRUCTED \<noteq> 0" "is_string_type 0x20000004"
  by (simp_all add: CBS_ASN1_CONSTRUCTED_def CBS_ASN1_TAG_SHIFT_def is_string_type_def string_types_def
      CBS_ASN1_BITSTRING_def CBS_ASN1_OCTETSTRING_def)

lemma length_small_elements:
  "length (der_element 0x20000010 [] :: u8 list) = 2" "length (der_element 4 []) = 2"
  "length (der_element 0x20000004 (der_element 4 [])) = 4"
  by (simp_all add: der_element_def der_tag_def with_prefix_def der_len_def Let_def
      tag_octet_bits_def CBS_ASN1_TAG_SHIFT_def CBS_ASN1_TAG_NUMBER_MASK_def)

text \<open>
  The flag is cleared again by the next constructed sibling, so what was found in an element is forgotten when a
  constructed element without BER follows.
\<close>

definition plain_constructed :: "u32 \<Rightarrow> bool" where
  "plain_constructed tag \<longleftrightarrow> tag AND CBS_ASN1_CONSTRUCTED \<noteq> 0 \<and> \<not> is_string_type tag"

lemma find_ber_loop_plain:
  assumes "plain_constructed tag" "length xs < 2 ^ 32" "depth < kMaxDepth" "find_ber_loop (Suc depth) False xs = (True, found)"
  shows "find_ber_loop depth b (der_element tag xs @ r) = find_ber_loop depth found r"
  using assms by (simp add: find_ber_loop_der plain_constructed_def)

lemma find_ber_hidden:
  assumes "plain_constructed t" "plain_constructed ta" "plain_constructed tb"
    and "length (der_element ta xs @ der_element tb ys) < 2 ^ 32"
    and "cbs_find_ber xs 2 = (True, found)" "cbs_find_ber ys 2 = (True, False)"
  shows "cbs_find_ber (der_element t (der_element ta xs @ der_element tb ys)) 0 = (True, False)"
    "cbs_find_ber (der_element t (der_element ta xs)) 0 = (True, found)"
proof -
  have len: "length xs < 2 ^ 32" "length ys < 2 ^ 32" "length (der_element ta xs) < 2 ^ 32"
    using assms(4) by (simp_all add: der_element_def with_prefix_def)
  have xs: "find_ber_loop 2 False xs = (True, found)" and ys: "find_ber_loop 2 False ys = (True, False)"
    using assms(5,6) by (simp_all add: cbs_find_ber_def kMaxDepth_def)
  have a: "find_ber_loop 1 False (der_element ta xs @ r) = find_ber_loop 1 found r" for r
    using find_ber_loop_plain [OF assms(2) len(1), of 1] xs by (simp add: kMaxDepth_def numeral_2_eq_2)
  have b: "find_ber_loop 1 found (der_element tb ys @ []) = (True, False)"
    using find_ber_loop_plain [OF assms(3) len(2), of 1 False found "[]"] ys
    by (simp add: kMaxDepth_def numeral_2_eq_2 find_ber_loop_Nil)
  have "find_ber_loop 0 False (der_element t (der_element ta xs @ der_element tb ys) @ []) = (True, False)"
    using find_ber_loop_plain [OF assms(1,4), of 0 False False "[]"] a [of "der_element tb ys"] b
    by (simp add: kMaxDepth_def find_ber_loop_Nil)
  then show "cbs_find_ber (der_element t (der_element ta xs @ der_element tb ys)) 0 = (True, False)"
    by (simp add: cbs_find_ber_def)
  have "find_ber_loop 0 False (der_element t (der_element ta xs) @ []) = (True, found)"
    using find_ber_loop_plain [OF assms(1) len(3), of 0 found False "[]"] a [of "[]"]
    by (simp add: kMaxDepth_def find_ber_loop_Nil)
  then show "cbs_find_ber (der_element t (der_element ta xs)) 0 = (True, found)" by (simp add: cbs_find_ber_def)
qed

section \<open>Implicitly tagged strings\<close>

lemma implicit_string_loop_writes:
  assumes "implicit_string_loop mal inner child c = (True, c')" "cbb_wf c" "cbb_depth c = 0"
    "length child < 2 ^ 64"
  shows "\<exists>chunks. child = concat (map (der_element inner) chunks) \<and> cbb_writes 0 (concat chunks) c c'"
  using assms
proof (induction mal inner child c rule: implicit_string_loop.induct)
  case (1 mal inner child c)
  show ?case
  proof (cases "child = []")
    case True
    with 1(2-) show ?thesis
      by (intro exI [of _ "[]"]) (simp add: implicit_string_loop.simps CBS_len_def cbb_writes_refl)
  next
    case False
    with 1(2) obtain chunk child' c1 where g: "CBS_get_asn1 inner child = (Some chunk, child')"
      and add: "CBB_add_bytes mal 0 chunk c = (True, c1)"
      and rest: "implicit_string_loop mal inner child' c1 = (True, c')"
      by (subst (asm) implicit_string_loop.simps)
        (auto simp: CBS_len_def CBS_data_def split: prod.splits option.splits bool.splits)
    note el = CBS_get_asn1_Some [OF g 1(5)]
    have w: "cbb_writes 0 chunk c c1" using el by (intro CBB_add_bytes_writes [OF add 1(3)]) simp
    then have "cbb_wf c1" "cbb_depth c1 = 0" by (simp_all add: cbb_writes_def)
    with 1(1) [OF _ g [symmetric] refl _ refl rest, unfolded CBS_data_def, OF _ add [symmetric]] False
      CBS_get_asn1_length [OF g] 1(5)
    obtain chunks where "child' = concat (map (der_element inner) chunks)"
      "cbb_writes 0 (concat chunks) c1 c'"
      by (auto simp: CBS_len_def)
    with el cbb_writes_trans [OF w _ 1(3)] show ?thesis by (intro exI [of _ "chunk # chunks"]) simp
  qed
qed

section \<open>Properties\<close>

lemma ber_examples: "CBS_get_any_ber_asn1_element [0x30,0x80,0,0] = (Some ([0x30,0x80], 0x20000010, 2), [0,0])"
   "CBS_get_any_ber_asn1_element [0,0] = (Some ([0,0], 0, 2), [])"
  by (simp_all add: element_eval)

lemma indef: "is_indefinite [0x30,0x80] 2" "\<not> is_eoc 2 [0x30,0x80]" "is_eoc 2 [0,0]"
  by (simp_all add: is_indefinite_def is_eoc_def CBS_len_def CBS_data_def)

lemma find4: "cbs_find_ber  [0x30,0x80,0,0] 0 = (True, True)"
  by (simp add: cbs_find_ber_def find_ber_loop.simps [of _ _ "[0x30,0x80,0,0]"] kMaxDepth_def CBS_len_def ber_examples indef)

lemma conv4: "cbs_convert_ber zero_malloc 0 False 0 0 [0x30,0x80,0,0] (sample_cbb 4 [] []) = (True, [], sample_cbb 4 [0x30,0] [])"
proof -
  have t: "convert_target zero_malloc 0 0 0x20000010 (sample_cbb 4 [] []) = (True, 0, 1, sample_cbb 4 [0x30, 0] [1])"
    by (simp add: convert_target_def tag_tests sample_simps CBS_ASN1_TAG_SHIFT_def CBS_ASN1_TAG_NUMBER_MASK_def)
  have "cbs_convert_ber zero_malloc 0 True 1 1 [0,0] (sample_cbb 4 [0x30, 0] [1]) = (True, [], sample_cbb 4 [0x30, 0] [1])"
    by (simp add: cbs_convert_ber.simps ber_examples indef CBS_len_def kMaxDepth_def)
  moreover have "CBB_flush zero_malloc 0 (sample_cbb 4 [0x30, 0] [1]) = (True, sample_cbb 4 [0x30, 0] [])"
    by (simp add: sample_close_root)
  moreover have "cbs_convert_ber zero_malloc 0 False 0 0 [] c = (True, [], c)" for c
    by (simp add: cbs_convert_ber.simps CBS_len_def kMaxDepth_def)
  ultimately show ?thesis
    by (simp add: cbs_convert_ber.simps [of _ _ _ _ _ "[0x30,0x80,0,0]"] kMaxDepth_def CBS_len_def ber_examples indef t)
qed

text \<open>C4: A result of \<open>CBS_asn1_ber_to_der\<close> in new storage is a sequence of DER elements with no
  constructed string, nested no deeper than the limit, in which the search for BER finds
  nothing; a result that aliases the input is one DER element.\<close>

theorem CBS_asn1_ber_to_der_result:
  assumes "CBS_asn1_ber_to_der mal in' = (Some (out, copied), i)" "length in' < 2 ^ 64"
  shows "if copied then der_forest kMaxDepth out \<and> cbs_find_ber out 0 = (True, False)
    else \<exists>tag xs. out = der_element tag xs \<and> in' = out @ i"
  using assms CBS_asn1_ber_to_der_forest CBS_asn1_ber_to_der_alias by (cases copied) simp_all

theorem CBS_asn1_ber_to_der_result_witness:
  "CBS_asn1_ber_to_der zero_malloc [0x30, 0x80, 0, 0] = (Some ([0x30, 0], True), []) \<and> der_forest kMaxDepth [0x30, 0]"
proof -
  have len: "CBS_len [0x30, 0x80, 0, 0] = 4" by (simp add: CBS_len_def)
  have "CBS_asn1_ber_to_der zero_malloc [0x30, 0x80, 0, 0] = (Some ([0x30, 0], True), [])"
    using len by (simp add: CBS_asn1_ber_to_der_def find4 sample_simps conv4 CBS_init_def)
  moreover from CBS_asn1_ber_to_der_result [OF this] have "der_forest kMaxDepth [0x30, 0]" by simp
  ultimately show ?thesis ..
qed



text \<open>A value of \<open>CBS_get_asn1_implicit_string\<close> is either the contents of an element with the
  outer tag, or the concatenated contents of the elements with the inner tag that make up a
  constructed element with the outer tag.\<close>

theorem CBS_get_asn1_implicit_string_Some:
  assumes "CBS_get_asn1_implicit_string mal outer inner in' = (Some (out, copied), i)" "length in' < 2 ^ 64"
  shows "if copied
    then \<exists>chunks. in' = der_element (outer OR CBS_ASN1_CONSTRUCTED) (concat (map (der_element inner) chunks)) @ i
           \<and> out = concat chunks
    else in' = der_element outer out @ i"
proof (cases "CBS_peek_asn1_tag outer in'")
  case True
  with assms have "CBS_get_asn1 outer in' = (Some out, i)" "\<not> copied"
    by (auto simp: CBS_get_asn1_implicit_string_def split: prod.splits option.splits)
  with CBS_get_asn1_Some [OF _ assms(2)] show ?thesis by auto
next
  case False
  with assms obtain c0 child c1 data c2 where init: "CBB_init mal (CBS_len in') = (True, c0)"
    and g: "CBS_get_asn1 (outer OR CBS_ASN1_CONSTRUCTED) in' = (Some child, i)"
    and loop: "implicit_string_loop mal inner child c0 = (True, c1)"
    and fin: "CBB_finish mal True 0 c1 = (Some data, c2)" and out: "out = data" "copied"
    by (auto simp: CBS_get_asn1_implicit_string_def CBS_init_def
        split: prod.splits option.splits bool.splits)
  note c0 = CBB_init_wf [OF init] and el = CBS_get_asn1_Some [OF g assms(2)]
  have "length child < 2 ^ 64" using el(2) by simp
  from implicit_string_loop_writes [OF loop c0(1,2) this] obtain chunks
    where ch: "child = concat (map (der_element inner) chunks)" and w: "cbb_writes 0 (concat chunks) c0 c1"
    by blast
  have "out = concat chunks"
    using CBB_finish_root [OF fin] w c0 by (simp add: out cbb_writes_def cbb_depth_def cbb_kinds_def)
  with el(1) ch out(2) show ?thesis by auto
qed

theorem CBS_get_asn1_implicit_string_Some_witness:
  "CBS_get_asn1_implicit_string zero_malloc 4 4 [0x24, 4, 4, 2, 65, 66] = (Some ([65, 66], True), []) \<and>
   (\<exists>chunks. [0x24, 4, 4, 2, 65, 66] =
      der_element (4 OR CBS_ASN1_CONSTRUCTED) (concat (map (der_element 4) chunks)) \<and> [65, 66] = concat chunks)"
proof -
  have p: "\<not> CBS_peek_asn1_tag 4 [0x24, 4, 4, 2, 65, 66]"
    by (simp add: CBS_peek_asn1_tag_def element_eval)
  have g: "CBS_get_asn1 0x20000004 [0x24, 4, 4, 2, 65, 66] = (Some [4, 2, 65, 66], [])"
    "CBS_get_asn1 4 [4, 2, 65, 66] = (Some [65, 66], [])"
    by (simp_all add: element_eval)
  have len: "CBS_len [0x24, 4, 4, 2, 65, 66] = 6" by (simp add: CBS_len_def)
  have l: "implicit_string_loop zero_malloc 4 [4, 2, 65, 66] (sample_cbb 6 [] []) = (True, sample_cbb 6 [65, 66] [])"
    by (simp add: implicit_string_loop.simps CBS_len_def g CBS_data_def sample_simps)
  have t: "4 OR CBS_ASN1_CONSTRUCTED = 0x20000004" by (simp add: asn1_tag_defs)
  have e: "CBS_get_asn1_implicit_string zero_malloc 4 4 [0x24, 4, 4, 2, 65, 66] = (Some ([65, 66], True), [])"
    unfolding CBS_get_asn1_implicit_string_def t len using p
    by (simp add: sample_init g l sample_finish CBS_init_def)
  with CBS_get_asn1_implicit_string_Some [OF e] show ?thesis by simp
qed

end
