(* ===== verification/Compare.thy ===== *)
theory Compare
  imports Prelude "HOL-Library.Multiset"
begin

text \<open>
  The interface between the C library's \<open>qsort\<close> and its callers: a comparison function whose
  sign is a total preorder (locale \<open>comparison\<close>), and what \<open>qsort\<close> promises for one. Every
  comparison function the program sorts or searches with is an interpretation of the locale.
\<close>

type_synonym 'a cmp = "'a \<Rightarrow> 'a \<Rightarrow> int"

text \<open>The documented behaviour of \<open>qsort\<close>: a permutation, in ascending order.\<close>

definition qsort_lawful :: "('a cmp \<Rightarrow> 'a list \<Rightarrow> 'a list) \<Rightarrow> 'a cmp \<Rightarrow> bool" where
  "qsort_lawful qs cmp \<longleftrightarrow>
     (\<forall>xs. mset (qs cmp xs) = mset xs \<and> sorted_wrt (\<lambda>a b. cmp a b \<le> 0) (qs cmp xs))"

locale comparison =
  fixes cmp :: "'a cmp"
  assumes sgn_swap: "sgn (cmp b a) = - sgn (cmp a b)"
    and le_trans: "cmp a b \<le> 0 \<Longrightarrow> cmp b c \<le> 0 \<Longrightarrow> cmp a c \<le> 0"
begin

lemma cmp_refl [simp]: "cmp a a = 0"
  using sgn_swap [of a a] by (metis neg_equal_zero sgn_0_0)

lemma swap_less: "cmp b a < 0 \<longleftrightarrow> cmp a b > 0"
  using sgn_swap [of b a] by (metis add.inverse_inverse neg_less_0_iff_less sgn_greater sgn_less)

lemma swap_le: "cmp b a \<le> 0 \<longleftrightarrow> cmp a b \<ge> 0"
  using swap_less [of a b] by auto

lemma eq_sym: "cmp a b = 0 \<longleftrightarrow> cmp b a = 0"
  using swap_less [of a b] swap_less [of b a] by (metis less_irrefl linorder_neqE)

lemma less_trans: "cmp a b < 0 \<Longrightarrow> cmp b c \<le> 0 \<Longrightarrow> cmp a c < 0"
proof (rule ccontr)
  assume h: "cmp a b < 0" "cmp b c \<le> 0" "\<not> cmp a c < 0"
  then have "cmp c a \<le> 0" using swap_le [of c a] by simp
  from le_trans [OF h(2) this] h(1) show False using swap_less [of a b] by simp
qed

lemma le_less_trans: "cmp a b \<le> 0 \<Longrightarrow> cmp b c < 0 \<Longrightarrow> cmp a c < 0"
proof (rule ccontr)
  assume h: "cmp a b \<le> 0" "cmp b c < 0" "\<not> cmp a c < 0"
  then have "cmp c a \<le> 0" using swap_le [of c a] by simp
  from le_trans [OF this h(1)] h(2) show False using swap_less [of b c] by simp
qed

text \<open>When only equal elements compare equal, the sorted order is unique.\<close>

lemma sorted_unique:
  assumes eq: "\<And>a b. cmp a b = 0 \<Longrightarrow> a = b"
    and "sorted_wrt (\<lambda>a b. cmp a b \<le> 0) xs" "sorted_wrt (\<lambda>a b. cmp a b \<le> 0) ys" "mset xs = mset ys"
  shows "xs = ys"
  using assms(2-)
proof (induction xs arbitrary: ys)
  case Nil
  then show ?case by simp
next
  case (Cons x xs)
  then obtain y ys' where ys: "ys = y # ys'" by (cases ys) auto
  have "x = y"
  proof (rule ccontr)
    assume ne: "x \<noteq> y"
    have "x \<in> set ys'" "y \<in> set xs"
      using Cons.prems(3) ne ys by (metis list.set_intros(1) mset_eq_setD set_ConsD)+
    then have "cmp x y \<le> 0" "cmp y x \<le> 0" using Cons.prems(1,2) ys by auto
    then have "cmp x y = 0" using swap_le [of y x] by simp
    with eq ne show False by blast
  qed
  with Cons ys show ?case by simp
qed

end

section \<open>A sort that meets the contract\<close>

text \<open>Stable insertion, as an instance of what is asked of \<open>qsort\<close>.\<close>

fun insert_by :: "('a \<Rightarrow> 'a \<Rightarrow> int) \<Rightarrow> 'a \<Rightarrow> 'a list \<Rightarrow> 'a list" where
  "insert_by cmp x [] = [x]"
| "insert_by cmp x (y # ys) = (if cmp x y \<le> 0 then x # y # ys else y # insert_by cmp x ys)"

definition insertion_qsort :: "('a \<Rightarrow> 'a \<Rightarrow> int) \<Rightarrow> 'a list \<Rightarrow> 'a list" where
  "insertion_qsort cmp xs = foldr (insert_by cmp) xs []"

lemma mset_insert_by [simp]: "mset (insert_by cmp x ys) = add_mset x (mset ys)"
  by (induction ys) auto

context comparison
begin

lemma insert_by_sorted:
  "sorted_wrt (\<lambda>a b. cmp a b \<le> 0) ys \<Longrightarrow> sorted_wrt (\<lambda>a b. cmp a b \<le> 0) (insert_by cmp x ys)"
proof (induction ys)
  case (Cons y ys)
  have set: "set (insert_by cmp x ys) = insert x (set ys)"
    by (metis set_mset_mset set_mset_add_mset_insert mset_insert_by)
  show ?case
  proof (cases "cmp x y \<le> 0")
    case True
    then show ?thesis using Cons.prems by (auto intro: le_trans)
  next
    case False
    then have "cmp y x \<le> 0" using swap_le [of y x] by simp
    with False show ?thesis using Cons by (simp add: set)
  qed
qed simp

lemma insertion_qsort_lawful: "qsort_lawful insertion_qsort cmp"
proof -
  have "mset (insertion_qsort cmp xs) = mset xs \<and> sorted_wrt (\<lambda>a b. cmp a b \<le> 0) (insertion_qsort cmp xs)" for xs
    unfolding insertion_qsort_def by (induction xs) (simp_all add: insert_by_sorted)
  then show ?thesis by (simp add: qsort_lawful_def)
qed

end

end
