(* ===== verification/SetOf.thy ===== *)
theory SetOf
  imports Codec CbbLive Compare
begin

text \<open>
  \<open>CBB_flush_asn1_set_of\<close> of \<^verbatim>\<open>cbb.c\<close>, which puts the elements of a SET OF in DER order, and
  \<open>CBB_finish_i2d\<close> of \<^verbatim>\<open>asn1_compat.c\<close>. libc's \<open>qsort\<close> is the parameter \<open>qs\<close>.
\<close>

section \<open>The operations\<close>

text \<open>The sign of libc's \<open>memcmp\<close> on the first \<open>n\<close> bytes.\<close>

fun memcmp_sign :: "u8 list \<Rightarrow> u8 list \<Rightarrow> int" where
  "memcmp_sign (a # as) (b # bs) = (if a < b then -1 else if a > b then 1 else memcmp_sign as bs)"
| "memcmp_sign as bs = 0"

definition OPENSSL_memcmp :: "u8 list \<Rightarrow> u8 list \<Rightarrow> nat \<Rightarrow> int" where
  "OPENSSL_memcmp a b n = (if n = 0 then 0 else memcmp_sign (take n a) (take n b))"

definition compare_set_of_element :: "cbs \<Rightarrow> cbs \<Rightarrow> int" where
  "compare_set_of_element a b =
     (let a_len = CBS_len a; b_len = CBS_len b;
          min_len = (if a_len < b_len then a_len else b_len);
          ret = OPENSSL_memcmp (CBS_data a) (CBS_data b) min_len
      in if ret \<noteq> 0 then ret
         else if a_len = b_len then 0
         else if a_len < b_len then -1 else 1)"

lemma any_element_smaller:
  "CBS_get_any_asn1_element bs = (Some (e, tag, hl), r) \<Longrightarrow> length r < length bs"
  using cbs_get_any_asn1_element_split [of False bs e tag hl r]
  by (auto simp: CBS_get_any_asn1_element_def)

function count_elements :: "cbs \<Rightarrow> nat \<Rightarrow> nat option" where
  "count_elements cbs num_children =
     (if CBS_len cbs \<noteq> 0
      then (case CBS_get_any_asn1_element cbs of
              (None, _) \<Rightarrow> None
            | (Some _, cbs') \<Rightarrow> count_elements cbs' (num_children + 1))
      else Some num_children)"
  by pat_completeness auto
termination
  by (relation "measure (\<lambda>(bs, _). length bs)")
    (auto dest: any_element_smaller sym [where t = "CBS_get_any_asn1_element _"])

declare count_elements.simps [simp del]

fun read_elements :: "nat \<Rightarrow> cbs \<Rightarrow> cbs list option" where
  "read_elements 0 cbs = Some []"
| "read_elements (Suc n) cbs =
     (case CBS_get_any_asn1_element cbs of
        (None, _) \<Rightarrow> None
      | (Some (e, _, _), cbs') \<Rightarrow> map_option ((#) e) (read_elements n cbs'))"

definition sizeof_CBS :: nat where
  "sizeof_CBS = 16"

fun add_elements :: "malloc_fn \<Rightarrow> nat \<Rightarrow> cbs list \<Rightarrow> cbb \<Rightarrow> bool \<times> cbb" where
  "add_elements mal d [] c = (True, c)"
| "add_elements mal d (e # es) c =
     (case CBB_add_bytes mal d (CBS_data e) c of
        (False, c') \<Rightarrow> (False, c') | (True, c') \<Rightarrow> add_elements mal d es c')"

definition CBB_flush_asn1_set_of ::
  "malloc_fn \<Rightarrow> (cbs cmp \<Rightarrow> cbs list \<Rightarrow> cbs list) \<Rightarrow> nat \<Rightarrow> cbb \<Rightarrow> bool \<times> cbb" where
  "CBB_flush_asn1_set_of mal qs d c =
     (case CBB_flush mal d c of
        (False, c1) \<Rightarrow> (False, c1)
      | (True, c1) \<Rightarrow>
     (case count_elements (CBS_init (CBB_data d c1) (CBB_len d c1)) 0 of
        None \<Rightarrow> (False, c1)
      | Some num_children \<Rightarrow>
          if num_children < 2 then (True, c1)
          else if num_children > (2 ^ 64 - 1) div sizeof_CBS then (False, c1)
          else (case (OPENSSL_memdup mal (CBB_data d c1), OPENSSL_malloc mal (num_children * sizeof_CBS)) of
                  (Some buf, Some _) \<Rightarrow>
                    (case read_elements num_children (CBS_init buf (CBB_len d c1)) of
                       None \<Rightarrow> (False, c1)
                     | Some children \<Rightarrow>
                         add_elements mal d (qs compare_set_of_element children)
                           (c1\<lparr>cb_base := map_option (bb_buf_update (take (cbb_start d c1))) (cb_base c1)\<rparr>))
                | _ \<Rightarrow> (False, c1))))"

text \<open>
  \<open>outp\<close>: NULL, or the buffer it points to (\<open>Some None\<close>: NULL, to be set to the new one). The
  result: the returned number and the memory \<open>*outp\<close> pointed or points to.
\<close>

definition CBB_finish_i2d ::
  "malloc_fn \<Rightarrow> u8 list option option \<Rightarrow> nat \<Rightarrow> cbb \<Rightarrow> int \<times> u8 list option option \<times> cbb" where
  "CBB_finish_i2d mal outp d c =
     (case CBB_finish mal True d c of
        (None, c') \<Rightarrow> (-1, outp, CBB_cleanup d c')
      | (Some der, c') \<Rightarrow>
          if length der > 0x7fffffff then (-1, outp, c')
          else (int (length der),
                (case outp of
                   None \<Rightarrow> None
                 | Some None \<Rightarrow> Some (Some der)
                 | Some (Some buf) \<Rightarrow> Some (Some (der @ drop (length der) buf))), c'))"

section \<open>The order\<close>

text \<open>Byte strings in lexicographic order, a prefix first.\<close>

fun lex_less :: "u8 list \<Rightarrow> u8 list \<Rightarrow> bool" where
  "lex_less [] [] \<longleftrightarrow> False"
| "lex_less [] (b # bs) \<longleftrightarrow> True"
| "lex_less (a # as) [] \<longleftrightarrow> False"
| "lex_less (a # as) (b # bs) \<longleftrightarrow> a < b \<or> (a = b \<and> lex_less as bs)"

lemma compare_set_of_element_Cons:
  "compare_set_of_element (a # as) (b # bs) =
     (if a < b then -1 else if a > b then 1 else compare_set_of_element as bs)"
  by (auto simp: compare_set_of_element_def OPENSSL_memcmp_def CBS_data_def CBS_len_def Let_def)

lemma compare_set_of_element_Nil:
  "compare_set_of_element [] [] = 0" "compare_set_of_element [] (b # bs) = -1"
  "compare_set_of_element (a # as) [] = 1"
  by (simp_all add: compare_set_of_element_def OPENSSL_memcmp_def CBS_data_def CBS_len_def)

lemma compare_set_of_element_eq:
  "compare_set_of_element a b = (if lex_less a b then -1 else if a = b then 0 else 1)"
  by (induction a b rule: lex_less.induct)
    (auto simp: compare_set_of_element_Cons compare_set_of_element_Nil)

lemma lex_less_irrefl [simp]: "\<not> lex_less a a"
  by (induction a) auto

lemma lex_less_asym: "lex_less a b \<Longrightarrow> \<not> lex_less b a"
  by (induction a b rule: lex_less.induct) auto

lemma lex_less_total: "lex_less a b \<or> a = b \<or> lex_less b a"
  by (induction a b rule: lex_less.induct) auto

lemma lex_less_trans: "lex_less a b \<Longrightarrow> lex_less b c \<Longrightarrow> lex_less a c"
proof (induction a b arbitrary: c rule: lex_less.induct)
  case (2 b bs)
  then show ?case by (cases c) auto
next
  case (4 a as b bs)
  then show ?case by (cases c) auto
qed auto

interpretation set_of: comparison compare_set_of_element
proof
  fix a b c
  show "sgn (compare_set_of_element b a) = - sgn (compare_set_of_element a b)"
    using lex_less_total [of a b] lex_less_asym [of a b]
    by (auto simp: compare_set_of_element_eq)
  show "compare_set_of_element a b \<le> 0 \<Longrightarrow> compare_set_of_element b c \<le> 0 \<Longrightarrow> compare_set_of_element a c \<le> 0"
    using lex_less_trans [of a b c] by (auto simp: compare_set_of_element_eq split: if_splits)
qed

section \<open>Sorting in place\<close>

lemma OPENSSL_memdup_data:
  assumes "malloc_lawful mal" "OPENSSL_memdup mal data = Some b"
  shows "b = data"
proof -
  from assms(2) obtain ret where ret: "OPENSSL_malloc mal (length data) = Some ret"
    and b: "b = data @ drop (length data) ret"
    by (auto simp: OPENSSL_memdup_def split: if_splits option.splits)
  have "length ret \<le> length data"
    using OPENSSL_malloc_length [OF assms(1) ret] sz_le [of "length data + 8"] by simp
  with b show ?thesis by simp
qed

definition is_der_element :: "u8 list \<Rightarrow> bool" where
  "is_der_element e \<longleftrightarrow> (\<exists>tag xs. e = der_element tag xs \<and> length xs < 2 ^ 32)"

lemma count_elements_Some:
  assumes "count_elements bs k = Some m" "length bs < 2 ^ 64"
  shows "\<exists>es. bs = concat es \<and> m = k + length es \<and> read_elements (length es) bs = Some es \<and>
    (\<forall>e \<in> set es. is_der_element e)"
  using assms
proof (induction bs k rule: count_elements.induct)
  case (1 bs k)
  show ?case
  proof (cases "bs = []")
    case True
    with 1(2) show ?thesis by (intro exI [of _ "[]"]) (simp add: count_elements.simps CBS_len_def)
  next
    case False
    with 1(2) obtain e tag hl r where g: "CBS_get_any_asn1_element bs = (Some (e, tag, hl), r)"
      and rest: "count_elements r (k + 1) = Some m"
      by (subst (asm) count_elements.simps) (auto simp: CBS_len_def split: prod.splits option.splits)
    from CBS_get_any_asn1_element_canonical [OF g 1(3)] have e: "is_der_element e" "bs = e @ r"
      by (auto simp: is_der_element_def)
    from 1(1) [OF _ g [symmetric] refl rest] False 1(3) any_element_smaller [OF g]
    obtain es where "r = concat es" "m = k + 1 + length es" "read_elements (length es) r = Some es"
      "\<forall>e \<in> set es. is_der_element e" by (auto simp: CBS_len_def)
    with e g show ?thesis by (intro exI [of _ "e # es"]) simp
  qed
qed

lemma add_elements_writes:
  assumes "add_elements mal d es c = (True, c')" "cbb_wf c" "cbb_depth c = d"
    and "\<forall>e \<in> set es. length e < 2 ^ 64"
  shows "cbb_writes d (concat es) c c'"
  using assms
proof (induction mal d es c rule: add_elements.induct)
  case (1 mal d c)
  then show ?case by (simp add: cbb_writes_refl)
next
  case (2 mal d e es c)
  from 2(2) obtain c1 where add: "CBB_add_bytes mal d e c = (True, c1)"
    and rest: "add_elements mal d es c1 = (True, c')"
    by (auto simp: CBS_data_def split: prod.splits bool.splits)
  have w: "cbb_writes d e c c1" using CBB_add_bytes_writes [OF add 2(3)] 2(5) by simp
  then have "cbb_writes d (concat es) c1 c'"
    using 2(1) [unfolded CBS_data_def, OF add [symmetric] refl rest] 2(5) by (simp add: cbb_writes_def)
  from cbb_writes_trans [OF w this 2(3)] show ?case by simp
qed

lemma chain_end_last:
  "kids \<noteq> [] \<Longrightarrow> chain_end s kids = ch_offset (last kids) + ch_pending_len_len (last kids)"
  by (induction s kids rule: chain_end.induct) auto

lemma cbb_start_depth: "cbb_start (cbb_depth c) c = chain_end 0 (cb_kids c)"
  by (cases "cb_kids c = []") (auto simp: cbb_start_def cbb_depth_def chain_end_last last_conv_nth)

lemma CBB_data_last:
  assumes "cbb_wf c"
  shows "CBB_data (cbb_depth c) c = last (cbb_frames c)" "CBB_len (cbb_depth c) c = length (last (cbb_frames c))"
proof -
  from assms obtain b where b: "cb_base c = Some b" by (auto simp: cbb_wf_def split: option.splits)
  have "last (cbb_frames c) = drop (chain_end 0 (cb_kids c)) (bb_buf b)"
    by (simp add: cbb_frames_def b frames_from_init)
  then show "CBB_data (cbb_depth c) c = last (cbb_frames c)" "CBB_len (cbb_depth c) c = length (last (cbb_frames c))"
    unfolding CBB_data_def CBB_len_def cbb_start_depth by (simp_all add: b)
qed

text \<open>Rewinding empties the innermost \<open>CBB\<close> and touches nothing else.\<close>

lemma cbb_rewind:
  assumes "cbb_wf c"
  defines "c' \<equiv> c\<lparr>cb_base := map_option (bb_buf_update (take (cbb_start (cbb_depth c) c))) (cb_base c)\<rparr>"
  shows "cbb_wf c'" "cbb_depth c' = cbb_depth c" "cbb_kinds c' = cbb_kinds c"
    "cbb_frames c' = butlast (cbb_frames c) @ [[]]"
proof -
  from assms obtain b where b: "cb_base c = Some b" and wf: "buf_ok b" "chain_ok 0 (length (bb_buf b)) (cb_kids c)"
    by (auto simp: cbb_wf_def split: option.splits)
  let ?e = "chain_end 0 (cb_kids c)"
  have e: "chain_ok 0 ?e (cb_kids c)" "?e \<le> length (bb_buf b)"
    using wf(2) chain_ok_append [of 0 "length (bb_buf b)" "cb_kids c" "[]"] by simp_all
  have c': "c' = c\<lparr>cb_base := Some (b\<lparr>bb_buf := take ?e (bb_buf b)\<rparr>)\<rparr>"
    unfolding c'_def cbb_start_depth by (simp add: b)
  show "cbb_depth c' = cbb_depth c" "cbb_kinds c' = cbb_kinds c"
    by (simp_all add: c' cbb_depth_def cbb_kinds_def)
  show "cbb_wf c'" using wf e by (simp add: c' cbb_wf_def buf_ok_def)
  have "frames_init 0 (take ?e (bb_buf b)) (cb_kids c) = frames_init 0 (bb_buf b) (cb_kids c)"
    by (rule frames_init_cong [OF e(1)]) simp
  then show "cbb_frames c' = butlast (cbb_frames c) @ [[]]"
    by (simp add: c' cbb_frames_def b frames_from_init)
qed

section \<open>Properties\<close>

text \<open>C6: Flushing a SET OF permutes its elements into ascending lexicographic order of their
  encodings and changes nothing else; it succeeds only when the contents are DER elements.\<close>

theorem CBB_flush_asn1_set_of_sorted:
  assumes "CBB_flush_asn1_set_of mal qs d c = (True, c')" "cbb_wf c" "malloc_lawful mal"
    and "qsort_lawful qs compare_set_of_element"
  shows "\<exists>es es'. (\<forall>e \<in> set es. is_der_element e) \<and>
     close_frames (drop d (cbb_kinds c)) (drop d (cbb_frames c)) = concat es \<and>
     mset es' = mset es \<and> sorted_wrt (\<lambda>a b. a = b \<or> lex_less a b) es' \<and>
     cbb_wf c' \<and> cbb_depth c' = d \<and> cbb_kinds c' = take d (cbb_kinds c) \<and>
     cbb_frames c' = take d (cbb_frames c) @ [concat es']"
proof -
  from assms(1) obtain c1 n where fl: "CBB_flush mal d c = (True, c1)"
    and cnt: "count_elements (CBS_init (CBB_data d c1) (CBB_len d c1)) 0 = Some n"
    by (auto simp: CBB_flush_asn1_set_of_def split: prod.splits bool.splits option.splits)
  let ?xs = "close_frames (drop d (cbb_kinds c)) (drop d (cbb_frames c))"
  have w: "cbb_writes d [] c c1" using CBB_flush_writes(1) [OF fl assms(2)] .
  then have wf1: "cbb_wf c1" "cbb_depth c1 = d" "cbb_kinds c1 = take d (cbb_kinds c)"
    "cbb_frames c1 = take d (cbb_frames c) @ [?xs]" by (simp_all add: cbb_writes_def)
  have data: "CBB_data d c1 = ?xs" "CBB_len d c1 = length ?xs"
    using CBB_data_last [OF wf1(1)] wf1 by simp_all
  have len: "length ?xs < 2 ^ 64"
    using wf1(1) data by (auto simp: CBB_len_def CBB_data_def cbb_wf_def buf_ok_def split: option.splits)
  from count_elements_Some [OF cnt] len data obtain es where es: "?xs = concat es" "n = length es"
    "read_elements n ?xs = Some es" "\<forall>e \<in> set es. is_der_element e"
    by (auto simp: CBS_init_def)
  show ?thesis
  proof (cases "n < 2")
    case True
    with assms(1) fl cnt have "c' = c1" by (simp add: CBB_flush_asn1_set_of_def)
    moreover have "sorted_wrt (\<lambda>a b. a = b \<or> lex_less a b) es"
      using True es(2) by (cases es) simp_all
    ultimately show ?thesis
      using es wf1 by (intro exI [of _ es]) simp
  next
    case False
    let ?es = "qs compare_set_of_element es"
    from False assms(1) fl cnt obtain buf children where dup: "OPENSSL_memdup mal ?xs = Some buf"
      and rd: "read_elements n (CBS_init buf (length ?xs)) = Some children"
      and add: "add_elements mal d (qs compare_set_of_element children)
        (c1\<lparr>cb_base := map_option (bb_buf_update (take (cbb_start d c1))) (cb_base c1)\<rparr>) = (True, c')"
      by (auto simp: CBB_flush_asn1_set_of_def data split: option.splits if_splits)
    have "children = es"
      using rd es(3) OPENSSL_memdup_data [OF assms(3) dup] by (simp add: CBS_init_def)
    note add = add [unfolded this wf1(2) [symmetric]]
    have perm: "mset ?es = mset es" and srt: "sorted_wrt (\<lambda>a b. compare_set_of_element a b \<le> 0) ?es"
      using assms(4) by (simp_all add: qsort_lawful_def)
    have "\<forall>e \<in> set ?es. length e < 2 ^ 64"
    proof
      fix e assume "e \<in> set ?es"
      then have "e \<in> set es" using perm by (metis mset_eq_setD)
      then have "length e \<le> length ?xs" unfolding es(1)
        by (auto simp: in_set_conv_decomp)
      then show "length e < 2 ^ 64" using len by simp
    qed
    from add_elements_writes [OF add cbb_rewind(1,2) [OF wf1(1)] this]
    have "cbb_wf c'" "cbb_depth c' = d" "cbb_kinds c' = take d (cbb_kinds c)"
      "cbb_frames c' = take d (cbb_frames c) @ [concat ?es]"
      using cbb_rewind [OF wf1(1)] wf1 length_cbb_frames [OF assms(2)] w
      by (simp_all add: cbb_writes_def)
    moreover have "sorted_wrt (\<lambda>a b. a = b \<or> lex_less a b) ?es"
      using srt by (rule sorted_wrt_mono_rel [rotated]) (auto simp: compare_set_of_element_eq split: if_splits)
    ultimately show ?thesis
      using es perm by (intro exI [of _ es] exI [of _ ?es]) simp
  qed
qed

lemma set_of_elements:
  "CBS_get_any_asn1_element [4, 1, 9, 2, 1, 7] = (Some ([4, 1, 9], 4, 2), [2, 1, 7])"
  "CBS_get_any_asn1_element [2, 1, 7] = (Some ([2, 1, 7], 2, 2), [])"
  by (simp_all add: element_eval)

lemma set_of_example: "CBB_flush_asn1_set_of zero_malloc insertion_qsort 0 (sample_cbb 64 [4, 1, 9, 2, 1, 7] []) = (True, sample_cbb 64 [2, 1, 7, 4, 1, 9] [])"
proof -
  let ?bs = "[4, 1, 9, 2, 1, 7] :: u8 list"
  have d: "CBB_data 0 (sample_cbb 64 ?bs []) = ?bs" "CBB_len 0 (sample_cbb 64 ?bs []) = 6"
    by (simp_all add: CBB_data_def CBB_len_def sample_cbb_def sample_base_def cbb_start_def)
  have c: "count_elements ?bs 0 = Some 2"
    by (simp add: count_elements.simps set_of_elements CBS_len_def)
  have r: "read_elements 2 ?bs = Some [[4, 1, 9], [2, 1, 7]]"
    by (simp add: numeral_2_eq_2 set_of_elements)
  have q: "insertion_qsort compare_set_of_element [[4, 1, 9], [2, 1, 7]] = [[2, 1, 7], [4, 1, 9]]"
    by (simp add: insertion_qsort_def compare_set_of_element_Cons compare_set_of_element_Nil)
  have dup: "OPENSSL_memdup zero_malloc ?bs = Some ?bs" "\<exists>b. OPENSSL_malloc zero_malloc 32 = Some b"
    by (simp_all add: OPENSSL_memdup_def OPENSSL_malloc_def zero_malloc_def OPENSSL_MALLOC_PREFIX_def)
  have rew: "(sample_cbb 64 ?bs [])\<lparr>cb_base := map_option (bb_buf_update (take (cbb_start 0 (sample_cbb 64 ?bs [])))) (cb_base (sample_cbb 64 ?bs []))\<rparr> = sample_cbb 64 [] []"
    by (simp add: sample_cbb_def sample_base_def cbb_start_def)
  have add: "add_elements zero_malloc 0 [[2, 1, 7], [4, 1, 9]] (sample_cbb 64 [] []) = (True, sample_cbb 64 [2, 1, 7, 4, 1, 9] [])"
    by (simp add: CBS_data_def sample_simps)
  from dup(2) obtain b where "OPENSSL_malloc zero_malloc 32 = Some b" by blast
  then show ?thesis
    unfolding CBB_flush_asn1_set_of_def d sample_flush [of "[]" 0, simplified] prod.case bool.case
    by (simp add: CBS_init_def c sizeof_CBS_def dup(1) r q rew add del: add_elements.simps)
qed

theorem CBB_flush_asn1_set_of_sorted_witness:
  "\<exists>es es'. [4, 1, 9, 2, 1, 7] = concat es \<and> mset es' = mset es \<and>
     sorted_wrt (\<lambda>a b. a = b \<or> lex_less a b) es' \<and> [2, 1, 7, 4, 1, 9] = concat es'"
proof -
  have "cbb_wf (sample_cbb 64 [4, 1, 9, 2, 1, 7] [])"
    by (simp add: cbb_wf_def sample_cbb_def sample_base_def buf_ok_def)
  from CBB_flush_asn1_set_of_sorted [OF set_of_example this zero_malloc_lawful set_of.insertion_qsort_lawful]
  show ?thesis by (auto simp: cbb_frames_def cbb_kinds_def sample_cbb_def sample_base_def)
qed

end
