(* ===== verification/ConstTime.thy ===== *)
theory ConstTime
  imports Prelude
begin

text \<open>
  The branch-free comparisons and selections of \<^verbatim>\<open>crypto/internal.h\<close>, on 64-bit words
  (\<open>crypto_word_t\<close>), each with the condition it stands for. \<open>value_barrier_w\<close> is the identity.
\<close>

section \<open>The operations\<close>

definition constant_time_msb_w :: "u64 \<Rightarrow> u64" where
  "constant_time_msb_w a = 0 - drop_bit (8 * 8 - 1) a"

definition constant_time_lt_w :: "u64 \<Rightarrow> u64 \<Rightarrow> u64" where
  "constant_time_lt_w a b = constant_time_msb_w (a XOR ((a XOR b) OR ((a - b) XOR a)))"

definition constant_time_lt_8 :: "u64 \<Rightarrow> u64 \<Rightarrow> u8" where
  "constant_time_lt_8 a b = ucast (constant_time_lt_w a b)"

definition constant_time_ge_w :: "u64 \<Rightarrow> u64 \<Rightarrow> u64" where
  "constant_time_ge_w a b = NOT (constant_time_lt_w a b)"

definition constant_time_ge_8 :: "u64 \<Rightarrow> u64 \<Rightarrow> u8" where
  "constant_time_ge_8 a b = ucast (constant_time_ge_w a b)"

definition constant_time_is_zero_w :: "u64 \<Rightarrow> u64" where
  "constant_time_is_zero_w a = constant_time_msb_w (NOT a AND (a - 1))"

definition constant_time_is_zero_8 :: "u64 \<Rightarrow> u8" where
  "constant_time_is_zero_8 a = ucast (constant_time_is_zero_w a)"

definition constant_time_eq_w :: "u64 \<Rightarrow> u64 \<Rightarrow> u64" where
  "constant_time_eq_w a b = constant_time_is_zero_w (a XOR b)"

definition constant_time_eq_8 :: "u64 \<Rightarrow> u64 \<Rightarrow> u8" where
  "constant_time_eq_8 a b = ucast (constant_time_eq_w a b)"

text \<open>An \<open>int\<close> argument is sign-extended to the word.\<close>

definition constant_time_eq_int :: "32 word \<Rightarrow> 32 word \<Rightarrow> u64" where
  "constant_time_eq_int a b = constant_time_eq_w (scast a) (scast b)"

definition constant_time_eq_int_8 :: "32 word \<Rightarrow> 32 word \<Rightarrow> u8" where
  "constant_time_eq_int_8 a b = constant_time_eq_8 (scast a) (scast b)"

definition constant_time_select_w :: "u64 \<Rightarrow> u64 \<Rightarrow> u64 \<Rightarrow> u64" where
  "constant_time_select_w m a b = (m AND a) OR (NOT m AND b)"

definition constant_time_select_8 :: "u8 \<Rightarrow> u8 \<Rightarrow> u8 \<Rightarrow> u8" where
  "constant_time_select_8 m a b = ucast (constant_time_select_w (ucast m) (ucast a) (ucast b))"

definition constant_time_select_int :: "u64 \<Rightarrow> 32 word \<Rightarrow> 32 word \<Rightarrow> 32 word" where
  "constant_time_select_int m a b = ucast (constant_time_select_w m (scast a) (scast b))"

section \<open>What they compute\<close>

named_theorems ct_simps \<open>constant-time operations as conditions\<close>

lemma drop_bit_63: "drop_bit 63 (a :: u64) = of_bool (bit a 63)"
proof (rule bit_word_eqI)
  fix n
  assume "n < LENGTH(64)"
  have "\<not> bit a (63 + Suc k)" for k
    using bit_imp_le_length [of a "63 + Suc k"] by auto
  then show "bit (drop_bit 63 a) n \<longleftrightarrow> bit (of_bool (bit a 63) :: u64) n"
    by (cases n) (simp_all add: bit_drop_bit_eq bit_1_iff)
qed

lemma bit_63_iff: "bit (a :: u64) 63 \<longleftrightarrow> 2 ^ 63 \<le> unat a"
proof -
  have "unat (drop_bit 63 a) = of_bool (bit a 63)" unfolding drop_bit_63 by simp
  then have "unat a div 2 ^ 63 = of_bool (bit a 63)" unfolding unat_drop_bit .
  then show ?thesis by (cases "bit a 63") (simp_all add: div_eq_0_iff)
qed

lemma constant_time_msb_w_eq [ct_simps]: "constant_time_msb_w a = (if bit a 63 then -1 else 0)"
  using drop_bit_63 [of a] by (simp add: constant_time_msb_w_def)

lemma word_of_nat_2p64: "(word_of_nat (2 ^ 64) :: u64) = 0"
  by simp

lemma unat_minus_cases:
  "unat (a - b) = (if b \<le> a then unat a - unat b else 2 ^ 64 + unat a - unat (b :: u64))"
proof (cases "b \<le> a")
  case False
  then have "unat a < unat b" by (simp add: word_le_nat_alt)
  have "a - b = word_of_nat (2 ^ 64 + unat a - unat b)"
    using unat_u64_lt [of b] by (subst of_nat_diff) (linarith, simp)
  with \<open>unat a < unat b\<close> False show ?thesis by (simp add: unat_of_nat)
qed (simp add: unat_sub)

theorem constant_time_lt_w_eq [ct_simps]: "constant_time_lt_w a b = (if a < b then -1 else 0)"
proof -
  have "bit (a XOR ((a XOR b) OR ((a - b) XOR a))) 63 \<longleftrightarrow> a < b"
  proof (cases "bit a 63 = bit b 63")
    case True
    then have "bit (a XOR ((a XOR b) OR ((a - b) XOR a))) 63 \<longleftrightarrow> bit (a - b) 63"
      by (auto simp: bit_simps)
    also have "\<dots> \<longleftrightarrow> a < b"
      using True unat_u64_lt [of a] unat_u64_lt [of b]
      unfolding bit_63_iff unat_minus_cases word_less_nat_alt word_le_nat_alt
      by (cases "unat b \<le> unat a") (simp_all del: unat_u64_lt unat_u64_lt_numeral, linarith+)
    finally show ?thesis .
  next
    case False
    then have "bit (a XOR ((a XOR b) OR ((a - b) XOR a))) 63 \<longleftrightarrow> bit b 63"
      by (auto simp: bit_simps)
    also have "\<dots> \<longleftrightarrow> a < b"
      using False unfolding bit_63_iff word_less_nat_alt by auto
    finally show ?thesis .
  qed
  then show ?thesis by (simp add: constant_time_lt_w_def constant_time_msb_w_eq)
qed

theorem constant_time_is_zero_w_eq [ct_simps]: "constant_time_is_zero_w a = (if a = 0 then -1 else 0)"
proof -
  have "bit (NOT a AND (a - 1)) 63 \<longleftrightarrow> a = 0"
  proof (cases "a = 0")
    case False
    then have "1 \<le> a" using word_le_nat_alt [of 1 a] unat_gt_0 [of a] by simp
    then have "unat (a - 1) = unat a - 1" by (simp add: unat_sub)
    moreover have "unat a < 2 ^ 64" by (rule unat_u64_lt)
    ultimately have "bit (a - 1) 63 \<longrightarrow> bit a 63" unfolding bit_63_iff by linarith
    with False show ?thesis by (auto simp: bit_and_iff bit_not_iff)
  qed (simp add: bit_simps)
  then show ?thesis by (simp add: constant_time_is_zero_w_def constant_time_msb_w_eq)
qed

lemma word_xor_eq_0_iff: "a XOR b = 0 \<longleftrightarrow> a = (b :: 'a::len word)"
  by (metis xor.assoc xor_self_eq xor.left_neutral xor.right_neutral)

lemma constant_time_eq_w_eq [ct_simps]: "constant_time_eq_w a b = (if a = b then -1 else 0)"
  by (auto simp: constant_time_eq_w_def constant_time_is_zero_w_eq word_xor_eq_0_iff)

lemma constant_time_ge_w_eq [ct_simps]: "constant_time_ge_w a b = (if a \<ge> b then -1 else 0)"
  by (auto simp: constant_time_ge_w_def constant_time_lt_w_eq)

lemma ucast_minus_one [simp]: "ucast (-1 :: u64) = (-1 :: u8)"
  by (rule bit_word_eqI) (simp add: bit_simps)

lemma constant_time_8_eq [ct_simps]:
  "constant_time_lt_8 a b = (if a < b then -1 else 0)"
  "constant_time_ge_8 a b = (if a \<ge> b then -1 else 0)"
  "constant_time_is_zero_8 a = (if a = 0 then -1 else 0)"
  "constant_time_eq_8 a b = (if a = b then -1 else 0)"
  by (simp_all add: constant_time_lt_8_def constant_time_ge_8_def constant_time_is_zero_8_def
      constant_time_eq_8_def ct_simps)

lemma constant_time_select_w_eq [ct_simps]:
  "constant_time_select_w (-1) a b = a" "constant_time_select_w 0 a b = b"
  by (simp_all add: constant_time_select_w_def)

lemma constant_time_select_8_eq [ct_simps]:
  "constant_time_select_8 (-1) a b = a" "constant_time_select_8 0 a b = b"
  by (rule bit_word_eqI; auto simp: constant_time_select_8_def constant_time_select_w_def bit_simps)+

end
