(* ===== verification/Base64.thy ===== *)
theory Base64
  imports ConstTime
begin

text \<open>
  \<^verbatim>\<open>crypto/base64/base64.c\<close>: the constant-time character tables, encoding and decoding of whole
  buffers, and the streaming encoder and decoder with their context. A function that writes
  through an \<open>out\<close> pointer returns the bytes it leaves there. \<open>b64_char\<close>, \<open>b64_text\<close> and
  \<open>b64_lines\<close> are the reference: the RFC 4648 alphabet, the text of a byte string, and that text
  in lines of 48 input bytes.
\<close>

section \<open>Characters\<close>

definition constant_time_lt_args_8 :: "u8 \<Rightarrow> u8 \<Rightarrow> u8" where
  "constant_time_lt_args_8 a b = ucast (constant_time_msb_w (ucast a - ucast b))"

definition constant_time_in_range_8 :: "u8 \<Rightarrow> u8 \<Rightarrow> u8 \<Rightarrow> u8" where
  "constant_time_in_range_8 a mn mx = constant_time_lt_args_8 (a - mn) (mx - mn + 1)"

definition conv_bin2ascii :: "u8 \<Rightarrow> u8" where
  "conv_bin2ascii a0 =
     (let a = a0 AND 0x3f;
          ret = constant_time_select_8 (constant_time_eq_8 (ucast a) 62) 43 47;
          ret = constant_time_select_8 (constant_time_lt_args_8 a 62) (a - 52 + 48) ret;
          ret = constant_time_select_8 (constant_time_lt_args_8 a 52) (a - 26 + 97) ret;
          ret = constant_time_select_8 (constant_time_lt_args_8 a 26) (a + 65) ret
      in ret)"

definition base64_ascii_to_bin :: "u8 \<Rightarrow> u8" where
  "base64_ascii_to_bin a =
     (let is_upper = constant_time_in_range_8 a 65 90;
          is_lower = constant_time_in_range_8 a 97 122;
          is_digit = constant_time_in_range_8 a 48 57;
          is_plus = constant_time_eq_8 (ucast a) 43;
          is_slash = constant_time_eq_8 (ucast a) 47;
          is_equals = constant_time_eq_8 (ucast a) 61;
          ret = 0xff;
          ret = constant_time_select_8 is_upper (a - 65) ret;
          ret = constant_time_select_8 is_lower (a - 97 + 26) ret;
          ret = constant_time_select_8 is_digit (a - 48 + 52) ret;
          ret = constant_time_select_8 is_plus 62 ret;
          ret = constant_time_select_8 is_slash 63 ret;
          ret = constant_time_select_8 is_equals 0 ret
      in ret)"

section \<open>Encoding\<close>

definition EVP_EncodedLength :: "nat \<Rightarrow> nat option" where
  "EVP_EncodedLength len =
     (if sz (len + 2) < len then None
      else let len' = sz (len + 2) div 3
           in if sz (len' * 4) div 4 \<noteq> len' then None
              else let len'' = sz (len' * 4)
                   in if sz (len'' + 1) < len'' then None else Some (sz (len'' + 1)))"

text \<open>The characters written and the number counted in \<open>ret\<close>.\<close>

fun encode_block_loop :: "u8 list \<Rightarrow> nat \<Rightarrow> u8 list \<times> nat" where
  "encode_block_loop [] ret = ([], ret)"
| "encode_block_loop [s0] ret =
     (let l = push_bit 16 (ucast s0) :: u32
      in ([conv_bin2ascii (ucast (drop_bit 18 l)), conv_bin2ascii (ucast (drop_bit 12 l)), 61, 61], sz (ret + 4)))"
| "encode_block_loop [s0, s1] ret =
     (let l = push_bit 16 (ucast s0) OR push_bit 8 (ucast s1) :: u32
      in ([conv_bin2ascii (ucast (drop_bit 18 l)), conv_bin2ascii (ucast (drop_bit 12 l)),
           conv_bin2ascii (ucast (drop_bit 6 l)), 61], sz (ret + 4)))"
| "encode_block_loop (s0 # s1 # s2 # src) ret =
     (let l = push_bit 16 (ucast s0) OR push_bit 8 (ucast s1) OR ucast s2 :: u32
      in (case encode_block_loop src (sz (ret + 4)) of
            (dst, ret') \<Rightarrow>
              (conv_bin2ascii (ucast (drop_bit 18 l)) # conv_bin2ascii (ucast (drop_bit 12 l)) #
               conv_bin2ascii (ucast (drop_bit 6 l)) # conv_bin2ascii (ucast l) # dst, ret')))"

definition EVP_EncodeBlock :: "u8 list \<Rightarrow> u8 list \<times> nat" where
  "EVP_EncodeBlock src = (case encode_block_loop src 0 of (dst, ret) \<Rightarrow> (dst @ [0], ret))"

record evp_encode_ctx =
  data_used :: nat
  ctx_data :: "u8 list"
  eof_seen :: bool
  error_encountered :: bool

definition EVP_EncodeInit :: evp_encode_ctx where
  "EVP_EncodeInit = \<lparr>data_used = 0, ctx_data = replicate 48 0, eof_seen = False, error_encountered = False\<rparr>"

text \<open>
  \<open>out\<close> is what has been written before the pointer; each line also stores a 0 after it, which
  the next one overwrites. The loop over whole lines ends early (\<open>None\<close>) when \<open>total\<close> wraps.
\<close>

definition terminated :: "u8 list \<Rightarrow> u8 list" where
  "terminated out = (if out = [] then [] else out @ [0])"

function encode_lines :: "u8 list \<Rightarrow> nat \<Rightarrow> u8 list \<Rightarrow> u8 list \<times> nat option \<times> u8 list" where
  "encode_lines out tot src =
     (if length src \<ge> 48
      then (case EVP_EncodeBlock (take 48 src) of
              (enc, encoded) \<Rightarrow>
                (let out' = out @ take encoded enc @ [10]
                 in if sz (tot + encoded + 1) < tot then (out', None, drop 48 src)
                    else encode_lines out' (sz (tot + encoded + 1)) (drop 48 src)))
      else (out, Some tot, src))"
  by pat_completeness auto
termination
  by (relation "measure (\<lambda>(_, _, src). length src)") auto

declare encode_lines.simps [simp del]

text \<open>The bytes left in \<open>out\<close>, \<open>*out_len\<close> and the context.\<close>

definition EVP_EncodeUpdate :: "evp_encode_ctx \<Rightarrow> u8 list \<Rightarrow> u8 list \<times> nat \<times> evp_encode_ctx" where
  "EVP_EncodeUpdate ctx src =
     (if length src = 0 then ([], 0, ctx)
      else if 48 - data_used ctx > length src then
        ([], 0, ctx\<lparr>ctx_data := store_at (data_used ctx) src (ctx_data ctx),
                    data_used := data_used ctx + length src\<rparr>)
      else
        (case (if data_used ctx \<noteq> 0
               then let todo = 48 - data_used ctx;
                        full = store_at (data_used ctx) (take todo src) (ctx_data ctx)
                    in (case EVP_EncodeBlock full of
                          (enc, encoded) \<Rightarrow>
                            (take encoded enc @ [10], sz (encoded + 1), drop todo src,
                             ctx\<lparr>ctx_data := full, data_used := 0\<rparr>))
               else ([], 0, src, ctx)) of
           (out, tot, src', ctx') \<Rightarrow>
             (case encode_lines out tot src' of
                (out', None, _) \<Rightarrow> (terminated out', 0, ctx')
              | (out', Some tot', rest) \<Rightarrow>
                  (terminated out', if tot' > INT_MAX then 0 else tot',
                   ctx'\<lparr>ctx_data := store_at 0 rest (ctx_data ctx'), data_used := length rest\<rparr>))))"

definition EVP_EncodeFinal :: "evp_encode_ctx \<Rightarrow> u8 list \<times> nat \<times> evp_encode_ctx" where
  "EVP_EncodeFinal ctx =
     (if data_used ctx = 0 then ([], 0, ctx)
      else case EVP_EncodeBlock (take (data_used ctx) (ctx_data ctx)) of
             (enc, encoded) \<Rightarrow> (take encoded enc @ [10, 0], encoded + 1, ctx\<lparr>data_used := 0\<rparr>))"

section \<open>Decoding\<close>

definition EVP_DecodedLength :: "nat \<Rightarrow> nat option" where
  "EVP_DecodedLength len = (if len mod 4 \<noteq> 0 then None else Some (sz ((len div 4) * 3)))"

definition EVP_DecodeInit :: evp_encode_ctx where
  "EVP_DecodeInit = \<lparr>data_used = 0, ctx_data = replicate 48 0, eof_seen = False, error_encountered = False\<rparr>"

text \<open>The bytes a quad decodes to; \<open>None\<close> for an invalid one.\<close>

definition base64_decode_quad :: "u8 list \<Rightarrow> u8 list option" where
  "base64_decode_quad quad =
     (let a = base64_ascii_to_bin (quad ! 0); b = base64_ascii_to_bin (quad ! 1);
          c = base64_ascii_to_bin (quad ! 2); d = base64_ascii_to_bin (quad ! 3)
      in if a = 0xff \<or> b = 0xff \<or> c = 0xff \<or> d = 0xff then None
         else
           (let v = push_bit 18 (ucast a) OR push_bit 12 (ucast b) OR push_bit 6 (ucast c) OR ucast d :: u32;
                padding_pattern = (8 * of_bool (quad ! 0 = 61) + 4 * of_bool (quad ! 1 = 61) +
                                   2 * of_bool (quad ! 2 = 61) + of_bool (quad ! 3 = 61)) :: nat
            in if padding_pattern = 0
               then Some [ucast (drop_bit 16 v), ucast (drop_bit 8 v), ucast v]
               else if padding_pattern = 1 then Some [ucast (drop_bit 16 v), ucast (drop_bit 8 v)]
               else if padding_pattern = 3 then Some [ucast (drop_bit 16 v)]
               else None))"

definition is_b64_space :: "u8 \<Rightarrow> bool" where
  "is_b64_space c \<longleftrightarrow> c = 32 \<or> c = 9 \<or> c = 13 \<or> c = 10"

fun decode_update_loop ::
  "evp_encode_ctx \<Rightarrow> u8 list \<Rightarrow> u8 list \<Rightarrow> bool \<times> u8 list \<times> evp_encode_ctx" where
  "decode_update_loop ctx out [] = (True, out, ctx)"
| "decode_update_loop ctx out (c # src) =
     (if is_b64_space c then decode_update_loop ctx out src
      else if eof_seen ctx then (False, out, ctx\<lparr>error_encountered := True\<rparr>)
      else
        (let ctx1 = ctx\<lparr>ctx_data := (ctx_data ctx)[data_used ctx := c], data_used := data_used ctx + 1\<rparr>
         in if data_used ctx1 = 4
            then (case base64_decode_quad (ctx_data ctx1) of
                    None \<Rightarrow> (False, out, ctx1\<lparr>error_encountered := True\<rparr>)
                  | Some bs \<Rightarrow>
                      decode_update_loop
                        (ctx1\<lparr>data_used := 0, eof_seen := (if length bs < 3 then True else eof_seen ctx1)\<rparr>)
                        (out @ bs) src)
            else decode_update_loop ctx1 out src))"

text \<open>The return value, the bytes left in \<open>out\<close>, \<open>*out_len\<close> and the context.\<close>

definition EVP_DecodeUpdate ::
  "evp_encode_ctx \<Rightarrow> u8 list \<Rightarrow> int \<times> u8 list \<times> nat \<times> evp_encode_ctx" where
  "EVP_DecodeUpdate ctx src =
     (if error_encountered ctx then (-1, [], 0, ctx)
      else case decode_update_loop ctx [] src of
             (False, out, ctx') \<Rightarrow> (-1, out, 0, ctx')
           | (True, out, ctx') \<Rightarrow>
               if length out > INT_MAX then (-1, out, 0, ctx'\<lparr>error_encountered := True\<rparr>)
               else (if eof_seen ctx' then 0 else 1, out, length out, ctx'))"

definition EVP_DecodeFinal :: "evp_encode_ctx \<Rightarrow> int" where
  "EVP_DecodeFinal ctx = (if error_encountered ctx \<or> data_used ctx \<noteq> 0 then -1 else 1)"

fun decode_base64_loop :: "u8 list \<Rightarrow> u8 list \<Rightarrow> u8 list option" where
  "decode_base64_loop out (q0 # q1 # q2 # q3 # src) =
     (case base64_decode_quad [q0, q1, q2, q3] of
        None \<Rightarrow> None
      | Some bs \<Rightarrow>
          if length bs \<noteq> 3 \<and> src \<noteq> [] then None else decode_base64_loop (out @ bs) src)"
| "decode_base64_loop out src = Some out"

definition EVP_DecodeBase64 :: "nat \<Rightarrow> u8 list \<Rightarrow> u8 list option" where
  "EVP_DecodeBase64 max_out src =
     (if length src mod 4 \<noteq> 0 then None
      else case EVP_DecodedLength (length src) of
             None \<Rightarrow> None
           | Some max_len \<Rightarrow> if max_out < max_len then None else decode_base64_loop [] src)"

fun trim_back :: "u8 list \<Rightarrow> u8 list" where
  "trim_back src = (if src \<noteq> [] \<and> is_b64_space (last src) then trim_back (butlast src) else src)"

declare trim_back.simps [simp del]

definition EVP_DecodeBlock :: "u8 list \<Rightarrow> int \<times> u8 list" where
  "EVP_DecodeBlock src0 =
     (let src = trim_back (dropWhile (\<lambda>c. c = 32 \<or> c = 9) src0)
      in case EVP_DecodedLength (length src) of
           None \<Rightarrow> (-1, [])
         | Some dst_len \<Rightarrow>
             if dst_len > INT_MAX then (-1, [])
             else (case EVP_DecodeBase64 dst_len src of
                     None \<Rightarrow> (-1, [])
                   | Some out \<Rightarrow>
                       (let dst = out @ replicate ((3 - length out mod 3) mod 3) 0
                        in (int (length dst), dst))))"

section \<open>The alphabet\<close>


lemma constant_time_lt_args_8_eq [ct_simps]:
  "constant_time_lt_args_8 a b = (if a < b then -1 else 0)"
proof -
  have "bit (ucast a - ucast b :: u64) 63 \<longleftrightarrow> a < b"
    using unat_u8_lt [of a] unat_u8_lt [of b]
    unfolding bit_63_iff unat_minus_cases word_le_nat_alt word_less_nat_alt unat_ucast_u8_u64
    by (cases "unat b \<le> unat a") (simp_all del: unat_u8_lt)
  then show ?thesis by (simp add: constant_time_lt_args_8_def constant_time_msb_w_eq)
qed

lemma unat_sub_u8: "unat (a - b) = (if b \<le> a then unat a - unat b else 256 + unat a - unat (b :: u8))"
proof (cases "b \<le> a")
  case False
  then have "unat a < unat b" by (simp add: word_le_nat_alt)
  have "a - b = word_of_nat (256 + unat a - unat b)"
    using unat_u8_lt [of b] by (subst of_nat_diff) (linarith, simp)
  with \<open>unat a < unat b\<close> False show ?thesis by (simp add: unat_of_nat)
qed (simp add: unat_sub)

lemma constant_time_in_range_8_eq [ct_simps]:
  assumes "mn \<le> mx" "mx < 255"
  shows "constant_time_in_range_8 a mn mx = (if mn \<le> a \<and> a \<le> mx then -1 else 0)"
proof -
  have m: "unat mn \<le> unat mx" "unat mx < 255" using assms by (simp_all add: word_le_nat_alt word_less_nat_alt)
  have "unat (mx - mn + 1) = unat mx - unat mn + 1"
    using m assms(1) by (simp add: unat_word_ariths unat_sub)
  then have "a - mn < mx - mn + 1 \<longleftrightarrow> mn \<le> a \<and> a \<le> mx"
    unfolding word_less_nat_alt unat_sub_u8 word_le_nat_alt
    using m unat_u8_lt [of a] by (simp del: unat_u8_lt) linarith
  then show ?thesis by (simp add: constant_time_in_range_8_def constant_time_lt_args_8_eq)
qed

definition b64_code :: "nat \<Rightarrow> nat" where
  "b64_code n =
     (if n < 26 then 65 + n else if n < 52 then 71 + n else if n < 62 then n - 4
      else if n = 62 then 43 else 47)"

definition b64_char :: "nat \<Rightarrow> u8" where
  "b64_char n = word_of_nat (b64_code n)"

lemma unat_b64_char [simp]: "unat (b64_char n) = b64_code n"
  by (simp add: b64_char_def unat_of_nat b64_code_def)

definition b64_val :: "u8 \<Rightarrow> nat option" where
  "b64_val c =
     (let n = unat c
      in if 65 \<le> n \<and> n \<le> 90 then Some (n - 65)
         else if 97 \<le> n \<and> n \<le> 122 then Some (n - 97 + 26)
         else if 48 \<le> n \<and> n \<le> 57 then Some (n - 48 + 52)
         else if n = 43 then Some 62 else if n = 47 then Some 63 else None)"

lemma b64_val_char: "n < 64 \<Longrightarrow> b64_val (b64_char n) = Some n"
  by (auto simp: b64_val_def b64_code_def Let_def)

lemma b64_val_Some: "b64_val c = Some n \<longleftrightarrow> n < 64 \<and> c = b64_char n"
proof
  assume "b64_val c = Some n"
  then have "n < 64 \<and> unat c = unat (b64_char n)"
    by (auto simp: b64_val_def b64_code_def Let_def split: if_splits)
  then show "n < 64 \<and> c = b64_char n" by (auto intro: word_eqI_unat)
qed (auto simp: b64_val_char)

lemma b64_char_inject: "m < 64 \<Longrightarrow> n < 64 \<Longrightarrow> b64_char m = b64_char n \<longleftrightarrow> m = n"
  by (metis b64_val_char option.inject)

lemma b64_char_facts: "b64_char n \<noteq> 61" "\<not> is_b64_space (b64_char n)"
proof -
  have "unat (b64_char n) \<notin> {61, 32, 9, 13, 10}"
    by (auto simp: b64_code_def)
  then show "b64_char n \<noteq> 61" "\<not> is_b64_space (b64_char n)"
    by (auto simp: is_b64_space_def word_unat_eq_iff)
qed

lemma conv_bin2ascii_eq: "conv_bin2ascii a = b64_char (unat a mod 64)"
proof -
  have m: "unat (a AND 0x3f) = unat a mod 64"
    unfolding and_0x3f unsigned_take_bit_eq take_bit_eq_mod by (simp add: unat_mod)
  let ?a = "a AND 0x3f"
  have lt: "unat ?a < 64" by (simp add: m)
  have eq: "constant_time_eq_8 (ucast ?a) 62 = (if unat ?a = 62 then -1 else 0)"
    by (simp add: constant_time_8_eq word_unat_eq_iff)
  have "conv_bin2ascii a =
      (if unat ?a < 26 then ?a + 65 else if unat ?a < 52 then ?a - 26 + 97
       else if unat ?a < 62 then ?a - 52 + 48 else if unat ?a = 62 then 43 else 47)"
    unfolding conv_bin2ascii_def Let_def eq constant_time_lt_args_8_eq word_less_nat_alt
    by (simp add: constant_time_select_8_eq)
  also have "\<dots> = b64_char (unat ?a)"
  proof (rule word_eqI_unat)
    consider "unat ?a < 26" | "26 \<le> unat ?a" "unat ?a < 52" | "52 \<le> unat ?a" "unat ?a < 62" | "unat ?a = 62" | "unat ?a = 63"
      using lt by linarith
    then show "unat (if unat ?a < 26 then ?a + 65 else if unat ?a < 52 then ?a - 26 + 97
       else if unat ?a < 62 then ?a - 52 + 48 else if unat ?a = 62 then 43 else 47) = unat (b64_char (unat ?a))"
      unfolding unat_b64_char
      by cases (simp_all add: b64_code_def unat_word_ariths unat_sub_u8 word_le_nat_alt)
  qed
  finally show ?thesis by (simp add: m)
qed

lemma base64_ascii_to_bin_eq:
  "base64_ascii_to_bin c = (case b64_val c of Some n \<Rightarrow> word_of_nat n | None \<Rightarrow> if c = 61 then 0 else 0xff)"
proof -
  have eq: "constant_time_eq_8 (ucast c) k = (if unat c = unat k then -1 else 0)" for k
    by (simp add: constant_time_8_eq word_unat_eq_iff)
  have e61: "c = 61 \<longleftrightarrow> unat c = 61" by (simp add: word_unat_eq_iff)
  have "base64_ascii_to_bin c =
      (if unat c = 61 then 0 else if unat c = 47 then 63 else if unat c = 43 then 62
       else if 48 \<le> unat c \<and> unat c \<le> 57 then c - 48 + 52
       else if 97 \<le> unat c \<and> unat c \<le> 122 then c - 97 + 26
       else if 65 \<le> unat c \<and> unat c \<le> 90 then c - 65 else 0xff)"
    unfolding base64_ascii_to_bin_def Let_def eq
    by (simp add: constant_time_select_8_eq constant_time_in_range_8_eq word_le_nat_alt)
  also have "\<dots> = (case b64_val c of Some n \<Rightarrow> word_of_nat n | None \<Rightarrow> if c = 61 then 0 else 0xff)"
  proof (rule word_eqI_unat, goal_cases)
    case 1
    consider "unat c = 61" | "unat c = 47" | "unat c = 43" | "48 \<le> unat c" "unat c \<le> 57"
      | "97 \<le> unat c" "unat c \<le> 122" | "65 \<le> unat c" "unat c \<le> 90"
      | (other) "unat c \<notin> {61, 47, 43}" "\<not> (48 \<le> unat c \<and> unat c \<le> 57)" "\<not> (97 \<le> unat c \<and> unat c \<le> 122)" "\<not> (65 \<le> unat c \<and> unat c \<le> 90)"
      by blast
    then show ?case
      unfolding e61 b64_val_def Let_def
      by cases (simp_all add: unat_of_nat unat_word_ariths unat_sub_u8 word_le_nat_alt, auto)
  qed
  finally show ?thesis .
qed

section \<open>What encoding writes\<close>


lemma unat_word24:
  "unat (push_bit 16 (ucast (s0 :: u8)) OR push_bit 8 (ucast (s1 :: u8)) OR ucast (s2 :: u8) :: u32) =
     unat s0 * 65536 + unat s1 * 256 + unat s2"
proof -
  have "unat (push_bit 8 (ucast s1) OR ucast s2 :: u32) = unat s1 * 2 ^ 8 + unat s2"
    using unat_u8_lt [of s1] unat_u8_lt [of s2] by (subst unat_shift_or) (simp_all del: unat_u8_lt)
  moreover from this have "unat (push_bit 8 (ucast s1) OR ucast s2 :: u32) < 2 ^ 16"
    using unat_u8_lt [of s1] unat_u8_lt [of s2] by (simp del: unat_u8_lt)
  ultimately show ?thesis
    using unat_u8_lt [of s0] unfolding or.assoc
    by (subst unat_shift_or) (simp_all del: unat_u8_lt)
qed

lemma unat_word16: "unat (push_bit 16 (ucast (s0 :: u8)) OR push_bit 8 (ucast (s1 :: u8)) :: u32) =
     unat s0 * 65536 + unat s1 * 256"
  using unat_word24 [of s0 s1 0] by simp

lemma unat_word8: "unat (push_bit 16 (ucast (s0 :: u8)) :: u32) = unat s0 * 65536"
  using unat_word24 [of s0 0 0] by simp

lemma conv_bin2ascii_sextet:
  "conv_bin2ascii (ucast (drop_bit k (l :: u32))) = b64_char (unat l div 2 ^ k mod 64)"
  "conv_bin2ascii (ucast (l :: u32)) = b64_char (unat l mod 64)"
proof -
  have *: "conv_bin2ascii (ucast x) = b64_char (unat x mod 64)" for x :: u32
  proof -
    have "unat (ucast x :: u8) mod 64 = unat x mod 64"
      by (simp add: unsigned_ucast_eq take_bit_eq_mod mod_mod_cancel)
    then show ?thesis by (simp add: conv_bin2ascii_eq)
  qed
  show "conv_bin2ascii (ucast (drop_bit k l)) = b64_char (unat l div 2 ^ k mod 64)"
    by (simp add: * unat_drop_bit)
  show "conv_bin2ascii (ucast l) = b64_char (unat l mod 64)" by (rule *)
qed

fun b64_text :: "u8 list \<Rightarrow> u8 list" where
  "b64_text [] = []"
| "b64_text [a] =
     (let n = unat a * 16 in [b64_char (n div 64), b64_char (n mod 64), 61, 61])"
| "b64_text [a, b] =
     (let n = unat a * 1024 + unat b * 4
      in [b64_char (n div 4096), b64_char (n div 64 mod 64), b64_char (n mod 64), 61])"
| "b64_text (a # b # c # xs) =
     (let n = unat a * 65536 + unat b * 256 + unat c
      in b64_char (n div 262144) # b64_char (n div 4096 mod 64) # b64_char (n div 64 mod 64)
         # b64_char (n mod 64) # b64_text xs)"

definition b64_len :: "nat \<Rightarrow> nat" where
  "b64_len n = 4 * ((n + 2) div 3)"

lemma b64_len_simps [simp]:
  "b64_len 0 = 0" "b64_len (Suc 0) = 4" "b64_len (Suc (Suc 0)) = 4"
  "b64_len (Suc (Suc (Suc n))) = b64_len n + 4"
proof -
  have "(Suc (Suc (Suc n)) + 2) div 3 = (n + 2) div 3 + 1" by simp
  then show "b64_len (Suc (Suc (Suc n))) = b64_len n + 4" by (simp add: b64_len_def)
qed (simp_all add: b64_len_def)

lemma length_b64_text: "length (b64_text xs) = b64_len (length xs)"
  by (induction xs rule: b64_text.induct) (simp_all add: Let_def)

lemma sz_sz_add: "sz (sz a + b) = sz (a + b)"
  by (simp add: sz_def mod_add_left_eq)

lemma encode_block_loop_eq:
  assumes "ret < 2 ^ 64"
  shows "encode_block_loop src ret = (b64_text src, sz (ret + b64_len (length src)))"
  using assms
proof (induction src ret rule: encode_block_loop.induct)
  case (1 ret)
  then show ?case by simp
next
  case (2 s0 ret)
  have "unat s0 * 65536 div 262144 mod 64 = unat s0 * 16 div 64"
    "unat s0 * 65536 div 4096 mod 64 = unat s0 * 16 mod 64"
    using unat_u8_lt [of s0] by (simp_all del: unat_u8_lt add: mult.commute)
  then show ?case
    by (simp add: Let_def conv_bin2ascii_sextet unat_drop_bit unat_word8)
next
  case (3 s0 s1 ret)
  define m where "m = unat s0 * 1024 + unat s1 * 4"
  have n: "unat s0 * 65536 + unat s1 * 256 = m * 64" by (simp add: m_def)
  have m: "m div 4096 mod 64 = m div 4096"
    using unat_u8_lt [of s0] unat_u8_lt [of s1] by (simp add: m_def del: unat_u8_lt)
  have "m * 64 div 262144 = m div 4096" "m * 64 div 4096 = m div 64"
    using div_mult2_eq [of "m * 64" 64 4096] div_mult2_eq [of "m * 64" 64 64] by simp_all
  with n m have "(unat s0 * 65536 + unat s1 * 256) div 262144 mod 64 = (unat s0 * 1024 + unat s1 * 4) div 4096"
    "(unat s0 * 65536 + unat s1 * 256) div 4096 mod 64 = (unat s0 * 1024 + unat s1 * 4) div 64 mod 64"
    "(unat s0 * 65536 + unat s1 * 256) div 64 mod 64 = (unat s0 * 1024 + unat s1 * 4) mod 64"
    by (simp_all only: n m_def [symmetric]) simp
  then show ?case
    by (simp add: Let_def conv_bin2ascii_sextet unat_drop_bit unat_word16)
next
  case (4 s0 s1 s2 src ret)
  let ?n = "unat s0 * 65536 + unat s1 * 256 + unat s2"
  have n: "?n div 262144 mod 64 = ?n div 262144"
    using unat_u8_lt [of s0] unat_u8_lt [of s1] unat_u8_lt [of s2] by (simp del: unat_u8_lt)
  have l: "sz (sz (ret + 4) + b64_len (length src)) = sz (ret + b64_len (length (s0 # s1 # s2 # src)))"
    unfolding sz_sz_add by (simp add: ac_simps)
  have "encode_block_loop src (sz (ret + 4)) = (b64_text src, sz (sz (ret + 4) + b64_len (length src)))"
    by (rule 4(1)) (rule refl sz_lt)+
  then show ?case
    unfolding encode_block_loop.simps Let_def conv_bin2ascii_sextet(2) unat_drop_bit unat_word24 l
    using n by (simp add: Let_def)
qed

lemma EVP_EncodeBlock_eq: "EVP_EncodeBlock src = (b64_text src @ [0], sz (b64_len (length src)))"
  using encode_block_loop_eq [of 0 src] by (simp add: EVP_EncodeBlock_def)

lemma EVP_EncodedLength_eq:
  assumes "n < 2 ^ 64"
  shows "EVP_EncodedLength n = (if b64_len n + 1 < 2 ^ 64 then Some (b64_len n + 1) else None)"
proof (cases "n + 2 < 2 ^ 64")
  case True
  let ?k = "(n + 2) div 3"
  have k: "?k * 3 \<le> n + 2" by simp
  show ?thesis
  proof (cases "?k * 4 < 2 ^ 64")
    case True
    moreover have "?k * 4 \<noteq> 2 ^ 64 - 1"
    proof
      assume "?k * 4 = 2 ^ 64 - 1"
      then have "?k * 4 mod 4 = (2 ^ 64 - 1) mod 4" by (rule arg_cong)
      then show False by simp
    qed
    ultimately have "?k * 4 + 1 < 2 ^ 64" by linarith
    then show ?thesis using \<open>n + 2 < 2 ^ 64\<close> True
      by (simp add: EVP_EncodedLength_def Let_def b64_len_def mult.commute)
  next
    case False
    have "sz (?k * 4) div 4 \<noteq> ?k"
    proof
      assume "sz (?k * 4) div 4 = ?k"
      then have "?k * 4 \<le> sz (?k * 4)" by (metis div_times_less_eq_dividend)
      with False sz_lt [of "?k * 4"] show False by linarith
    qed
    then show ?thesis using \<open>n + 2 < 2 ^ 64\<close> False
      by (simp add: EVP_EncodedLength_def Let_def b64_len_def mult.commute)
  qed
next
  case False
  then have "sz (n + 2) = n + 2 - 2 ^ 64" using assms by (simp add: sz_def mod_if)
  then have "sz (n + 2) < n" using assms False by simp
  moreover have "\<not> b64_len n + 1 < 2 ^ 64" using False by (simp add: b64_len_def)
  ultimately show ?thesis by (simp add: EVP_EncodedLength_def)
qed

section \<open>What decoding reads\<close>


lemma unat_sextets:
  assumes "x < 64" "y < 64" "z < 64" "w < 64"
  shows "unat (push_bit 18 (ucast (word_of_nat x :: u8)) OR push_bit 12 (ucast (word_of_nat y :: u8)) OR
      push_bit 6 (ucast (word_of_nat z :: u8)) OR ucast (word_of_nat w :: u8) :: u32) =
    x * 262144 + y * 4096 + z * 64 + w"
proof -
  have u: "unat (ucast (word_of_nat k :: u8) :: u32) = k" if "k < 64" for k
    using that by (simp add: unat_of_nat)
  let ?w = "ucast (word_of_nat w :: u8) :: u32"
  let ?z = "push_bit 6 (ucast (word_of_nat z :: u8)) OR ?w"
  let ?y = "push_bit 12 (ucast (word_of_nat y :: u8)) OR ?z"
  have z: "unat ?z = z * 64 + w" using assms u by (subst unat_shift_or) simp_all
  then have y: "unat ?y = y * 4096 + z * 64 + w" using assms u by (subst unat_shift_or) simp_all
  then show ?thesis unfolding or.assoc using assms u by (subst unat_shift_or) simp_all
qed

text \<open>A quad is a group of up to four sextets, the last two of which may be padding.\<close>

definition quad_bytes :: "nat \<Rightarrow> nat \<Rightarrow> u8 list" where
  "quad_bytes k n = take k [word_of_nat (n div 65536), word_of_nat (n div 256), word_of_nat n]"

definition quad_value :: "u8 \<Rightarrow> u8 \<Rightarrow> u8 \<Rightarrow> u8 \<Rightarrow> (nat \<times> nat) option" where
  "quad_value a b c d =
     (case (b64_val a, b64_val b) of
        (Some x, Some y) \<Rightarrow>
          (case b64_val c of
             Some z \<Rightarrow>
               (case b64_val d of
                  Some w \<Rightarrow> Some (3, x * 262144 + y * 4096 + z * 64 + w)
                | None \<Rightarrow> if d = 61 then Some (2, x * 262144 + y * 4096 + z * 64) else None)
           | None \<Rightarrow> if c = 61 \<and> d = 61 then Some (1, x * 262144 + y * 4096) else None)
      | _ \<Rightarrow> None)"

lemma b64_val_61 [simp]: "b64_val 61 = None"
  by (simp add: b64_val_def)

lemma base64_decode_quad_eq:
  "base64_decode_quad [a, b, c, d] = map_option (\<lambda>(k, n). quad_bytes k n) (quad_value a b c d)"
proof -
  have inv: "base64_ascii_to_bin e = 0xff \<longleftrightarrow> b64_val e = None \<and> e \<noteq> 61" for e
  proof (cases "b64_val e")
    case (Some n)
    then have "n < 64" by (simp add: b64_val_Some)
    then have "unat (word_of_nat n :: u8) \<noteq> unat (0xff :: u8)" by (simp add: unat_of_nat)
    then have "(word_of_nat n :: u8) \<noteq> 0xff" by metis
    with Some show ?thesis by (simp add: base64_ascii_to_bin_eq)
  qed (simp add: base64_ascii_to_bin_eq)
  have v61: "base64_ascii_to_bin 61 = word_of_nat 0" by (simp add: base64_ascii_to_bin_eq)
  have val: "base64_ascii_to_bin e = word_of_nat n \<and> n < 64 \<and> e \<noteq> 61" if "b64_val e = Some n" for e n
  proof -
    from that have "n < 64" "e = b64_char n" by (simp_all add: b64_val_Some)
    with that b64_char_facts(1) show ?thesis by (simp add: base64_ascii_to_bin_eq)
  qed
  have byte: "(ucast (drop_bit k v) :: u8) = word_of_nat (unat v div 2 ^ k)" for k and v :: u32
    by (rule word_eqI_unat) (simp add: unsigned_ucast_eq take_bit_eq_mod unat_drop_bit unat_of_nat)
  have low: "(ucast (push_bit 18 (ucast (word_of_nat x :: u8)) OR push_bit 12 (ucast (word_of_nat y :: u8)) OR
      push_bit 6 (ucast (word_of_nat z :: u8)) OR ucast (word_of_nat w :: u8) :: u32) :: u8) =
      word_of_nat (x * 262144 + y * 4096 + z * 64 + w)" if "x < 64" "y < 64" "z < 64" "w < 64" for x y z w
    using byte [of 0] unat_sextets [OF that] by (simp only: drop_bit_0 id_apply power_0 div_by_1)
  note eval = base64_decode_quad_def quad_value_def Let_def inv v61 byte low quad_bytes_def
    unat_sextets unat_sextets [where w = 0, simplified] unat_sextets [where z = 0 and w = 0, simplified]
  show ?thesis
    by (cases "b64_val a"; cases "b64_val b"; cases "b64_val c"; cases "b64_val d")
      (auto simp: eval simp del: drop_bit_or dest!: val)
qed

lemma base64_decode_quad_list:
  assumes "length data \<ge> 4"
  shows "base64_decode_quad data = base64_decode_quad [data ! 0, data ! 1, data ! 2, data ! 3]"
  using assms by (simp add: base64_decode_quad_def)



lemma quad_value_chars:
  assumes "x < 64" "y < 64"
  shows "z < 64 \<Longrightarrow> w < 64 \<Longrightarrow> quad_value (b64_char x) (b64_char y) (b64_char z) (b64_char w) =
      Some (3, x * 262144 + y * 4096 + z * 64 + w)"
    "z < 64 \<Longrightarrow> quad_value (b64_char x) (b64_char y) (b64_char z) 61 = Some (2, x * 262144 + y * 4096 + z * 64)"
    "quad_value (b64_char x) (b64_char y) 61 61 = Some (1, x * 262144 + y * 4096)"
  using assms by (simp_all add: quad_value_def b64_val_char)

lemma sextets_eq:
  "(n :: nat) div 4096 * 4096 + n div 64 mod 64 * 64 + n mod 64 = n"
  "n div 262144 * 262144 + n div 4096 mod 64 * 4096 + n div 64 mod 64 * 64 + n mod 64 = n"
proof -
  have d: "n div 64 div 64 = n div 4096" "n div 4096 div 64 = n div 262144"
    by (simp_all add: div_mult2_eq [symmetric])
  note m = div_mult_mod_eq [of n 64] div_mult_mod_eq [of "n div 64" 64, unfolded d]
    div_mult_mod_eq [of "n div 4096" 64, unfolded d]
  show "n div 4096 * 4096 + n div 64 mod 64 * 64 + n mod 64 = n" using m(1,2) by linarith
  show "n div 262144 * 262144 + n div 4096 mod 64 * 4096 + n div 64 mod 64 * 64 + n mod 64 = n"
    using m by linarith
qed

lemma byte_join:
  "word_of_nat (m * 256 + unat b) = (b :: u8)" "word_of_nat (k * 65536 + m * 256 + unat b) = (b :: u8)"
  "word_of_nat (256 * m + unat b) = (b :: u8)"
proof -
  have "k * 65536 + m * 256 + unat b = (k * 256 + m) * 256 + unat b" by simp
  moreover show j: "word_of_nat (m * 256 + unat b) = (b :: u8)" for m
    by (rule word_eqI_unat) (simp add: unat_of_nat del: of_nat_add of_nat_mult)
  ultimately show "word_of_nat (k * 65536 + m * 256 + unat b) = (b :: u8)" by (simp only: j)
  show "word_of_nat (256 * m + unat b) = (b :: u8)" using j [of m] by (simp only: mult.commute)
qed

lemma decode_quad_1:
  "base64_decode_quad [b64_char (unat a * 16 div 64), b64_char (unat a * 16 mod 64), 61, 61] = Some [a :: u8]"
proof -
  let ?n = "unat a * 16"
  have "?n div 64 < 64" using unat_u8_lt [of a] by (simp del: unat_u8_lt)
  moreover have "?n div 64 * 262144 + ?n mod 64 * 4096 = unat a * 65536"
    using div_mult_mod_eq [of ?n 64] by linarith
  ultimately show ?thesis
    by (simp add: base64_decode_quad_eq quad_value_chars quad_bytes_def)
qed

lemma decode_quad_2:
  defines "n \<equiv> \<lambda>a b. unat a * 1024 + unat b * 4"
  shows "base64_decode_quad [b64_char (n a b div 4096), b64_char (n a b div 64 mod 64), b64_char (n a b mod 64), 61] =
    Some [a :: u8, b :: u8]"
proof -
  let ?n = "n a b"
  have "?n div 4096 < 64" using unat_u8_lt [of a] unat_u8_lt [of b] by (simp add: n_def del: unat_u8_lt)
  moreover have "?n div 4096 * 262144 + ?n div 64 mod 64 * 4096 + ?n mod 64 * 64 = unat a * 65536 + unat b * 256"
    using sextets_eq(1) [of ?n] unfolding n_def by linarith
  moreover have "(unat a * 65536 + unat b * 256) div 65536 = unat a" "(unat a * 65536 + unat b * 256) div 256 = unat a * 256 + unat b"
    using unat_u8_lt [of b] by (simp_all del: unat_u8_lt)
  ultimately show ?thesis
    by (simp add: base64_decode_quad_eq quad_value_chars quad_bytes_def byte_join del: of_nat_add of_nat_mult)
qed

lemma decode_quad_3:
  defines "n \<equiv> \<lambda>a b c. unat a * 65536 + unat b * 256 + unat c"
  shows "base64_decode_quad [b64_char (n a b c div 262144), b64_char (n a b c div 4096 mod 64),
      b64_char (n a b c div 64 mod 64), b64_char (n a b c mod 64)] = Some [a :: u8, b :: u8, c :: u8]"
proof -
  let ?n = "n a b c"
  have "?n div 262144 < 64"
    using unat_u8_lt [of a] unat_u8_lt [of b] unat_u8_lt [of c] by (simp add: n_def del: unat_u8_lt)
  moreover have "?n div 262144 * 262144 + ?n div 4096 mod 64 * 4096 + ?n div 64 mod 64 * 64 + ?n mod 64 = ?n"
    by (rule sextets_eq)
  moreover have "?n div 65536 = unat a" "?n div 256 = unat a * 256 + unat b"
    using unat_u8_lt [of b] unat_u8_lt [of c] by (simp_all add: n_def del: unat_u8_lt)
  ultimately show ?thesis
    by (simp add: base64_decode_quad_eq quad_value_chars quad_bytes_def n_def byte_join
        del: of_nat_add of_nat_mult)
qed

lemma decode_base64_loop_text: "decode_base64_loop out (b64_text xs) = Some (out @ xs)"
  by (induction xs arbitrary: out rule: b64_text.induct)
    (simp_all add: Let_def decode_quad_1 [simplified] decode_quad_2 decode_quad_3)

lemma quad_bytes_length: "quad_value a b c d = Some (k, n) \<Longrightarrow> length (quad_bytes k n) = k \<and> k \<le> 3"
  by (auto simp: quad_value_def quad_bytes_def split: option.splits if_splits)

lemma decode_base64_loop_length:
  "decode_base64_loop out src = Some out' \<Longrightarrow> length out' \<le> length out + length src div 4 * 3"
proof (induction out src rule: decode_base64_loop.induct)
  case (1 out q0 q1 q2 q3 src)
  then obtain bs where bs: "base64_decode_quad [q0, q1, q2, q3] = Some bs"
    and rec: "decode_base64_loop (out @ bs) src = Some out'" and ok: "\<not> (length bs \<noteq> 3 \<and> src \<noteq> [])"
    by (auto split: option.splits if_splits)
  have "length bs \<le> 3" using bs quad_bytes_length by (fastforce simp: base64_decode_quad_eq)
  moreover have "length (q0 # q1 # q2 # q3 # src) div 4 = length src div 4 + 1" by simp
  ultimately show ?case using 1(1) [OF bs ok rec] by simp
qed simp_all



section \<open>The streaming decoder\<close>

text \<open>
  The reference: text without white space, four characters at a time. A quad with padding gives fewer than three
  bytes and has to be the last.
\<close>

fun b64_decoded :: "u8 list \<Rightarrow> u8 list option" where
  "b64_decoded [] = Some []"
| "b64_decoded (a # b # c # d # text) =
     (case quad_value a b c d of
        None \<Rightarrow> None
      | Some (k, n) \<Rightarrow>
          if k = 3 then map_option (\<lambda>xs. quad_bytes k n @ xs) (b64_decoded text)
          else if text = [] then Some (quad_bytes k n) else None)"
| "b64_decoded _ = None"

lemma b64_decoded_quad:
  "b64_decoded (a # b # c # d # text) =
     (case base64_decode_quad [a, b, c, d] of
        None \<Rightarrow> None
      | Some bs \<Rightarrow>
          if length bs = 3 then map_option (\<lambda>xs. bs @ xs) (b64_decoded text) else if text = [] then Some bs else None)"
  by (auto simp: base64_decode_quad_eq dest: quad_bytes_length split: option.split)

lemma b64_decoded_text: "b64_decoded (b64_text xs) = Some xs"
  by (induction xs rule: b64_text.induct)
    (simp_all add: Let_def b64_decoded_quad decode_quad_1 [simplified] decode_quad_2 decode_quad_3 del: b64_decoded.simps(2))

text \<open>What the loop appends to \<open>out\<close> does not depend on what is there, and an input can be cut anywhere.\<close>

lemma decode_update_loop_out:
  "decode_update_loop ctx out src =
     (case decode_update_loop ctx [] src of (ok, bs, ctx') \<Rightarrow> (ok, out @ bs, ctx'))"
proof (induction src arbitrary: ctx out)
  case (Cons c src)
  let ?ctx1 = "ctx\<lparr>ctx_data := (ctx_data ctx)[data_used ctx := c], data_used := data_used ctx + 1\<rparr>"
  let ?ctx2 = "\<lambda>bs. ?ctx1\<lparr>data_used := 0, eof_seen := (if length bs < 3 then True else eof_seen ?ctx1)\<rparr>"
  note IH = Cons [of ctx out] Cons [of ?ctx1 out]
  note loop = decode_update_loop.simps(2) [of ctx _ c src]
  show ?case
  proof (cases "data_used ctx = 3")
    case False
    then show ?thesis using IH unfolding loop Let_def by (simp split: prod.split)
  next
    case True
    show ?thesis
    proof (cases "base64_decode_quad ((ctx_data ctx)[3 := c])")
      case None
      with True show ?thesis using IH unfolding loop Let_def by (simp split: prod.split)
    next
      case (Some bs)
      with True show ?thesis using IH Cons [of "?ctx2 bs" "out @ bs"] Cons [of "?ctx2 bs" bs]
        unfolding loop Let_def by (simp split: prod.split)
    qed
  qed
qed simp

lemma decode_update_loop_append:
  "decode_update_loop ctx out (xs @ ys) =
     (case decode_update_loop ctx out xs of
        (False, out', ctx') \<Rightarrow> (False, out', ctx')
      | (True, out', ctx') \<Rightarrow> decode_update_loop ctx' out' ys)"
  by (induction ctx out xs rule: decode_update_loop.induct) (simp_all add: Let_def split: option.split)

lemma decode_update_loop_spaces:
  "decode_update_loop ctx out src = decode_update_loop ctx out (filter (\<lambda>c. \<not> is_b64_space c) src)"
  by (induction ctx out src rule: decode_update_loop.induct) (simp_all add: Let_def split: option.split)

lemma decode_update_loop_error:
  "decode_update_loop ctx out src = (True, out', ctx') \<Longrightarrow> error_encountered ctx' = error_encountered ctx"
  by (induction ctx out src rule: decode_update_loop.induct)
    (auto simp: Let_def split: if_splits option.splits)

definition quad_start :: "evp_encode_ctx \<Rightarrow> bool" where
  "quad_start ctx \<longleftrightarrow> data_used ctx = 0 \<and> length (ctx_data ctx) = 48 \<and> \<not> eof_seen ctx"

lemma decode_update_loop_quad:
  assumes "quad_start ctx" "\<forall>c \<in> {c0, c1, c2, c3}. \<not> is_b64_space c"
  shows "case base64_decode_quad [c0, c1, c2, c3] of
      None \<Rightarrow> \<exists>ctx'. decode_update_loop ctx out (c0 # c1 # c2 # c3 # src) = (False, out, ctx')
    | Some bs \<Rightarrow> \<exists>ctx'. decode_update_loop ctx out (c0 # c1 # c2 # c3 # src) = decode_update_loop ctx' (out @ bs) src \<and>
        data_used ctx' = 0 \<and> length (ctx_data ctx') = 48 \<and> eof_seen ctx' = (length bs < 3)"
proof -
  let ?data = "(ctx_data ctx)[0 := c0, Suc 0 := c1, 2 := c2, 3 := c3]"
  have quad: "base64_decode_quad ?data = base64_decode_quad [c0, c1, c2, c3]"
    using assms base64_decode_quad_list [of ?data] by (simp add: quad_start_def)
  show ?thesis
  proof (cases "base64_decode_quad [c0, c1, c2, c3]")
    case None
    then show ?thesis using assms quad by (simp add: quad_start_def Let_def numeral_2_eq_2 numeral_3_eq_3)
  next
    case (Some bs)
    let ?ctx' = "ctx\<lparr>ctx_data := ?data, data_used := 0, eof_seen := (length bs < 3)\<rparr>"
    have "decode_update_loop ctx out (c0 # c1 # c2 # c3 # src) = decode_update_loop ?ctx' (out @ bs) src"
      using assms quad Some by (simp add: quad_start_def Let_def numeral_2_eq_2 numeral_3_eq_3)
    then show ?thesis using assms(1) Some by (auto intro!: exI [of _ ?ctx'] simp: quad_start_def)
  qed
qed

lemma b64_text_no_space: "c \<in> set (b64_text xs) \<Longrightarrow> \<not> is_b64_space c"
  by (induction xs rule: b64_text.induct)
    (auto simp: Let_def b64_char_facts, simp_all add: is_b64_space_def)

text \<open>One pass over text without white space, from the start of a quad, gives what the reference gives.\<close>

definition decode_result :: "bool \<times> u8 list \<times> evp_encode_ctx \<Rightarrow> u8 list option" where
  "decode_result r = (case r of (ok, out, ctx) \<Rightarrow> if ok \<and> data_used ctx = 0 then Some out else None)"

lemma decode_update_loop_short:
  assumes "quad_start ctx" "length src < 4" "src \<noteq> []" "\<forall>c \<in> set src. \<not> is_b64_space c"
  shows "decode_result (decode_update_loop ctx out src) = None"
proof -
  consider a where "src = [a]" | a b where "src = [a, b]" | a b c where "src = [a, b, c]"
    using assms(2,3) by (cases src rule: b64_decoded.cases) auto
  then show ?thesis using assms(1,4) by cases (simp_all add: quad_start_def decode_result_def Let_def)
qed

lemma decode_update_loop_decoded:
  "quad_start ctx \<Longrightarrow> \<forall>c \<in> set src. \<not> is_b64_space c \<Longrightarrow>
     decode_result (decode_update_loop ctx out src) = map_option (\<lambda>xs. out @ xs) (b64_decoded src)"
proof (induction src arbitrary: ctx out rule: b64_decoded.induct)
  case (1)
  then show ?case by (simp add: quad_start_def decode_result_def)
next
  case (2 a b c d src)
  have sp: "\<forall>c \<in> {a, b, c, d}. \<not> is_b64_space c" using 2(3) by simp
  note quad = decode_update_loop_quad [OF 2(2) sp, of out src]
  show ?case
  proof (cases "base64_decode_quad [a, b, c, d]")
    case None
    with quad show ?thesis by (auto simp: b64_decoded_quad decode_result_def simp del: b64_decoded.simps(2) decode_update_loop.simps)
  next
    case (Some bs)
    with quad obtain ctx' where loop: "decode_update_loop ctx out (a # b # c # d # src) = decode_update_loop ctx' (out @ bs) src"
      and ctx': "data_used ctx' = 0" "length (ctx_data ctx') = 48" "eof_seen ctx' = (length bs < 3)" by auto
    obtain k n where kn: "quad_value a b c d = Some (k, n)" "bs = quad_bytes k n"
      using Some by (auto simp: base64_decode_quad_eq)
    then have k: "length bs = k" "k \<le> 3" using quad_bytes_length by blast+
    show ?thesis
    proof (cases "length bs = 3")
      case True
      then have "quad_start ctx'" using ctx' by (simp add: quad_start_def)
      from 2(1) [OF kn(1) refl _ this, of "out @ bs"] True k 2(3)
      show ?thesis by (simp add: loop b64_decoded_quad Some o_def option.map_comp del: b64_decoded.simps(2) decode_update_loop.simps)
    next
      case False
      then have eof: "eof_seen ctx'" using ctx'(3) k by simp
      have "decode_result (decode_update_loop ctx' (out @ bs) src) = (if src = [] then Some (out @ bs) else None)"
        using ctx' eof 2(3) by (cases src) (simp_all add: decode_result_def)
      then show ?thesis
        using False by (simp add: loop b64_decoded_quad Some del: b64_decoded.simps(2) decode_update_loop.simps)
    qed
  qed
qed (simp_all add: decode_update_loop_short del: decode_update_loop.simps)

text \<open>How a caller drives the decoder over a sequence of pieces.\<close>

fun decode_stream :: "evp_encode_ctx \<Rightarrow> u8 list list \<Rightarrow> u8 list option" where
  "decode_stream ctx [] = (if EVP_DecodeFinal ctx = 1 then Some [] else None)"
| "decode_stream ctx (piece # pieces) =
     (case EVP_DecodeUpdate ctx piece of
        (ret, out, n, ctx') \<Rightarrow>
          if ret < 0 then None else map_option (\<lambda>rest. take n out @ rest) (decode_stream ctx' pieces))"

lemma decode_stream_loop:
  assumes "\<not> error_encountered ctx" "length (fst (snd (decode_update_loop ctx [] (concat pieces)))) \<le> INT_MAX"
  shows "decode_stream ctx pieces = decode_result (decode_update_loop ctx [] (concat pieces))"
  using assms
proof (induction pieces arbitrary: ctx)
  case Nil
  then show ?case by (simp add: EVP_DecodeFinal_def decode_result_def)
next
  case (Cons piece pieces)
  obtain ok out1 ctx1 where first: "decode_update_loop ctx [] piece = (ok, out1, ctx1)"
    by (cases "decode_update_loop ctx [] piece")
  obtain ok2 out2 ctx2 where rest: "decode_update_loop ctx1 [] (concat pieces) = (ok2, out2, ctx2)"
    by (cases "decode_update_loop ctx1 [] (concat pieces)")
  show ?case
  proof (cases ok)
    case False
    with first Cons.prems(1) show ?thesis
      by (simp add: EVP_DecodeUpdate_def decode_update_loop_append decode_result_def)
  next
    case True
    have all: "decode_update_loop ctx [] (concat (piece # pieces)) = (ok2, out1 @ out2, ctx2)"
      using first True rest by (simp add: decode_update_loop_append decode_update_loop_out [of ctx1 out1])
    have err: "\<not> error_encountered ctx1" using decode_update_loop_error [of ctx "[]" piece] first True Cons.prems(1) by simp
    have len: "length out1 \<le> INT_MAX" "length out2 \<le> INT_MAX" using Cons.prems(2) unfolding all by simp_all
    have "decode_stream ctx1 pieces = decode_result (ok2, out2, ctx2)"
      using Cons.IH [OF err] rest len(2) by simp
    then show ?thesis
      using first True Cons.prems(1) len(1) unfolding all
      by (auto simp: EVP_DecodeUpdate_def decode_result_def split: if_splits)
  qed
qed

lemma decode_update_loop_length:
  "length (fst (snd (decode_update_loop ctx out src))) \<le> length out + 3 * length src"
proof (induction ctx out src rule: decode_update_loop.induct)
  case (2 ctx out c src)
  have "length bs \<le> 3" if "base64_decode_quad q = Some bs" for q bs
    using that by (auto simp: base64_decode_quad_def Let_def split: if_splits)
  with 2 show ?case by (fastforce simp: Let_def split: option.split)
qed simp

section \<open>The streaming encoder\<close>

text \<open>The lines of the whole 48-byte chunks of an input, and the input left after them.\<close>

fun whole_lines :: "u8 list \<Rightarrow> u8 list" where
  "whole_lines xs =
     (if length xs \<ge> 48 then b64_text (take 48 xs) @ 10 # whole_lines (drop 48 xs) else [])"

declare whole_lines.simps [simp del]

definition pending :: "u8 list \<Rightarrow> u8 list" where
  "pending xs = drop (length xs div 48 * 48) xs"

definition b64_lines :: "u8 list \<Rightarrow> u8 list" where
  "b64_lines xs = whole_lines xs @ (if pending xs = [] then [] else b64_text (pending xs) @ [10])"

lemma div_48_add: "(48 + k) div 48 = Suc (k div 48)"
  by simp

lemma pending_simps:
  "length xs < 48 \<Longrightarrow> pending xs = xs"
  "length xs \<ge> 48 \<Longrightarrow> pending xs = pending (drop 48 xs)"
proof -
  assume "length xs \<ge> 48"
  then obtain k where k: "length xs = 48 + k" by (metis le_iff_add)
  then have "length xs div 48 = Suc (k div 48)" by simp
  then show "pending xs = pending (drop 48 xs)" by (simp add: pending_def k add.commute)
qed (simp add: pending_def)

lemma length_pending: "length (pending xs) = length xs mod 48"
  by (simp add: pending_def minus_div_mult_eq_mod)

lemma length_pending_lt [simp]: "length (pending xs) < 48"
  by (simp add: length_pending)

lemma whole_lines_short: "length xs < 48 \<Longrightarrow> whole_lines xs = []"
  by (simp add: whole_lines.simps)

lemma whole_lines_long:
  "length xs \<ge> 48 \<Longrightarrow> whole_lines xs = b64_text (take 48 xs) @ 10 # whole_lines (drop 48 xs)"
  by (simp add: whole_lines.simps [of xs])

lemma lines_append:
  "whole_lines (xs @ ys) = whole_lines xs @ whole_lines (pending xs @ ys)"
  "pending (xs @ ys) = pending (pending xs @ ys)"
proof (induction xs rule: whole_lines.induct)
  case (1 xs)
  {
    case 1
    show ?case
    proof (cases "length xs \<ge> 48")
      case True
      with "1.IH"(1) [OF True] show ?thesis
        by (simp add: whole_lines_long [of "xs @ ys"] whole_lines_long [of xs] pending_simps(2) [of xs])
    qed (simp add: whole_lines_short pending_simps(1))
  next
    case 2
    show ?case
    proof (cases "length xs \<ge> 48")
      case True
      with "1.IH"(2) [OF True] show ?thesis
        by (simp add: pending_simps(2) [of "xs @ ys"] pending_simps(2) [of xs])
    qed (simp add: pending_simps(1) [of xs])
  }
qed

lemma length_whole_lines: "length (whole_lines xs) = length xs div 48 * 65"
proof (induction xs rule: whole_lines.induct)
  case (1 xs)
  show ?case
  proof (cases "length xs \<ge> 48")
    case True
    then obtain k where "length xs = 48 + k" by (metis le_iff_add)
    with 1 True show ?thesis
      by (simp add: whole_lines_long length_b64_text b64_len_def div_48_add)
  qed (simp add: whole_lines_short)
qed

lemma encode_lines_eq:
  assumes "tot + length src div 48 * 65 < 2 ^ 64"
  shows "encode_lines out tot src =
    (out @ whole_lines src, Some (tot + length (whole_lines src)), pending src)"
  using assms
proof (induction out tot src rule: encode_lines.induct)
  case (1 out tot src)
  show ?case
  proof (cases "length src \<ge> 48")
    case True
    then obtain k where k: "length src = 48 + k" by (metis le_iff_add)
    have e: "EVP_EncodeBlock (take 48 src) = (b64_text (take 48 src) @ [0], 64)"
      using True by (simp add: EVP_EncodeBlock_eq b64_len_def min_def)
    have l: "length (b64_text (take 48 src)) = 64" using True by (simp add: length_b64_text b64_len_def min_def)
    have "tot + 65 + k div 48 * 65 < 2 ^ 64" using 1(2) k by (simp add: div_48_add)
    moreover from this have "sz (tot + 64 + 1) = tot + 65" by (simp add: add.assoc)
    ultimately have "encode_lines (out @ b64_text (take 48 src) @ [10]) (tot + 65) (drop 48 src) =
      ((out @ b64_text (take 48 src) @ [10]) @ whole_lines (drop 48 src),
       Some (tot + 65 + length (whole_lines (drop 48 src))), pending (drop 48 src))"
      using 1(1) [OF True e [symmetric] refl] l k by (simp add: add.commute [of tot 65])
    with True e l \<open>sz (tot + 64 + 1) = tot + 65\<close> show ?thesis
      by (subst encode_lines.simps) (simp add: whole_lines_long [of src] pending_simps(2) [of src])
  next
    case False
    then show ?thesis by (subst encode_lines.simps) (simp add: whole_lines_short pending_simps)
  qed
qed

text \<open>The encoder's state: the bytes waiting for their line to fill up.\<close>

definition enc_wf :: "evp_encode_ctx \<Rightarrow> bool" where
  "enc_wf ctx \<longleftrightarrow> length (ctx_data ctx) = 48 \<and> data_used ctx < 48"

definition enc_pending :: "evp_encode_ctx \<Rightarrow> u8 list" where
  "enc_pending ctx = take (data_used ctx) (ctx_data ctx)"

lemma EVP_EncodeUpdate_spec:
  assumes "enc_wf ctx" "EVP_EncodeUpdate ctx src = (out, n, ctx')"
  defines "all \<equiv> enc_pending ctx @ src"
  assumes "length all < 2 ^ 63"
  shows "enc_wf ctx'" "enc_pending ctx' = pending all"
    "out = terminated (whole_lines all)"
    "n = (if length (whole_lines all) \<le> INT_MAX then length (whole_lines all) else 0)"
proof -
  let ?u = "data_used ctx" and ?data = "ctx_data ctx"
  have wf: "length ?data = 48" "?u < 48" using assms(1) by (simp_all add: enc_wf_def)
  have la: "length all = ?u + length src" using wf by (simp add: all_def enc_pending_def)
  consider (empty) "src = []" | (buffered) "src \<noteq> []" "48 - ?u > length src"
    | (direct) "\<not> 48 - ?u > length src" "src \<noteq> []" "?u = 0" | (fill) "\<not> 48 - ?u > length src" "src \<noteq> []" "?u \<noteq> 0"
    by blast
  then have "enc_wf ctx' \<and> enc_pending ctx' = pending all \<and> out = terminated (whole_lines all) \<and>
    n = (if length (whole_lines all) \<le> INT_MAX then length (whole_lines all) else 0)"
  proof cases
    case empty
    with assms(2) wf la show ?thesis
      by (simp add: EVP_EncodeUpdate_def all_def enc_wf_def pending_simps whole_lines_short terminated_def)
  next
    case buffered
    with assms(2) have "out = []" "n = 0"
      "ctx' = ctx\<lparr>ctx_data := store_at ?u src ?data, data_used := ?u + length src\<rparr>"
      by (simp_all add: EVP_EncodeUpdate_def)
    with buffered wf la show ?thesis
      by (simp add: enc_wf_def length_store_at pending_simps whole_lines_short terminated_def enc_pending_def
          take_store_at all_def)
  next
    case direct
    have el: "encode_lines [] 0 src = (whole_lines src, Some (length (whole_lines src)), pending src)"
      using encode_lines_eq [of 0 src "[]"] assms(4) la by simp
    have "all = src" using direct by (simp add: all_def enc_pending_def)
    moreover have "enc_wf (ctx\<lparr>ctx_data := store_at 0 (pending src) ?data, data_used := length (pending src)\<rparr>)"
      using wf length_store_at [of 0 "pending src" ?data] length_pending_lt [of src] by (simp add: enc_wf_def del: length_pending_lt)
    ultimately show ?thesis
      using assms(2) direct el by (auto simp: EVP_EncodeUpdate_def enc_pending_def store_at_def)
  next
    case fill
    let ?todo = "48 - ?u"
    let ?full = "store_at ?u (take ?todo src) ?data" and ?rest = "drop ?todo src"
    have full: "?full = take 48 all" "?rest = drop 48 all" "length all \<ge> 48"
      using fill wf la by (simp_all add: store_at_def all_def enc_pending_def min_def)
    have e: "EVP_EncodeBlock ?full = (b64_text ?full @ [0], 64)" and l: "length (b64_text ?full) = 64" "length ?full = 48"
      using full by (simp_all add: EVP_EncodeBlock_eq b64_len_def min_def length_b64_text)
    have "65 + length ?rest div 48 * 65 < 2 ^ 64"
    proof -
      have "length ?rest div 48 * 65 \<le> length ?rest * 65 div 48" by linarith
      with full assms(4) show ?thesis by simp
    qed
    from encode_lines_eq [OF this, of "b64_text ?full @ [10]"]
    have el: "encode_lines (b64_text ?full @ [10]) 65 ?rest = (whole_lines all, Some (length (whole_lines all)), pending all)"
      using full l by (simp add: whole_lines_long [of all] pending_simps(2) [of all])
    show ?thesis
      using assms(2) fill e el l length_store_at [of 0 "pending all" ?full] length_pending_lt [of all]
      by (auto simp: EVP_EncodeUpdate_def Let_def enc_wf_def enc_pending_def store_at_def [of 0] simp del: length_pending_lt)
  qed
  then show "enc_wf ctx'" "enc_pending ctx' = pending all"
    "out = terminated (whole_lines all)"
    "n = (if length (whole_lines all) \<le> INT_MAX then length (whole_lines all) else 0)"
    by blast+
qed


text \<open>How a caller drives the encoder over a sequence of pieces.\<close>

fun encode_stream :: "evp_encode_ctx \<Rightarrow> u8 list list \<Rightarrow> u8 list" where
  "encode_stream ctx [] = (case EVP_EncodeFinal ctx of (out, n, _) \<Rightarrow> take n out)"
| "encode_stream ctx (piece # pieces) =
     (case EVP_EncodeUpdate ctx piece of (out, n, ctx') \<Rightarrow> take n out @ encode_stream ctx' pieces)"

lemma EVP_EncodeFinal_spec:
  assumes "enc_wf ctx"
  shows "EVP_EncodeFinal ctx =
    (if enc_pending ctx = [] then ([], 0, ctx)
     else (b64_text (enc_pending ctx) @ [10, 0], length (b64_text (enc_pending ctx)) + 1, ctx\<lparr>data_used := 0\<rparr>))"
proof -
  have "length (enc_pending ctx) = data_used ctx" "data_used ctx < 48"
    using assms by (simp_all add: enc_wf_def enc_pending_def)
  moreover from this have "b64_len (data_used ctx) < 2 ^ 64" by (simp add: b64_len_def)
  ultimately show ?thesis
    by (auto simp: EVP_EncodeFinal_def EVP_EncodeBlock_eq length_b64_text enc_pending_def)
qed

lemma encode_stream_lines:
  assumes "enc_wf ctx" "length (enc_pending ctx @ concat pieces) < 2 ^ 30"
  shows "encode_stream ctx pieces = b64_lines (enc_pending ctx @ concat pieces)"
  using assms
proof (induction pieces arbitrary: ctx)
  case Nil
  then have "length (enc_pending ctx) < 48" by (simp add: enc_wf_def enc_pending_def)
  with Nil show ?case
    by (simp add: EVP_EncodeFinal_spec b64_lines_def whole_lines_short pending_simps)
next
  case (Cons piece pieces)
  obtain out n ctx' where u: "EVP_EncodeUpdate ctx piece = (out, n, ctx')" by (cases "EVP_EncodeUpdate ctx piece")
  let ?all = "enc_pending ctx @ piece"
  have len: "length ?all < 2 ^ 30" using Cons.prems(2) by simp
  have "length (whole_lines ?all) \<le> length ?all * 65 div 48" unfolding length_whole_lines by linarith
  also have "\<dots> \<le> INT_MAX" using len by (simp add: INT_MAX_def)
  finally have max: "length (whole_lines ?all) \<le> INT_MAX" .
  have "length ?all < 2 ^ 63" using len by simp
  note s = EVP_EncodeUpdate_spec [OF Cons.prems(1) u this]
  have "length (pending ?all) \<le> length ?all" unfolding length_pending by (rule mod_less_eq_dividend)
  then have "length (enc_pending ctx' @ concat pieces) < 2 ^ 30" using Cons.prems(2) s(2) by simp
  with Cons.IH [OF s(1)] have "encode_stream ctx' pieces = b64_lines (pending ?all @ concat pieces)"
    using s(2) by simp
  moreover have "take n out = whole_lines ?all" using s(3,4) max by (simp add: terminated_def)
  ultimately show ?case
    using lines_append [of ?all "concat pieces"] by (simp add: u b64_lines_def)
qed

lemma enc_wf_init: "enc_wf EVP_EncodeInit" "enc_pending EVP_EncodeInit = []"
  by (simp_all add: enc_wf_def enc_pending_def EVP_EncodeInit_def)

lemma b64_text_lines: "filter (\<lambda>c. \<not> is_b64_space c) (b64_lines xs) = b64_text xs"
proof -
  have t: "filter (\<lambda>c. \<not> is_b64_space c) (b64_text ys) = b64_text ys" for ys
    by (rule filter_True) (auto dest: b64_text_no_space)
  have nl: "is_b64_space 10" by (simp add: is_b64_space_def)
  have app: "b64_text (ys @ zs) = b64_text ys @ b64_text zs" if "length ys mod 3 = 0" for ys zs
    using that by (induction ys rule: b64_text.induct) (simp_all add: Let_def)
  have "filter (\<lambda>c. \<not> is_b64_space c) (whole_lines xs) @ b64_text (pending xs) = b64_text xs"
  proof (induction xs rule: whole_lines.induct)
    case (1 xs)
    show ?case
    proof (cases "length xs \<ge> 48")
      case True
      then have "length (take 48 xs) mod 3 = 0" by (simp add: min_def)
      from app [OF this, of "drop 48 xs"] 1 [OF True] True show ?thesis
        by (simp add: whole_lines_long [of xs] pending_simps(2) [of xs] t nl)
    qed (simp add: whole_lines_short pending_simps)
  qed
  then show ?thesis by (auto simp: b64_lines_def t nl)
qed

section \<open>Properties\<close>

text \<open>The size computed for an encoding is exact: it is given iff the characters and the terminator of
  the encoding fit a \<open>size_t\<close>, and it is the number of bytes \<open>EVP_EncodeBlock\<close> stores.\<close>

theorem EVP_EncodedLength_exact:
  assumes "length src < 2 ^ 64"
  shows "EVP_EncodedLength (length src) =
    (if length (fst (EVP_EncodeBlock src)) < 2 ^ 64 then Some (length (fst (EVP_EncodeBlock src))) else None)"
  using EVP_EncodedLength_eq [OF assms] by (simp add: EVP_EncodeBlock_eq length_b64_text)

theorem EVP_EncodedLength_exact_witness:
  "EVP_EncodedLength 5 = Some 9"
proof -
  have l: "length [1, 2, 3, 4, 5 :: u8] = 5" "length (fst (EVP_EncodeBlock [1, 2, 3, 4, 5])) = 9"
    by (simp_all add: EVP_EncodeBlock_eq length_b64_text b64_len_def)
  show ?thesis using EVP_EncodedLength_exact [of "[1, 2, 3, 4, 5]"] unfolding l by simp
qed

text \<open>The constant-time tables compute the alphabet of RFC 4648: every sextet has its character, every
  character its sextet, padding maps to 0 and every other byte to 0xff.\<close>

theorem base64_tables_exact:
  "conv_bin2ascii a = b64_char (unat a mod 64) \<and>
   base64_ascii_to_bin c = (case b64_val c of Some n \<Rightarrow> word_of_nat n | None \<Rightarrow> if c = 61 then 0 else 0xff)"
  using conv_bin2ascii_eq base64_ascii_to_bin_eq by blast

text \<open>C11: However an input is cut into pieces, the streaming encoder writes the lines of 48 input bytes of
  the whole input, the last one short.\<close>

theorem encode_stream_exact:
  assumes "length (concat pieces) < 2 ^ 30"
  shows "encode_stream EVP_EncodeInit pieces = b64_lines (concat pieces)"
  using encode_stream_lines [OF enc_wf_init(1), of pieces] assms by (simp add: enc_wf_init)

theorem encode_stream_exact_witness:
  "encode_stream EVP_EncodeInit [[1], [], [2, 3, 4]] = [65, 81, 73, 68, 66, 65, 61, 61, 10]"
proof -
  have "encode_stream EVP_EncodeInit [[1], [], [2, 3, 4]] = b64_lines [1, 2, 3, 4]"
    using encode_stream_exact [of "[[1], [], [2, 3, 4]]"] by simp
  then show ?thesis
    by (simp add: b64_lines_def whole_lines_short pending_simps b64_char_def b64_code_def)
qed

text \<open>C10: However an input is cut into pieces, the streaming decoder gives what one pass over its characters other
  than white space gives: quads of the alphabet, padding in the last quad only, nothing after it and no quad left
  unfinished. Every other input is refused. On the text of a byte string the pass gives the byte string.\<close>

theorem decode_stream_exact:
  assumes "length (concat pieces) < 2 ^ 29"
  shows "decode_stream EVP_DecodeInit pieces = b64_decoded (filter (\<lambda>c. \<not> is_b64_space c) (concat pieces)) \<and>
    b64_decoded (b64_text xs) = Some xs"
proof -
  let ?text = "filter (\<lambda>c. \<not> is_b64_space c) (concat pieces)"
  have "quad_start EVP_DecodeInit" by (simp add: quad_start_def EVP_DecodeInit_def)
  then have "decode_result (decode_update_loop EVP_DecodeInit [] ?text) = b64_decoded ?text"
    using decode_update_loop_decoded [of EVP_DecodeInit ?text "[]"] by (simp add: option.map_ident)
  moreover have "length (fst (snd (decode_update_loop EVP_DecodeInit [] (concat pieces)))) \<le> INT_MAX"
    using decode_update_loop_length [of EVP_DecodeInit "[]" "concat pieces"] assms by (simp add: INT_MAX_def)
  then have "decode_stream EVP_DecodeInit pieces = decode_result (decode_update_loop EVP_DecodeInit [] (concat pieces))"
    by (intro decode_stream_loop) (simp_all add: EVP_DecodeInit_def)
  ultimately show ?thesis using decode_update_loop_spaces [of EVP_DecodeInit "[]" "concat pieces"] b64_decoded_text by simp
qed

theorem decode_stream_exact_witness:
  "decode_stream EVP_DecodeInit [[65, 81, 10, 73], [32, 68, 66, 65, 61], [61, 10]] = Some [1, 2, 3, 4] \<and>
   decode_stream EVP_DecodeInit [[66, 65, 61, 61], [66]] = None"
proof -
  have v: "b64_val 65 = Some 0" "b64_val 81 = Some 16" "b64_val 73 = Some 8" "b64_val 68 = Some 3" "b64_val 66 = Some 1"
    by (simp_all add: b64_val_def)
  show ?thesis
    using decode_stream_exact [of "[[65, 81, 10, 73], [32, 68, 66, 65, 61], [61, 10]]"] decode_stream_exact [of "[[66, 65, 61, 61], [66]]"]
    by (simp add: is_b64_space_def quad_value_def v quad_bytes_def)
qed

text \<open>The buffer decoder reads back what the block encoder writes, and never produces more bytes than
  the caller's limit, for any input.\<close>

theorem EVP_DecodeBase64_block:
  "(length src < 2 ^ 64 \<longrightarrow> EVP_DecodeBase64 max_out src = Some out \<longrightarrow> length out \<le> max_out) \<and>
   (b64_len (length xs) < 2 ^ 64 \<longrightarrow> b64_len (length xs) div 4 * 3 \<le> max_out \<longrightarrow>
      EVP_DecodeBase64 max_out (b64_text xs) = Some xs)"
proof -
  have sz: "sz (n div 4 * 3) = n div 4 * 3" if "n < 2 ^ 64" for n :: nat
    using that by (intro sz_small) linarith
  have "length out \<le> max_out" if "length src < 2 ^ 64" "EVP_DecodeBase64 max_out src = Some out"
    using that decode_base64_loop_length [of "[]" src out] sz [of "length src"]
    by (auto simp: EVP_DecodeBase64_def EVP_DecodedLength_def split: if_splits)
  moreover have "EVP_DecodeBase64 max_out (b64_text xs) = Some xs"
    if "b64_len (length xs) < 2 ^ 64" "b64_len (length xs) div 4 * 3 \<le> max_out"
  proof -
    have "b64_len (length xs) mod 4 = 0" by (simp add: b64_len_def)
    with that sz [of "b64_len (length xs)"] show ?thesis
      by (simp add: EVP_DecodeBase64_def EVP_DecodedLength_def length_b64_text decode_base64_loop_text)
  qed
  ultimately show ?thesis by blast
qed

theorem EVP_DecodeBase64_block_witness:
  "EVP_DecodeBase64 3 [65, 81, 73, 68] = Some [1, 2, 3]"
  using EVP_DecodeBase64_block [of "[65, 81, 73, 68]" 3 "[1, 2, 3]" "[1, 2, 3]"]
  by (simp add: b64_char_def b64_code_def)

end
