(* ===== verification/Stack.thy ===== *)
theory Stack
  imports Mem Compare
begin

text \<open>
  \<^verbatim>\<open>crypto/stack/stack.c\<close>: the growable array of pointers behind every \<open>STACK_OF\<close>. A pointer
  is an \<open>'a option\<close> (\<open>None\<close> is NULL) and a stack argument may itself be NULL. Comparison
  functions are of an arbitrary type \<open>'f\<close> and are called through \<open>call_cmp_func\<close>, as in the
  code. libc's \<open>qsort\<close> and the functions a caller passes are parameters. \<open>st_data\<close> holds the allocated slots; those past \<open>st_num\<close> are never read, and a slot of
  a grown array holds NULL until it is written.
\<close>

section \<open>The operations\<close>

type_synonym 'a ptr = "'a option"

record ('a, 'f) stack =
  st_num :: nat
  st_data :: "'a ptr list"
  st_sorted :: bool
  st_num_alloc :: nat
  st_comp :: "'f option"

definition kMinSize :: nat where
  "kMinSize = 4"

text \<open>\<open>sizeof(_STACK)\<close> and \<open>sizeof(void *)\<close> on a 64-bit platform.\<close>

definition sizeof_STACK :: nat where
  "sizeof_STACK = 40"

definition sizeof_ptr :: nat where
  "sizeof_ptr = 8"

text \<open>
  An operation on a stack that may be NULL: its early return for NULL, and its body on the stack.
  The bodies are the \<open>stack_\<close> definitions below.
\<close>

definition on_stack ::
  "'r \<Rightarrow> (('a, 'f) stack \<Rightarrow> 'r \<times> ('a, 'f) stack) \<Rightarrow> ('a, 'f) stack option \<Rightarrow>
   'r \<times> ('a, 'f) stack option" where
  "on_stack fail body sk = (case sk of None \<Rightarrow> (fail, None) | Some s \<Rightarrow> map_prod id Some (body s))"

definition sk_new :: "malloc_fn \<Rightarrow> 'f option \<Rightarrow> ('a, 'f) stack option" where
  "sk_new mal cmp_fn =
     (case OPENSSL_malloc mal sizeof_STACK of
        None \<Rightarrow> None
      | Some _ \<Rightarrow>
          (case OPENSSL_malloc mal (sizeof_ptr * kMinSize) of
             None \<Rightarrow> None
           | Some _ \<Rightarrow>
               Some \<lparr>st_num = 0, st_data = replicate kMinSize None, st_sorted = False,
                     st_num_alloc = kMinSize, st_comp = cmp_fn\<rparr>))"

definition sk_new_null :: "malloc_fn \<Rightarrow> ('a, 'f) stack option" where
  "sk_new_null mal = sk_new mal None"

definition sk_num :: "('a, 'f) stack option \<Rightarrow> nat" where
  "sk_num sk = (case sk of None \<Rightarrow> 0 | Some s \<Rightarrow> st_num s)"

definition stack_zero :: "('a, 'f) stack \<Rightarrow> ('a, 'f) stack" where
  "stack_zero s =
     (if st_num s = 0 then s
      else s\<lparr>st_data := replicate (st_num s) None @ drop (st_num s) (st_data s),
             st_num := 0, st_sorted := False\<rparr>)"

definition sk_zero :: "('a, 'f) stack option \<Rightarrow> ('a, 'f) stack option" where
  "sk_zero sk = map_option stack_zero sk"

definition sk_value :: "('a, 'f) stack option \<Rightarrow> nat \<Rightarrow> 'a ptr" where
  "sk_value sk i =
     (case sk of None \<Rightarrow> None | Some s \<Rightarrow> if i \<ge> st_num s then None else st_data s ! i)"

definition stack_set :: "('a, 'f) stack \<Rightarrow> nat \<Rightarrow> 'a ptr \<Rightarrow> 'a ptr \<times> ('a, 'f) stack" where
  "stack_set s i v =
     (if i \<ge> st_num s then (None, s) else (v, s\<lparr>st_data := (st_data s)[i := v]\<rparr>))"

definition sk_set ::
  "('a, 'f) stack option \<Rightarrow> nat \<Rightarrow> 'a ptr \<Rightarrow> 'a ptr \<times> ('a, 'f) stack option" where
  "sk_set sk i v = on_stack None (\<lambda>s. stack_set s i v) sk"

text \<open>The pointers handed to the free function, in order.\<close>

definition sk_pop_free_ex :: "('a, 'f) stack option \<Rightarrow> 'a list" where
  "sk_pop_free_ex sk =
     (case sk of None \<Rightarrow> [] | Some s \<Rightarrow> map the (filter (\<lambda>p. p \<noteq> None) (take (st_num s) (st_data s))))"

text \<open>The slots of an array that \<open>OPENSSL_realloc\<close> has moved to a block of \<open>k\<close> slots.\<close>

definition resize_slots :: "nat \<Rightarrow> 'a ptr list \<Rightarrow> 'a ptr list" where
  "resize_slots k xs = take k xs @ replicate (k - length xs) None"

definition grow_alloc :: "nat \<Rightarrow> (nat \<times> nat) option" where
  "grow_alloc num_alloc =
     (let new_alloc = sz (num_alloc * 2); alloc_size = sz (new_alloc * sizeof_ptr);
          doubled = \<not> (new_alloc < num_alloc \<or> alloc_size div sizeof_ptr \<noteq> new_alloc);
          new_alloc = (if doubled then new_alloc else sz (num_alloc + 1));
          alloc_size = (if doubled then alloc_size else sz (new_alloc * sizeof_ptr))
      in if new_alloc < num_alloc \<or> alloc_size div sizeof_ptr \<noteq> new_alloc then None
         else Some (new_alloc, alloc_size))"

text \<open>The slots after making room for one more, or \<open>None\<close> when that fails.\<close>

definition sk_reserve :: "malloc_fn \<Rightarrow> ('a, 'f) stack \<Rightarrow> ('a, 'f) stack option" where
  "sk_reserve mal s =
     (if st_num_alloc s \<le> sz (st_num s + 1)
      then (case grow_alloc (st_num_alloc s) of
              None \<Rightarrow> None
            | Some (new_alloc, alloc_size) \<Rightarrow>
                (case OPENSSL_malloc mal alloc_size of
                   None \<Rightarrow> None
                 | Some block \<Rightarrow>
                     Some (s\<lparr>st_data := resize_slots (length block div sizeof_ptr) (st_data s),
                             st_num_alloc := new_alloc\<rparr>)))
      else Some s)"

definition stack_insert ::
  "malloc_fn \<Rightarrow> ('a, 'f) stack \<Rightarrow> 'a ptr \<Rightarrow> nat \<Rightarrow> nat \<times> ('a, 'f) stack" where
  "stack_insert mal s0 p pos =
     (case sk_reserve mal s0 of
        None \<Rightarrow> (0, s0)
      | Some s \<Rightarrow>
          (let data =
             (if pos \<ge> st_num s then (st_data s)[st_num s := p]
              else (take (pos + 1) (st_data s) @
                    take (st_num s - pos) (drop pos (st_data s)) @
                    drop (st_num s + 1) (st_data s))[pos := p])
           in (sz (st_num s + 1), s\<lparr>st_data := data, st_num := sz (st_num s + 1), st_sorted := False\<rparr>)))"

definition sk_insert ::
  "malloc_fn \<Rightarrow> ('a, 'f) stack option \<Rightarrow> 'a ptr \<Rightarrow> nat \<Rightarrow> nat \<times> ('a, 'f) stack option" where
  "sk_insert mal sk p pos = on_stack 0 (\<lambda>s. stack_insert mal s p pos) sk"

definition stack_delete :: "('a, 'f) stack \<Rightarrow> nat \<Rightarrow> 'a ptr \<times> ('a, 'f) stack" where
  "stack_delete s pos =
     (if pos \<ge> st_num s then (None, s)
      else
        (st_data s ! pos,
         s\<lparr>st_data :=
             (if pos \<noteq> st_num s - 1
              then take pos (st_data s) @
                   take (st_num s - pos - 1) (drop (pos + 1) (st_data s)) @
                   drop (st_num s - 1) (st_data s)
              else st_data s),
           st_num := st_num s - 1\<rparr>))"

definition sk_delete :: "('a, 'f) stack option \<Rightarrow> nat \<Rightarrow> 'a ptr \<times> ('a, 'f) stack option" where
  "sk_delete sk pos = on_stack None (\<lambda>s. stack_delete s pos) sk"

fun find_ptr_loop :: "('b \<Rightarrow> bool) \<Rightarrow> 'b list \<Rightarrow> nat \<Rightarrow> nat option" where
  "find_ptr_loop match [] i = None"
| "find_ptr_loop match (x # xs) i = (if match x then Some i else find_ptr_loop match xs (i + 1))"

definition stack_delete_ptr :: "('a, 'f) stack \<Rightarrow> 'a ptr \<Rightarrow> 'a ptr \<times> ('a, 'f) stack" where
  "stack_delete_ptr s p =
     (case find_ptr_loop (\<lambda>x. x = p) (take (st_num s) (st_data s)) 0 of
        None \<Rightarrow> (None, s) | Some i \<Rightarrow> stack_delete s i)"

definition sk_delete_ptr ::
  "('a, 'f) stack option \<Rightarrow> 'a ptr \<Rightarrow> 'a ptr \<times> ('a, 'f) stack option" where
  "sk_delete_ptr sk p = on_stack None (\<lambda>s. stack_delete_ptr s p) sk"

text \<open>The binary search; \<open>cmp x\<close> compares the element looked for with \<open>x\<close>.\<close>

function binary_search :: "('b \<Rightarrow> int) \<Rightarrow> 'b list \<Rightarrow> nat \<Rightarrow> nat \<Rightarrow> nat option" where
  "binary_search cmp data lo hi =
     (if lo < hi then
        (let mid = lo + (hi - lo - 1) div 2; r = cmp (data ! mid)
         in if r > 0 then binary_search cmp data (mid + 1) hi
            else if r < 0 then binary_search cmp data lo mid
            else if hi - lo = 1 then Some mid
            else binary_search cmp data lo (mid + 1))
      else None)"
  by pat_completeness auto
termination
  by (relation "measure (\<lambda>(_, _, lo, hi). hi - lo)") auto

declare binary_search.simps [simp del]

definition sk_is_sorted :: "('a, 'f) stack option \<Rightarrow> bool" where
  "sk_is_sorted sk = (case sk of None \<Rightarrow> True | Some s \<Rightarrow> st_sorted s)"

definition sk_find ::
  "('f \<Rightarrow> 'a ptr cmp) \<Rightarrow> ('a, 'f) stack option \<Rightarrow> 'a ptr \<Rightarrow> nat option" where
  "sk_find call_cmp_func sk p =
     (case sk of
        None \<Rightarrow> None
      | Some s \<Rightarrow>
          (case st_comp s of
             None \<Rightarrow> find_ptr_loop (\<lambda>x. x = p) (take (st_num s) (st_data s)) 0
           | Some cmp_fn \<Rightarrow>
               if p = None then None
               else if \<not> sk_is_sorted sk
               then find_ptr_loop (\<lambda>x. call_cmp_func cmp_fn p x = 0) (take (st_num s) (st_data s)) 0
               else binary_search (call_cmp_func cmp_fn p) (st_data s) 0 (st_num s)))"

definition stack_shift :: "('a, 'f) stack \<Rightarrow> 'a ptr \<times> ('a, 'f) stack" where
  "stack_shift s = (if st_num s = 0 then (None, s) else stack_delete s 0)"

definition sk_shift :: "('a, 'f) stack option \<Rightarrow> 'a ptr \<times> ('a, 'f) stack option" where
  "sk_shift sk = on_stack None stack_shift sk"

definition sk_push :: "malloc_fn \<Rightarrow> ('a, 'f) stack \<Rightarrow> 'a ptr \<Rightarrow> nat \<times> ('a, 'f) stack" where
  "sk_push mal s p = stack_insert mal s p (st_num s)"

definition stack_pop :: "('a, 'f) stack \<Rightarrow> 'a ptr \<times> ('a, 'f) stack" where
  "stack_pop s = (if st_num s = 0 then (None, s) else stack_delete s (st_num s - 1))"

definition sk_pop :: "('a, 'f) stack option \<Rightarrow> 'a ptr \<times> ('a, 'f) stack option" where
  "sk_pop sk = on_stack None stack_pop sk"

definition sk_dup :: "malloc_fn \<Rightarrow> ('a, 'f) stack option \<Rightarrow> ('a, 'f) stack option" where
  "sk_dup mal sk =
     (case sk of
        None \<Rightarrow> None
      | Some s \<Rightarrow>
          (case sk_new mal (st_comp s) of
             None \<Rightarrow> None
           | Some ret \<Rightarrow>
               (case OPENSSL_malloc mal (sz (sizeof_ptr * st_num_alloc s)) of
                  None \<Rightarrow> None
                | Some block \<Rightarrow>
                    Some (ret\<lparr>st_data := take (st_num s) (st_data s) @
                                drop (st_num s) (resize_slots (length block div sizeof_ptr) (st_data ret)),
                              st_num := st_num s, st_sorted := st_sorted s,
                              st_num_alloc := st_num_alloc s, st_comp := st_comp s\<rparr>))))"

text \<open>libc's \<open>qsort\<close> is the parameter \<open>qs\<close>.\<close>

definition stack_sort ::
  "('f \<Rightarrow> 'a ptr cmp) \<Rightarrow> ('a ptr cmp \<Rightarrow> 'a ptr list \<Rightarrow> 'a ptr list) \<Rightarrow> ('a, 'f) stack \<Rightarrow> ('a, 'f) stack" where
  "stack_sort call_cmp_func qs s =
     (case st_comp s of
        None \<Rightarrow> s
      | Some cmp_fn \<Rightarrow>
          if st_sorted s then s
          else (if st_num s \<ge> 2
                then s\<lparr>st_data := qs (call_cmp_func cmp_fn) (take (st_num s) (st_data s)) @
                                  drop (st_num s) (st_data s)\<rparr>
                else s)\<lparr>st_sorted := True\<rparr>)"

definition sk_sort ::
  "('f \<Rightarrow> 'a ptr cmp) \<Rightarrow> ('a ptr cmp \<Rightarrow> 'a ptr list \<Rightarrow> 'a ptr list) \<Rightarrow> ('a, 'f) stack option \<Rightarrow>
   ('a, 'f) stack option" where
  "sk_sort call_cmp_func qs sk = map_option (stack_sort call_cmp_func qs) sk"

definition sk_set_cmp_func :: "('a, 'f) stack \<Rightarrow> 'f option \<Rightarrow> 'f option \<times> ('a, 'f) stack" where
  "sk_set_cmp_func s cmp_fn =
     (st_comp s,
      (if st_comp s \<noteq> cmp_fn then s\<lparr>st_sorted := False\<rparr> else s)\<lparr>st_comp := cmp_fn\<rparr>)"

text \<open>
  The loop of \<open>sk_deep_copy\<close>: the copies made so far and the slots still to copy. On failure the
  result is the list of copies that are freed.
\<close>

fun deep_copy_loop :: "('a \<Rightarrow> 'a ptr) \<Rightarrow> 'a ptr list \<Rightarrow> 'a ptr list \<Rightarrow> 'a list + 'a ptr list" where
  "deep_copy_loop copy done' [] = Inr done'"
| "deep_copy_loop copy done' (None # xs) = deep_copy_loop copy (done' @ [None]) xs"
| "deep_copy_loop copy done' (Some x # xs) =
     (case copy x of
        None \<Rightarrow> Inl (map the (filter (\<lambda>p. p \<noteq> None) done'))
      | Some y \<Rightarrow> deep_copy_loop copy (done' @ [Some y]) xs)"

definition sk_deep_copy ::
  "malloc_fn \<Rightarrow> ('a \<Rightarrow> 'a ptr) \<Rightarrow> ('a, 'f) stack option \<Rightarrow> 'a list \<times> ('a, 'f) stack option" where
  "sk_deep_copy mal copy sk =
     (case sk_dup mal sk of
        None \<Rightarrow> ([], None)
      | Some ret \<Rightarrow>
          (case deep_copy_loop copy [] (take (st_num ret) (st_data ret)) of
             Inl freed \<Rightarrow> (freed, None)
           | Inr copies \<Rightarrow> ([], Some (ret\<lparr>st_data := copies @ drop (st_num ret) (st_data ret)\<rparr>))))"



section \<open>The invariant\<close>

text \<open>No allocation reaches half of the address space (\<open>PTRDIFF_MAX\<close>).\<close>

definition malloc_bounded :: "malloc_fn \<Rightarrow> bool" where
  "malloc_bounded mal \<longleftrightarrow> malloc_lawful mal \<and> (\<forall>n b. mal n = Some b \<longrightarrow> n < 2 ^ 63)"

definition st_elems :: "('a, 'f) stack \<Rightarrow> 'a ptr list" where
  "st_elems s = take (st_num s) (st_data s)"

definition stack_ok :: "('a, 'f) stack \<Rightarrow> bool" where
  "stack_ok s \<longleftrightarrow>
     length (st_data s) = st_num_alloc s \<and> st_num s < st_num_alloc s \<and>
     kMinSize \<le> st_num_alloc s \<and> st_num_alloc s < 2 ^ 60"

text \<open>A stack marked as sorted is.\<close>

definition stack_sorted :: "('f \<Rightarrow> 'a ptr cmp) \<Rightarrow> ('a, 'f) stack \<Rightarrow> bool" where
  "stack_sorted call_cmp_func s \<longleftrightarrow>
     (st_sorted s \<longrightarrow>
       (\<exists>f. st_comp s = Some f \<and> sorted_wrt (\<lambda>a b. call_cmp_func f a b \<le> 0) (st_elems s)))"

lemma length_st_elems [simp]: "stack_ok s \<Longrightarrow> length (st_elems s) = st_num s"
  by (simp add: stack_ok_def st_elems_def)

lemma grow_alloc_eq:
  assumes "n < 2 ^ 60"
  shows "grow_alloc n = Some (n * 2, n * 16)"
  using assms by (simp add: grow_alloc_def Let_def sizeof_ptr_def)

lemma sk_new_ok:
  "sk_new mal cmp_fn = Some s \<Longrightarrow>
   stack_ok s \<and> st_elems s = [] \<and> st_num s = 0 \<and> \<not> st_sorted s \<and> st_comp s = cmp_fn"
  by (auto simp: sk_new_def stack_ok_def st_elems_def kMinSize_def split: option.splits)

lemma sk_reserve_ok:
  assumes "sk_reserve mal s = Some s'" "stack_ok s" "malloc_bounded mal"
  shows "stack_ok s' \<and> st_elems s' = st_elems s \<and> st_num s' = st_num s \<and> st_sorted s' = st_sorted s \<and>
    st_comp s' = st_comp s \<and> st_num s' + 1 < st_num_alloc s'"
proof -
  have n: "st_num s < st_num_alloc s" "st_num_alloc s < 2 ^ 60" "4 \<le> st_num_alloc s"
    "length (st_data s) = st_num_alloc s"
    using assms(2) by (auto simp: stack_ok_def kMinSize_def)
  then have sz: "sz (st_num s + 1) = st_num s + 1" by simp
  show ?thesis
  proof (cases "st_num_alloc s \<le> st_num s + 1")
    case False
    then have "s' = s" using assms(1) sz by (simp add: sk_reserve_def)
    with False assms(2) show ?thesis by simp
  next
    case True
    with assms(1) sz grow_alloc_eq [OF n(2)] obtain block
      where block: "OPENSSL_malloc mal (st_num_alloc s * 16) = Some block"
        and s': "s' = s\<lparr>st_data := resize_slots (length block div 8) (st_data s), st_num_alloc := st_num_alloc s * 2\<rparr>"
      by (auto simp: sk_reserve_def sizeof_ptr_def split: option.splits)
    have "mal (sz (st_num_alloc s * 16 + 8)) \<noteq> None"
      using block by (auto simp: OPENSSL_malloc_def OPENSSL_MALLOC_PREFIX_def split: option.splits)
    then have bound: "sz (st_num_alloc s * 16 + 8) < 2 ^ 63"
      using assms(3) by (auto simp: malloc_bounded_def)
    have small: "st_num_alloc s * 16 + 8 < 2 ^ 64" using n(2) by simp
    then have nb: "st_num_alloc s * 2 < 2 ^ 60" using bound by simp
    have "length block = st_num_alloc s * 16"
      using OPENSSL_malloc_usable [OF _ block small] assms(3) by (simp add: malloc_bounded_def)
    then have "length (resize_slots (length block div 8) (st_data s)) = st_num_alloc s * 2"
      "take (st_num s) (resize_slots (length block div 8) (st_data s)) = take (st_num s) (st_data s)"
      using n by (simp_all add: resize_slots_def)
    with n nb s' show ?thesis by (simp add: stack_ok_def st_elems_def kMinSize_def)
  qed
qed

lemma stack_insert_spec:
  assumes "stack_insert mal s p pos = (n, s')" "stack_ok s" "malloc_bounded mal"
  shows "n = 0 \<and> s' = s \<or>
    n = st_num s + 1 \<and> stack_ok s' \<and> st_elems s' = take pos (st_elems s) @ p # drop pos (st_elems s) \<and>
    \<not> st_sorted s' \<and> st_comp s' = st_comp s \<and> st_num s' = st_num s + 1"
proof (cases "sk_reserve mal s")
  case None
  with assms(1) show ?thesis by (simp add: stack_insert_def)
next
  case (Some s1)
  note r = sk_reserve_ok [OF Some assms(2,3)]
  let ?data = "st_data s1" and ?m = "st_num s1"
  have len: "length ?data = st_num_alloc s1" "?m + 1 < st_num_alloc s1" "st_num_alloc s1 < 2 ^ 60"
    using r by (simp_all add: stack_ok_def)
  then have sz: "sz (?m + 1) = ?m + 1" by simp
  have "st_elems s1 = st_elems s" using r by blast
  then have xs: "st_elems s = take ?m ?data" by (simp only: st_elems_def [of s1, symmetric])
  let ?new = "if pos \<ge> ?m then ?data[?m := p]
    else (take (pos + 1) ?data @ take (?m - pos) (drop pos ?data) @ drop (?m + 1) ?data)[pos := p]"
  have ins: "n = ?m + 1" "s' = s1\<lparr>st_data := ?new, st_num := ?m + 1, st_sorted := False\<rparr>"
    using assms(1) unfolding stack_insert_def Let_def Some option.case sz by blast+
  have l: "length ?new = length ?data" using len by simp
  have "take (?m + 1) ?new = take pos (st_elems s) @ p # drop pos (st_elems s)"
  proof (cases "pos \<ge> ?m")
    case True
    then show ?thesis using len xs by (simp add: take_Suc_conv_app_nth)
  next
    case False
    have "take (pos + 1) ?data = take pos ?data @ [?data ! pos]"
      using False len by (simp add: take_Suc_conv_app_nth)
    then have "?new = take pos ?data @ p # take (?m - pos) (drop pos ?data) @ drop (?m + 1) ?data"
      using False len by (simp add: list_update_append)
    then have "take (?m + 1) ?new = take pos ?data @ p # take (?m - pos) (drop pos ?data)"
      using False len by (simp add: min_def Suc_diff_le)
    also have "\<dots> = take pos (st_elems s) @ p # drop pos (st_elems s)"
      using False by (simp add: xs drop_take min_def)
    finally show ?thesis .
  qed
  then have "st_elems s' = take pos (st_elems s) @ p # drop pos (st_elems s)"
    unfolding st_elems_def [of s'] by (simp add: ins(2))
  moreover have "stack_ok s'" using l len r unfolding ins(2) stack_ok_def by simp
  moreover have "\<not> st_sorted s'" "st_comp s' = st_comp s" "st_num s' = st_num s + 1" "n = st_num s + 1"
    using r by (simp_all add: ins)
  ultimately show ?thesis by blast
qed

lemma stack_delete_spec:
  assumes "stack_ok s" "pos < st_num s"
  obtains s' where "stack_delete s pos = (st_elems s ! pos, s')" "stack_ok s'"
    "st_elems s' = take pos (st_elems s) @ drop (Suc pos) (st_elems s)" "st_sorted s' = st_sorted s"
    "st_comp s' = st_comp s" "st_num s' = st_num s - 1"
proof -
  let ?data = "st_data s" and ?m = "st_num s"
  have len: "length ?data = st_num_alloc s" "?m < st_num_alloc s" using assms by (simp_all add: stack_ok_def)
  obtain x s' where d: "stack_delete s pos = (x, s')" by (cases "stack_delete s pos")
  have x: "x = st_elems s ! pos" using d assms(2) by (simp add: stack_delete_def st_elems_def)
  show ?thesis
  proof (cases "pos = ?m - 1")
    case True
    have e: "Suc pos = ?m" using True assms(2) by simp
    have "st_elems s' = take pos (st_elems s) @ drop (Suc pos) (st_elems s)"
      using d True e assms by (auto simp: stack_delete_def st_elems_def min_def)
    with that d x True assms show ?thesis by (auto simp: stack_delete_def stack_ok_def)
  next
    case False
    let ?new = "take pos ?data @ take (?m - pos - 1) (drop (pos + 1) ?data) @ drop (?m - 1) ?data"
    have s': "s' = s\<lparr>st_data := ?new, st_num := ?m - 1\<rparr>" using d False assms(2) by (auto simp: stack_delete_def)
    have l: "length ?new = length ?data" using False assms(2) len by simp
    have "length (take pos ?data @ take (?m - pos - 1) (drop (pos + 1) ?data)) = ?m - 1"
      using False assms(2) len by simp
    then have "take (?m - 1) ?new = take pos ?data @ take (?m - pos - 1) (drop (pos + 1) ?data)"
      by (metis append.assoc append_eq_conv_conj)
    also have "\<dots> = take pos (st_elems s) @ drop (Suc pos) (st_elems s)"
      using assms(2) by (simp add: st_elems_def drop_take min_def)
    finally show ?thesis
      using that d x s' l assms by (auto simp: stack_ok_def st_elems_def)
  qed
qed

section \<open>Searching\<close>

lemma find_ptr_loop_split:
  "find_ptr_loop match xs k = Some i \<longleftrightarrow>
     (\<exists>ys x zs. xs = ys @ x # zs \<and> match x \<and> (\<forall>y \<in> set ys. \<not> match y) \<and> i = k + length ys)"
proof (induction xs arbitrary: k)
  case (Cons x xs)
  show ?case
  proof (cases "match x")
    case True
    then show ?thesis by (auto simp: Cons_eq_append_conv)
  next
    case False
    have "(\<exists>ys y zs. x # xs = ys @ y # zs \<and> match y \<and> (\<forall>z \<in> set ys. \<not> match z) \<and> i = k + length ys) \<longleftrightarrow>
      (\<exists>ys y zs. xs = ys @ y # zs \<and> match y \<and> (\<forall>z \<in> set ys. \<not> match z) \<and> i = k + 1 + length ys)"
      (is "?L \<longleftrightarrow> ?R")
    proof
      assume ?L
      then obtain ys y zs where e: "x # xs = ys @ y # zs" "match y" "\<forall>z \<in> set ys. \<not> match z" "i = k + length ys"
        by blast
      with False obtain ys' where "ys = x # ys'" by (cases ys) auto
      with e show ?R by auto
    next
      assume ?R
      then obtain ys y zs where e: "xs = ys @ y # zs" "match y" "\<forall>z \<in> set ys. \<not> match z" "i = k + 1 + length ys"
        by blast
      with False show ?L by (intro exI [of _ "x # ys"] exI [of _ y] exI [of _ zs]) auto
    qed
    with False Cons [of "k + 1"] show ?thesis by simp
  qed
qed simp

lemma find_ptr_loop_Some:
  "find_ptr_loop match xs 0 = Some i \<longleftrightarrow>
     i < length xs \<and> match (xs ! i) \<and> (\<forall>j < i. \<not> match (xs ! j))"
  unfolding find_ptr_loop_split
proof
  assume "i < length xs \<and> match (xs ! i) \<and> (\<forall>j < i. \<not> match (xs ! j))"
  then show "\<exists>ys x zs. xs = ys @ x # zs \<and> match x \<and> (\<forall>y \<in> set ys. \<not> match y) \<and> i = 0 + length ys"
    by (intro exI [of _ "take i xs"] exI [of _ "xs ! i"] exI [of _ "drop (Suc i) xs"])
      (auto simp: id_take_nth_drop [symmetric] in_set_conv_nth)
qed (auto simp: nth_append)

text \<open>
  What the search relies on: along the array the result of the comparison goes from positive over
  zero to negative.
\<close>

definition descending :: "('b \<Rightarrow> int) \<Rightarrow> 'b list \<Rightarrow> bool" where
  "descending c xs \<longleftrightarrow>
     (\<forall>i j. i \<le> j \<longrightarrow> j < length xs \<longrightarrow>
        (c (xs ! i) \<le> 0 \<longrightarrow> c (xs ! j) \<le> 0) \<and> (c (xs ! i) < 0 \<longrightarrow> c (xs ! j) < 0))"

lemma descendingD:
  assumes "descending c xs" "i \<le> j" "j < length xs"
  shows "c (xs ! i) \<le> 0 \<Longrightarrow> c (xs ! j) \<le> 0" "c (xs ! i) < 0 \<Longrightarrow> c (xs ! j) < 0"
    "c (xs ! j) > 0 \<Longrightarrow> c (xs ! i) > 0"
  using assms unfolding descending_def by (meson not_le)+

definition first_match :: "('b \<Rightarrow> int) \<Rightarrow> 'b list \<Rightarrow> nat \<Rightarrow> nat \<Rightarrow> nat \<Rightarrow> bool" where
  "first_match c xs lo hi i \<longleftrightarrow>
     lo \<le> i \<and> i < hi \<and> c (xs ! i) = 0 \<and> (\<forall>j. lo \<le> j \<longrightarrow> j < i \<longrightarrow> c (xs ! j) \<noteq> 0)"

lemma first_match_raise:
  assumes "lo \<le> mid" "\<forall>j \<le> mid. c (xs ! j) \<noteq> 0"
  shows "first_match c xs lo hi i \<longleftrightarrow> first_match c xs (mid + 1) hi i"
proof (cases "i \<le> mid")
  case True
  then show ?thesis using assms(2) by (simp add: first_match_def)
next
  case False
  have "(\<forall>j. lo \<le> j \<longrightarrow> j < i \<longrightarrow> c (xs ! j) \<noteq> 0) \<longleftrightarrow> (\<forall>j. mid + 1 \<le> j \<longrightarrow> j < i \<longrightarrow> c (xs ! j) \<noteq> 0)"
  proof (intro iffI allI impI)
    fix j
    assume h: "\<forall>j. mid + 1 \<le> j \<longrightarrow> j < i \<longrightarrow> c (xs ! j) \<noteq> 0" "j < i"
    then show "c (xs ! j) \<noteq> 0" using assms(2) by (cases "j \<le> mid") simp_all
  qed (use assms(1) in auto)
  then show ?thesis using False assms(1) by (auto simp: first_match_def)
qed

lemma first_match_lower:
  assumes "mid \<le> hi" "\<forall>j. mid \<le> j \<longrightarrow> j < hi \<longrightarrow> c (xs ! j) \<noteq> 0 \<or> (lo \<le> mid - 1 \<and> 0 < mid \<and> c (xs ! (mid - 1)) = 0)"
  shows "first_match c xs lo hi i \<longleftrightarrow> first_match c xs lo mid i"
proof (cases "i < mid")
  case True
  then show ?thesis using assms(1) by (auto simp: first_match_def)
next
  case False
  then have "\<not> first_match c xs lo hi i"
    using assms(2) unfolding first_match_def by (metis diff_less le_less_trans less_one not_le less_le_trans)
  with False show ?thesis by (simp add: first_match_def)
qed

lemma binary_search_Some:
  assumes "hi \<le> length xs" "descending c xs"
  shows "binary_search c xs lo hi = Some i \<longleftrightarrow> first_match c xs lo hi i"
  using assms
proof (induction c xs lo hi rule: binary_search.induct)
  case (1 c xs lo hi)
  let ?mid = "lo + (hi - lo - 1) div 2"
  note step = binary_search.simps [of c xs lo hi]
  show ?case
  proof (cases "lo < hi")
    case True
    then have mid: "lo \<le> ?mid" "?mid < hi" by linarith+
    then have ml: "?mid < length xs" using "1.prems"(1) by simp
    consider (low) "c (xs ! ?mid) > 0" | (high) "c (xs ! ?mid) < 0" | (match) "c (xs ! ?mid) = 0" by linarith
    then show ?thesis
    proof cases
      case low
      have "\<forall>j \<le> ?mid. c (xs ! j) \<noteq> 0"
        using descendingD(3) [OF "1.prems"(2) _ ml low] by fastforce
      from first_match_raise [OF mid(1) this] "1.IH"(1) [OF True refl refl low "1.prems"] True low
      show ?thesis by (simp add: step Let_def)
    next
      case high
      have "c (xs ! j) \<noteq> 0" if "?mid \<le> j" "j < hi" for j
        using descendingD(2) [OF "1.prems"(2) that(1) _ high] that(2) "1.prems"(1) by fastforce
      then have "first_match c xs lo hi i \<longleftrightarrow> first_match c xs lo ?mid i"
        using mid by (intro first_match_lower) simp_all
      moreover have "?mid \<le> length xs" using ml by simp
      ultimately show ?thesis
        using "1.IH"(2) [OF True refl refl _ high _ "1.prems"(2)] True high by (simp add: step Let_def)
    next
      case match
      show ?thesis
      proof (cases "hi - lo = 1")
        case one: True
        then have m: "?mid = lo" by simp
        with match one True have "binary_search c xs lo hi = Some lo" by (simp add: step Let_def)
        moreover have "first_match c xs lo hi i \<longleftrightarrow> i = lo"
          using one match unfolding first_match_def m by auto
        ultimately show ?thesis by auto
      next
        case False
        have "first_match c xs lo hi i \<longleftrightarrow> first_match c xs lo (?mid + 1) i"
          using mid match by (intro first_match_lower) simp_all
        moreover have "?mid + 1 \<le> length xs" using ml by simp
        ultimately show ?thesis
          using "1.IH"(3) [OF True refl refl _ _ False _ "1.prems"(2)] True match False
          by (simp add: step Let_def)
      qed
    qed
  qed (simp add: step first_match_def)
qed



lemma sorted_descending:
  assumes "comparison cmp" "sorted_wrt (\<lambda>a b. cmp a b \<le> 0) xs"
  shows "descending (cmp p) xs"
  unfolding descending_def
proof (intro allI impI)
  fix i j
  assume h: "i \<le> j" "j < length xs"
  have "cmp (xs ! i) (xs ! j) \<le> 0"
    using sorted_wrt_nth_less [OF assms(2), of i j] h comparison.cmp_refl [OF assms(1)]
    by (cases "i = j") auto
  then show "(cmp p (xs ! i) \<le> 0 \<longrightarrow> cmp p (xs ! j) \<le> 0) \<and> (cmp p (xs ! i) < 0 \<longrightarrow> cmp p (xs ! j) < 0)"
    using comparison.le_trans [OF assms(1)] comparison.less_trans [OF assms(1)] by blast
qed

lemma first_match_take:
  "first_match c xs 0 n i \<longleftrightarrow> find_ptr_loop (\<lambda>x. c x = 0) (take n xs) 0 = Some i" if "n \<le> length xs"
  using that by (auto simp: first_match_def find_ptr_loop_Some)

lemma binary_search_take:
  "hi \<le> n \<Longrightarrow> n \<le> length xs \<Longrightarrow> binary_search c xs lo hi = binary_search c (take n xs) lo hi"
proof (induction c xs lo hi rule: binary_search.induct)
  case (1 c xs lo hi)
  let ?mid = "lo + (hi - lo - 1) div 2"
  show ?case
  proof (cases "lo < hi")
    case True
    then have m: "?mid < hi" by linarith
    then have "take n xs ! ?mid = xs ! ?mid" using "1.prems" by simp
    then show ?thesis
      using True m "1.prems" "1.IH" [OF True refl refl]
      by (simp add: binary_search.simps [of c _ lo hi] Let_def)
  qed (simp add: binary_search.simps [of c _ lo hi])
qed

text \<open>C9: On a stack whose \<open>sorted\<close> flag tells the truth, \<open>sk_find\<close> (a binary search when the flag
is set) finds what a linear search finds: the first element that compares equal.\<close>

theorem sk_find_first:
  assumes "stack_ok s" "stack_sorted call_cmp_func s" "st_comp s = Some f"
    and "comparison (call_cmp_func f)" "p \<noteq> None"
  shows "sk_find call_cmp_func (Some s) p = find_ptr_loop (\<lambda>x. call_cmp_func f p x = 0) (st_elems s) 0"
proof (cases "st_sorted s")
  case False
  then show ?thesis using assms(3,5) by (auto simp: sk_find_def sk_is_sorted_def st_elems_def)
next
  case True
  let ?c = "call_cmp_func f p" and ?n = "st_num s"
  have n: "?n \<le> length (st_data s)" using assms(1) by (simp add: stack_ok_def)
  have "sorted_wrt (\<lambda>a b. call_cmp_func f a b \<le> 0) (st_elems s)"
    using True assms(2,3) by (simp add: stack_sorted_def)
  then have d: "descending ?c (take ?n (st_data s))"
    using sorted_descending [OF assms(4)] by (simp add: st_elems_def)
  have "binary_search ?c (st_data s) 0 ?n = Some i \<longleftrightarrow> find_ptr_loop (\<lambda>x. ?c x = 0) (st_elems s) 0 = Some i" for i
    unfolding binary_search_take [OF order_refl n] st_elems_def
    using binary_search_Some [OF _ d, of ?n 0 i] first_match_take [of ?n "take ?n (st_data s)" ?c i] n by simp
  then have "binary_search ?c (st_data s) 0 ?n = find_ptr_loop (\<lambda>x. ?c x = 0) (st_elems s) 0"
    by (metis option.exhaust)
  with True assms(3,5) show ?thesis by (auto simp: sk_find_def sk_is_sorted_def)
qed


section \<open>Every operation keeps the invariants\<close>

lemma stack_delete_cases:
  assumes "stack_delete s pos = (x, s')" "stack_ok s"
  shows "st_num s \<le> pos \<and> x = None \<and> s' = s \<or>
    pos < st_num s \<and> x = st_elems s ! pos \<and> stack_ok s' \<and>
    st_elems s' = take pos (st_elems s) @ drop (Suc pos) (st_elems s) \<and> st_sorted s' = st_sorted s \<and>
    st_comp s' = st_comp s \<and> st_num s' = st_num s - 1"
proof (cases "pos < st_num s")
  case True
  show ?thesis
  proof (rule stack_delete_spec [OF assms(2) True])
    fix t
    assume t: "stack_delete s pos = (st_elems s ! pos, t)" and f: "stack_ok t"
      "st_elems t = take pos (st_elems s) @ drop (Suc pos) (st_elems s)" "st_sorted t = st_sorted s"
      "st_comp t = st_comp s" "st_num t = st_num s - 1"
    have "(x, s') = (st_elems s ! pos, t)" using assms(1) t by (rule trans [OF sym])
    then have e: "x = st_elems s ! pos" "s' = t" by (simp_all only: prod.inject)
    show ?thesis unfolding e by (intro disjI2 conjI True refl f)
  qed
next
  case False
  with assms(1) have "x = None \<and> s' = s" by (simp add: stack_delete_def)
  with False show ?thesis by simp
qed

lemma sorted_wrt_remove:
  assumes "sorted_wrt P xs"
  shows "sorted_wrt P (take i xs @ drop (Suc i) xs)"
proof -
  have "sorted_wrt P (take i xs @ drop i xs)" using assms by simp
  moreover have "set (drop (Suc i) xs) \<subseteq> set (drop i xs)" by (rule set_drop_subset_set_drop) simp
  ultimately show ?thesis using sorted_wrt_drop [OF assms] by (auto simp: sorted_wrt_append simp del: append_take_drop_id)
qed

lemma stack_delete_sorted:
  assumes "stack_delete s pos = (x, s')" "stack_ok s" "stack_sorted cmp s"
  shows "stack_ok s' \<and> stack_sorted cmp s'"
  using stack_delete_cases [OF assms(1,2)]
proof (elim disjE conjE)
  assume "s' = s"
  with assms show ?thesis by simp
next
  assume h: "stack_ok s'" "st_elems s' = take pos (st_elems s) @ drop (Suc pos) (st_elems s)"
    "st_sorted s' = st_sorted s" "st_comp s' = st_comp s"
  then show ?thesis using assms(3) sorted_wrt_remove unfolding stack_sorted_def by metis
qed

lemma stack_insert_sorted:
  assumes "stack_insert mal s p pos = (n, s')" "stack_ok s" "stack_sorted cmp s" "malloc_bounded mal"
  shows "stack_ok s' \<and> stack_sorted cmp s'"
  using stack_insert_spec [OF assms(1,2,4)] assms(2,3) by (auto simp: stack_sorted_def)

lemma stack_sort_elems:
  assumes "stack_ok s" "st_comp s = Some f" "qsort_lawful qs (cmp f)"
  shows "stack_ok (stack_sort cmp qs s) \<and> mset (st_elems (stack_sort cmp qs s)) = mset (st_elems s) \<and>
    st_comp (stack_sort cmp qs s) = Some f \<and> st_sorted (stack_sort cmp qs s) \<and>
    (\<not> st_sorted s \<longrightarrow> sorted_wrt (\<lambda>a b. cmp f a b \<le> 0) (st_elems (stack_sort cmp qs s)))"
proof (cases "\<not> st_sorted s \<and> st_num s \<ge> 2")
  case True
  let ?ys = "qs (cmp f) (take (st_num s) (st_data s))"
  have ys: "mset ?ys = mset (take (st_num s) (st_data s))" "sorted_wrt (\<lambda>a b. cmp f a b \<le> 0) ?ys"
    using assms(3) by (simp_all add: qsort_lawful_def)
  then have l: "length ?ys = st_num s" using assms(1) mset_eq_length [OF ys(1)] by (simp add: stack_ok_def)
  with True ys assms(1,2) show ?thesis by (simp add: stack_sort_def st_elems_def stack_ok_def)
next
  case False
  then have "stack_sort cmp qs s = s\<lparr>st_sorted := True\<rparr>"
    using assms(2) by (auto simp: stack_sort_def)
  moreover have "sorted_wrt (\<lambda>a b. cmp f a b \<le> 0) (st_elems s)" if "\<not> st_sorted s"
  proof -
    have "length (st_elems s) \<le> 1" using False that assms(1) by simp
    then show ?thesis by (cases "st_elems s") auto
  qed
  ultimately show ?thesis using assms(1,2) by (simp add: stack_ok_def st_elems_def)
qed

text \<open>\<open>sk_sort\<close> permutes the elements, and after it the stack is in ascending order and its
flag says so, whatever the order before, provided the flag told the truth.\<close>

theorem sk_sort_sorts:
  assumes "stack_ok s" "stack_sorted call_cmp_func s" "st_comp s = Some f"
    and "qsort_lawful qs (call_cmp_func f)"
  obtains s' where "sk_sort call_cmp_func qs (Some s) = Some s'" "stack_ok s'" "st_sorted s'"
    "st_comp s' = Some f" "mset (st_elems s') = mset (st_elems s)"
    "sorted_wrt (\<lambda>a b. call_cmp_func f a b \<le> 0) (st_elems s')"
proof
  let ?s = "stack_sort call_cmp_func qs s"
  note sorted = stack_sort_elems [where cmp = call_cmp_func and f = f and qs = qs, OF assms(1,3,4)]
  show "sk_sort call_cmp_func qs (Some s) = Some ?s" by (simp add: sk_sort_def)
  show "stack_ok ?s" "st_sorted ?s" "st_comp ?s = Some f" "mset (st_elems ?s) = mset (st_elems s)"
    using sorted by blast+
  have "?s = s" if "st_sorted s" using that assms(3) by (simp add: stack_sort_def)
  then show "sorted_wrt (\<lambda>a b. call_cmp_func f a b \<le> 0) (st_elems ?s)"
    using sorted assms(2,3) by (cases "st_sorted s") (auto simp: stack_sorted_def)
qed



section \<open>Every reachable stack\<close>

text \<open>
  The stacks a caller can build with the operations other than \<open>sk_set\<close> and
  \<open>sk_deep_copy\<close>.
\<close>

inductive stack_reach ::
  "malloc_fn \<Rightarrow> ('f \<Rightarrow> 'a ptr cmp) \<Rightarrow> ('a ptr cmp \<Rightarrow> 'a ptr list \<Rightarrow> 'a ptr list) \<Rightarrow> ('a, 'f) stack \<Rightarrow> bool"
  for mal call_cmp_func qs where
  reach_new: "sk_new mal f = Some s \<Longrightarrow> stack_reach mal call_cmp_func qs s"
| reach_insert: "stack_reach mal call_cmp_func qs s \<Longrightarrow> stack_insert mal s p pos = (n, s') \<Longrightarrow>
    stack_reach mal call_cmp_func qs s'"
| reach_delete: "stack_reach mal call_cmp_func qs s \<Longrightarrow> stack_delete s pos = (x, s') \<Longrightarrow>
    stack_reach mal call_cmp_func qs s'"
| reach_zero: "stack_reach mal call_cmp_func qs s \<Longrightarrow> stack_reach mal call_cmp_func qs (stack_zero s)"
| reach_sort: "stack_reach mal call_cmp_func qs s \<Longrightarrow>
    stack_reach mal call_cmp_func qs (stack_sort call_cmp_func qs s)"
| reach_set_cmp: "stack_reach mal call_cmp_func qs s \<Longrightarrow> sk_set_cmp_func s f = (old, s') \<Longrightarrow>
    stack_reach mal call_cmp_func qs s'"
| reach_dup: "stack_reach mal call_cmp_func qs s \<Longrightarrow> sk_dup mal (Some s) = Some s' \<Longrightarrow>
    stack_reach mal call_cmp_func qs s'"

lemma sk_dup_elems:
  assumes "sk_dup mal (Some s) = Some s'" "stack_ok s" "malloc_bounded mal"
  shows "stack_ok s' \<and> st_elems s' = st_elems s \<and> st_sorted s' = st_sorted s \<and> st_comp s' = st_comp s"
proof -
  obtain ret block where r: "sk_new mal (st_comp s) = Some ret"
    "OPENSSL_malloc mal (sz (sizeof_ptr * st_num_alloc s)) = Some block"
    "s' = ret\<lparr>st_data := take (st_num s) (st_data s) @
              drop (st_num s) (resize_slots (length block div sizeof_ptr) (st_data ret)),
            st_num := st_num s, st_sorted := st_sorted s,
            st_num_alloc := st_num_alloc s, st_comp := st_comp s\<rparr>"
    using assms(1) by (auto simp: sk_dup_def split: option.splits)
  have b: "st_num_alloc s < 2 ^ 60" "st_num s < st_num_alloc s" "length (st_data s) = st_num_alloc s"
    using assms(2) by (simp_all add: stack_ok_def)
  have "length (st_data ret) = 4"
    using r(1) by (auto simp: sk_new_def kMinSize_def split: option.splits)
  moreover have "length block = 8 * st_num_alloc s"
    using OPENSSL_malloc_usable [OF _ r(2)] assms(3) b(1) by (simp add: malloc_bounded_def sizeof_ptr_def)
  ultimately have "length (resize_slots (length block div sizeof_ptr) (st_data ret)) = st_num_alloc s"
    using assms(2) by (simp add: resize_slots_def sizeof_ptr_def stack_ok_def kMinSize_def)
  then show ?thesis
    using assms(2) b by (simp add: r(3) stack_ok_def st_elems_def)
qed

text \<open>C8: Whatever a caller does with insertions, deletions, clearing, sorting, duplicating and
changing the comparison function, the array bounds hold and a set \<open>sorted\<close> flag tells the
truth.\<close>

theorem stack_reach_sorted:
  assumes "stack_reach mal call_cmp_func qs s" "malloc_bounded mal"
    and "\<And>f. qsort_lawful qs (call_cmp_func f)"
  shows "stack_ok s \<and> stack_sorted call_cmp_func s"
  using assms(1)
proof (induction rule: stack_reach.induct)
  case (reach_new f s)
  from sk_new_ok [OF this] show ?case by (simp add: stack_sorted_def)
next
  case (reach_insert s p pos n s')
  then show ?case using stack_insert_sorted assms(2) by blast
next
  case (reach_delete s pos x s')
  then show ?case using stack_delete_sorted by blast
next
  case (reach_zero s)
  then show ?case by (auto simp: stack_zero_def stack_ok_def stack_sorted_def)
next
  case (reach_sort s)
  show ?case
  proof (cases "st_comp s")
    case None
    with reach_sort show ?thesis by (simp add: stack_sort_def)
  next
    case (Some f)
    have "stack_sort call_cmp_func qs s = s" if "st_sorted s" using that Some by (simp add: stack_sort_def)
    with reach_sort stack_sort_elems [where cmp = call_cmp_func and f = f and qs = qs, OF _ Some assms(3)]
    show ?thesis by (cases "st_sorted s") (auto simp: stack_sorted_def)
  qed
next
  case (reach_set_cmp s f old s')
  then show ?case by (auto simp: sk_set_cmp_func_def stack_ok_def stack_sorted_def st_elems_def split: if_splits)
next
  case (reach_dup s s')
  then show ?case using sk_dup_elems [OF reach_dup(2) _ assms(2)] by (simp add: stack_sorted_def)
qed

section \<open>Stacks and queues\<close>

text \<open>
  The contract of a container that grows at its end and is emptied from either end. Pushing
  returns 0 when no memory is left and the new count otherwise.
\<close>

locale sequence =
  fixes lawful :: "'m \<Rightarrow> bool" and ok :: "'q \<Rightarrow> bool" and elems :: "'q \<Rightarrow> 'e list"
    and push :: "'m \<Rightarrow> 'q \<Rightarrow> 'e \<Rightarrow> nat \<times> 'q" and pop :: "'q \<Rightarrow> 'e \<times> 'q" and shift :: "'q \<Rightarrow> 'e \<times> 'q"
  assumes push_fail: "lawful m \<Longrightarrow> ok q \<Longrightarrow> push m q x = (0, q') \<Longrightarrow> q' = q"
    and push_ok: "lawful m \<Longrightarrow> ok q \<Longrightarrow> push m q x = (n, q') \<Longrightarrow> n \<noteq> 0 \<Longrightarrow>
      n = length (elems q') \<and> ok q' \<and> elems q' = elems q @ [x]"
    and pop_last: "ok q \<Longrightarrow> elems q = xs @ [x] \<Longrightarrow> pop q = (y, q') \<Longrightarrow> y = x \<and> ok q' \<and> elems q' = xs"
    and shift_first: "ok q \<Longrightarrow> elems q = x # xs \<Longrightarrow> shift q = (y, q') \<Longrightarrow> y = x \<and> ok q' \<and> elems q' = xs"

text \<open>Pushing a list, giving up at the first failure; taking \<open>n\<close> elements out.\<close>

fun push_all :: "('q \<Rightarrow> 'e \<Rightarrow> nat \<times> 'q) \<Rightarrow> 'q \<Rightarrow> 'e list \<Rightarrow> 'q option" where
  "push_all put q [] = Some q"
| "push_all put q (x # xs) = (case put q x of (n, q') \<Rightarrow> if n = 0 then None else push_all put q' xs)"

fun take_out :: "('q \<Rightarrow> 'e \<times> 'q) \<Rightarrow> nat \<Rightarrow> 'q \<Rightarrow> 'e list \<times> 'q" where
  "take_out get 0 q = ([], q)"
| "take_out get (Suc n) q = (case get q of (x, q') \<Rightarrow> case take_out get n q' of (xs, q'') \<Rightarrow> (x # xs, q''))"

context sequence
begin

lemma push_all_elems:
  assumes "lawful m" "ok q" "push_all (push m) q xs = Some q'"
  shows "ok q' \<and> elems q' = elems q @ xs"
  using assms(2,3)
proof (induction xs arbitrary: q)
  case (Cons x xs)
  obtain n q1 where p: "push m q x = (n, q1)" by fastforce
  with Cons.prems(2) have n: "n \<noteq> 0" and r: "push_all (push m) q1 xs = Some q'" by (auto split: if_splits)
  from push_ok [OF assms(1) Cons.prems(1) p n] have "ok q1" "elems q1 = elems q @ [x]" by blast+
  with Cons.IH [OF _ r] show ?case by simp
qed simp

lemma pop_all:
  assumes "ok q" "elems q = xs @ ys" "n = length ys" "take_out pop n q = (zs, q')"
  shows "zs = rev ys \<and> ok q' \<and> elems q' = xs"
  using assms
proof (induction n arbitrary: q ys zs)
  case (Suc n)
  then obtain y ys' where ys: "ys = ys' @ [y]" by (cases ys rule: rev_cases) auto
  obtain x q1 where p: "pop q = (x, q1)" by fastforce
  obtain zs' where r: "take_out pop n q1 = (zs', q')" "zs = x # zs'"
    using Suc.prems(4) p by (auto split: prod.splits)
  have "x = y \<and> ok q1 \<and> elems q1 = xs @ ys'"
    using pop_last [OF Suc.prems(1) _ p, of "xs @ ys'" y] Suc.prems(2) ys by simp
  moreover from this have "zs' = rev ys' \<and> ok q' \<and> elems q' = xs"
    using Suc.IH [OF _ _ _ r(1), of ys'] Suc.prems(3) ys by simp
  ultimately show ?case using r(2) ys by simp
qed simp

lemma shift_all:
  assumes "ok q" "elems q = xs @ ys" "n = length xs" "take_out shift n q = (zs, q')"
  shows "zs = xs \<and> ok q' \<and> elems q' = ys"
  using assms
proof (induction n arbitrary: q xs zs)
  case (Suc n)
  obtain x' xs' where xs: "xs = x' # xs'" using Suc.prems(3) by (cases xs) auto
  obtain x q1 where p: "shift q = (x, q1)" by fastforce
  obtain zs' where r: "take_out shift n q1 = (zs', q')" "zs = x # zs'"
    using Suc.prems(4) p by (auto split: prod.splits)
  have "elems q = x' # (xs' @ ys)" using Suc.prems(2) xs by simp
  from shift_first [OF Suc.prems(1) this p] have "x = x'" and q1: "ok q1" "elems q1 = xs' @ ys" by blast+
  moreover have "n = length xs'" using Suc.prems(3) xs by simp
  from Suc.IH [OF q1 this r(1)] have "zs' = xs' \<and> ok q' \<and> elems q' = ys" .
  ultimately show ?case using r(2) xs by blast
qed simp

end

lemma stack_push_elems:
  assumes "sk_push mal s p = (n, s')" "stack_ok s" "malloc_bounded mal"
  shows "n = 0 \<and> s' = s \<or>
    n = st_num s + 1 \<and> stack_ok s' \<and> st_elems s' = st_elems s @ [p] \<and> st_num s' = st_num s + 1"
  using stack_insert_spec [OF assms(1) [unfolded sk_push_def] assms(2,3)] assms(2) by auto

lemma stack_pop_elems:
  assumes "stack_pop s = (y, s')" "stack_ok s" "st_elems s = xs @ [x]"
  shows "y = x \<and> stack_ok s' \<and> st_elems s' = xs"
proof -
  have n: "st_num s = Suc (length xs)" using length_st_elems [OF assms(2)] assms(3) by simp
  then have "stack_delete s (length xs) = (y, s')" using assms(1) by (simp add: stack_pop_def)
  from stack_delete_cases [OF this assms(2)] n assms(3) show ?thesis by simp
qed

lemma stack_shift_elems:
  assumes "stack_shift s = (y, s')" "stack_ok s" "st_elems s = x # xs"
  shows "y = x \<and> stack_ok s' \<and> st_elems s' = xs"
proof -
  have n: "st_num s = Suc (length xs)" using length_st_elems [OF assms(2)] assms(3) by simp
  then have "stack_delete s 0 = (y, s')" using assms(1) by (simp add: stack_shift_def)
  from stack_delete_cases [OF this assms(2)] n assms(3) show ?thesis by simp
qed

interpretation sk: sequence malloc_bounded stack_ok st_elems sk_push stack_pop stack_shift
proof unfold_locales
  fix m q x n and q' :: "('a, 'b) stack"
  assume "malloc_bounded m" "stack_ok q" "sk_push m q x = (n, q')" "n \<noteq> 0"
  then show "n = length (st_elems q') \<and> stack_ok q' \<and> st_elems q' = st_elems q @ [x]"
    using stack_push_elems [of m q x n q'] by auto
next
  fix m q x and q' :: "('a, 'b) stack"
  assume "malloc_bounded m" "stack_ok q" "sk_push m q x = (0, q')"
  then show "q' = q" using stack_push_elems [of m q x 0 q'] by auto
qed (use stack_pop_elems stack_shift_elems in blast)+

text \<open>Elements pushed onto a new stack come back in reverse order from \<open>sk_pop\<close> and in their
own order from \<open>sk_shift\<close>, and the stack is then empty.\<close>

theorem stack_lifo_fifo:
  assumes "malloc_bounded mal" "sk_new mal f = Some s" "push_all (sk_push mal) s xs = Some s1"
  shows "\<exists>s2 s3. take_out stack_pop (length xs) s1 = (rev xs, s2) \<and> st_elems s2 = [] \<and>
    take_out stack_shift (length xs) s1 = (xs, s3) \<and> st_elems s3 = []"
proof -
  have new: "stack_ok s" "st_elems s = []" using sk_new_ok [OF assms(2)] by blast+
  have s1: "stack_ok s1" "st_elems s1 = xs" using sk.push_all_elems [OF assms(1) new(1) assms(3)] new(2) by simp_all
  obtain a s2 b s3 where t: "take_out stack_pop (length xs) s1 = (a, s2)" "take_out stack_shift (length xs) s1 = (b, s3)"
    by fastforce
  show ?thesis
    using sk.pop_all [OF s1(1), of "[]" xs "length xs" a s2] sk.shift_all [OF s1(1), of xs "[]" "length xs" b s3] s1(2) t
    by simp
qed

text \<open>C12: Insertion and deletion act on the list of elements as the list operations do: an insertion
past the end appends, one that finds no memory changes nothing, and a deletion out of range returns
NULL and changes nothing.\<close>

theorem stack_insert_delete_refine:
  assumes "stack_ok s" "malloc_bounded mal"
  shows "(case sk_insert mal (Some s) p pos of
      (0, sk') \<Rightarrow> sk' = Some s
    | (Suc n, sk') \<Rightarrow> n = length (st_elems s) \<and>
        (\<exists>s'. sk' = Some s' \<and> stack_ok s' \<and> st_elems s' = take pos (st_elems s) @ p # drop pos (st_elems s))) \<and>
    (\<exists>x s'. sk_delete (Some s) pos = (x, Some s') \<and> stack_ok s' \<and>
      x = (if pos < length (st_elems s) then st_elems s ! pos else None) \<and>
      st_elems s' = take pos (st_elems s) @ drop (Suc pos) (st_elems s))"
    (is "?ins \<and> ?del")
proof
  obtain n s' where i: "stack_insert mal s p pos = (n, s')" by fastforce
  show ?ins
    using stack_insert_spec [OF i assms] i assms(1) by (auto simp: sk_insert_def on_stack_def split: nat.splits)
  obtain x t where d: "stack_delete s pos = (x, t)" by fastforce
  show ?del
    using stack_delete_cases [OF d assms(1)] d assms(1) by (auto simp: sk_delete_def on_stack_def)
qed



section \<open>A concrete stack\<close>

text \<open>Pointers to integers, NULL first.\<close>

definition int_ptr_cmp :: "unit \<Rightarrow> int ptr cmp" where
  "int_ptr_cmp f p q =
     (case p of None \<Rightarrow> (case q of None \<Rightarrow> 0 | Some _ \<Rightarrow> -1)
      | Some a \<Rightarrow> (case q of None \<Rightarrow> 1 | Some b \<Rightarrow> a - b))"

definition bounded_malloc :: malloc_fn where
  "bounded_malloc n = (if n < 2 ^ 63 then zero_malloc n else None)"

lemma bounded_malloc_ok: "malloc_bounded bounded_malloc"
  by (auto simp: malloc_bounded_def malloc_lawful_def bounded_malloc_def zero_malloc_def split: if_splits)

interpretation int_ptr: comparison "int_ptr_cmp f"
  by unfold_locales (auto simp: int_ptr_cmp_def sgn_if split: option.splits)

definition base_stack :: "(int, unit) stack" where
  "base_stack = \<lparr>st_num = 0, st_data = [None, None, None, None], st_sorted = False,
     st_num_alloc = 4, st_comp = Some ()\<rparr>"

definition pair_stack :: "int \<Rightarrow> int \<Rightarrow> bool \<Rightarrow> (int, unit) stack" where
  "pair_stack a b srt = \<lparr>st_num = 2, st_data = [Some a, Some b, None, None], st_sorted = srt,
     st_num_alloc = 4, st_comp = Some ()\<rparr>"

lemma replicate_4: "replicate 4 x = [x, x, x, x]"
  by (simp add: numeral_eq_Suc)

lemma base_stack_new: "sk_new bounded_malloc (Some ()) = Some base_stack"
  by (simp add: sk_new_def base_stack_def kMinSize_def sizeof_STACK_def sizeof_ptr_def OPENSSL_malloc_def
      OPENSSL_MALLOC_PREFIX_def bounded_malloc_def zero_malloc_def replicate_4)

lemma pair_stack_push: "push_all (sk_push bounded_malloc) base_stack [Some a, Some b] = Some (pair_stack a b False)"
  by (simp add: sk_push_def stack_insert_def sk_reserve_def base_stack_def pair_stack_def Let_def)

lemma pair_stack_ok: "stack_ok (pair_stack a b srt)" "st_elems (pair_stack a b srt) = [Some a, Some b]"
  "st_comp (pair_stack a b srt) = Some ()" "st_sorted (pair_stack a b srt) = srt"
  by (simp_all add: pair_stack_def stack_ok_def st_elems_def kMinSize_def)

lemma pair_stack_sorted: "a \<le> b \<Longrightarrow> stack_sorted int_ptr_cmp (pair_stack a b srt)"
  by (simp add: stack_sorted_def pair_stack_ok int_ptr_cmp_def)

lemma pair_stack_sort: "a \<le> b \<Longrightarrow>
  stack_sort int_ptr_cmp insertion_qsort (pair_stack a b False) = pair_stack a b True"
  by (simp add: stack_sort_def pair_stack_def insertion_qsort_def int_ptr_cmp_def)

theorem sk_find_first_witness:
  "sk_find int_ptr_cmp (Some (pair_stack 1 3 True)) (Some 3) = Some 1"
  using sk_find_first [where call_cmp_func = int_ptr_cmp and p = "Some 3", OF pair_stack_ok(1) pair_stack_sorted [of 1 3 True]
      pair_stack_ok(3) int_ptr.comparison_axioms]
  by (simp add: pair_stack_ok int_ptr_cmp_def)

theorem sk_sort_sorts_witness:
  "\<exists>s'. sk_sort int_ptr_cmp insertion_qsort (Some (pair_stack 3 1 False)) = Some s' \<and> st_sorted s' \<and>
     st_elems s' = [Some 1, Some 3]"
proof -
  have u: "stack_sorted int_ptr_cmp (pair_stack 3 1 False)" by (simp add: stack_sorted_def pair_stack_ok)
  obtain s' where s: "sk_sort int_ptr_cmp insertion_qsort (Some (pair_stack 3 1 False)) = Some s'" "st_sorted s'"
    "mset (st_elems s') = mset [Some 3, Some 1]" "sorted_wrt (\<lambda>a b. int_ptr_cmp () a b \<le> 0) (st_elems s')"
    using sk_sort_sorts [where call_cmp_func = int_ptr_cmp and qs = insertion_qsort, OF pair_stack_ok(1) u pair_stack_ok(3)
        int_ptr.insertion_qsort_lawful] by (metis pair_stack_ok(2))
  have "sorted_wrt (\<lambda>a b. int_ptr_cmp () a b \<le> 0) [Some 1, Some 3]" by (simp add: int_ptr_cmp_def)
  from int_ptr.sorted_unique [OF _ s(4) this] s(3) have "st_elems s' = [Some 1, Some 3]"
    by (auto simp: int_ptr_cmp_def split: option.splits)
  with s(1,2) show ?thesis by blast
qed

theorem stack_reach_sorted_witness:
  "stack_ok (pair_stack 1 3 True) \<and> stack_sorted int_ptr_cmp (pair_stack 1 3 True)"
proof -
  let ?reach = "stack_reach bounded_malloc int_ptr_cmp insertion_qsort"
  obtain s1 where s1: "sk_push bounded_malloc base_stack (Some 1) = (1, s1)"
    "sk_push bounded_malloc s1 (Some 3) = (2, pair_stack 1 3 False)"
    by (simp add: sk_push_def stack_insert_def sk_reserve_def base_stack_def pair_stack_def Let_def)
  have "?reach base_stack" by (rule reach_new [OF base_stack_new])
  then have "?reach s1" using s1(1) reach_insert unfolding sk_push_def by blast
  then have "?reach (pair_stack 1 3 False)" using s1(2) reach_insert unfolding sk_push_def by blast
  then have "?reach (stack_sort int_ptr_cmp insertion_qsort (pair_stack 1 3 False))" by (rule reach_sort)
  then have "?reach (pair_stack 1 3 True)" by (simp add: pair_stack_sort)
  from stack_reach_sorted [OF this bounded_malloc_ok int_ptr.insertion_qsort_lawful] show ?thesis .
qed

theorem stack_lifo_fifo_witness:
  "\<exists>s2 s3. take_out stack_pop 2 (pair_stack 1 3 False) = ([Some 3, Some 1], s2) \<and>
     take_out stack_shift 2 (pair_stack 1 3 False) = ([Some 1, Some 3], s3)"
  using stack_lifo_fifo [OF bounded_malloc_ok base_stack_new pair_stack_push [of 1 3]]
  by (auto simp: numeral_2_eq_2)

theorem stack_insert_delete_refine_witness:
  "case sk_insert bounded_malloc (Some (pair_stack 1 3 True)) (Some 2) 1 of
      (0, sk') \<Rightarrow> sk' = Some (pair_stack 1 3 True)
    | (Suc n, sk') \<Rightarrow> n = 2 \<and> (\<exists>s'. sk' = Some s' \<and> st_elems s' = [Some 1, Some 2, Some 3])"
  using stack_insert_delete_refine [OF pair_stack_ok(1) [of 1 3 True] bounded_malloc_ok, where p = "Some 2" and pos = 1]
  by (auto simp: pair_stack_ok split: nat.splits prod.splits)

definition triple_stack :: "(int, unit) stack" where
  "triple_stack = \<lparr>st_num = 3, st_data = [Some 1, Some 3, Some 4, None], st_sorted = True,
     st_num_alloc = 4, st_comp = Some ()\<rparr>"

lemma binary_search_above:
  assumes "\<And>i. lo \<le> i \<Longrightarrow> i < hi \<Longrightarrow> cmp (data ! i) > 0"
  shows "binary_search cmp data lo hi = None"
  using assms
proof (induction "hi - lo" arbitrary: lo rule: less_induct)
  case less
  show ?case
  proof (cases "lo < hi")
    case True
    let ?mid = "lo + (hi - lo - 1) div 2"
    have m: "lo \<le> ?mid" "?mid < hi" using True by auto
    from less.prems [OF m] have "cmp (data ! ?mid) > 0" .
    moreover from True m have "binary_search cmp data (?mid + 1) hi = None"
      by (intro less.hyps) (use less.prems in auto)
    ultimately show ?thesis using True by (simp add: binary_search.simps [of cmp data lo hi] Let_def)
  qed (simp add: binary_search.simps [of cmp data lo hi])
qed

text \<open>With three elements or more the first probe is past the first one.\<close>

lemma binary_search_first_missed:
  assumes "3 \<le> n" "\<And>i. 0 < i \<Longrightarrow> i < n \<Longrightarrow> cmp (data ! i) > 0"
  shows "binary_search cmp data 0 n = None"
proof -
  let ?mid = "(n - 1) div 2"
  have m: "0 < ?mid" "?mid < n" using assms(1) by auto
  have "binary_search cmp data (?mid + 1) n = None"
    by (rule binary_search_above) (use assms(2) in auto)
  with assms(2) [OF m] m show ?thesis by (simp add: binary_search.simps [of cmp data 0 n] Let_def)
qed

lemma stack_set_elems:
  assumes "i < st_num s"
  shows "stack_set s i p = (p, s\<lparr>st_data := (st_data s)[i := p]\<rparr>)"
    "st_elems (s\<lparr>st_data := (st_data s)[i := p]\<rparr>) = (st_elems s)[i := p]"
  using assms by (simp_all add: stack_set_def st_elems_def take_update_swap)

text \<open>C33: \<open>sk_set\<close> replaces one element of a stack and keeps the \<open>sorted\<close> flag. So when a stack of
three or more elements is marked as sorted and an element that compares above all the others is
stored in its first place, \<open>sk_find\<close> does not find the element that was just stored, and does find
it in the same stack without the flag.\<close>

theorem sk_set_stale:
  assumes "stack_ok s" "st_sorted s" "st_comp s = Some f" "3 \<le> st_num s" "call_cmp_func f (Some x) (Some x) = 0"
    and above: "\<And>i. 0 < i \<Longrightarrow> i < st_num s \<Longrightarrow> call_cmp_func f (Some x) (st_elems s ! i) > 0"
  shows "\<exists>s'. sk_set (Some s) 0 (Some x) = (Some x, Some s') \<and> st_elems s' = (st_elems s)[0 := Some x] \<and>
    st_sorted s' \<and> sk_find call_cmp_func (Some s') (Some x) = None \<and>
    sk_find call_cmp_func (Some (s'\<lparr>st_sorted := False\<rparr>)) (Some x) = Some 0"
proof -
  let ?t = "s\<lparr>st_data := (st_data s)[0 := Some x]\<rparr>"
  have pos: "0 < st_num s" using assms(4) by simp
  note set = stack_set_elems [OF pos, of "Some x"]
  have "binary_search (call_cmp_func f (Some x)) ((st_data s)[0 := Some x]) 0 (st_num s) = None"
    by (rule binary_search_first_missed [OF assms(4)]) (use above in \<open>simp add: st_elems_def\<close>)
  then have miss: "sk_find call_cmp_func (Some ?t) (Some x) = None"
    using assms(2,3) by (simp add: sk_find_def sk_is_sorted_def)
  obtain ys where "st_elems ?t = Some x # ys"
    using set(2) pos length_st_elems [OF assms(1)] by (cases "st_elems s") auto
  then have "take (st_num s) ((st_data s)[0 := Some x]) = Some x # ys" by (simp add: st_elems_def)
  then have "sk_find call_cmp_func (Some (?t\<lparr>st_sorted := False\<rparr>)) (Some x) = Some 0"
    using assms(3,5) by (simp add: sk_find_def sk_is_sorted_def)
  with set miss assms(2) show ?thesis by (intro exI [of _ ?t]) (simp add: sk_set_def on_stack_def)
qed

theorem sk_set_stale_witness:
  "\<exists>s'. sk_set (Some triple_stack) 0 (Some 5) = (Some 5, Some s') \<and> st_elems s' = [Some 5, Some 3, Some 4] \<and>
     st_sorted s' \<and> sk_find int_ptr_cmp (Some s') (Some 5) = None"
proof -
  have elems: "st_elems triple_stack = [Some 1, Some 3, Some 4]" by (simp add: triple_stack_def st_elems_def)
  have ok: "stack_ok triple_stack" "st_sorted triple_stack" "st_comp triple_stack = Some ()" "3 \<le> st_num triple_stack"
    by (simp_all add: triple_stack_def stack_ok_def kMinSize_def)
  have "int_ptr_cmp () (Some 5) (st_elems triple_stack ! i) > 0" if "0 < i" "i < st_num triple_stack" for i
  proof -
    have "i = 1 \<or> i = 2" using that by (auto simp: triple_stack_def)
    then show ?thesis by (auto simp: elems int_ptr_cmp_def)
  qed
  with sk_set_stale [of triple_stack "()" int_ptr_cmp 5] ok show ?thesis by (simp add: elems) (auto simp: int_ptr_cmp_def)
qed

end
