(* ===== verification/Lhash.thy ===== *)
theory Lhash
  imports Mem Stack
begin

text \<open>
  \<^verbatim>\<open>crypto/lhash/lhash.c\<close>: the chained hash table behind every \<open>LHASH_OF\<close>. A chain is the
  list of its items, a pointer into the table (\<open>LHASH_ITEM **\<close>) is a bucket and a position in
  its chain: the position one past the end is the NULL pointer that ends the chain. Hash and
  comparison functions are of arbitrary types \<open>'h\<close> and \<open>'c\<close> and are called through the helpers
  the caller passes, as in the code. The callback of \<open>lh_doall_arg\<close> works on a state of the
  caller; a callback that changes the table it iterates over is not covered.
\<close>

section \<open>The operations\<close>

record 'd lhash_item =
  it_data :: 'd
  it_hash :: u32

record ('d, 'h, 'c) lhash =
  lh_num :: nat
  lh_buckets :: "'d lhash_item list list"
  lh_num_buckets :: nat
  lh_callback_depth :: nat
  lh_comp :: 'c
  lh_hash :: 'h

definition kMinNumBuckets :: nat where
  "kMinNumBuckets = 16"

definition kMaxAverageChainLength :: nat where
  "kMaxAverageChainLength = 2"

definition kMinAverageChainLength :: nat where
  "kMinAverageChainLength = 1"

text \<open>Sizes of the C structures on a 64-bit platform, and the largest \<open>unsigned\<close>.\<close>

definition sizeof_LHASH :: nat where
  "sizeof_LHASH = 48"

definition sizeof_LHASH_ITEM :: nat where
  "sizeof_LHASH_ITEM = 24"

definition UINT_MAX :: nat where
  "UINT_MAX = 2 ^ 32 - 1"

definition lh_new :: "malloc_fn \<Rightarrow> 'h \<Rightarrow> 'c \<Rightarrow> ('d, 'h, 'c) lhash option" where
  "lh_new mal hash comp' =
     (case OPENSSL_malloc mal sizeof_LHASH of
        None \<Rightarrow> None
      | Some _ \<Rightarrow>
          (case OPENSSL_malloc mal (sizeof_ptr * kMinNumBuckets) of
             None \<Rightarrow> None
           | Some _ \<Rightarrow>
               Some \<lparr>lh_num = 0, lh_buckets = replicate kMinNumBuckets [], lh_num_buckets = kMinNumBuckets,
                     lh_callback_depth = 0, lh_comp = comp', lh_hash = hash\<rparr>))"

definition lh_num_items :: "('d, 'h, 'c) lhash \<Rightarrow> nat" where
  "lh_num_items lh = lh_num lh"

fun chain_pos :: "('d \<Rightarrow> bool) \<Rightarrow> 'd lhash_item list \<Rightarrow> nat" where
  "chain_pos match [] = 0"
| "chain_pos match (cur # rest) = (if match (it_data cur) then 0 else Suc (chain_pos match rest))"

definition get_next_ptr_and_hash ::
  "('h \<Rightarrow> 'd \<Rightarrow> u32) \<Rightarrow> ('c \<Rightarrow> 'd \<Rightarrow> 'd \<Rightarrow> int) \<Rightarrow> ('d, 'h, 'c) lhash \<Rightarrow> 'd \<Rightarrow> u32 \<times> nat \<times> nat" where
  "get_next_ptr_and_hash call_hash call_cmp lh data =
     (let hash = call_hash (lh_hash lh) data; b = unat hash mod lh_num_buckets lh
      in (hash, b, chain_pos (\<lambda>d. call_cmp (lh_comp lh) d data = 0) (lh_buckets lh ! b)))"

definition get_next_ptr_by_key ::
  "('d, 'h, 'c) lhash \<Rightarrow> 'k \<Rightarrow> u32 \<Rightarrow> ('k \<Rightarrow> 'd \<Rightarrow> int) \<Rightarrow> nat \<times> nat" where
  "get_next_ptr_by_key lh key key_hash cmp_key =
     (let b = unat key_hash mod lh_num_buckets lh
      in (b, chain_pos (\<lambda>d. cmp_key key d = 0) (lh_buckets lh ! b)))"

text \<open>What a pointer into the table points at.\<close>

definition deref :: "('d, 'h, 'c) lhash \<Rightarrow> nat \<times> nat \<Rightarrow> 'd lhash_item option" where
  "deref lh ptr =
     (case ptr of (b, i) \<Rightarrow>
        if i < length (lh_buckets lh ! b) then Some (lh_buckets lh ! b ! i) else None)"

definition lh_retrieve ::
  "('h \<Rightarrow> 'd \<Rightarrow> u32) \<Rightarrow> ('c \<Rightarrow> 'd \<Rightarrow> 'd \<Rightarrow> int) \<Rightarrow> ('d, 'h, 'c) lhash \<Rightarrow> 'd \<Rightarrow> 'd ptr" where
  "lh_retrieve call_hash call_cmp lh data =
     (case get_next_ptr_and_hash call_hash call_cmp lh data of
        (_, next_ptr) \<Rightarrow> map_option it_data (deref lh next_ptr))"

definition lh_retrieve_key ::
  "('d, 'h, 'c) lhash \<Rightarrow> 'k \<Rightarrow> u32 \<Rightarrow> ('k \<Rightarrow> 'd \<Rightarrow> int) \<Rightarrow> 'd ptr" where
  "lh_retrieve_key lh key key_hash cmp_key =
     map_option it_data (deref lh (get_next_ptr_by_key lh key key_hash cmp_key))"

text \<open>Every item is pushed onto the front of its new chain, in the order of the old array.\<close>

fun rebucket_loop ::
  "nat \<Rightarrow> 'd lhash_item list \<Rightarrow> 'd lhash_item list list \<Rightarrow> 'd lhash_item list list" where
  "rebucket_loop new_num_buckets [] new_buckets = new_buckets"
| "rebucket_loop new_num_buckets (cur # rest) new_buckets =
     (let b = unat (it_hash cur) mod new_num_buckets
      in rebucket_loop new_num_buckets rest (new_buckets[b := cur # new_buckets ! b]))"

definition lh_rebucket :: "malloc_fn \<Rightarrow> ('d, 'h, 'c) lhash \<Rightarrow> nat \<Rightarrow> ('d, 'h, 'c) lhash" where
  "lh_rebucket mal lh new_num_buckets =
     (let alloc_size = sz (sizeof_ptr * new_num_buckets)
      in if alloc_size div sizeof_ptr \<noteq> new_num_buckets then lh
         else
           (case OPENSSL_malloc mal alloc_size of
              None \<Rightarrow> lh
            | Some _ \<Rightarrow>
                lh\<lparr>lh_buckets :=
                     rebucket_loop new_num_buckets (concat (lh_buckets lh)) (replicate new_num_buckets []),
                   lh_num_buckets := new_num_buckets\<rparr>))"

definition lh_maybe_resize :: "malloc_fn \<Rightarrow> ('d, 'h, 'c) lhash \<Rightarrow> ('d, 'h, 'c) lhash" where
  "lh_maybe_resize mal lh =
     (if lh_callback_depth lh > 0 then lh
      else
        (let avg_chain_length = lh_num lh div lh_num_buckets lh
         in if avg_chain_length > kMaxAverageChainLength
            then (let new_num_buckets = sz (lh_num_buckets lh * 2)
                  in if new_num_buckets > lh_num_buckets lh then lh_rebucket mal lh new_num_buckets
                     else lh)
            else if avg_chain_length < kMinAverageChainLength \<and> lh_num_buckets lh > kMinNumBuckets
            then (let new_num_buckets = lh_num_buckets lh div 2
                  in lh_rebucket mal lh
                       (if new_num_buckets < kMinNumBuckets then kMinNumBuckets else new_num_buckets))
            else lh))"

text \<open>The return value, \<open>*old_data\<close> and the table.\<close>

definition lh_insert ::
  "malloc_fn \<Rightarrow> ('h \<Rightarrow> 'd \<Rightarrow> u32) \<Rightarrow> ('c \<Rightarrow> 'd \<Rightarrow> 'd \<Rightarrow> int) \<Rightarrow> ('d, 'h, 'c) lhash \<Rightarrow> 'd \<Rightarrow>
   bool \<times> 'd ptr \<times> ('d, 'h, 'c) lhash" where
  "lh_insert mal call_hash call_cmp lh data =
     (case get_next_ptr_and_hash call_hash call_cmp lh data of
        (hash, b, i) \<Rightarrow>
          (case deref lh (b, i) of
             Some item \<Rightarrow>
               (True, Some (it_data item),
                lh\<lparr>lh_buckets := (lh_buckets lh)[b := (lh_buckets lh ! b)[i := item\<lparr>it_data := data\<rparr>]]\<rparr>)
           | None \<Rightarrow>
               (case OPENSSL_malloc mal sizeof_LHASH_ITEM of
                  None \<Rightarrow> (False, None, lh)
                | Some _ \<Rightarrow>
                    (True, None,
                     lh_maybe_resize mal
                       (lh\<lparr>lh_buckets :=
                             (lh_buckets lh)
                               [b := take i (lh_buckets lh ! b) @ [\<lparr>it_data = data, it_hash = hash\<rparr>]],
                           lh_num := sz (lh_num lh + 1)\<rparr>)))))"

definition lh_delete ::
  "malloc_fn \<Rightarrow> ('h \<Rightarrow> 'd \<Rightarrow> u32) \<Rightarrow> ('c \<Rightarrow> 'd \<Rightarrow> 'd \<Rightarrow> int) \<Rightarrow> ('d, 'h, 'c) lhash \<Rightarrow> 'd \<Rightarrow>
   'd ptr \<times> ('d, 'h, 'c) lhash" where
  "lh_delete mal call_hash call_cmp lh data =
     (case get_next_ptr_and_hash call_hash call_cmp lh data of
        (_, b, i) \<Rightarrow>
          (case deref lh (b, i) of
             None \<Rightarrow> (None, lh)
           | Some item \<Rightarrow>
               (Some (it_data item),
                lh_maybe_resize mal
                  (lh\<lparr>lh_buckets :=
                        (lh_buckets lh)
                          [b := take i (lh_buckets lh ! b) @ drop (i + 1) (lh_buckets lh ! b)],
                      lh_num := sz (lh_num lh + (2 ^ 64 - 1))\<rparr>))))"

definition lh_doall_arg ::
  "malloc_fn \<Rightarrow> ('d \<Rightarrow> 's \<Rightarrow> 's) \<Rightarrow> ('d, 'h, 'c) lhash option \<Rightarrow> 's \<Rightarrow>
   's \<times> ('d, 'h, 'c) lhash option" where
  "lh_doall_arg mal func lh' arg =
     (case lh' of
        None \<Rightarrow> (arg, None)
      | Some lh \<Rightarrow>
          (let lh = (if lh_callback_depth lh < UINT_MAX
                     then lh\<lparr>lh_callback_depth := lh_callback_depth lh + 1\<rparr> else lh);
               arg = foldl (\<lambda>s cur. func (it_data cur) s) arg (concat (lh_buckets lh));
               lh = (if lh_callback_depth lh < UINT_MAX
                     then lh\<lparr>lh_callback_depth := lh_callback_depth lh - 1\<rparr> else lh)
           in (arg, Some (lh_maybe_resize mal lh))))"

definition lh_strhash :: "u8 list option \<Rightarrow> u32" where
  "lh_strhash c = (case c of None \<Rightarrow> 0 | Some s \<Rightarrow> OPENSSL_hash32 (c_str s))"



section \<open>Keys\<close>

text \<open>
  What the table needs of its two functions: equality is an equivalence relation, and equal
  elements have equal hash values.
\<close>

locale hash_key =
  fixes hash :: "'d \<Rightarrow> u32" and cmp :: "'d \<Rightarrow> 'd \<Rightarrow> int"
  assumes cmp_refl: "cmp a a = 0"
    and cmp_sym: "cmp a b = 0 \<Longrightarrow> cmp b a = 0"
    and cmp_trans: "cmp a b = 0 \<Longrightarrow> cmp b c = 0 \<Longrightarrow> cmp a c = 0"
    and hash_cong: "cmp a b = 0 \<Longrightarrow> hash a = hash b"
begin

lemma cmp_left: "cmp a b = 0 \<Longrightarrow> cmp a c = 0 \<longleftrightarrow> cmp b c = 0"
  using cmp_trans cmp_sym by blast

lemma cmp_right: "cmp a b = 0 \<Longrightarrow> cmp c a = 0 \<longleftrightarrow> cmp c b = 0"
  using cmp_trans cmp_sym by blast

end

section \<open>The invariant\<close>

definition lh_items :: "('d, 'h, 'c) lhash \<Rightarrow> 'd lhash_item multiset" where
  "lh_items lh = mset (concat (lh_buckets lh))"

text \<open>Every item lies in the bucket of its hash value, which is the hash of its data.\<close>

definition item_placed :: "('d \<Rightarrow> u32) \<Rightarrow> nat \<Rightarrow> nat \<Rightarrow> 'd lhash_item \<Rightarrow> bool" where
  "item_placed hash n b it \<longleftrightarrow> it_hash it = hash (it_data it) \<and> unat (it_hash it) mod n = b"

definition buckets_ok :: "('d \<Rightarrow> u32) \<Rightarrow> nat \<Rightarrow> 'd lhash_item list list \<Rightarrow> bool" where
  "buckets_ok hash n bs \<longleftrightarrow>
     length bs = n \<and> (\<forall>b < n. \<forall>it \<in> set (bs ! b). item_placed hash n b it)"

definition keys_unique :: "('d \<Rightarrow> 'd \<Rightarrow> int) \<Rightarrow> 'd lhash_item multiset \<Rightarrow> bool" where
  "keys_unique cmp M \<longleftrightarrow> (\<forall>x. size {#it \<in># M. cmp (it_data it) x = 0#} \<le> 1)"

definition lhash_ok ::
  "('h \<Rightarrow> 'd \<Rightarrow> u32) \<Rightarrow> ('c \<Rightarrow> 'd \<Rightarrow> 'd \<Rightarrow> int) \<Rightarrow> ('d, 'h, 'c) lhash \<Rightarrow> bool" where
  "lhash_ok ch cc lh \<longleftrightarrow>
     buckets_ok (ch (lh_hash lh)) (lh_num_buckets lh) (lh_buckets lh) \<and>
     kMinNumBuckets \<le> lh_num_buckets lh \<and> lh_num_buckets lh < 2 ^ 60 \<and>
     lh_num lh = sz (size (lh_items lh)) \<and>
     keys_unique (cc (lh_comp lh)) (lh_items lh)"

lemma concat_update:
  assumes "b < length bs"
  shows "mset (concat (bs[b := c])) + mset (bs ! b) = mset (concat bs) + mset c"
proof -
  have "mset (concat bs) = mset (concat (take b bs)) + mset (bs ! b) + mset (concat (drop (Suc b) bs))"
    using assms by (subst id_take_nth_drop [OF assms]) simp
  then show ?thesis using assms by (simp add: upd_conv_take_nth_drop)
qed

lemma chain_pos_le: "chain_pos match c \<le> length c"
  by (induction c) auto

lemma chain_pos_match: "chain_pos match c < length c \<Longrightarrow> match (it_data (c ! chain_pos match c))"
  by (induction c) (auto split: if_splits)

lemma chain_pos_hit: "chain_pos match c < length c \<longleftrightarrow> (\<exists>it \<in> set c. match (it_data it))"
  by (induction c) auto

lemma buckets_okD:
  "buckets_ok hash n bs \<Longrightarrow> b < n \<Longrightarrow> it \<in> set (bs ! b) \<Longrightarrow> it_hash it = hash (it_data it) \<and> unat (it_hash it) mod n = b"
  unfolding buckets_ok_def item_placed_def by blast

lemma buckets_ok_mem:
  assumes "buckets_ok hash n bs" "it \<in> set (concat bs)"
  shows "it \<in> set (bs ! (unat (hash (it_data it)) mod n)) \<and> it_hash it = hash (it_data it)"
proof -
  obtain b where b: "b < n" "it \<in> set (bs ! b)"
    using assms by (metis (no_types, lifting) UN_E buckets_ok_def in_set_conv_nth set_concat)
  from buckets_okD [OF assms(1) b] b show ?thesis by auto
qed

lemma buckets_ok_update:
  assumes "buckets_ok hash n bs" "b < n" "\<forall>it \<in> set c. item_placed hash n b it"
  shows "buckets_ok hash n (bs[b := c])"
  using assms by (auto simp: buckets_ok_def nth_list_update)

lemma keys_uniqueD:
  assumes "keys_unique cmp M" "it \<in># M" "it' \<in># M" "cmp (it_data it) x = 0" "cmp (it_data it') x = 0"
  shows "it = it'"
proof (rule ccontr)
  assume "it \<noteq> it'"
  with assms(2,3) obtain M' where "M = add_mset it (add_mset it' M')"
    by (metis insert_noteq_member mset_add)
  then have "size {#it \<in># M. cmp (it_data it) x = 0#} \<ge> 2" using assms(4,5) by simp
  moreover have "size {#it \<in># M. cmp (it_data it) x = 0#} \<le> 1" using assms(1) unfolding keys_unique_def by blast
  ultimately show False by linarith
qed

lemma keys_unique_subset: "keys_unique cmp M \<Longrightarrow> M' \<subseteq># M \<Longrightarrow> keys_unique cmp M'"
  unfolding keys_unique_def by (meson le_trans multiset_filter_mono size_mset_mono)

lemma keys_unique_add:
  assumes "keys_unique cmp M" "\<And>it'. it' \<in># M \<Longrightarrow> cmp (it_data it') (it_data it) \<noteq> 0"
    and sym: "\<And>a b. cmp a b = 0 \<Longrightarrow> cmp b a = 0" and trans: "\<And>a b c. cmp a b = 0 \<Longrightarrow> cmp b c = 0 \<Longrightarrow> cmp a c = 0"
  shows "keys_unique cmp (add_mset it M)"
  unfolding keys_unique_def
proof
  fix x
  show "size {#i \<in># add_mset it M. cmp (it_data i) x = 0#} \<le> 1"
  proof (cases "cmp (it_data it) x = 0")
    case True
    have "cmp (it_data i) x \<noteq> 0" if "i \<in># M" for i
      using assms(2) [OF that] trans [OF _ sym [OF True]] by blast
    then have "{#i \<in># M. cmp (it_data i) x = 0#} = {#}" by simp
    with True show ?thesis by simp
  next
    case False
    with assms(1) show ?thesis by (simp add: keys_unique_def)
  qed
qed

section \<open>Lookup\<close>

lemma get_next_ptr_bucket:
  assumes "lhash_ok ch cc lh" "get_next_ptr_and_hash ch cc lh x = (h, b, i)"
  shows "h = ch (lh_hash lh) x \<and> b = unat h mod lh_num_buckets lh \<and> b < lh_num_buckets lh \<and>
    b < length (lh_buckets lh) \<and> i \<le> length (lh_buckets lh ! b)"
  using assms chain_pos_le
  by (auto simp: get_next_ptr_and_hash_def Let_def lhash_ok_def buckets_ok_def kMinNumBuckets_def)

lemma deref_found:
  assumes "lhash_ok ch cc lh" "hash_key (ch (lh_hash lh)) (cc (lh_comp lh))"
    and "get_next_ptr_and_hash ch cc lh x = (h, b, i)"
  shows "deref lh (b, i) = Some it \<longleftrightarrow> it \<in># lh_items lh \<and> cc (lh_comp lh) (it_data it) x = 0"
proof -
  let ?c = "lh_buckets lh ! b" and ?cmp = "cc (lh_comp lh)"
  note g = get_next_ptr_bucket [OF assms(1,3)]
  have i: "i = chain_pos (\<lambda>d. ?cmp d x = 0) ?c"
    using assms(3) by (auto simp: get_next_ptr_and_hash_def Let_def)
  have sub: "j \<in> set ?c \<Longrightarrow> j \<in># lh_items lh" for j
    using g by (auto simp: lh_items_def)
  have uniq: "keys_unique ?cmp (lh_items lh)" using assms(1) by (simp add: lhash_ok_def)
  show ?thesis
  proof
    assume "deref lh (b, i) = Some it"
    then have l: "i < length ?c" "it = ?c ! i" by (auto simp: deref_def split: if_splits)
    have "?cmp (it_data (?c ! i)) x = 0"
      using chain_pos_match [of "\<lambda>d. ?cmp d x = 0" ?c] l(1) unfolding i by blast
    with sub [OF nth_mem [OF l(1)]] l(2) show "it \<in># lh_items lh \<and> ?cmp (it_data it) x = 0" by blast
  next
    assume it: "it \<in># lh_items lh \<and> ?cmp (it_data it) x = 0"
    have bo: "buckets_ok (ch (lh_hash lh)) (lh_num_buckets lh) (lh_buckets lh)"
      using assms(1) by (simp add: lhash_ok_def)
    have "ch (lh_hash lh) (it_data it) = h" using hash_key.hash_cong [OF assms(2)] it g by metis
    with buckets_ok_mem [OF bo, of it] it g have "it \<in> set ?c" by (simp add: lh_items_def)
    then have l: "i < length ?c" using chain_pos_hit [of "\<lambda>d. ?cmp d x = 0" ?c] it i by blast
    have "?cmp (it_data (?c ! i)) x = 0"
      using chain_pos_match [of "\<lambda>d. ?cmp d x = 0" ?c] l unfolding i by blast
    with keys_uniqueD [OF uniq sub [OF nth_mem [OF l]]] it have "?c ! i = it" by blast
    with l show "deref lh (b, i) = Some it" by (simp add: deref_def)
  qed
qed

lemma lh_retrieve_Some:
  assumes "lhash_ok ch cc lh" "hash_key (ch (lh_hash lh)) (cc (lh_comp lh))"
  shows "lh_retrieve ch cc lh x = Some d \<longleftrightarrow>
    (\<exists>it. it \<in># lh_items lh \<and> it_data it = d \<and> cc (lh_comp lh) d x = 0)"
proof -
  obtain h b i where g: "get_next_ptr_and_hash ch cc lh x = (h, b, i)" by (metis prod_cases3)
  show ?thesis
    using deref_found [OF assms g] by (auto simp: lh_retrieve_def g)
qed


section \<open>Resizing\<close>

lemma rebucket_loop_ok:
  assumes "buckets_ok hash n new" "0 < n" "\<forall>it \<in> set its. it_hash it = hash (it_data it)"
  shows "buckets_ok hash n (rebucket_loop n its new) \<and>
    mset (concat (rebucket_loop n its new)) = mset its + mset (concat new)"
  using assms(1,3)
proof (induction its arbitrary: new)
  case (Cons cur its)
  let ?b = "unat (it_hash cur) mod n"
  let ?new = "new[?b := cur # new ! ?b]"
  have b: "?b < n" "?b < length new" using assms(2) Cons.prems(1) by (simp_all add: buckets_ok_def)
  have "item_placed hash n ?b cur" using Cons.prems(2) by (simp add: item_placed_def)
  moreover have "\<forall>it \<in> set (new ! ?b). item_placed hash n ?b it"
    using Cons.prems(1) b(1) unfolding buckets_ok_def by blast
  ultimately have "buckets_ok hash n ?new" by (intro buckets_ok_update [OF Cons.prems(1) b(1)]) simp
  from Cons.IH [OF this] Cons.prems(2) concat_update [OF b(2), of "cur # new ! ?b"]
  show ?case by (simp add: Let_def)
qed simp

lemma empty_buckets_ok: "buckets_ok hash n (replicate n [])"
  by (simp add: buckets_ok_def)

lemma concat_replicate_Nil: "concat (replicate n []) = []"
  by (induction n) auto

lemma lh_rebucket_ok:
  assumes "lhash_ok ch cc lh" "malloc_bounded mal" "kMinNumBuckets \<le> n" "n \<le> 2 ^ 61 - 2"
  shows "lhash_ok ch cc (lh_rebucket mal lh n) \<and> lh_items (lh_rebucket mal lh n) = lh_items lh \<and>
    lh_num (lh_rebucket mal lh n) = lh_num lh \<and> lh_comp (lh_rebucket mal lh n) = lh_comp lh \<and>
    lh_hash (lh_rebucket mal lh n) = lh_hash lh \<and>
    lh_callback_depth (lh_rebucket mal lh n) = lh_callback_depth lh"
proof (cases "sz (8 * n) div 8 = n \<and> OPENSSL_malloc mal (sz (8 * n)) \<noteq> None")
  case False
  then have "lh_rebucket mal lh n = lh"
    by (auto simp: lh_rebucket_def Let_def sizeof_ptr_def split: option.splits)
  with assms(1) show ?thesis by simp
next
  case True
  let ?bs = "rebucket_loop n (concat (lh_buckets lh)) (replicate n [])"
  have r: "lh_rebucket mal lh n = lh\<lparr>lh_buckets := ?bs, lh_num_buckets := n\<rparr>"
    using True by (auto simp: lh_rebucket_def Let_def sizeof_ptr_def)
  have n64: "8 * n + 8 < 2 ^ 64" using assms(4) by simp
  have "mal (sz (8 * n + 8)) \<noteq> None"
    using True n64 by (auto simp: OPENSSL_malloc_def OPENSSL_MALLOC_PREFIX_def split: option.splits if_splits)
  then have "sz (8 * n + 8) < 2 ^ 63" using assms(2) by (auto simp: malloc_bounded_def)
  then have n60: "n < 2 ^ 60" using n64 by simp
  have bo: "buckets_ok (ch (lh_hash lh)) (lh_num_buckets lh) (lh_buckets lh)"
    using assms(1) by (simp add: lhash_ok_def)
  then have "\<forall>it \<in> set (concat (lh_buckets lh)). it_hash it = ch (lh_hash lh) (it_data it)"
    using buckets_ok_mem by blast
  from rebucket_loop_ok [OF empty_buckets_ok _ this, of n] assms(3)
  have "buckets_ok (ch (lh_hash lh)) n ?bs" "mset (concat ?bs) = lh_items lh"
    by (simp_all add: lh_items_def concat_replicate_Nil kMinNumBuckets_def)
  with assms(1,3) n60 show ?thesis by (simp add: r lhash_ok_def lh_items_def)
qed


lemma lh_maybe_resize_cases:
  assumes "lhash_ok ch cc lh"
  shows "lh_maybe_resize mal lh = lh \<or>
    (\<exists>n. kMinNumBuckets \<le> n \<and> n \<le> 2 ^ 61 - 2 \<and> lh_maybe_resize mal lh = lh_rebucket mal lh n)"
proof -
  have nb: "16 \<le> lh_num_buckets lh" "lh_num_buckets lh < 2 ^ 60"
    using assms(1) by (simp_all add: lhash_ok_def kMinNumBuckets_def)
  let ?up = "sz (lh_num_buckets lh * 2)"
    and ?down = "if lh_num_buckets lh div 2 < kMinNumBuckets then kMinNumBuckets else lh_num_buckets lh div 2"
  have "kMinNumBuckets \<le> ?up" "?up \<le> 2 ^ 61 - 2" "kMinNumBuckets \<le> ?down" "?down \<le> 2 ^ 61 - 2"
    using nb le_less_trans [OF div_le_dividend nb(2), of 2] by (simp_all add: kMinNumBuckets_def)
  moreover have "lh_maybe_resize mal lh = lh \<or> lh_maybe_resize mal lh = lh_rebucket mal lh ?up \<or>
      lh_maybe_resize mal lh = lh_rebucket mal lh ?down"
    by (simp add: lh_maybe_resize_def Let_def)
  ultimately show ?thesis by blast
qed

lemma lh_maybe_resize_ok:
  assumes "lhash_ok ch cc lh" "malloc_bounded mal"
  shows "lhash_ok ch cc (lh_maybe_resize mal lh) \<and> lh_items (lh_maybe_resize mal lh) = lh_items lh \<and>
    lh_num (lh_maybe_resize mal lh) = lh_num lh \<and> lh_comp (lh_maybe_resize mal lh) = lh_comp lh \<and>
    lh_hash (lh_maybe_resize mal lh) = lh_hash lh \<and>
    lh_callback_depth (lh_maybe_resize mal lh) = lh_callback_depth lh"
  using lh_maybe_resize_cases [OF assms(1), of mal] lh_rebucket_ok [OF assms] assms(1) by auto

section \<open>Insertion and deletion\<close>

text \<open>The three changes to one chain: an item replaced, added at the end, removed.\<close>

lemma lhash_ok_update:
  assumes "lhash_ok ch cc lh" "b < lh_num_buckets lh"
    and "\<forall>it \<in> set c. item_placed (ch (lh_hash lh)) (lh_num_buckets lh) b it"
    and "M + mset (lh_buckets lh ! b) = lh_items lh + mset c" "keys_unique (cc (lh_comp lh)) M" "n = sz (size M)"
  shows "lhash_ok ch cc (lh\<lparr>lh_buckets := (lh_buckets lh)[b := c], lh_num := n\<rparr>) \<and>
    lh_items (lh\<lparr>lh_buckets := (lh_buckets lh)[b := c], lh_num := n\<rparr>) = M"
proof -
  have bo: "buckets_ok (ch (lh_hash lh)) (lh_num_buckets lh) (lh_buckets lh)"
    using assms(1) by (simp add: lhash_ok_def)
  then have "b < length (lh_buckets lh)" using assms(2) by (simp add: buckets_ok_def)
  from concat_update [OF this, of c] assms(4) have "mset (concat ((lh_buckets lh)[b := c])) = M"
    by (metis add_right_cancel lh_items_def)
  with buckets_ok_update [OF bo assms(2,3)] assms(1,5,6) show ?thesis
    by (simp add: lhash_ok_def lh_items_def)
qed

lemma keys_unique_rest:
  assumes "keys_unique cmp (add_mset it R)" "cmp (it_data it) x = 0"
  shows "keys_unique cmp R \<and> (\<forall>j \<in># R. cmp (it_data j) x \<noteq> 0)"
proof -
  have "size {#i \<in># add_mset it R. cmp (it_data i) x = 0#} \<le> 1"
    using assms(1) unfolding keys_unique_def by blast
  with assms(2) have "\<forall>j \<in># R. cmp (it_data j) x \<noteq> 0" by simp
  with keys_unique_subset [OF assms(1), of R] show ?thesis by simp
qed

lemma filter_data_all:
  "\<forall>j \<in># R. cmp (it_data j) x \<noteq> (0 :: int) \<Longrightarrow> {#d \<in># image_mset it_data R. cmp d x \<noteq> 0#} = image_mset it_data R"
  by (auto simp: filter_mset_eq_conv)

lemma found_split:
  assumes "lhash_ok ch cc lh" "hash_key (ch (lh_hash lh)) (cc (lh_comp lh))"
    and "get_next_ptr_and_hash ch cc lh x = (h, b, i)" "deref lh (b, i) = Some it"
  obtains R where "lh_items lh = add_mset it R" "keys_unique (cc (lh_comp lh)) R" "cc (lh_comp lh) (it_data it) x = 0"
    "\<forall>j \<in># R. cc (lh_comp lh) (it_data j) x \<noteq> 0"
    "{#d \<in># image_mset it_data (lh_items lh). cc (lh_comp lh) d x \<noteq> 0#} = image_mset it_data R"
    "i < length (lh_buckets lh ! b)" "it = lh_buckets lh ! b ! i"
    "item_placed (ch (lh_hash lh)) (lh_num_buckets lh) b it" "it_hash it = h"
proof -
  have f: "it \<in># lh_items lh" "cc (lh_comp lh) (it_data it) x = 0"
    using deref_found [OF assms(1-3), of it] assms(4) by blast+
  obtain R where R: "lh_items lh = add_mset it R" using f(1) by (rule mset_add)
  have u: "keys_unique (cc (lh_comp lh)) (add_mset it R)" using assms(1) R by (simp add: lhash_ok_def)
  note r = keys_unique_rest [OF u f(2)]
  have c: "i < length (lh_buckets lh ! b)" "it = lh_buckets lh ! b ! i"
    using assms(4) by (auto simp: deref_def split: if_splits)
  note g = get_next_ptr_bucket [OF assms(1,3)]
  have p: "item_placed (ch (lh_hash lh)) (lh_num_buckets lh) b it"
    using assms(1) g c unfolding lhash_ok_def buckets_ok_def by (metis nth_mem)
  have "it_hash it = ch (lh_hash lh) x"
    using p hash_key.hash_cong [OF assms(2) f(2)] unfolding item_placed_def by simp
  with g have "it_hash it = h" by simp
  moreover have "{#d \<in># image_mset it_data (lh_items lh). cc (lh_comp lh) d x \<noteq> 0#} = image_mset it_data R"
    using r f(2) by (simp add: R filter_data_all)
  ultimately show ?thesis using that R r f(2) c p by blast
qed

lemma not_found:
  assumes "lhash_ok ch cc lh" "hash_key (ch (lh_hash lh)) (cc (lh_comp lh))"
    and "get_next_ptr_and_hash ch cc lh x = (h, b, i)" "deref lh (b, i) = None"
  shows "(\<forall>j \<in># lh_items lh. cc (lh_comp lh) (it_data j) x \<noteq> 0) \<and> i = length (lh_buckets lh ! b) \<and>
    lh_retrieve ch cc lh x = None \<and> deref lh (b, length (lh_buckets lh ! b)) = None"
proof -
  have "\<forall>j \<in># lh_items lh. cc (lh_comp lh) (it_data j) x \<noteq> 0"
    using deref_found [OF assms(1-3)] assms(4) by (metis option.distinct(1))
  moreover have "i = length (lh_buckets lh ! b)"
    using assms(4) get_next_ptr_bucket [OF assms(1,3)] by (auto simp: deref_def split: if_splits)
  ultimately show ?thesis using assms(4) by (auto simp: lh_retrieve_def assms(3))
qed

text \<open>What a change does to the sizes: one item more or less, then a resize, or neither.\<close>

definition changed_once ::
  "malloc_fn \<Rightarrow> ('h \<Rightarrow> 'd \<Rightarrow> u32) \<Rightarrow> ('c \<Rightarrow> 'd \<Rightarrow> 'd \<Rightarrow> int) \<Rightarrow> ('d, 'h, 'c) lhash \<Rightarrow> ('d, 'h, 'c) lhash \<Rightarrow> bool" where
  "changed_once mal ch cc lh lh' \<longleftrightarrow>
     (\<exists>lh1. lhash_ok ch cc lh1 \<and> lh_num_buckets lh1 = lh_num_buckets lh \<and>
        lh_callback_depth lh1 = lh_callback_depth lh \<and>
        (lh' = lh1 \<and> size (lh_items lh1) = size (lh_items lh) \<or>
         lh' = lh_maybe_resize mal lh1 \<and> size (lh_items lh1) \<le> Suc (size (lh_items lh)) \<and>
         size (lh_items lh) \<le> Suc (size (lh_items lh1))))"

lemma lh_insert_cases:
  assumes "lhash_ok ch cc lh" "hash_key (ch (lh_hash lh)) (cc (lh_comp lh))" "malloc_bounded mal"
    and "lh_insert mal ch cc lh data = (okay, old, lh')"
  shows "old = lh_retrieve ch cc lh data \<and> lh_hash lh' = lh_hash lh \<and> lh_comp lh' = lh_comp lh \<and>
    lh_callback_depth lh' = lh_callback_depth lh \<and>
    (if okay then lhash_ok ch cc lh' \<and>
       image_mset it_data (lh_items lh') =
         add_mset data {#d \<in># image_mset it_data (lh_items lh). cc (lh_comp lh) d data \<noteq> 0#} \<and>
       changed_once mal ch cc lh lh'
     else old = None \<and> lh' = lh)"
proof -
  let ?cmp = "cc (lh_comp lh)"
  obtain h b i where g: "get_next_ptr_and_hash ch cc lh data = (h, b, i)" by (metis prod_cases3)
  note gb = get_next_ptr_bucket [OF assms(1) g]
  note sym = hash_key.cmp_sym [OF assms(2)] and trans = hash_key.cmp_trans [OF assms(2)]
    and refl = hash_key.cmp_refl [OF assms(2)]
  show ?thesis
  proof (cases "deref lh (b, i)")
    case (Some it)
    obtain R where R: "lh_items lh = add_mset it R" "keys_unique ?cmp R" "?cmp (it_data it) data = 0"
      "\<forall>j \<in># R. ?cmp (it_data j) data \<noteq> 0"
      "{#d \<in># image_mset it_data (lh_items lh). ?cmp d data \<noteq> 0#} = image_mset it_data R"
      "i < length (lh_buckets lh ! b)" "it = lh_buckets lh ! b ! i"
      "item_placed (ch (lh_hash lh)) (lh_num_buckets lh) b it" "it_hash it = h"
      using found_split [OF assms(1,2) g Some] .
    let ?it = "it\<lparr>it_data := data\<rparr>" and ?c = "lh_buckets lh ! b"
    have u: "keys_unique ?cmp (add_mset ?it R)"
      by (rule keys_unique_add [OF R(2) _ sym trans]) (use R(4) in auto)
    have m: "add_mset ?it R + mset ?c = lh_items lh + mset (?c[i := ?it])"
      using R(6,7) by (simp add: R(1) mset_update)
    have p: "\<forall>j \<in> set (?c[i := ?it]). item_placed (ch (lh_hash lh)) (lh_num_buckets lh) b j"
    proof
      fix j
      assume "j \<in> set (?c[i := ?it])"
      then have "j \<in> set ?c \<or> j = ?it" using set_update_subset_insert by fastforce
      then show "item_placed (ch (lh_hash lh)) (lh_num_buckets lh) b j"
        using assms(1) gb R(8,9) unfolding lhash_ok_def buckets_ok_def by (auto simp: item_placed_def)
    qed
    have n: "lh_num lh = sz (size (add_mset ?it R))" using assms(1) R(1) by (simp add: lhash_ok_def)
    have b: "b < lh_num_buckets lh" using gb by blast
    have l: "lh' = lh\<lparr>lh_buckets := (lh_buckets lh)[b := ?c[i := ?it]], lh_num := lh_num lh\<rparr>"
      "okay" "old = Some (it_data it)"
      using assms(4) by (auto simp: lh_insert_def g Some)
    note up = lhash_ok_update [OF assms(1) b p m u n]
    have "changed_once mal ch cc lh lh'"
      unfolding changed_once_def by (intro exI [of _ lh']) (use up in \<open>simp add: l R(1)\<close>)
    then show ?thesis using up by (simp add: l R(5) lh_retrieve_def g Some)
  next
    case None
    note nf = not_found [OF assms(1,2) g None]
    show ?thesis
    proof (cases "OPENSSL_malloc mal sizeof_LHASH_ITEM")
      case fail: None
      with assms(4) nf show ?thesis by (simp add: lh_insert_def g None)
    next
      case malloc: (Some block)
      let ?it = "\<lparr>it_data = data, it_hash = h\<rparr>" and ?c = "lh_buckets lh ! b"
      let ?lh = "lh\<lparr>lh_buckets := (lh_buckets lh)[b := ?c @ [?it]], lh_num := sz (lh_num lh + 1)\<rparr>"
      have u: "keys_unique ?cmp (add_mset ?it (lh_items lh))"
        by (rule keys_unique_add [OF _ _ sym trans]) (use nf assms(1) in \<open>auto simp: lhash_ok_def\<close>)
      have m: "add_mset ?it (lh_items lh) + mset ?c = lh_items lh + mset (?c @ [?it])" by simp
      have p: "\<forall>j \<in> set (?c @ [?it]). item_placed (ch (lh_hash lh)) (lh_num_buckets lh) b j"
        using assms(1) gb unfolding lhash_ok_def buckets_ok_def by (auto simp: item_placed_def)
      have n: "sz (lh_num lh + 1) = sz (size (add_mset ?it (lh_items lh)))"
        using assms(1) by (simp add: lhash_ok_def sz_def mod_Suc_eq)
      have b: "b < lh_num_buckets lh" using gb by blast
      have l: "lh' = lh_maybe_resize mal ?lh" "okay" "old = None"
        using assms(4) nf by (simp_all add: lh_insert_def g None malloc)
      note up = lhash_ok_update [OF assms(1) b p m u n]
      have "changed_once mal ch cc lh lh'"
        unfolding changed_once_def by (intro exI [of _ ?lh]) (use up in \<open>simp add: l\<close>)
      with lh_maybe_resize_ok [OF _ assms(3), of ch cc ?lh] up nf show ?thesis
        by (simp add: l filter_data_all)
    qed
  qed
qed



lemma sz_pred: "sz (sz (Suc k) + (2 ^ 64 - 1)) = sz k"
proof -
  have "sz (sz (Suc k) + (2 ^ 64 - 1)) = (Suc k + (2 ^ 64 - 1)) mod 2 ^ 64"
    unfolding sz_def by (rule mod_add_left_eq)
  also have "\<dots> = sz k" by (simp add: sz_def)
  finally show ?thesis .
qed

lemma lh_delete_cases:
  assumes "lhash_ok ch cc lh" "hash_key (ch (lh_hash lh)) (cc (lh_comp lh))" "malloc_bounded mal"
    and "lh_delete mal ch cc lh data = (old, lh')"
  shows "old = lh_retrieve ch cc lh data \<and> lh_hash lh' = lh_hash lh \<and> lh_comp lh' = lh_comp lh \<and>
    lh_callback_depth lh' = lh_callback_depth lh \<and> lhash_ok ch cc lh' \<and>
    image_mset it_data (lh_items lh') = {#d \<in># image_mset it_data (lh_items lh). cc (lh_comp lh) d data \<noteq> 0#} \<and>
    changed_once mal ch cc lh lh'"
proof -
  let ?cmp = "cc (lh_comp lh)"
  obtain h b i where g: "get_next_ptr_and_hash ch cc lh data = (h, b, i)" by (metis prod_cases3)
  note gb = get_next_ptr_bucket [OF assms(1) g]
  show ?thesis
  proof (cases "deref lh (b, i)")
    case None
    then have "old = None" "lh' = lh" using assms(4) by (simp_all add: lh_delete_def g)
    with not_found [OF assms(1,2) g None] assms(1) show ?thesis by (auto simp: filter_data_all changed_once_def)
  next
    case (Some it)
    obtain R where R: "lh_items lh = add_mset it R" "keys_unique ?cmp R" "?cmp (it_data it) data = 0"
      "\<forall>j \<in># R. ?cmp (it_data j) data \<noteq> 0"
      "{#d \<in># image_mset it_data (lh_items lh). ?cmp d data \<noteq> 0#} = image_mset it_data R"
      "i < length (lh_buckets lh ! b)" "it = lh_buckets lh ! b ! i"
      "item_placed (ch (lh_hash lh)) (lh_num_buckets lh) b it" "it_hash it = h"
      using found_split [OF assms(1,2) g Some] .
    let ?c = "lh_buckets lh ! b"
    let ?c' = "take i ?c @ drop (i + 1) ?c"
    let ?lh = "lh\<lparr>lh_buckets := (lh_buckets lh)[b := ?c'], lh_num := sz (lh_num lh + (2 ^ 64 - 1))\<rparr>"
    have c: "mset ?c = add_mset it (mset ?c')"
      using R(6,7) by (subst id_take_nth_drop [OF R(6)]) simp
    have m: "R + mset ?c = lh_items lh + mset ?c'" by (simp add: c R(1))
    have p: "\<forall>j \<in> set ?c'. item_placed (ch (lh_hash lh)) (lh_num_buckets lh) b j"
      using assms(1) gb unfolding lhash_ok_def buckets_ok_def
      by (auto dest: in_set_takeD in_set_dropD)
    have n: "sz (lh_num lh + (2 ^ 64 - 1)) = sz (size R)"
      using assms(1) sz_pred [of "size R"] R(1) by (simp add: lhash_ok_def)
    have b: "b < lh_num_buckets lh" using gb by blast
    have l: "lh' = lh_maybe_resize mal ?lh" "old = Some (it_data it)"
      using assms(4) by (simp_all add: lh_delete_def g Some)
    note up = lhash_ok_update [OF assms(1) b p m R(2) n]
    have "changed_once mal ch cc lh lh'"
      unfolding changed_once_def by (intro exI [of _ ?lh]) (use up in \<open>simp add: l R(1)\<close>)
    with lh_maybe_resize_ok [OF _ assms(3), of ch cc ?lh] up show ?thesis
      by (simp add: l R(5) lh_retrieve_def g Some)
  qed
qed

section \<open>The table as a map\<close>

lemma lh_retrieve_data:
  assumes "lhash_ok ch cc lh" "hash_key (ch (lh_hash lh)) (cc (lh_comp lh))"
  shows "lh_retrieve ch cc lh x = Some d \<longleftrightarrow>
    d \<in># image_mset it_data (lh_items lh) \<and> cc (lh_comp lh) d x = 0"
  using lh_retrieve_Some [OF assms] by auto

lemma option_eqI: "(\<And>d. a = Some d \<longleftrightarrow> b = Some d) \<Longrightarrow> a = b"
  by (metis option.exhaust)

lemma lh_insert_lookup:
  assumes "lhash_ok ch cc lh" "hash_key (ch (lh_hash lh)) (cc (lh_comp lh))" "malloc_bounded mal"
    and "lh_insert mal ch cc lh data = (True, old, lh')"
  shows "lh_retrieve ch cc lh' x = (if cc (lh_comp lh) data x = 0 then Some data else lh_retrieve ch cc lh x)"
proof -
  let ?cmp = "cc (lh_comp lh)"
  note i = lh_insert_cases [OF assms]
  have k': "hash_key (ch (lh_hash lh')) (cc (lh_comp lh'))" using i assms(2) by simp
  have r: "lh_retrieve ch cc lh' x = Some d \<longleftrightarrow> (d = data \<or> d \<in># image_mset it_data (lh_items lh) \<and> ?cmp d data \<noteq> 0) \<and> ?cmp d x = 0" for d
    using lh_retrieve_data [where lh = lh' and ch = ch and cc = cc, OF _ k', of x d] i by auto
  show ?thesis
  proof (cases "?cmp data x = 0")
    case True
    then have "lh_retrieve ch cc lh' x = Some data" using r by simp
    with True show ?thesis by simp
  next
    case False
    have "lh_retrieve ch cc lh' x = lh_retrieve ch cc lh x"
    proof (rule option_eqI)
      fix d
      have "?cmp d x = 0 \<Longrightarrow> ?cmp d data \<noteq> 0" using hash_key.cmp_left [OF assms(2), of d data x] False by blast
      then show "lh_retrieve ch cc lh' x = Some d \<longleftrightarrow> lh_retrieve ch cc lh x = Some d"
        unfolding r lh_retrieve_data [OF assms(1,2)] using False by blast
    qed
    with False show ?thesis by simp
  qed
qed

lemma lh_delete_lookup:
  assumes "lhash_ok ch cc lh" "hash_key (ch (lh_hash lh)) (cc (lh_comp lh))" "malloc_bounded mal"
    and "lh_delete mal ch cc lh data = (old, lh')"
  shows "lh_retrieve ch cc lh' x = (if cc (lh_comp lh) data x = 0 then None else lh_retrieve ch cc lh x)"
proof (rule option_eqI)
  fix d
  let ?cmp = "cc (lh_comp lh)"
  note i = lh_delete_cases [OF assms]
  have k': "hash_key (ch (lh_hash lh')) (cc (lh_comp lh'))" using i assms(2) by simp
  have "lh_retrieve ch cc lh' x = Some d \<longleftrightarrow> (d \<in># image_mset it_data (lh_items lh) \<and> ?cmp d data \<noteq> 0) \<and> ?cmp d x = 0"
    using lh_retrieve_data [where lh = lh' and ch = ch and cc = cc, OF _ k', of x d] i by auto
  moreover have "?cmp d x = 0 \<Longrightarrow> ?cmp d data = 0 \<longleftrightarrow> ?cmp data x = 0"
    using hash_key.cmp_right [OF assms(2)] hash_key.cmp_left [OF assms(2)] hash_key.cmp_sym [OF assms(2)] by blast
  ultimately show "lh_retrieve ch cc lh' x = Some d \<longleftrightarrow>
      (if ?cmp data x = 0 then None else lh_retrieve ch cc lh x) = Some d"
    using lh_retrieve_data [OF assms(1,2), of x d] by auto
qed

text \<open>C7: The hash table is a map on classes of equal elements: a successful insertion returns and
replaces what was found before, a failed one changes nothing, a deletion removes and returns what was
found; every other lookup is unaffected, also when the table is resized on the way.\<close>

theorem lhash_refines_map:
  assumes "lhash_ok ch cc lh" "hash_key (ch (lh_hash lh)) (cc (lh_comp lh))" "malloc_bounded mal"
  shows "(case lh_insert mal ch cc lh data of
       (True, old, lh') \<Rightarrow> lhash_ok ch cc lh' \<and> old = lh_retrieve ch cc lh data \<and>
         lh_retrieve ch cc lh' = (\<lambda>x. if cc (lh_comp lh) data x = 0 then Some data else lh_retrieve ch cc lh x)
     | (False, old, lh') \<Rightarrow> old = None \<and> lh' = lh) \<and>
    (case lh_delete mal ch cc lh data of
       (old, lh') \<Rightarrow> lhash_ok ch cc lh' \<and> old = lh_retrieve ch cc lh data \<and>
         lh_retrieve ch cc lh' = (\<lambda>x. if cc (lh_comp lh) data x = 0 then None else lh_retrieve ch cc lh x))"
    (is "?ins \<and> ?del")
proof
  obtain okay old lh' where i: "lh_insert mal ch cc lh data = (okay, old, lh')" by (metis prod_cases3)
  show ?ins
  proof (cases okay)
    case True
    with lh_insert_cases [OF assms i] lh_insert_lookup [OF assms, of data old lh'] i show ?thesis by auto
  next
    case False
    with lh_insert_cases [OF assms i] i show ?thesis by auto
  qed
  obtain old2 lh2 where d: "lh_delete mal ch cc lh data = (old2, lh2)" by fastforce
  show ?del using lh_delete_cases [OF assms d] lh_delete_lookup [OF assms d] d by auto
qed


section \<open>The length of the chains\<close>

text \<open>
  The table has at most three items to a bucket on average, and at least one unless it has its
  smallest size.
\<close>

definition lhash_load :: "('d, 'h, 'c) lhash \<Rightarrow> bool" where
  "lhash_load lh \<longleftrightarrow>
     size (lh_items lh) < 3 * lh_num_buckets lh \<and>
     (lh_num_buckets lh = kMinNumBuckets \<or> lh_num_buckets lh \<le> size (lh_items lh))"

lemma rebucket_succeeds:
  assumes "\<And>n. n < 2 ^ 63 \<Longrightarrow> mal n \<noteq> None" "n < 2 ^ 59"
  shows "lh_num_buckets (lh_rebucket mal lh n) = n"
proof -
  have "mal (8 * n + 8) \<noteq> None" using assms by simp
  then have "OPENSSL_malloc mal (8 * n) \<noteq> None" using assms(2)
    by (auto simp: OPENSSL_malloc_def OPENSSL_MALLOC_PREFIX_def)
  then show ?thesis using assms(2) by (auto simp: lh_rebucket_def Let_def sizeof_ptr_def)
qed

lemma resize_load:
  assumes "lhash_ok ch cc lh" "malloc_bounded mal" "\<And>n. n < 2 ^ 63 \<Longrightarrow> mal n \<noteq> None" "lh_callback_depth lh = 0"
    and "size (lh_items lh) \<le> 3 * lh_num_buckets lh" "size (lh_items lh) < 2 ^ 58"
    and "lh_num_buckets lh = kMinNumBuckets \<or> lh_num_buckets lh \<le> Suc (size (lh_items lh))"
  shows "lhash_load (lh_maybe_resize mal lh)"
proof -
  let ?n = "size (lh_items lh)" and ?b = "lh_num_buckets lh"
  have b: "16 \<le> ?b" using assms(1) by (simp add: lhash_ok_def kMinNumBuckets_def)
  have num: "lh_num lh = ?n" using assms(1,6) by (simp add: lhash_ok_def)
  note items = lh_maybe_resize_ok [OF assms(1,2)]
  have b58: "?b \<le> 2 ^ 58" using assms(6,7) by (auto simp: kMinNumBuckets_def)
  consider (grow) "?n = 3 * ?b" | (shrink) "?n < ?b" "16 < ?b" | (stay) "?n < 3 * ?b" "?b = 16 \<or> ?b \<le> ?n"
    using assms(5) b by linarith
  then show ?thesis
  proof cases
    case grow
    have "sz (?b * 2) = ?b * 2" using b58 by simp
    then have "lh_maybe_resize mal lh = lh_rebucket mal lh (?b * 2)"
      using grow b assms(4) by (simp add: lh_maybe_resize_def num kMaxAverageChainLength_def)
    then have "lh_num_buckets (lh_maybe_resize mal lh) = ?b * 2"
      using rebucket_succeeds [where mal = mal and n = "?b * 2" and lh = lh, OF assms(3)] grow assms(6) by simp
    with items grow b show ?thesis by (simp add: lhash_load_def)
  next
    case shrink
    let ?m = "if ?b div 2 < 16 then 16 else ?b div 2"
    have "?n div ?b = 0" using shrink(1) by simp
    then have "lh_maybe_resize mal lh = lh_rebucket mal lh ?m"
      using shrink assms(4)
      by (simp add: lh_maybe_resize_def num kMaxAverageChainLength_def kMinAverageChainLength_def kMinNumBuckets_def)
    moreover have m: "?m < 2 ^ 59" using le_trans [OF div_le_dividend b58, of 2] by simp
    ultimately have "lh_num_buckets (lh_maybe_resize mal lh) = ?m"
      using rebucket_succeeds [where mal = mal and lh = lh, OF assms(3) m] by simp
    moreover have "?b \<le> Suc ?n" using assms(7) shrink(2) by (simp add: kMinNumBuckets_def)
    ultimately show ?thesis
      using items shrink by (auto simp: lhash_load_def kMinNumBuckets_def)
  next
    case stay
    have "?n div ?b < 3" by (rule less_mult_imp_div_less) (use stay(1) in simp)
    then have "\<not> ?n div ?b > 2" by simp
    moreover have "\<not> (?n div ?b < 1 \<and> ?b > 16)" using stay(2) b by (auto simp: div_greater_zero_iff)
    ultimately have "lh_maybe_resize mal lh = lh"
      using assms(4)
      by (auto simp: Let_def lh_maybe_resize_def num kMaxAverageChainLength_def kMinAverageChainLength_def kMinNumBuckets_def)
    with stay show ?thesis by (simp add: lhash_load_def kMinNumBuckets_def)
  qed
qed


lemma changed_load:
  assumes "changed_once mal ch cc lh lh'" "malloc_bounded mal" "\<And>n. n < 2 ^ 63 \<Longrightarrow> mal n \<noteq> None"
    and "lh_callback_depth lh = 0" "lhash_load lh" "size (lh_items lh) < 2 ^ 58 - 1"
  shows "lhash_load lh'"
proof -
  obtain lh1 where lh1: "lhash_ok ch cc lh1" "lh_num_buckets lh1 = lh_num_buckets lh" "lh_callback_depth lh1 = 0"
    "lh' = lh1 \<and> size (lh_items lh1) = size (lh_items lh) \<or>
     lh' = lh_maybe_resize mal lh1 \<and> size (lh_items lh1) \<le> Suc (size (lh_items lh)) \<and>
     size (lh_items lh) \<le> Suc (size (lh_items lh1))"
    using assms(1,4) unfolding changed_once_def by auto
  have resize: "lhash_load (lh_maybe_resize mal lh1)"
    if "size (lh_items lh1) \<le> Suc (size (lh_items lh))" "size (lh_items lh) \<le> Suc (size (lh_items lh1))"
    by (rule resize_load [OF lh1(1) assms(2,3) lh1(3)]) (use that assms(5,6) lh1(2) in \<open>auto simp: lhash_load_def\<close>)
  from lh1(4) show ?thesis
  proof (elim disjE conjE)
    assume "lh' = lh1" "size (lh_items lh1) = size (lh_items lh)"
    with assms(5) lh1(2) show ?thesis by (simp add: lhash_load_def)
  qed (use resize in simp)
qed

text \<open>C13: Outside callbacks, and while memory lasts, insertion and deletion keep the average chain
length below three and, above the smallest table, not below one.\<close>

theorem lhash_load_kept:
  assumes "lhash_ok ch cc lh" "hash_key (ch (lh_hash lh)) (cc (lh_comp lh))" "malloc_bounded mal"
    and "\<And>n. n < 2 ^ 63 \<Longrightarrow> mal n \<noteq> None"
    and "lh_callback_depth lh = 0" "lhash_load lh" "size (lh_items lh) < 2 ^ 58 - 1"
  shows "lhash_load (snd (snd (lh_insert mal ch cc lh data))) \<and> lhash_load (snd (lh_delete mal ch cc lh data))"
proof
  obtain okay old lh' where i: "lh_insert mal ch cc lh data = (okay, old, lh')" by (metis prod_cases3)
  have "lh' = lh \<or> changed_once mal ch cc lh lh'"
    using lh_insert_cases [OF assms(1-3) i] by (cases okay) simp_all
  with changed_load [OF _ assms(3-7), of ch cc lh'] assms(6) i
  show "lhash_load (snd (snd (lh_insert mal ch cc lh data)))" by auto
  obtain old2 lh2 where d: "lh_delete mal ch cc lh data = (old2, lh2)" by fastforce
  with changed_load [OF _ assms(3-7), of ch cc lh2] lh_delete_cases [OF assms(1-3) d]
  show "lhash_load (snd (lh_delete mal ch cc lh data))" by simp
qed

section \<open>Tables as clients use them\<close>

text \<open>
  The contract of a table of elements under an equality \<open>eq\<close>. The environment \<open>'m\<close> holds what
  the operations are given besides the table: the allocator and the call helpers.
\<close>

locale keyed_table =
  fixes ok :: "'m \<Rightarrow> 't \<Rightarrow> bool" and eq :: "'m \<Rightarrow> 't \<Rightarrow> 'd \<Rightarrow> 'd \<Rightarrow> bool"
    and lookup :: "'m \<Rightarrow> 't \<Rightarrow> 'd \<Rightarrow> 'd option"
    and store :: "'m \<Rightarrow> 't \<Rightarrow> 'd \<Rightarrow> bool \<times> 'd option \<times> 't"
    and remove :: "'m \<Rightarrow> 't \<Rightarrow> 'd \<Rightarrow> 'd option \<times> 't"
  assumes store_lookup: "ok m t \<Longrightarrow> store m t d = (True, old, t') \<Longrightarrow>
      ok m t' \<and> eq m t' = eq m t \<and> old = lookup m t d \<and> lookup m t' x = (if eq m t d x then Some d else lookup m t x)"
    and remove_lookup: "ok m t \<Longrightarrow> remove m t d = (old, t') \<Longrightarrow>
      ok m t' \<and> eq m t' = eq m t \<and> old = lookup m t d \<and> lookup m t' x = (if eq m t d x then None else lookup m t x)"

fun store_all :: "('t \<Rightarrow> 'd \<Rightarrow> bool \<times> 'd option \<times> 't) \<Rightarrow> 't \<Rightarrow> 'd list \<Rightarrow> 't option" where
  "store_all put t [] = Some t"
| "store_all put t (d # ds) = (case put t d of (okay, _, t') \<Rightarrow> if okay then store_all put t' ds else None)"

fun remove_all :: "('t \<Rightarrow> 'd \<Rightarrow> 'd option \<times> 't) \<Rightarrow> 't \<Rightarrow> 'd list \<Rightarrow> 't" where
  "remove_all del t [] = t"
| "remove_all del t (d # ds) = remove_all del (snd (del t d)) ds"

lemma find_append_rev: "find P (xs @ [x]) = (case find P xs of Some y \<Rightarrow> Some y | None \<Rightarrow> if P x then Some x else None)"
  by (induction xs) auto

context keyed_table
begin

lemma store_all_lookup:
  assumes "ok m t" "store_all (store m) t ds = Some t'"
  shows "ok m t' \<and> eq m t' = eq m t \<and>
    lookup m t' x = (case find (\<lambda>d. eq m t d x) (rev ds) of Some d \<Rightarrow> Some d | None \<Rightarrow> lookup m t x)"
  using assms
proof (induction ds arbitrary: t)
  case (Cons d ds)
  obtain okay old t1 where s: "store m t d = (okay, old, t1)" by (metis prod_cases3)
  with Cons.prems(2) have o: "okay" and r: "store_all (store m) t1 ds = Some t'" by (simp_all split: if_splits)
  note l = store_lookup [OF Cons.prems(1) s [unfolded o [THEN eq_True [THEN iffD2]]], of x]
  from Cons.IH [OF _ r] l show ?case by (auto simp: find_append_rev split: option.splits)
qed simp

lemma remove_all_lookup:
  assumes "ok m t"
  shows "ok m (remove_all (remove m) t ds) \<and> eq m (remove_all (remove m) t ds) = eq m t \<and>
    lookup m (remove_all (remove m) t ds) x = (if \<exists>d \<in> set ds. eq m t d x then None else lookup m t x)"
  using assms
proof (induction ds arbitrary: t)
  case (Cons d ds)
  obtain old t1 where s: "remove m t d = (old, t1)" by fastforce
  from Cons.IH [of t1] remove_lookup [OF Cons.prems s, of x] s show ?case by simp
qed simp

end

type_synonym ('d, 'h, 'c) lh_env = "malloc_fn \<times> ('h \<Rightarrow> 'd \<Rightarrow> u32) \<times> ('c \<Rightarrow> 'd \<Rightarrow> 'd \<Rightarrow> int)"

definition lh_env_ok :: "('d, 'h, 'c) lh_env \<Rightarrow> ('d, 'h, 'c) lhash \<Rightarrow> bool" where
  "lh_env_ok env lh \<longleftrightarrow>
     (case env of (mal, ch, cc) \<Rightarrow>
        malloc_bounded mal \<and> lhash_ok ch cc lh \<and> hash_key (ch (lh_hash lh)) (cc (lh_comp lh)))"

abbreviation lh_env_eq :: "('d, 'h, 'c) lh_env \<Rightarrow> ('d, 'h, 'c) lhash \<Rightarrow> 'd \<Rightarrow> 'd \<Rightarrow> bool" where
  "lh_env_eq env lh d x \<equiv> snd (snd env) (lh_comp lh) d x = 0"

abbreviation lh_env_retrieve :: "('d, 'h, 'c) lh_env \<Rightarrow> ('d, 'h, 'c) lhash \<Rightarrow> 'd \<Rightarrow> 'd option" where
  "lh_env_retrieve env \<equiv> lh_retrieve (fst (snd env)) (snd (snd env))"

abbreviation lh_env_insert ::
  "('d, 'h, 'c) lh_env \<Rightarrow> ('d, 'h, 'c) lhash \<Rightarrow> 'd \<Rightarrow> bool \<times> 'd option \<times> ('d, 'h, 'c) lhash" where
  "lh_env_insert env \<equiv> lh_insert (fst env) (fst (snd env)) (snd (snd env))"

abbreviation lh_env_delete ::
  "('d, 'h, 'c) lh_env \<Rightarrow> ('d, 'h, 'c) lhash \<Rightarrow> 'd \<Rightarrow> 'd option \<times> ('d, 'h, 'c) lhash" where
  "lh_env_delete env \<equiv> lh_delete (fst env) (fst (snd env)) (snd (snd env))"

interpretation lh: keyed_table lh_env_ok lh_env_eq lh_env_retrieve lh_env_insert lh_env_delete
proof unfold_locales
  fix env and t t' :: "('d, 'h, 'c) lhash" and d old x
  assume h: "lh_env_ok env t" "lh_env_insert env t d = (True, old, t')"
  obtain mal ch cc where env: "env = (mal, ch, cc)" by (metis prod_cases3)
  have a: "lhash_ok ch cc t" "hash_key (ch (lh_hash t)) (cc (lh_comp t))" "malloc_bounded mal"
    using h(1) by (simp_all add: lh_env_ok_def env)
  have i: "lh_insert mal ch cc t d = (True, old, t')" using h(2) by (simp add: env)
  show "lh_env_ok env t' \<and> lh_env_eq env t' = lh_env_eq env t \<and> old = lh_env_retrieve env t d \<and>
      lh_env_retrieve env t' x = (if lh_env_eq env t d x then Some d else lh_env_retrieve env t x)"
    using lh_insert_cases [OF a i] lh_insert_lookup [OF a i, of x] a by (simp add: lh_env_ok_def env)
next
  fix env and t t' :: "('d, 'h, 'c) lhash" and d old x
  assume h: "lh_env_ok env t" "lh_env_delete env t d = (old, t')"
  obtain mal ch cc where env: "env = (mal, ch, cc)" by (metis prod_cases3)
  have a: "lhash_ok ch cc t" "hash_key (ch (lh_hash t)) (cc (lh_comp t))" "malloc_bounded mal"
    using h(1) by (simp_all add: lh_env_ok_def env)
  have i: "lh_delete mal ch cc t d = (old, t')" using h(2) by (simp add: env)
  show "lh_env_ok env t' \<and> lh_env_eq env t' = lh_env_eq env t \<and> old = lh_env_retrieve env t d \<and>
      lh_env_retrieve env t' x = (if lh_env_eq env t d x then None else lh_env_retrieve env t x)"
    using lh_delete_cases [OF a i] lh_delete_lookup [OF a i, of x] a by (simp add: lh_env_ok_def env)
qed

lemma lh_new_ok:
  assumes "lh_new mal hash comp' = Some lh"
  shows "lhash_ok ch cc lh \<and> lh_items lh = {#} \<and> lh_hash lh = hash \<and> lh_comp lh = comp' \<and>
    lh_callback_depth lh = 0 \<and> lh_num_buckets lh = kMinNumBuckets"
proof -
  have "lh = \<lparr>lh_num = 0, lh_buckets = replicate kMinNumBuckets [], lh_num_buckets = kMinNumBuckets,
      lh_callback_depth = 0, lh_comp = comp', lh_hash = hash\<rparr>"
    using assms by (simp add: lh_new_def split: option.splits)
  then show ?thesis
    by (simp add: lhash_ok_def lh_items_def empty_buckets_ok concat_replicate_Nil keys_unique_def kMinNumBuckets_def)
qed

text \<open>A table built by inserting a list of elements and then deleting another finds, for any
element, the last one inserted that is equal to it, unless an equal one was deleted.\<close>

theorem lh_build_lookup:
  assumes "malloc_bounded mal" "hash_key (ch hash) (cc comp')" "lh_new mal hash comp' = Some lh"
    and "store_all (lh_insert mal ch cc) lh ds = Some lh1"
  shows "lh_retrieve ch cc (remove_all (lh_delete mal ch cc) lh1 es) x =
    (if \<exists>e \<in> set es. cc comp' e x = 0 then None else find (\<lambda>d. cc comp' d x = 0) (rev ds))"
proof -
  let ?env = "(mal, ch, cc)"
  note new = lh_new_ok [OF assms(3), of ch cc]
  have ok: "lh_env_ok ?env lh" using new assms(1,2) by (simp add: lh_env_ok_def)
  have "lh_retrieve ch cc lh x = None"
    using lh_retrieve_data [of ch cc lh x] new assms(2) by (metis empty_iff image_mset_empty not_None_eq set_mset_empty)
  with lh.store_all_lookup [OF ok, of ds lh1 x] assms(4) new
  have "lh_env_ok ?env lh1" "lh_comp lh1 = comp' \<or> (\<forall>d y. cc (lh_comp lh1) d y = 0 \<longleftrightarrow> cc comp' d y = 0)"
    and s: "lh_retrieve ch cc lh1 x = find (\<lambda>d. cc comp' d x = 0) (rev ds)"
    and e: "(\<lambda>d x. cc (lh_comp lh1) d x = 0) = (\<lambda>d x. cc comp' d x = 0)"
    by (auto split: option.splits dest: fun_cong)
  then show ?thesis
    using lh.remove_all_lookup [of ?env lh1 es x] fun_cong [OF fun_cong [OF e]] by simp
qed


section \<open>A table of C strings\<close>

text \<open>libc's \<open>strcmp\<close>, up to the size of a difference.\<close>

fun bytes_cmp :: "u8 list \<Rightarrow> u8 list \<Rightarrow> int" where
  "bytes_cmp [] [] = 0"
| "bytes_cmp [] (b # bs) = -1"
| "bytes_cmp (a # as) [] = 1"
| "bytes_cmp (a # as) (b # bs) = (if a < b then -1 else if b < a then 1 else bytes_cmp as bs)"

definition strcmp :: "u8 list \<Rightarrow> u8 list \<Rightarrow> int" where
  "strcmp a b = bytes_cmp (c_str a) (c_str b)"

lemma bytes_cmp_eq_0 [simp]: "bytes_cmp a b = 0 \<longleftrightarrow> a = b"
  by (induction a b rule: bytes_cmp.induct) auto

definition str_hash :: "unit \<Rightarrow> u8 list \<Rightarrow> u32" where
  "str_hash f s = lh_strhash (Some s)"

definition str_cmp :: "unit \<Rightarrow> u8 list \<Rightarrow> u8 list \<Rightarrow> int" where
  "str_cmp f a b = strcmp a b"

interpretation c_string: hash_key "str_hash f" "str_cmp f"
  by unfold_locales (auto simp: str_hash_def str_cmp_def strcmp_def lh_strhash_def)

definition roomy_malloc :: malloc_fn where
  "roomy_malloc n = (if n < 2 ^ 63 then Some (replicate n 0) else None)"

lemma roomy_malloc_ok: "malloc_bounded roomy_malloc" "n < 2 ^ 63 \<Longrightarrow> roomy_malloc n \<noteq> None"
  by (auto simp: malloc_bounded_def malloc_lawful_def roomy_malloc_def split: if_splits)

definition str_table :: "(u8 list, unit, unit) lhash" where
  "str_table = \<lparr>lh_num = 0, lh_buckets = replicate 16 [], lh_num_buckets = 16,
     lh_callback_depth = 0, lh_comp = (), lh_hash = ()\<rparr>"

lemma str_table_new: "lh_new roomy_malloc () () = Some str_table"
  by (simp add: lh_new_def str_table_def kMinNumBuckets_def sizeof_LHASH_def sizeof_ptr_def OPENSSL_malloc_def
      OPENSSL_MALLOC_PREFIX_def roomy_malloc_def)

lemmas str_table_ok = lh_new_ok [OF str_table_new, of str_hash str_cmp]

lemma str_table_key: "hash_key (str_hash (lh_hash str_table)) (str_cmp (lh_comp str_table))"
  using c_string.hash_key_axioms by simp

lemma str_table_empty: "lh_retrieve str_hash str_cmp str_table x = None"
  using lh_retrieve_data [where ch = str_hash and cc = str_cmp and lh = str_table and x = x, OF _ str_table_key] str_table_ok by (metis empty_iff image_mset_empty not_None_eq set_mset_empty)

lemma roomy_malloc_Some: "n < 2 ^ 62 \<Longrightarrow> \<exists>b. OPENSSL_malloc roomy_malloc n = Some b"
  by (simp add: OPENSSL_malloc_def OPENSSL_MALLOC_PREFIX_def roomy_malloc_def)

lemma roomy_insert:
  assumes "lh_insert roomy_malloc ch cc lh data = (okay, old, lh')"
  shows okay
proof -
  obtain b where "OPENSSL_malloc roomy_malloc sizeof_LHASH_ITEM = Some b"
    using roomy_malloc_Some [of sizeof_LHASH_ITEM] by (auto simp: sizeof_LHASH_ITEM_def)
  with assms show ?thesis by (auto simp: lh_insert_def split: prod.splits option.splits)
qed

lemma roomy_store_all: "\<exists>lh'. store_all (lh_insert roomy_malloc ch cc) lh ds = Some lh'"
  by (induction ds arbitrary: lh) (auto dest: roomy_insert split: prod.splits)

theorem lhash_refines_map_witness:
  "\<exists>lh'. lh_insert roomy_malloc str_hash str_cmp str_table [97, 0] = (True, None, lh') \<and>
     lh_retrieve str_hash str_cmp lh' [97, 0, 1] = Some [97, 0]"
proof -
  obtain okay old lh' where i: "lh_insert roomy_malloc str_hash str_cmp str_table [97, 0] = (okay, old, lh')"
    by (metis prod_cases3)
  moreover have "okay" by (rule roomy_insert [OF i])
  ultimately show ?thesis
    using lhash_refines_map [where ch = str_hash and cc = str_cmp and lh = str_table and data = "[97, 0]",
      OF _ str_table_key roomy_malloc_ok(1)] str_table_ok
    by (auto simp: str_table_empty str_cmp_def strcmp_def)
qed

theorem lhash_load_kept_witness:
  "lhash_load (snd (snd (lh_insert roomy_malloc str_hash str_cmp str_table [97, 0])))"
proof -
  have "lhash_load str_table" using str_table_ok by (simp add: lhash_load_def kMinNumBuckets_def)
  then show ?thesis
    using lhash_load_kept [where ch = str_hash and cc = str_cmp and lh = str_table, OF _ str_table_key roomy_malloc_ok] str_table_ok by simp
qed

theorem lh_build_lookup_witness:
  "\<exists>lh1. store_all (lh_insert roomy_malloc str_hash str_cmp) str_table [[97, 0], [98, 0, 1], [98, 0, 2]] = Some lh1 \<and>
     lh_retrieve str_hash str_cmp (remove_all (lh_delete roomy_malloc str_hash str_cmp) lh1 [[97, 0]]) [98, 0] =
       Some [98, 0, 2]"
proof -
  obtain lh1 where s: "store_all (lh_insert roomy_malloc str_hash str_cmp) str_table [[97, 0], [98, 0, 1], [98, 0, 2]] = Some lh1"
    using roomy_store_all by blast
  have "\<not> (\<exists>e \<in> set [[97, 0]]. str_cmp () e [98, 0] = 0)" by (simp add: str_cmp_def strcmp_def)
  moreover have "find (\<lambda>d. str_cmp () d [98, 0] = 0) (rev [[97, 0], [98, 0, 1], [98, 0, 2]]) = Some [98, 0, 2]"
    by (simp add: str_cmp_def strcmp_def)
  ultimately show ?thesis
    using lh_build_lookup [where ch = str_hash and cc = str_cmp and es = "[[97, 0]]" and x = "[98, 0]",
        OF roomy_malloc_ok(1) c_string.hash_key_axioms str_table_new s] s by simp
qed

end
