(* ===== verification/BufMem.thy ===== *)
theory BufMem
  imports Mem Stack
begin

text \<open>
  \<^verbatim>\<open>crypto/buf/buf.c\<close>: the growable byte buffer \<open>BUF_MEM\<close>. \<open>bm_data\<close> is the allocated block
  (\<open>None\<close> is NULL) and \<open>bm_off\<close> the offset of the \<open>data\<close> pointer in it, which only a read-only
  memory BIO ever moves. Functions that can fail also return the errors they put on the error
  queue, each a library and a reason.
\<close>

section \<open>Errors\<close>

type_synonym put_error = "nat \<times> nat"

definition ERR_LIB_BUF :: nat where
  "ERR_LIB_BUF = 7"

definition ERR_R_MALLOC_FAILURE :: nat where
  "ERR_R_MALLOC_FAILURE = 65"

definition ERR_R_OVERFLOW :: nat where
  "ERR_R_OVERFLOW = 69"

section \<open>The operations\<close>

record buf_mem =
  bm_length :: nat
  bm_data :: "u8 list option"
  bm_max :: nat
  bm_off :: nat

definition sizeof_BUF_MEM :: nat where
  "sizeof_BUF_MEM = 24"

definition BUF_MEM_new :: "malloc_fn \<Rightarrow> put_error list \<times> buf_mem option" where
  "BUF_MEM_new mal =
     (case OPENSSL_malloc mal sizeof_BUF_MEM of
        None \<Rightarrow> ([(ERR_LIB_BUF, ERR_R_MALLOC_FAILURE)], None)
      | Some _ \<Rightarrow> ([], Some \<lparr>bm_length = 0, bm_data = None, bm_max = 0, bm_off = 0\<rparr>))"

definition BUF_MEM_reserve :: "malloc_fn \<Rightarrow> buf_mem \<Rightarrow> nat \<Rightarrow> bool \<times> put_error list \<times> buf_mem" where
  "BUF_MEM_reserve mal buf cap =
     (if bm_max buf \<ge> cap then (True, [], buf)
      else if sz (cap + 3) < cap then (False, [(ERR_LIB_BUF, ERR_R_MALLOC_FAILURE)], buf)
      else
        (let n = sz (cap + 3) div 3; alloc_size = sz (n * 4)
         in if alloc_size div 4 \<noteq> n then (False, [(ERR_LIB_BUF, ERR_R_MALLOC_FAILURE)], buf)
            else
              (case OPENSSL_realloc mal (bm_data buf) alloc_size of
                 None \<Rightarrow> (False, [(ERR_LIB_BUF, ERR_R_MALLOC_FAILURE)], buf)
               | Some new_buf \<Rightarrow> (True, [], buf\<lparr>bm_data := Some new_buf, bm_max := alloc_size\<rparr>))))"

definition BUF_MEM_grow :: "malloc_fn \<Rightarrow> buf_mem \<Rightarrow> nat \<Rightarrow> nat \<times> put_error list \<times> buf_mem" where
  "BUF_MEM_grow mal buf len =
     (case BUF_MEM_reserve mal buf len of
        (False, errs, buf) \<Rightarrow> (0, errs, buf)
      | (True, errs, buf) \<Rightarrow>
          (len, errs,
           (if bm_length buf < len
            then buf\<lparr>bm_data := map_option (store_at (bm_length buf) (replicate (len - bm_length buf) 0)) (bm_data buf)\<rparr>
            else buf)\<lparr>bm_length := len\<rparr>))"

definition BUF_MEM_grow_clean :: "malloc_fn \<Rightarrow> buf_mem \<Rightarrow> nat \<Rightarrow> nat \<times> put_error list \<times> buf_mem" where
  "BUF_MEM_grow_clean mal buf len = BUF_MEM_grow mal buf len"

definition BUF_MEM_append :: "malloc_fn \<Rightarrow> buf_mem \<Rightarrow> u8 list \<Rightarrow> bool \<times> put_error list \<times> buf_mem" where
  "BUF_MEM_append mal buf src =
     (if length src = 0 then (True, [], buf)
      else
        (let new_len = sz (bm_length buf + length src)
         in if new_len < length src then (False, [(ERR_LIB_BUF, ERR_R_OVERFLOW)], buf)
            else
              (case BUF_MEM_reserve mal buf new_len of
                 (False, errs, buf) \<Rightarrow> (False, errs, buf)
               | (True, errs, buf) \<Rightarrow>
                   (True, errs,
                    buf\<lparr>bm_data := map_option (store_at (bm_length buf) src) (bm_data buf),
                        bm_length := new_len\<rparr>))))"

definition BUF_strdup :: "malloc_fn \<Rightarrow> u8 list option \<Rightarrow> u8 list option" where
  "BUF_strdup mal str = OPENSSL_strdup mal str"

definition BUF_strnlen :: "u8 list \<Rightarrow> nat \<Rightarrow> nat" where
  "BUF_strnlen str max_len = OPENSSL_strnlen str max_len"

definition BUF_strndup :: "malloc_fn \<Rightarrow> u8 list option \<Rightarrow> nat \<Rightarrow> u8 list option" where
  "BUF_strndup mal str n = OPENSSL_strndup mal str n"

definition BUF_memdup :: "malloc_fn \<Rightarrow> u8 list \<Rightarrow> u8 list option" where
  "BUF_memdup mal data = OPENSSL_memdup mal data"

section \<open>The invariant\<close>

definition buf_mem_ok :: "buf_mem \<Rightarrow> bool" where
  "buf_mem_ok buf \<longleftrightarrow>
     bm_length buf \<le> bm_max buf \<and> bm_off buf = 0 \<and>
     (case bm_data buf of None \<Rightarrow> bm_max buf = 0 | Some d \<Rightarrow> length d = bm_max buf)"

text \<open>The bytes the buffer holds.\<close>

definition bm_bytes :: "buf_mem \<Rightarrow> u8 list" where
  "bm_bytes buf = (case bm_data buf of None \<Rightarrow> [] | Some d \<Rightarrow> take (bm_length buf) (drop (bm_off buf) d))"

lemma buf_mem_ok_data:
  assumes "buf_mem_ok buf" "0 < n" "n \<le> bm_max buf"
  obtains d where "bm_data buf = Some d" "length d = bm_max buf" "bm_bytes buf = take (bm_length buf) d"
  using assms by (auto simp: buf_mem_ok_def bm_bytes_def split: option.splits)

lemma length_bm_bytes [simp]: "buf_mem_ok buf \<Longrightarrow> length (bm_bytes buf) = bm_length buf"
  by (auto simp: buf_mem_ok_def bm_bytes_def split: option.splits)

lemma BUF_MEM_new_ok: "BUF_MEM_new mal = (errs, Some buf) \<Longrightarrow> buf_mem_ok buf \<and> bm_bytes buf = []"
  by (auto simp: BUF_MEM_new_def buf_mem_ok_def bm_bytes_def split: option.splits)

lemma BUF_MEM_reserve_ok:
  assumes "BUF_MEM_reserve mal buf cap = (okay, errs, buf')" "buf_mem_ok buf" "malloc_bounded mal" "cap < 2 ^ 63"
  shows "if okay then errs = [] \<and> buf_mem_ok buf' \<and> bm_bytes buf' = bm_bytes buf \<and> bm_length buf' = bm_length buf \<and>
      cap \<le> bm_max buf' \<and> (bm_max buf' = bm_max buf \<or> 3 * bm_max buf' \<le> 4 * cap + 12)
    else errs = [(ERR_LIB_BUF, ERR_R_MALLOC_FAILURE)] \<and> buf' = buf"
proof (cases "cap \<le> bm_max buf")
  case True
  with assms show ?thesis by (auto simp: BUF_MEM_reserve_def)
next
  case False
  let ?n = "(cap + 3) div 3"
  have n: "?n * 3 \<le> cap + 3" "cap < ?n * 3" by simp_all
  then have small: "?n * 4 + 8 < 2 ^ 64" using assms(4) by simp
  have sz: "sz (cap + 3) = cap + 3" "sz (?n * 4) = ?n * 4" using assms(4) small by simp_all
  have r: "BUF_MEM_reserve mal buf cap =
      (case OPENSSL_realloc mal (bm_data buf) (?n * 4) of
         None \<Rightarrow> (False, [(ERR_LIB_BUF, ERR_R_MALLOC_FAILURE)], buf)
       | Some new_buf \<Rightarrow> (True, [], buf\<lparr>bm_data := Some new_buf, bm_max := ?n * 4\<rparr>))"
    using False unfolding BUF_MEM_reserve_def Let_def sz by simp
  show ?thesis
  proof (cases "OPENSSL_realloc mal (bm_data buf) (?n * 4)")
    case None
    then show ?thesis using assms(1) by (auto simp: r)
  next
    case (Some d)
    have l: "malloc_lawful mal" using assms(3) by (simp add: malloc_bounded_def)
    have b: "okay" "errs = []" "buf' = buf\<lparr>bm_data := Some d, bm_max := ?n * 4\<rparr>" using assms(1) Some r by simp_all
    have "bm_length buf \<le> ?n * 4" using False assms(2) n by (simp add: buf_mem_ok_def)
    moreover have len: "length d = ?n * 4 \<and> take (bm_length buf) d = bm_bytes buf"
    proof (cases "bm_data buf")
      case None
      with Some have "OPENSSL_malloc mal (?n * 4) = Some d" by (simp add: OPENSSL_realloc_def)
      with OPENSSL_malloc_usable [OF l this small] assms(2) None show ?thesis
        by (simp add: buf_mem_ok_def bm_bytes_def)
    next
      case old: (Some d0)
      with Some have "OPENSSL_realloc mal (Some d0) (?n * 4) = Some d" by simp
      note d = OPENSSL_realloc_prefix [OF l this small]
      have d0: "length d0 = bm_max buf" "bm_length buf \<le> length d0" using old assms(2) by (simp_all add: buf_mem_ok_def)
      then have "take (bm_length buf) d = take (bm_length buf) (take (min (length d0) (?n * 4)) d)"
        using False n by simp
      also have "\<dots> = take (bm_length buf) d0" using d d0 False n by simp
      finally show ?thesis using d old assms(2) by (simp add: bm_bytes_def buf_mem_ok_def)
    qed
    moreover have "cap \<le> ?n * 4" "3 * (?n * 4) \<le> 4 * cap + 12" using n by linarith+
    ultimately show ?thesis using b assms(2) by (simp add: buf_mem_ok_def bm_bytes_def)
  qed
qed


section \<open>The buffer as a byte string\<close>

lemma BUF_MEM_grow_bytes:
  assumes "BUF_MEM_grow mal buf len = (n, errs, buf')" "buf_mem_ok buf" "malloc_bounded mal" "len < 2 ^ 63"
  shows "errs = [] \<and> n = len \<and> buf_mem_ok buf' \<and>
      bm_bytes buf' = take len (bm_bytes buf) @ replicate (len - bm_length buf) 0 \<or>
    errs = [(ERR_LIB_BUF, ERR_R_MALLOC_FAILURE)] \<and> n = 0 \<and> buf' = buf"
proof -
  obtain okay e b where r: "BUF_MEM_reserve mal buf len = (okay, e, b)" by (metis prod_cases3)
  note ok = BUF_MEM_reserve_ok [OF r assms(2-4)]
  show ?thesis
  proof (cases okay)
    case False
    with ok r assms(1) show ?thesis by (simp add: BUF_MEM_grow_def)
  next
    case True
    with ok have b: "e = []" "buf_mem_ok b" "bm_bytes b = bm_bytes buf" "bm_length b = bm_length buf" "len \<le> bm_max b"
      by simp_all
    have res: "n = len" "errs = []" "buf' = (if bm_length b < len
            then b\<lparr>bm_data := map_option (store_at (bm_length b) (replicate (len - bm_length b) 0)) (bm_data b)\<rparr>
            else b)\<lparr>bm_length := len\<rparr>"
      using assms(1) unfolding BUF_MEM_grow_def r b(1) by (auto simp: True)
    show ?thesis
    proof (cases "bm_length b < len")
      case less: True
      then obtain d where d: "bm_data b = Some d" "length d = bm_max b" "bm_bytes b = take (bm_length b) d"
        using buf_mem_ok_data [OF b(2), of len] b(5) by auto
      let ?z = "replicate (len - bm_length b) (0 :: u8)"
      have fit: "bm_length b + length ?z \<le> length d" using less b(5) d(2) by simp
      have e: "buf' = b\<lparr>bm_data := Some (store_at (bm_length b) ?z d), bm_length := len\<rparr>" using res(3) less d(1) by simp
      have l: "length (store_at (bm_length b) ?z d) = bm_max b" using length_store_at [OF fit] d(2) by simp
      have "take len (store_at (bm_length b) ?z d) = take (bm_length b) d @ ?z"
        using take_store_at [OF fit] less by simp
      moreover have "take len (bm_bytes buf) = bm_bytes buf" using less b(4) assms(2) by simp
      moreover have "bm_bytes buf' = take len (store_at (bm_length b) ?z d)"
        using e b(2) unfolding bm_bytes_def by (simp add: buf_mem_ok_def)
      ultimately have "bm_bytes buf' = take len (bm_bytes buf) @ replicate (len - bm_length buf) 0"
        using d(3) b(3,4) by metis
      moreover have "buf_mem_ok buf'" using e l b(2,5) by (simp add: buf_mem_ok_def)
      ultimately show ?thesis using res by simp
    next
      case False
      then have e: "buf' = b\<lparr>bm_length := len\<rparr>" using res(3) by simp
      have "bm_bytes buf' = take len (bm_bytes b)" using False e by (simp add: bm_bytes_def split: option.splits)
      moreover have "buf_mem_ok buf'" using e b(2,5) by (auto simp: buf_mem_ok_def split: option.splits)
      ultimately show ?thesis using res b False by simp
    qed
  qed
qed

lemma BUF_MEM_append_bytes:
  assumes "BUF_MEM_append mal buf src = (okay, errs, buf')" "buf_mem_ok buf" "malloc_bounded mal"
    and "bm_length buf + length src < 2 ^ 63"
  shows "if okay then errs = [] \<and> buf_mem_ok buf' \<and> bm_bytes buf' = bm_bytes buf @ src
    else errs = [(ERR_LIB_BUF, ERR_R_MALLOC_FAILURE)] \<and> buf' = buf"
proof (cases "src = []")
  case True
  with assms show ?thesis by (auto simp: BUF_MEM_append_def)
next
  case False
  let ?n = "bm_length buf + length src"
  have sz: "sz ?n = ?n" using assms(4) by simp
  obtain o' e b where r: "BUF_MEM_reserve mal buf ?n = (o', e, b)" by (metis prod_cases3)
  note ok = BUF_MEM_reserve_ok [OF r assms(2-4)]
  have a: "BUF_MEM_append mal buf src =
      (case (o', e, b) of (False, errs, buf) \<Rightarrow> (False, errs, buf)
       | (True, errs, buf) \<Rightarrow>
           (True, errs, buf\<lparr>bm_data := map_option (store_at (bm_length buf) src) (bm_data buf), bm_length := ?n\<rparr>))"
    using False sz r by (simp add: BUF_MEM_append_def Let_def)
  show ?thesis
  proof (cases o')
    case False
    with ok a assms(1) show ?thesis by simp
  next
    case True
    with ok have b: "e = []" "buf_mem_ok b" "bm_bytes b = bm_bytes buf" "bm_length b = bm_length buf" "?n \<le> bm_max b"
      by simp_all
    obtain d where d: "bm_data b = Some d" "length d = bm_max b" "bm_bytes b = take (bm_length b) d"
      using buf_mem_ok_data [OF b(2), of ?n] b(5) False by auto
    have fit: "bm_length b + length src \<le> length d" using b d by simp
    have res: "okay" "errs = []" "buf' = b\<lparr>bm_data := Some (store_at (bm_length b) src d), bm_length := ?n\<rparr>"
      using assms(1) a True b(1) d(1) by simp_all
    have "bm_bytes buf' = bm_bytes buf @ src"
      using take_store_at [OF fit] res(3) b d by (simp add: bm_bytes_def buf_mem_ok_def)
    moreover have "buf_mem_ok buf'" using length_store_at [OF fit] res(3) b d by (simp add: buf_mem_ok_def)
    ultimately show ?thesis using res by simp
  qed
qed

end
