(* ===== verification/Bio.thy ===== *)
theory Bio
  imports BufMem
begin

text \<open>
  The data and the bookkeeping of \<^verbatim>\<open>crypto/bio/bio.c\<close>. BIOs live in a heap from addresses to
  records, so a BIO and its peer, or a BIO and the next one of its chain, are reached through
  pointers as in the code. \<open>w_errors\<close> collects what the code puts on the error queue. The methods
  are those of the two BIOs modelled here, the memory BIO and the BIO pair; the functions of a
  method that a method table leaves NULL are noted where they are called.
\<close>

section \<open>Data\<close>

record bio_bio =
  bb_peer :: "nat option"
  bb_closed :: bool
  bb_len :: nat
  bb_offset :: nat
  bb_size :: nat
  bb_buf :: "u8 list option"
  bb_request :: nat

datatype bio_ptr = Ptr_NULL | Ptr_mem buf_mem | Ptr_pair bio_bio

datatype bio_method = Method_mem | Method_pair

record bio =
  bio_meth :: "bio_method option"
  bio_init :: bool
  bio_shutdown :: int
  bio_flags :: u32
  bio_retry_reason :: int
  bio_num :: int
  bio_references :: nat
  bio_ptr :: bio_ptr
  bio_next :: "nat option"
  bio_num_read :: nat
  bio_num_write :: nat

record bio_world =
  w_bios :: "nat \<Rightarrow> bio option"
  w_errors :: "put_error list"

definition bio_at :: "bio_world \<Rightarrow> nat \<Rightarrow> bio" where
  "bio_at w p = the (w_bios w p)"

definition set_bio :: "nat \<Rightarrow> bio \<Rightarrow> bio_world \<Rightarrow> bio_world" where
  "set_bio p b w = w\<lparr>w_bios := (w_bios w)(p \<mapsto> b)\<rparr>"

definition put_error :: "nat \<Rightarrow> nat \<Rightarrow> bio_world \<Rightarrow> bio_world" where
  "put_error lib reason w = w\<lparr>w_errors := w_errors w @ [(lib, reason)]\<rparr>"

lemma bio_at_set [simp]: "bio_at (set_bio p b w) q = (if q = p then b else bio_at w q)"
  by (simp add: bio_at_def set_bio_def)

lemma w_bios_set [simp]: "w_bios (set_bio p b w) q = (if q = p then Some b else w_bios w q)"
  by (simp add: set_bio_def)

lemma w_errors_set [simp]: "w_errors (set_bio p b w) = w_errors w"
  by (simp add: set_bio_def)

lemma put_error_simps [simp]:
  "bio_at (put_error lib reason w) = bio_at w" "w_bios (put_error lib reason w) = w_bios w"
  "w_errors (put_error lib reason w) = w_errors w @ [(lib, reason)]"
  by (auto simp: bio_at_def put_error_def fun_eq_iff)

text \<open>Conversions between \<open>int\<close> and \<open>size_t\<close>.\<close>

definition size_of_int :: "int \<Rightarrow> nat" where
  "size_of_int i = nat (i mod 2 ^ 64)"

definition int_of_size :: "nat \<Rightarrow> int" where
  "int_of_size n = signed_take_bit 31 (int n)"

lemma size_of_int_pos [simp]: "0 \<le> i \<Longrightarrow> i < 2 ^ 64 \<Longrightarrow> size_of_int i = nat i"
  by (simp add: size_of_int_def)

lemma int_of_size_small [simp]: "n < 2 ^ 31 \<Longrightarrow> int_of_size n = int n"
  unfolding int_of_size_def by (rule signed_take_bit_int_eq_self) simp_all

section \<open>Constants\<close>

definition ERR_LIB_BIO :: nat where
  "ERR_LIB_BIO = 17"

definition BIO_R_BROKEN_PIPE :: nat where
  "BIO_R_BROKEN_PIPE = 101"

definition BIO_R_IN_USE :: nat where
  "BIO_R_IN_USE = 105"

definition BIO_R_NULL_PARAMETER :: nat where
  "BIO_R_NULL_PARAMETER = 111"

definition BIO_R_UNINITIALIZED :: nat where
  "BIO_R_UNINITIALIZED = 114"

definition BIO_R_UNSUPPORTED_METHOD :: nat where
  "BIO_R_UNSUPPORTED_METHOD = 115"

definition BIO_R_WRITE_TO_READ_ONLY_BIO :: nat where
  "BIO_R_WRITE_TO_READ_ONLY_BIO = 116"

definition BIO_FLAGS_READ :: u32 where
  "BIO_FLAGS_READ = 0x01"

definition BIO_FLAGS_WRITE :: u32 where
  "BIO_FLAGS_WRITE = 0x02"

definition BIO_FLAGS_IO_SPECIAL :: u32 where
  "BIO_FLAGS_IO_SPECIAL = 0x04"

definition BIO_FLAGS_RWS :: u32 where
  "BIO_FLAGS_RWS = BIO_FLAGS_READ OR BIO_FLAGS_WRITE OR BIO_FLAGS_IO_SPECIAL"

definition BIO_FLAGS_SHOULD_RETRY :: u32 where
  "BIO_FLAGS_SHOULD_RETRY = 0x08"

definition BIO_FLAGS_MEM_RDONLY :: u32 where
  "BIO_FLAGS_MEM_RDONLY = 0x200"

definition kRetryFlags :: u32 where
  "kRetryFlags = BIO_FLAGS_RWS OR BIO_FLAGS_SHOULD_RETRY"

lemmas bio_flag_defs = BIO_FLAGS_READ_def BIO_FLAGS_WRITE_def BIO_FLAGS_IO_SPECIAL_def BIO_FLAGS_RWS_def
  BIO_FLAGS_SHOULD_RETRY_def BIO_FLAGS_MEM_RDONLY_def kRetryFlags_def

section \<open>Flags\<close>

text \<open>The functions on one BIO are functions on its record.\<close>

definition BIO_set_flags :: "bio \<Rightarrow> u32 \<Rightarrow> bio" where
  "BIO_set_flags b flags = b\<lparr>bio_flags := bio_flags b OR flags\<rparr>"

definition BIO_test_flags :: "bio \<Rightarrow> u32 \<Rightarrow> u32" where
  "BIO_test_flags b flags = bio_flags b AND flags"

definition BIO_should_read :: "bio \<Rightarrow> u32" where
  "BIO_should_read b = BIO_test_flags b BIO_FLAGS_READ"

definition BIO_should_write :: "bio \<Rightarrow> u32" where
  "BIO_should_write b = BIO_test_flags b BIO_FLAGS_WRITE"

definition BIO_should_retry :: "bio \<Rightarrow> u32" where
  "BIO_should_retry b = BIO_test_flags b BIO_FLAGS_SHOULD_RETRY"

definition BIO_should_io_special :: "bio \<Rightarrow> u32" where
  "BIO_should_io_special b = BIO_test_flags b BIO_FLAGS_IO_SPECIAL"

definition BIO_get_retry_reason :: "bio \<Rightarrow> int" where
  "BIO_get_retry_reason b = bio_retry_reason b"

definition BIO_clear_flags :: "bio \<Rightarrow> u32 \<Rightarrow> bio" where
  "BIO_clear_flags b flags = b\<lparr>bio_flags := bio_flags b AND NOT flags\<rparr>"

definition BIO_set_retry_read :: "bio \<Rightarrow> bio" where
  "BIO_set_retry_read b = b\<lparr>bio_flags := bio_flags b OR (BIO_FLAGS_READ OR BIO_FLAGS_SHOULD_RETRY)\<rparr>"

definition BIO_set_retry_write :: "bio \<Rightarrow> bio" where
  "BIO_set_retry_write b = b\<lparr>bio_flags := bio_flags b OR (BIO_FLAGS_WRITE OR BIO_FLAGS_SHOULD_RETRY)\<rparr>"

definition BIO_set_retry_special :: "bio \<Rightarrow> bio" where
  "BIO_set_retry_special b = b\<lparr>bio_flags := bio_flags b OR (BIO_FLAGS_READ OR BIO_FLAGS_IO_SPECIAL)\<rparr>"

definition BIO_get_retry_flags :: "bio \<Rightarrow> u32" where
  "BIO_get_retry_flags b = bio_flags b AND kRetryFlags"

definition BIO_clear_retry_flags :: "bio \<Rightarrow> bio" where
  "BIO_clear_retry_flags b = b\<lparr>bio_flags := bio_flags b AND NOT kRetryFlags, bio_retry_reason := 0\<rparr>"

definition BIO_copy_next_retry :: "bio_world \<Rightarrow> nat \<Rightarrow> bio_world" where
  "BIO_copy_next_retry w p =
     (let b = BIO_clear_retry_flags (bio_at w p); next_bio = bio_at w (the (bio_next b))
      in set_bio p ((BIO_set_flags b (BIO_get_retry_flags next_bio))
           \<lparr>bio_retry_reason := bio_retry_reason next_bio\<rparr>) w)"

definition BIO_get_init :: "bio \<Rightarrow> bool" where
  "BIO_get_init b = bio_init b"

definition BIO_set_init :: "bio \<Rightarrow> bool \<Rightarrow> bio" where
  "BIO_set_init b init = b\<lparr>bio_init := init\<rparr>"

definition BIO_set_shutdown :: "bio \<Rightarrow> int \<Rightarrow> bio" where
  "BIO_set_shutdown b shutdown = b\<lparr>bio_shutdown := shutdown\<rparr>"

definition BIO_get_shutdown :: "bio \<Rightarrow> int" where
  "BIO_get_shutdown b = bio_shutdown b"

definition BIO_set_data :: "bio \<Rightarrow> bio_ptr \<Rightarrow> bio" where
  "BIO_set_data b ptr = b\<lparr>bio_ptr := ptr\<rparr>"

definition BIO_get_data :: "bio \<Rightarrow> bio_ptr" where
  "BIO_get_data b = bio_ptr b"

definition BIO_number_read :: "bio \<Rightarrow> nat" where
  "BIO_number_read b = bio_num_read b"

definition BIO_number_written :: "bio \<Rightarrow> nat" where
  "BIO_number_written b = bio_num_write b"

section \<open>Types and chains\<close>

definition BIO_TYPE_MEM :: u32 where
  "BIO_TYPE_MEM = 1 OR 0x0400"

definition BIO_TYPE_BIO :: u32 where
  "BIO_TYPE_BIO = 19 OR 0x0400"

fun method_type :: "bio_method \<Rightarrow> u32" where
  "method_type Method_mem = BIO_TYPE_MEM"
| "method_type Method_pair = BIO_TYPE_BIO"

definition BIO_method_type :: "bio \<Rightarrow> u32" where
  "BIO_method_type b = method_type (the (bio_meth b))"

definition BIO_next :: "bio_world \<Rightarrow> nat option \<Rightarrow> nat option" where
  "BIO_next w p = (case p of None \<Rightarrow> None | Some p \<Rightarrow> bio_next (bio_at w p))"

definition BIO_pop :: "bio_world \<Rightarrow> nat option \<Rightarrow> nat option \<times> bio_world" where
  "BIO_pop w p =
     (case p of
        None \<Rightarrow> (None, w)
      | Some p \<Rightarrow> (bio_next (bio_at w p), set_bio p ((bio_at w p)\<lparr>bio_next := None\<rparr>) w))"

text \<open>The last BIO of a chain; \<open>None\<close> when the chain never ends, where the C loop does not end.\<close>

partial_function (option) chain_last :: "bio_world \<Rightarrow> nat \<Rightarrow> nat option" where
  "chain_last w p =
     (case bio_next (bio_at w p) of None \<Rightarrow> Some p | Some q \<Rightarrow> chain_last w q)"

definition BIO_push :: "bio_world \<Rightarrow> nat option \<Rightarrow> nat option \<Rightarrow> (nat option \<times> bio_world) option" where
  "BIO_push w p appended =
     (case p of
        None \<Rightarrow> Some (None, w)
      | Some p \<Rightarrow>
          (case chain_last w p of
             None \<Rightarrow> None
           | Some last_bio \<Rightarrow>
               Some (Some p, set_bio last_bio ((bio_at w last_bio)\<lparr>bio_next := appended\<rparr>) w)))"

partial_function (option) find_type_loop :: "bio_world \<Rightarrow> nat \<Rightarrow> u32 \<Rightarrow> nat option option" where
  "find_type_loop w p type =
     (let b = bio_at w p;
          hit = (case bio_meth b of
                   None \<Rightarrow> False
                 | Some m \<Rightarrow>
                     if type AND 0xff = 0 then method_type m AND type \<noteq> 0 else method_type m = type)
      in if hit then Some (Some p)
         else (case bio_next b of None \<Rightarrow> Some None | Some q \<Rightarrow> find_type_loop w q type))"

definition BIO_find_type :: "bio_world \<Rightarrow> nat option \<Rightarrow> u32 \<Rightarrow> nat option option" where
  "BIO_find_type w p type = (case p of None \<Rightarrow> Some None | Some p \<Rightarrow> find_type_loop w p type)"

end
