(* ===== verification/BioPair.thy ===== *)
theory BioPair
  imports Bio Lhash
begin

text \<open>
  \<^verbatim>\<open>crypto/bio/pair.c\<close>: two BIOs joined back to back, each with a ring buffer for what is written
  to it and read from its peer. An assertion of the code is a precondition here: what the
  definitions do when one fails has no meaning.
\<close>

section \<open>The operations\<close>

text \<open>\<open>sizeof(struct bio_bio_st)\<close> on a 64-bit platform.\<close>

definition sizeof_bio_bio :: nat where
  "sizeof_bio_bio = 56"

definition pair_of :: "bio_world \<Rightarrow> nat \<Rightarrow> bio_bio" where
  "pair_of w p = (case bio_ptr (bio_at w p) of Ptr_pair b \<Rightarrow> b | _ \<Rightarrow> undefined)"

definition set_pair :: "nat \<Rightarrow> bio_bio \<Rightarrow> bio_world \<Rightarrow> bio_world" where
  "set_pair p b w = set_bio p ((bio_at w p)\<lparr>bio_ptr := Ptr_pair b\<rparr>) w"

definition pair_new :: "malloc_fn \<Rightarrow> bio \<Rightarrow> bio option" where
  "pair_new mal bio =
     (case OPENSSL_malloc mal sizeof_bio_bio of
        None \<Rightarrow> None
      | Some _ \<Rightarrow>
          Some (bio\<lparr>bio_ptr := Ptr_pair \<lparr>bb_peer = None, bb_closed = False, bb_len = 0, bb_offset = 0,
                  bb_size = 17 * 1024, bb_buf = None, bb_request = 0\<rparr>\<rparr>))"

definition bio_destroy_pair :: "bio_world \<Rightarrow> nat \<Rightarrow> bio_world" where
  "bio_destroy_pair w p =
     (case bio_ptr (bio_at w p) of
        Ptr_pair b \<Rightarrow>
          (case bb_peer b of
             None \<Rightarrow> w
           | Some peer \<Rightarrow>
               (let w = set_pair peer ((pair_of w peer)\<lparr>bb_peer := None, bb_len := 0, bb_offset := 0\<rparr>) w;
                    w = set_bio peer ((bio_at w peer)\<lparr>bio_init := False\<rparr>) w;
                    w = set_pair p ((pair_of w p)\<lparr>bb_peer := None, bb_len := 0, bb_offset := 0\<rparr>) w
                in set_bio p ((bio_at w p)\<lparr>bio_init := False\<rparr>) w))
      | _ \<Rightarrow> w)"

text \<open>What remains of the BIO is freed by the caller.\<close>

definition pair_free :: "bio_world \<Rightarrow> nat \<Rightarrow> bio_world" where
  "pair_free w p =
     (let w = (if bb_peer (pair_of w p) \<noteq> None then bio_destroy_pair w p else w)
      in set_bio p ((bio_at w p)\<lparr>bio_ptr := Ptr_NULL\<rparr>) w)"

text \<open>One round of the read loop: the ring after it, the bytes copied.\<close>

definition read_round :: "bio_bio \<Rightarrow> nat \<Rightarrow> bio_bio \<times> u8 list" where
  "read_round b rest =
     (let chunk = (if sz (bb_offset b + rest) \<le> bb_size b then rest else bb_size b - bb_offset b);
          len = bb_len b - chunk
      in (b\<lparr>bb_len := len,
            bb_offset := (if len \<noteq> 0
                          then (if bb_offset b + chunk = bb_size b then 0 else bb_offset b + chunk)
                          else 0)\<rparr>,
          take chunk (drop (bb_offset b) (the (bb_buf b)))))"

partial_function (option) read_loop :: "bio_bio \<Rightarrow> nat \<Rightarrow> u8 list \<Rightarrow> (bio_bio \<times> u8 list) option" where
  "read_loop b rest out =
     (case read_round b rest of
        (b', bytes) \<Rightarrow>
          if rest - length bytes \<noteq> 0 then read_loop b' (rest - length bytes) (out @ bytes)
          else Some (b', out @ bytes))"

text \<open>
  The return value, the bytes stored in \<open>buf\<close> and the heap. \<open>has_buf\<close> is whether \<open>buf\<close> is not
  NULL. \<open>None\<close> is a loop that does not end.
\<close>

definition bio_read :: "bio_world \<Rightarrow> nat \<Rightarrow> bool \<Rightarrow> int \<Rightarrow> (int \<times> u8 list \<times> bio_world) option" where
  "bio_read w p has_buf outl =
     (let size = size_of_int outl; w = set_bio p (BIO_clear_retry_flags (bio_at w p)) w
      in if \<not> bio_init (bio_at w p) then Some (0, [], w)
         else
           (let peer = the (bb_peer (pair_of w p)); peer_b = (pair_of w peer)\<lparr>bb_request := 0\<rparr>;
                w = set_pair peer peer_b w
            in if \<not> has_buf \<or> size = 0 then Some (0, [], w)
               else if bb_len peer_b = 0 then
                 (if bb_closed peer_b then Some (0, [], w)
                  else
                    (let w = set_bio p (BIO_set_retry_read (bio_at w p)) w
                     in Some (-1, [],
                          set_pair peer (peer_b\<lparr>bb_request := (if size \<le> bb_size peer_b then size else bb_size peer_b)\<rparr>) w)))
               else
                 (let size = (if bb_len peer_b < size then bb_len peer_b else size)
                  in case read_loop peer_b size [] of
                       None \<Rightarrow> None
                     | Some (peer_b', out) \<Rightarrow> Some (int_of_size size, out, set_pair peer peer_b' w))))"

definition write_round :: "bio_bio \<Rightarrow> u8 list \<Rightarrow> nat \<Rightarrow> bio_bio \<times> nat" where
  "write_round b buf rest =
     (let write_offset = bb_offset b + bb_len b;
          write_offset = (if write_offset \<ge> bb_size b then write_offset - bb_size b else write_offset);
          chunk = (if sz (write_offset + rest) \<le> bb_size b then rest else bb_size b - write_offset)
      in (b\<lparr>bb_buf := map_option (store_at write_offset (take chunk buf)) (bb_buf b),
            bb_len := bb_len b + chunk\<rparr>, chunk))"

partial_function (option) write_loop :: "bio_bio \<Rightarrow> u8 list \<Rightarrow> nat \<Rightarrow> bio_bio option" where
  "write_loop b buf rest =
     (case write_round b buf rest of
        (b', chunk) \<Rightarrow>
          if rest - chunk \<noteq> 0 then write_loop b' (drop chunk buf) (rest - chunk) else Some b')"

text \<open>\<open>buf\<close> is \<open>None\<close> for NULL; otherwise it has at least \<open>inl\<close> bytes.\<close>

definition bio_write :: "bio_world \<Rightarrow> nat \<Rightarrow> u8 list option \<Rightarrow> int \<Rightarrow> (int \<times> bio_world) option" where
  "bio_write w p buf inl =
     (let num = size_of_int inl; w = set_bio p (BIO_clear_retry_flags (bio_at w p)) w
      in if \<not> bio_init (bio_at w p) \<or> buf = None \<or> num = 0 then Some (0, w)
         else
           (let b = (pair_of w p)\<lparr>bb_request := 0\<rparr>; w = set_pair p b w
            in if bb_closed b then Some (-1, put_error ERR_LIB_BIO BIO_R_BROKEN_PIPE w)
               else if bb_len b = bb_size b
               then Some (-1, set_bio p (BIO_set_retry_write (bio_at w p)) w)
               else
                 (let num = (if num > bb_size b - bb_len b then bb_size b - bb_len b else num)
                  in case write_loop b (the buf) num of
                       None \<Rightarrow> None
                     | Some b' \<Rightarrow> Some (int_of_size num, set_pair p b' w))))"

text \<open>The buffer of one half; it keeps a buffer it has.\<close>

definition pair_alloc :: "malloc_fn \<Rightarrow> bio_bio \<Rightarrow> nat \<Rightarrow> bio_bio \<times> bool" where
  "pair_alloc mal b writebuf_len =
     (if bb_buf b = None then
        (let b = (if writebuf_len \<noteq> 0 then b\<lparr>bb_size := writebuf_len\<rparr> else b)
         in case OPENSSL_malloc mal (bb_size b) of
              None \<Rightarrow> (b, False)
            | Some buf \<Rightarrow> (b\<lparr>bb_buf := Some buf, bb_len := 0, bb_offset := 0\<rparr>, True))
      else (b, True))"

definition bio_make_pair ::
  "malloc_fn \<Rightarrow> bio_world \<Rightarrow> nat \<Rightarrow> nat \<Rightarrow> nat \<Rightarrow> nat \<Rightarrow> bool \<times> bio_world" where
  "bio_make_pair mal w bio1 bio2 writebuf1_len writebuf2_len =
     (if bb_peer (pair_of w bio1) \<noteq> None \<or> bb_peer (pair_of w bio2) \<noteq> None
      then (False, put_error ERR_LIB_BIO BIO_R_IN_USE w)
      else
        (case pair_alloc mal (pair_of w bio1) writebuf1_len of
           (b1, False) \<Rightarrow> (False, put_error ERR_LIB_BIO ERR_R_MALLOC_FAILURE (set_pair bio1 b1 w))
         | (b1, True) \<Rightarrow>
             (let w = set_pair bio1 b1 w
              in case pair_alloc mal (pair_of w bio2) writebuf2_len of
                   (b2, False) \<Rightarrow> (False, put_error ERR_LIB_BIO ERR_R_MALLOC_FAILURE (set_pair bio2 b2 w))
                 | (b2, True) \<Rightarrow>
                     (let w = set_pair bio2 b2 w;
                          w = set_pair bio1 ((pair_of w bio1)\<lparr>bb_peer := Some bio2, bb_closed := False, bb_request := 0\<rparr>) w;
                          w = set_pair bio2 ((pair_of w bio2)\<lparr>bb_peer := Some bio1, bb_closed := False, bb_request := 0\<rparr>) w;
                          w = set_bio bio1 ((bio_at w bio1)\<lparr>bio_init := True\<rparr>) w;
                          w = set_bio bio2 ((bio_at w bio2)\<lparr>bio_init := True\<rparr>) w
                      in (True, w)))))"

text \<open>
  The commands of \<open>bio_ctrl\<close>, and those of the memory BIO. The pointer argument of
  \<open>BIO_CTRL_EOF\<close> is another BIO.
\<close>

datatype bio_cmd =
    BIO_C_GET_WRITE_BUF_SIZE | BIO_C_GET_WRITE_GUARANTEE | BIO_C_GET_READ_REQUEST
  | BIO_C_RESET_READ_REQUEST | BIO_C_SHUTDOWN_WR | BIO_CTRL_GET_CLOSE | BIO_CTRL_SET_CLOSE
  | BIO_CTRL_PENDING | BIO_CTRL_WPENDING | BIO_CTRL_FLUSH | BIO_CTRL_EOF | BIO_CTRL_RESET
  | BIO_CTRL_INFO | BIO_C_SET_BUF_MEM_EOF_RETURN | BIO_C_SET_BUF_MEM | BIO_C_GET_BUF_MEM_PTR
  | BIO_CTRL_OTHER

text \<open>A \<open>long\<close> made of a \<open>size_t\<close>, and an \<open>int\<close> made of a \<open>long\<close>.\<close>

definition long_of_size :: "nat \<Rightarrow> int" where
  "long_of_size n = signed_take_bit 63 (int n)"

definition int_of_long :: "int \<Rightarrow> int" where
  "int_of_long n = signed_take_bit 31 n"

definition pair_ctrl :: "bio_world \<Rightarrow> nat \<Rightarrow> bio_cmd \<Rightarrow> int \<Rightarrow> nat option \<Rightarrow> int \<times> bio_world" where
  "pair_ctrl w p cmd num ptr =
     (let b = pair_of w p
      in case cmd of
           BIO_C_GET_WRITE_BUF_SIZE \<Rightarrow> (long_of_size (bb_size b), w)
         | BIO_C_GET_WRITE_GUARANTEE \<Rightarrow>
             (if bb_peer b = None \<or> bb_closed b then (0, w)
              else (long_of_size (sz (bb_size b + (2 ^ 64 - bb_len b))), w))
         | BIO_C_GET_READ_REQUEST \<Rightarrow> (long_of_size (bb_request b), w)
         | BIO_C_RESET_READ_REQUEST \<Rightarrow> (1, set_pair p (b\<lparr>bb_request := 0\<rparr>) w)
         | BIO_C_SHUTDOWN_WR \<Rightarrow> (1, set_pair p (b\<lparr>bb_closed := True\<rparr>) w)
         | BIO_CTRL_GET_CLOSE \<Rightarrow> (bio_shutdown (bio_at w p), w)
         | BIO_CTRL_SET_CLOSE \<Rightarrow> (1, set_bio p ((bio_at w p)\<lparr>bio_shutdown := int_of_long num\<rparr>) w)
         | BIO_CTRL_PENDING \<Rightarrow>
             (case bb_peer b of None \<Rightarrow> (0, w) | Some peer \<Rightarrow> (long_of_size (bb_len (pair_of w peer)), w))
         | BIO_CTRL_WPENDING \<Rightarrow> (if bb_buf b \<noteq> None then (long_of_size (bb_len b), w) else (0, w))
         | BIO_CTRL_FLUSH \<Rightarrow> (1, w)
         | BIO_CTRL_EOF \<Rightarrow>
             (case ptr of
                Some other_bio \<Rightarrow>
                  (of_bool (bb_len (pair_of w other_bio) = 0 \<and> bb_closed (pair_of w other_bio)), w)
              | None \<Rightarrow> (1, w))
         | _ \<Rightarrow> (0, w))"



section \<open>The ring buffer\<close>

definition ring_ok :: "bio_bio \<Rightarrow> bool" where
  "ring_ok b \<longleftrightarrow>
     (\<exists>d. bb_buf b = Some d \<and> length d = bb_size b) \<and> 0 < bb_size b \<and> bb_size b < 2 ^ 31 \<and>
     bb_len b \<le> bb_size b \<and> bb_offset b < bb_size b \<and> (bb_len b = 0 \<longrightarrow> bb_offset b = 0)"

text \<open>The bytes in the ring, oldest first.\<close>

definition ring_bytes :: "bio_bio \<Rightarrow> u8 list" where
  "ring_bytes b = map (\<lambda>i. the (bb_buf b) ! ((bb_offset b + i) mod bb_size b)) [0..<bb_len b]"

text \<open>What the ring's operations leave alone.\<close>

definition same_ends :: "bio_bio \<Rightarrow> bio_bio \<Rightarrow> bool" where
  "same_ends b b' \<longleftrightarrow>
     bb_peer b' = bb_peer b \<and> bb_closed b' = bb_closed b \<and> bb_size b' = bb_size b \<and> bb_request b' = bb_request b"

lemma same_ends_refl [simp]: "same_ends b b"
  by (simp add: same_ends_def)

lemma same_ends_trans: "same_ends a b \<Longrightarrow> same_ends b c \<Longrightarrow> same_ends a c"
  by (simp add: same_ends_def)

lemma length_ring_bytes [simp]: "length (ring_bytes b) = bb_len b"
  by (simp add: ring_bytes_def)

lemma ring_request [simp]:
  "ring_ok (b\<lparr>bb_request := r\<rparr>) = ring_ok b" "ring_bytes (b\<lparr>bb_request := r\<rparr>) = ring_bytes b"
  by (simp_all add: ring_ok_def ring_bytes_def)

lemma read_round_ok:
  assumes "ring_ok b" "0 < rest" "rest \<le> bb_len b"
  obtains b' chunk where "read_round b rest = (b', take chunk (ring_bytes b))" "ring_ok b'"
    "ring_bytes b' = drop chunk (ring_bytes b)" "same_ends b b'" "0 < chunk" "chunk \<le> rest"
    "chunk = rest \<or> (bb_offset b' = 0 \<and> bb_offset b + rest > bb_size b)"
proof -
  obtain d where d: "bb_buf b = Some d" "length d = bb_size b" using assms(1) by (auto simp: ring_ok_def)
  have b: "0 < bb_size b" "bb_size b < 2 ^ 31" "bb_len b \<le> bb_size b" "bb_offset b < bb_size b"
    using assms(1) by (auto simp: ring_ok_def)
  have sz: "sz (bb_offset b + rest) = bb_offset b + rest" using b assms by simp
  define chunk where "chunk = (if bb_offset b + rest \<le> bb_size b then rest else bb_size b - bb_offset b)"
  have c: "0 < chunk" "chunk \<le> rest" "bb_offset b + chunk \<le> bb_size b" "chunk \<le> bb_len b"
    using b assms by (auto simp: chunk_def)
  have bytes: "take chunk (drop (bb_offset b) d) = take chunk (ring_bytes b)"
  proof (rule nth_equalityI)
    fix i
    assume "i < length (take chunk (drop (bb_offset b) d))"
    then have "i < chunk" by simp
    then show "take chunk (drop (bb_offset b) d) ! i = take chunk (ring_bytes b) ! i"
      using c d by (simp add: ring_bytes_def)
  qed (use c d in simp)
  define off where "off = (if bb_len b - chunk \<noteq> 0 then (if bb_offset b + chunk = bb_size b then 0 else bb_offset b + chunk) else 0)"
  define b' where "b' = b\<lparr>bb_len := bb_len b - chunk, bb_offset := off\<rparr>"
  have r: "read_round b rest = (b', take chunk (ring_bytes b))"
    using bytes by (simp add: read_round_def Let_def sz chunk_def [symmetric] d(1) b'_def off_def)
  have off: "bb_len b - chunk \<noteq> 0 \<Longrightarrow> off = (bb_offset b + chunk) mod bb_size b"
    using c b by (auto simp: off_def)
  have "ring_ok b'" using assms(1) b c by (auto simp: ring_ok_def b'_def off_def)
  moreover have "ring_bytes b' = drop chunk (ring_bytes b)"
  proof (rule nth_equalityI)
    fix i
    assume "i < length (ring_bytes b')"
    then have i: "i < bb_len b - chunk" by (simp add: b'_def)
    then have "(off + i) mod bb_size b = (bb_offset b + (chunk + i)) mod bb_size b"
      using off by (simp add: mod_add_left_eq add.assoc)
    moreover have "chunk + i < bb_len b" using i by simp
    ultimately show "ring_bytes b' ! i = drop chunk (ring_bytes b) ! i" using i by (simp add: ring_bytes_def b'_def)
  qed (simp add: b'_def)
  moreover have "chunk = rest \<or> (bb_offset b' = 0 \<and> bb_offset b + rest > bb_size b)"
    using b by (auto simp: chunk_def b'_def off_def)
  moreover have "same_ends b b'" by (simp add: same_ends_def b'_def)
  ultimately show ?thesis using that r c(1,2) by blast
qed

lemma read_loop_ok:
  assumes "ring_ok b" "0 < rest" "rest \<le> bb_len b"
  shows "\<exists>b'. read_loop b rest out = Some (b', out @ take rest (ring_bytes b)) \<and> ring_ok b' \<and>
    ring_bytes b' = drop rest (ring_bytes b) \<and> same_ends b b'"
  using assms
proof (induction rest arbitrary: b out rule: less_induct)
  case (less rest)
  from read_round_ok [OF less.prems] obtain b' chunk
    where r: "read_round b rest = (b', take chunk (ring_bytes b))" "ring_ok b'"
      "ring_bytes b' = drop chunk (ring_bytes b)" "same_ends b b'" "0 < chunk" "chunk \<le> rest" by blast
  have l: "length (take chunk (ring_bytes b)) = chunk" using r(6) less.prems(3) by simp
  show ?case
  proof (cases "chunk = rest")
    case True
    with r l show ?thesis by (subst read_loop.simps) simp
  next
    case False
    have "bb_len b' = bb_len b - chunk" using arg_cong [OF r(3), of length] by simp
    then have p: "rest - chunk < rest" "0 < rest - chunk" "rest - chunk \<le> bb_len b'"
      using r(5,6) False less.prems(3) by simp_all
    from less.IH [OF p(1) r(2) p(2,3), of "out @ take chunk (ring_bytes b)"] obtain b2
      where b2: "read_loop b' (rest - chunk) (out @ take chunk (ring_bytes b)) =
          Some (b2, (out @ take chunk (ring_bytes b)) @ take (rest - chunk) (ring_bytes b'))"
        "ring_ok b2" "ring_bytes b2 = drop (rest - chunk) (ring_bytes b')" "same_ends b' b2" by blast
    have "take rest (ring_bytes b) = take chunk (ring_bytes b) @ take (rest - chunk) (drop chunk (ring_bytes b))"
      using r(6) by (metis le_add_diff_inverse take_add)
    then have "read_loop b rest out = Some (b2, out @ take rest (ring_bytes b))"
      using b2(1) r(1,3) l p(2) by (subst read_loop.simps) simp
    moreover have "ring_bytes b2 = drop rest (ring_bytes b)" using b2(3) r(3,6) by simp
    ultimately show ?thesis using b2(2,4) r(4) same_ends_trans by blast
  qed
qed

lemma mod_distinct: "a < b \<Longrightarrow> b < a + n \<Longrightarrow> a mod n \<noteq> b mod (n :: nat)"
proof
  assume h: "a < b" "b < a + n" "a mod n = b mod n"
  then have "n dvd b - a" using mod_eq_dvd_iff_nat [of a b n] by simp
  with h(1) have "n \<le> b - a" by (simp add: dvd_imp_le)
  with h(1,2) show False by linarith
qed

lemma write_round_ok:
  assumes "ring_ok b" "0 < rest" "bb_len b + rest \<le> bb_size b" "rest \<le> length buf"
  obtains b' chunk where "write_round b buf rest = (b', chunk)" "ring_ok b'"
    "ring_bytes b' = ring_bytes b @ take chunk buf" "same_ends b b'" "0 < chunk" "chunk \<le> rest"
proof -
  obtain d where d: "bb_buf b = Some d" "length d = bb_size b" using assms(1) by (auto simp: ring_ok_def)
  have b: "0 < bb_size b" "bb_size b < 2 ^ 31" "bb_len b \<le> bb_size b" "bb_offset b < bb_size b"
    using assms(1) by (auto simp: ring_ok_def)
  define wo where "wo = (bb_offset b + bb_len b) mod bb_size b"
  have wo: "(if bb_offset b + bb_len b \<ge> bb_size b then bb_offset b + bb_len b - bb_size b else bb_offset b + bb_len b) = wo"
    "wo < bb_size b"
    using b by (auto simp: wo_def mod_if)
  have sz: "sz (wo + rest) = wo + rest" using wo(2) b assms by simp
  define chunk where "chunk = (if wo + rest \<le> bb_size b then rest else bb_size b - wo)"
  have c: "0 < chunk" "chunk \<le> rest" "wo + chunk \<le> bb_size b" "chunk \<le> length buf"
    using wo(2) assms by (auto simp: chunk_def)
  define b' where "b' = b\<lparr>bb_buf := Some (store_at wo (take chunk buf) d), bb_len := bb_len b + chunk\<rparr>"
  have r: "write_round b buf rest = (b', chunk)"
    unfolding write_round_def Let_def wo(1) sz by (simp add: chunk_def [symmetric] d(1) b'_def)
  have fit: "wo + length (take chunk buf) \<le> length d" using c d by simp
  have "ring_ok b'"
    using assms(1,3) b c length_store_at [OF fit] d(2) by (auto simp: ring_ok_def b'_def)
  moreover have "ring_bytes b' = ring_bytes b @ take chunk buf"
  proof (rule nth_equalityI)
    fix i
    assume "i < length (ring_bytes b')"
    then have i: "i < bb_len b + chunk" by (simp add: b'_def)
    let ?k = "(bb_offset b + i) mod bb_size b"
    have k: "?k < length d" using b d by simp
    have e: "ring_bytes b' ! i = store_at wo (take chunk buf) d ! ?k" using i by (simp add: ring_bytes_def b'_def)
    show "ring_bytes b' ! i = (ring_bytes b @ take chunk buf) ! i"
    proof (cases "i < bb_len b")
      case True
      have "\<not> (wo \<le> ?k \<and> ?k < wo + chunk)"
      proof
        assume h: "wo \<le> ?k \<and> ?k < wo + chunk"
        define j where "j = ?k - wo"
        have j: "j < chunk" "?k = wo + j" using h by (auto simp: j_def)
        then have "wo + j < bb_size b" using k d by simp
        then have "?k = (bb_offset b + bb_len b + j) mod bb_size b"
          using j(2) by (simp add: wo_def mod_add_left_eq [of "bb_offset b + bb_len b", symmetric])
        moreover have "bb_offset b + i < bb_offset b + bb_len b + j"
          "bb_offset b + bb_len b + j < bb_offset b + i + bb_size b"
          using True j(1) c(2) assms(3) by simp_all
        ultimately show False using mod_distinct by metis
      qed
      then show ?thesis
        using True nth_store_at [OF fit k] c by (auto simp: e nth_append ring_bytes_def [of b] d(1))
    next
      case False
      then have j: "i - bb_len b < chunk" using i by simp
      have "bb_offset b + i = bb_offset b + bb_len b + (i - bb_len b)" using False by simp
      then have "?k = (wo + (i - bb_len b)) mod bb_size b" by (simp only: wo_def mod_add_left_eq)
      then have "?k = wo + (i - bb_len b)" using j c(3) by simp
      moreover have "take chunk buf ! (i - bb_len b) = buf ! (i - bb_len b)" using j by simp
      moreover have "(ring_bytes b @ take chunk buf) ! i = take chunk buf ! (i - bb_len b)"
        using False by (simp add: nth_append)
      ultimately show ?thesis using j nth_store_at [OF fit k] c unfolding e by simp
    qed
  qed (use c in \<open>simp add: b'_def\<close>)
  moreover have "same_ends b b'" by (simp add: same_ends_def b'_def)
  ultimately show ?thesis using that r c(1,2) by blast
qed

lemma write_loop_ok:
  assumes "ring_ok b" "0 < rest" "bb_len b + rest \<le> bb_size b" "rest \<le> length buf"
  shows "\<exists>b'. write_loop b buf rest = Some b' \<and> ring_ok b' \<and>
    ring_bytes b' = ring_bytes b @ take rest buf \<and> same_ends b b'"
  using assms
proof (induction rest arbitrary: b buf rule: less_induct)
  case (less rest)
  from write_round_ok [OF less.prems] obtain b' chunk
    where r: "write_round b buf rest = (b', chunk)" "ring_ok b'"
      "ring_bytes b' = ring_bytes b @ take chunk buf" "same_ends b b'" "0 < chunk" "chunk \<le> rest" by blast
  show ?case
  proof (cases "chunk = rest")
    case True
    with r show ?thesis by (subst write_loop.simps) simp
  next
    case False
    have "bb_len b' = bb_len b + chunk" using arg_cong [OF r(3), of length] r(6) less.prems(4) by simp
    then have p: "rest - chunk < rest" "0 < rest - chunk" "bb_len b' + (rest - chunk) \<le> bb_size b'"
      "rest - chunk \<le> length (drop chunk buf)"
      using r(4,5,6) False less.prems(3,4) by (simp_all add: same_ends_def)
    from less.IH [OF p(1) r(2) p(2-4)] obtain b2
      where b2: "write_loop b' (drop chunk buf) (rest - chunk) = Some b2" "ring_ok b2"
        "ring_bytes b2 = ring_bytes b' @ take (rest - chunk) (drop chunk buf)" "same_ends b' b2" by blast
    have "take rest buf = take chunk buf @ take (rest - chunk) (drop chunk buf)"
      using r(6) by (metis le_add_diff_inverse take_add)
    then have "ring_bytes b2 = ring_bytes b @ take rest buf" using b2(3) r(3) by simp
    moreover have "write_loop b buf rest = Some b2" using b2(1) r(1) p(2) by (subst write_loop.simps) simp
    ultimately show ?thesis using b2(2,4) r(4) same_ends_trans by blast
  qed
qed


section \<open>Connected pairs\<close>

text \<open>\<open>pair_live w p q\<close>: \<open>p\<close> and \<open>q\<close> are the two halves of a connected pair.\<close>

definition half_ok :: "bio_world \<Rightarrow> nat \<Rightarrow> nat \<Rightarrow> bool" where
  "half_ok w p q \<longleftrightarrow>
     bio_init (bio_at w p) \<and>
     (\<exists>b. bio_ptr (bio_at w p) = Ptr_pair b \<and> bb_peer b = Some q \<and> ring_ok b)"

definition pair_live :: "bio_world \<Rightarrow> nat \<Rightarrow> nat \<Rightarrow> bool" where
  "pair_live w p q \<longleftrightarrow> p \<noteq> q \<and> half_ok w p q \<and> half_ok w q p"

text \<open>The bytes written to \<open>p\<close> and not yet read from its peer.\<close>

definition in_transit :: "bio_world \<Rightarrow> nat \<Rightarrow> u8 list" where
  "in_transit w p = ring_bytes (pair_of w p)"

lemma pair_of_set [simp]:
  "pair_of (set_pair p b w) q = (if q = p then b else pair_of w q)"
  "bio_init (bio_at (set_pair p b w) q) = bio_init (bio_at w q)"
  "bio_flags (bio_at (set_pair p b w) q) = bio_flags (bio_at w q)"
  by (simp_all add: pair_of_def set_pair_def)

lemma flags_simps [simp]:
  "bio_init (BIO_clear_retry_flags b) = bio_init b" "bio_ptr (BIO_clear_retry_flags b) = bio_ptr b"
  "bio_init (BIO_set_retry_read b) = bio_init b" "bio_ptr (BIO_set_retry_read b) = bio_ptr b"
  "bio_init (BIO_set_retry_write b) = bio_init b" "bio_ptr (BIO_set_retry_write b) = bio_ptr b"
  by (simp_all add: BIO_clear_retry_flags_def BIO_set_retry_read_def BIO_set_retry_write_def)

lemma pair_of_flags [simp]:
  "bio_ptr b = bio_ptr (bio_at w p) \<Longrightarrow> pair_of (set_bio p b w) q = pair_of w q"
  "pair_of (put_error lib reason w) q = pair_of w q"
  by (simp_all add: pair_of_def)

lemma half_ok_pair_of:
  "half_ok w p q \<longleftrightarrow> bio_init (bio_at w p) \<and> (\<exists>b. bio_ptr (bio_at w p) = Ptr_pair b) \<and>
     bb_peer (pair_of w p) = Some q \<and> ring_ok (pair_of w p)"
  by (auto simp: half_ok_def pair_of_def)

lemma is_pair_set [simp]:
  "(\<exists>b. bio_ptr (bio_at (set_pair p b0 w) q) = Ptr_pair b) \<longleftrightarrow> q = p \<or> (\<exists>b. bio_ptr (bio_at w q) = Ptr_pair b)"
  by (simp add: set_pair_def)

lemma bio_read_bytes:
  assumes "pair_live w p q" "0 < n" "n < 2 ^ 31"
  shows "\<exists>ret out w'. bio_read w p True n = Some (ret, out, w') \<and> pair_live w' p q \<and>
    in_transit w' p = in_transit w p \<and> bb_closed (pair_of w' q) = bb_closed (pair_of w q) \<and>
    out = take (nat n) (in_transit w q) \<and> in_transit w' q = drop (nat n) (in_transit w q) \<and>
    ret = (if in_transit w q \<noteq> [] then int (length out) else if bb_closed (pair_of w q) then 0 else -1) \<and>
    (ret = -1 \<longrightarrow> bb_request (pair_of w' q) = min (nat n) (bb_size (pair_of w q)))"
proof -
  let ?b = "(pair_of w q)\<lparr>bb_request := 0\<rparr>" and ?n = "nat n"
  have p: "p \<noteq> q" "bio_init (bio_at w p)" "bb_peer (pair_of w p) = Some q" "bb_peer (pair_of w q) = Some p"
    "bio_init (bio_at w q)" "ring_ok (pair_of w q)" "ring_ok (pair_of w p)"
    "\<exists>b. bio_ptr (bio_at w p) = Ptr_pair b" "\<exists>b. bio_ptr (bio_at w q) = Ptr_pair b"
    using assms(1) by (auto simp: pair_live_def half_ok_pair_of)
  have n: "size_of_int n = ?n" "0 < ?n" "?n < 2 ^ 31" using assms(2,3) by simp_all
  let ?w = "set_pair q ?b (set_bio p (BIO_clear_retry_flags (bio_at w p)) w)"
  show ?thesis
  proof (cases "bb_len (pair_of w q) = 0")
    case True
    then have e: "in_transit w q = []" by (simp add: in_transit_def ring_bytes_def)
    show ?thesis
    proof (cases "bb_closed (pair_of w q)")
      case closed: True
      then have "bio_read w p True n = Some (0, [], ?w)"
        using p n True by (simp add: bio_read_def Let_def)
      with closed e p show ?thesis
        by (auto simp: pair_live_def half_ok_pair_of in_transit_def)
    next
      case False
      have "bio_read w p True n = Some (-1, [],
          set_pair q (?b\<lparr>bb_request := (if ?n \<le> bb_size (pair_of w q) then ?n else bb_size (pair_of w q))\<rparr>)
            (set_bio p (BIO_set_retry_read (bio_at ?w p)) ?w))"
        using p n True False by (simp add: bio_read_def Let_def)
      with False e p show ?thesis
        by (auto simp: pair_live_def half_ok_pair_of in_transit_def)
    qed
  next
    case False
    define k where "k = (if bb_len (pair_of w q) < ?n then bb_len (pair_of w q) else ?n)"
    have k: "0 < k" "k \<le> bb_len ?b" "k < 2 ^ 31" using False n by (simp_all add: k_def)
    from read_loop_ok [OF _ k(1,2), of "[]"] p(6) obtain b'
      where b': "read_loop ?b k [] = Some (b', take k (ring_bytes ?b))" "ring_ok b'"
        "ring_bytes b' = drop k (ring_bytes ?b)" "same_ends ?b b'" by auto
    have t: "take k (ring_bytes ?b) = take ?n (in_transit w q)" "drop k (ring_bytes ?b) = drop ?n (in_transit w q)"
      by (simp_all add: in_transit_def k_def)
    have r: "bio_read w p True n = Some (int_of_size k, take ?n (in_transit w q), set_pair q b' ?w)"
      using p n False b'(1) unfolding t
      by (cases "bb_len (pair_of w q) < ?n") (simp_all add: bio_read_def Let_def k_def del: int_of_size_small)
    have "int_of_size k = int (length (take ?n (in_transit w q)))"
      using k by (simp add: in_transit_def k_def min_def)
    moreover have "in_transit w q \<noteq> []" using False by (simp add: in_transit_def ring_bytes_def)
    ultimately show ?thesis
      using r p b'(2-4) t by (auto simp: pair_live_def half_ok_pair_of in_transit_def same_ends_def)
  qed
qed

text \<open>On a connected pair a read returns, in one or two copies from the ring, the oldest bytes its
peer wrote, as many as there are and the caller wants; with none there it reports the end of the
stream if the peer has shut down writing, and otherwise asks to retry and leaves the size of the
request with the peer. The loop ends, the pair stays connected and the other direction is not
touched.\<close>

theorem bio_read_fifo:
  assumes "pair_live w p q" "0 < n" "n < 2 ^ 31"
  shows "\<exists>ret out w'. bio_read w p True n = Some (ret, out, w') \<and> pair_live w' p q \<and>
    in_transit w' p = in_transit w p \<and> bb_closed (pair_of w' q) = bb_closed (pair_of w q) \<and>
    out = take (nat n) (in_transit w q) \<and> in_transit w' q = drop (nat n) (in_transit w q) \<and>
    ret = (if in_transit w q \<noteq> [] then int (length out) else if bb_closed (pair_of w q) then 0 else -1) \<and>
    (ret = -1 \<longrightarrow> bb_request (pair_of w' q) = min (nat n) (bb_size (pair_of w q)))"
  by (rule bio_read_bytes [OF assms])



lemma bio_write_bytes:
  assumes "pair_live w p q" "data \<noteq> []" "length data < 2 ^ 31"
  shows "\<exists>ret w'. bio_write w p (Some data) (int (length data)) = Some (ret, w') \<and> pair_live w' p q \<and>
    in_transit w' q = in_transit w q \<and> in_transit w' p = in_transit w p @ take (nat ret) data \<and>
    bb_closed (pair_of w' p) = bb_closed (pair_of w p) \<and>
    (if bb_closed (pair_of w p)
     then ret = -1 \<and> w_errors w' = w_errors w @ [(ERR_LIB_BIO, BIO_R_BROKEN_PIPE)]
     else w_errors w' = w_errors w \<and>
       (if length (in_transit w p) = bb_size (pair_of w p)
        then ret = -1 \<and> BIO_should_retry (bio_at w' p) \<noteq> 0 \<and> BIO_should_write (bio_at w' p) \<noteq> 0
        else ret = int (min (length data) (bb_size (pair_of w p) - length (in_transit w p)))))"
proof -
  let ?b = "(pair_of w p)\<lparr>bb_request := 0\<rparr>" and ?n = "length data"
  have p: "p \<noteq> q" "bio_init (bio_at w p)" "bb_peer (pair_of w p) = Some q" "bb_peer (pair_of w q) = Some p"
    "bio_init (bio_at w q)" "ring_ok (pair_of w q)" "ring_ok (pair_of w p)"
    "\<exists>b. bio_ptr (bio_at w p) = Ptr_pair b" "\<exists>b. bio_ptr (bio_at w q) = Ptr_pair b"
    using assms(1) by (auto simp: pair_live_def half_ok_pair_of)
  have n: "size_of_int (int ?n) = ?n" "0 < ?n" using assms(2,3) by simp_all
  let ?w = "set_pair p ?b (set_bio p (BIO_clear_retry_flags (bio_at w p)) w)"
  have l: "length (in_transit w p) = bb_len (pair_of w p)" by (simp add: in_transit_def)
  have errs: "w_errors (set_pair p b v) = w_errors v" for b v by (simp add: set_pair_def)
  show ?thesis
  proof (cases "bb_closed (pair_of w p)")
    case True
    then have "bio_write w p (Some data) (int ?n) = Some (-1, put_error ERR_LIB_BIO BIO_R_BROKEN_PIPE ?w)"
      using p n by (simp add: bio_write_def Let_def)
    with True p show ?thesis by (auto simp: pair_live_def half_ok_pair_of in_transit_def errs)
  next
    case open': False
    show ?thesis
    proof (cases "bb_len (pair_of w p) = bb_size (pair_of w p)")
      case True
      then have "bio_write w p (Some data) (int ?n) = Some (-1, set_bio p (BIO_set_retry_write (bio_at ?w p)) ?w)"
        using p n open' by (simp add: bio_write_def Let_def)
      moreover have "BIO_should_retry (BIO_set_retry_write b) \<noteq> 0" "BIO_should_write (BIO_set_retry_write b) \<noteq> 0" for b
        by (auto simp: BIO_should_retry_def BIO_should_write_def BIO_test_flags_def BIO_set_retry_write_def
            bio_flag_defs bit.conj_disj_distrib2 dest!: arg_cong [where f = "\<lambda>x. bit x 3 \<or> bit x 1"] simp: bit_simps)
      ultimately show ?thesis
        using True open' p l by (auto simp: pair_live_def half_ok_pair_of in_transit_def errs)
    next
      case False
      define k where "k = (if ?n > bb_size (pair_of w p) - bb_len (pair_of w p)
        then bb_size (pair_of w p) - bb_len (pair_of w p) else ?n)"
      have b: "bb_len (pair_of w p) \<le> bb_size (pair_of w p)" using p(7) by (simp add: ring_ok_def)
      then have k: "0 < k" "bb_len ?b + k \<le> bb_size ?b" "k \<le> ?n" "k < 2 ^ 31"
        using False n assms(3) by (auto simp: k_def)
      from write_loop_ok [OF _ k(1-3)] p(7) obtain b'
        where b': "write_loop ?b data k = Some b'" "ring_ok b'" "ring_bytes b' = ring_bytes ?b @ take k data" "same_ends ?b b'"
        by auto
      have "bio_write w p (Some data) (int ?n) = Some (int_of_size k, set_pair p b' ?w)"
        using p n open' False b'(1)
        by (cases "?n > bb_size (pair_of w p) - bb_len (pair_of w p)")
          (simp_all add: bio_write_def Let_def k_def del: int_of_size_small)
      moreover have "int_of_size k = int (min ?n (bb_size (pair_of w p) - length (in_transit w p)))"
        using k(4) l by (simp add: k_def min_def)
      moreover have "nat (int_of_size k) = k" using k(4) by simp
      ultimately show ?thesis
        using p b'(2-4) open' False l by (auto simp: pair_live_def half_ok_pair_of in_transit_def same_ends_def errs)
    qed
  qed
qed

text \<open>On a connected pair a write stores as many bytes as fit behind those in transit and says how
many; a full ring asks to retry and a stream shut down for writing is a broken pipe, and then
nothing is stored. The loop ends, the pair stays connected and the other direction is not
touched.\<close>

theorem bio_write_fifo:
  assumes "pair_live w p q" "data \<noteq> []" "length data < 2 ^ 31"
  shows "\<exists>ret w'. bio_write w p (Some data) (int (length data)) = Some (ret, w') \<and> pair_live w' p q \<and>
    in_transit w' q = in_transit w q \<and> in_transit w' p = in_transit w p @ take (nat ret) data \<and>
    bb_closed (pair_of w' p) = bb_closed (pair_of w p) \<and>
    (if bb_closed (pair_of w p)
     then ret = -1 \<and> w_errors w' = w_errors w @ [(ERR_LIB_BIO, BIO_R_BROKEN_PIPE)]
     else w_errors w' = w_errors w \<and>
       (if length (in_transit w p) = bb_size (pair_of w p)
        then ret = -1 \<and> BIO_should_retry (bio_at w' p) \<noteq> 0 \<and> BIO_should_write (bio_at w' p) \<noteq> 0
        else ret = int (min (length data) (bb_size (pair_of w p) - length (in_transit w p)))))"
  by (rule bio_write_bytes [OF assms])

section \<open>Byte pipes\<close>

text \<open>
  The contract of a pipe: what is sent is taken from the front of the data and waits behind what
  was sent before, what is received comes from the front of what waits.
\<close>

locale byte_pipe =
  fixes ok :: "'w \<Rightarrow> bool" and waiting :: "'w \<Rightarrow> u8 list"
    and send :: "'w \<Rightarrow> u8 list \<Rightarrow> (int \<times> 'w) option"
    and recv :: "'w \<Rightarrow> int \<Rightarrow> (int \<times> u8 list \<times> 'w) option"
  assumes send_pipe: "ok w \<Longrightarrow> data \<noteq> [] \<Longrightarrow> length data < 2 ^ 31 \<Longrightarrow>
      \<exists>ret w'. send w data = Some (ret, w') \<and> ok w' \<and> waiting w' = waiting w @ take (nat ret) data"
    and recv_pipe: "ok w \<Longrightarrow> 0 < n \<Longrightarrow> n < 2 ^ 31 \<Longrightarrow>
      \<exists>ret out w'. recv w n = Some (ret, out, w') \<and> ok w' \<and> waiting w = out @ waiting w' \<and>
        (waiting w \<noteq> [] \<longrightarrow> out \<noteq> [])"

datatype pipe_step = Send "u8 list" | Recv int

definition fits_int :: "pipe_step \<Rightarrow> bool" where
  "fits_int a = (case a of Send data \<Rightarrow> data \<noteq> [] \<and> length data < 2 ^ 31 | Recv n \<Rightarrow> 0 < n \<and> n < 2 ^ 31)"

text \<open>A run of sends and receives: the bytes accepted, the bytes received, the last state.\<close>

fun run_pipe ::
  "('w \<Rightarrow> u8 list \<Rightarrow> (int \<times> 'w) option) \<Rightarrow> ('w \<Rightarrow> int \<Rightarrow> (int \<times> u8 list \<times> 'w) option) \<Rightarrow> 'w \<Rightarrow>
   pipe_step list \<Rightarrow> (u8 list \<times> u8 list \<times> 'w) option" where
  "run_pipe send recv w [] = Some ([], [], w)"
| "run_pipe send recv w (Send data # steps) =
     (case send w data of
        None \<Rightarrow> None
      | Some (ret, w') \<Rightarrow>
          map_option (\<lambda>(acc, rcv, w''). (take (nat ret) data @ acc, rcv, w'')) (run_pipe send recv w' steps))"
| "run_pipe send recv w (Recv n # steps) =
     (case recv w n of
        None \<Rightarrow> None
      | Some (ret, out, w') \<Rightarrow>
          map_option (\<lambda>(acc, rcv, w''). (acc, out @ rcv, w'')) (run_pipe send recv w' steps))"

context byte_pipe
begin

lemma run_pipe_conserves:
  assumes "ok w" "list_all fits_int steps"
  shows "\<exists>acc rcv w'. run_pipe send recv w steps = Some (acc, rcv, w') \<and> ok w' \<and> waiting w @ acc = rcv @ waiting w'"
  using assms
proof (induction steps arbitrary: w)
  case Nil
  then show ?case by simp
next
  case (Cons a steps)
  show ?case
  proof (cases a)
    case (Send data)
    with Cons.prems(2) have "data \<noteq> []" "length data < 2 ^ 31" by (simp_all add: fits_int_def)
    from send_pipe [OF Cons.prems(1) this] obtain ret w1
      where s: "send w data = Some (ret, w1)" "ok w1" "waiting w1 = waiting w @ take (nat ret) data" by blast
    from Cons.IH [OF s(2)] Cons.prems(2) obtain acc rcv w'
      where r: "run_pipe send recv w1 steps = Some (acc, rcv, w')" "ok w'" "waiting w1 @ acc = rcv @ waiting w'" by auto
    with s show ?thesis by (simp add: Send)
  next
    case (Recv n)
    with Cons.prems(2) have "0 < n" "n < 2 ^ 31" by (simp_all add: fits_int_def)
    from recv_pipe [OF Cons.prems(1) this] obtain ret out w1
      where s: "recv w n = Some (ret, out, w1)" "ok w1" "waiting w = out @ waiting w1" by blast
    from Cons.IH [OF s(2)] Cons.prems(2) obtain acc rcv w'
      where r: "run_pipe send recv w1 steps = Some (acc, rcv, w')" "ok w'" "waiting w1 @ acc = rcv @ waiting w'" by auto
    with s show ?thesis by (simp add: Recv)
  qed
qed

end

lemma pair_live_sym: "pair_live w p q \<Longrightarrow> pair_live w q p"
  by (auto simp: pair_live_def)

interpretation pair: byte_pipe "\<lambda>w. pair_live w p q" "\<lambda>w. in_transit w p"
  "\<lambda>w data. bio_write w p (Some data) (int (length data))" "\<lambda>w n. bio_read w q True n"
proof unfold_locales
  fix w :: bio_world and data :: "u8 list"
  assume "pair_live w p q" "data \<noteq> []" "length data < 2 ^ 31"
  from bio_write_bytes [OF this] show "\<exists>ret w'. bio_write w p (Some data) (int (length data)) = Some (ret, w') \<and>
      pair_live w' p q \<and> in_transit w' p = in_transit w p @ take (nat ret) data" by blast
next
  fix w :: bio_world and n :: int
  assume h: "pair_live w p q" "0 < n" "n < 2 ^ 31"
  from bio_read_bytes [OF pair_live_sym [OF h(1)] h(2,3)] obtain ret out w'
    where r: "bio_read w q True n = Some (ret, out, w')" "pair_live w' q p"
      "out = take (nat n) (in_transit w p)" "in_transit w' p = drop (nat n) (in_transit w p)" by blast
  with h(2) show "\<exists>ret out w'. bio_read w q True n = Some (ret, out, w') \<and> pair_live w' p q \<and>
      in_transit w p = out @ in_transit w' p \<and> (in_transit w p \<noteq> [] \<longrightarrow> out \<noteq> [])"
    using pair_live_sym by auto
qed

text \<open>C14: Over any sequence of writes to one half of a pair and reads from the other, the bytes read
followed by those still in the ring are exactly the bytes accepted, in order: nothing is lost,
duplicated or reordered, wherever the ring wraps around.\<close>

theorem bio_pair_pipe:
  assumes "pair_live w p q" "list_all fits_int steps"
  shows "\<exists>acc rcv w'. run_pipe (\<lambda>w data. bio_write w p (Some data) (int (length data))) (\<lambda>w n. bio_read w q True n) w steps =
      Some (acc, rcv, w') \<and> pair_live w' p q \<and> in_transit w p @ acc = rcv @ in_transit w' p"
  by (rule pair.run_pipe_conserves [OF assms])



section \<open>Connecting and disconnecting\<close>

text \<open>A half that is not connected: without a buffer, or with an empty one left by an earlier peer.\<close>

definition half_idle :: "bio_world \<Rightarrow> nat \<Rightarrow> bool" where
  "half_idle w p \<longleftrightarrow>
     (\<exists>b. bio_ptr (bio_at w p) = Ptr_pair b \<and> bb_peer b = None \<and>
        (bb_buf b = None \<and> 0 < bb_size b \<and> bb_size b < 2 ^ 31 \<or> ring_ok b \<and> bb_len b = 0))"

lemma pair_alloc_ok:
  assumes "pair_alloc mal b n = (b', True)" "malloc_bounded mal" "n < 2 ^ 31"
    and "bb_buf b = None \<and> 0 < bb_size b \<and> bb_size b < 2 ^ 31 \<or> ring_ok b \<and> bb_len b = 0"
  shows "ring_ok b' \<and> bb_len b' = 0 \<and> bb_peer b' = bb_peer b"
proof (cases "bb_buf b = None")
  case True
  define m where "m = (if n \<noteq> 0 then n else bb_size b)"
  have m: "0 < m" "m < 2 ^ 31" using True assms(3,4) by (auto simp: m_def ring_ok_def)
  obtain buf where buf: "OPENSSL_malloc mal m = Some buf"
    "b' = b\<lparr>bb_size := m, bb_buf := Some buf, bb_len := 0, bb_offset := 0\<rparr>"
    using assms(1) True by (cases "n = 0") (auto simp: pair_alloc_def Let_def m_def split: option.splits)
  have "length buf = m"
    using OPENSSL_malloc_usable [OF _ buf(1)] assms(2) m(2) by (simp add: malloc_bounded_def)
  with m show ?thesis by (simp add: buf(2) ring_ok_def)
next
  case False
  with assms(1,4) show ?thesis by (auto simp: pair_alloc_def)
qed

lemma bio_at_set_pair: "bio_at (set_pair p b w) q = (if q = p then (bio_at w p)\<lparr>bio_ptr := Ptr_pair b\<rparr> else bio_at w q)"
  by (simp add: set_pair_def)

lemma make_pair_live:
  assumes "half_idle w p" "half_idle w q" "p \<noteq> q" "malloc_bounded mal" "n1 < 2 ^ 31" "n2 < 2 ^ 31"
    and "bio_make_pair mal w p q n1 n2 = (True, w')"
  shows "pair_live w' p q \<and> in_transit w' p = [] \<and> in_transit w' q = [] \<and>
    \<not> bb_closed (pair_of w' p) \<and> \<not> bb_closed (pair_of w' q)"
proof -
  obtain b1 b2 where b: "bio_ptr (bio_at w p) = Ptr_pair b1" "bio_ptr (bio_at w q) = Ptr_pair b2"
    and idle: "bb_peer b1 = None" "bb_peer b2 = None"
      "bb_buf b1 = None \<and> 0 < bb_size b1 \<and> bb_size b1 < 2 ^ 31 \<or> ring_ok b1 \<and> bb_len b1 = 0"
      "bb_buf b2 = None \<and> 0 < bb_size b2 \<and> bb_size b2 < 2 ^ 31 \<or> ring_ok b2 \<and> bb_len b2 = 0"
    using assms(1,2) unfolding half_idle_def by blast
  have po: "pair_of w p = b1" "pair_of w q = b2" using b by (simp_all add: pair_of_def)
  obtain c1 o1 where a1: "pair_alloc mal b1 n1 = (c1, o1)" by fastforce
  obtain c2 o2 where a2: "pair_alloc mal b2 n2 = (c2, o2)" by fastforce
  have o: "o1" "o2" using assms(3,7) a1 a2 po idle by (auto simp: bio_make_pair_def Let_def split: bool.splits)
  note c1 = pair_alloc_ok [OF a1 [unfolded o(1) [THEN eqTrueI]] assms(4,5) idle(3)]
    and c2 = pair_alloc_ok [OF a2 [unfolded o(2) [THEN eqTrueI]] assms(4,6) idle(4)]
  have bytes: "ring_bytes c = []" if "bb_len c = 0" for c using that by (simp add: ring_bytes_def)
  let ?d1 = "c1\<lparr>bb_peer := Some q, bb_closed := False, bb_request := 0\<rparr>"
    and ?d2 = "c2\<lparr>bb_peer := Some p, bb_closed := False, bb_request := 0\<rparr>"
  have w': "bio_at w' p = (bio_at w p)\<lparr>bio_ptr := Ptr_pair ?d1, bio_init := True\<rparr>"
    "bio_at w' q = (bio_at w q)\<lparr>bio_ptr := Ptr_pair ?d2, bio_init := True\<rparr>"
    using assms(3,7) a1 a2 o po idle by (auto simp: bio_make_pair_def Let_def bio_at_set_pair)
  have "ring_ok ?d1" "ring_ok ?d2" using c1 c2 by (auto simp: ring_ok_def)
  with w' assms(3) c1 c2 show ?thesis
    by (simp add: pair_live_def half_ok_def in_transit_def pair_of_def ring_bytes_def)
qed

lemma destroy_pair_idle:
  assumes "pair_live w p q"
  shows "half_idle (bio_destroy_pair w p) p \<and> half_idle (bio_destroy_pair w p) q \<and>
    \<not> bio_init (bio_at (bio_destroy_pair w p) p) \<and> \<not> bio_init (bio_at (bio_destroy_pair w p) q)"
proof -
  obtain b1 b2 where b: "bio_ptr (bio_at w p) = Ptr_pair b1" "bio_ptr (bio_at w q) = Ptr_pair b2" "p \<noteq> q"
    and l: "bb_peer b1 = Some q" "bb_peer b2 = Some p" "ring_ok b1" "ring_ok b2"
    using assms by (auto simp: pair_live_def half_ok_def)
  have po: "pair_of w p = b1" "pair_of w q = b2" using b by (simp_all add: pair_of_def)
  have "bio_at (bio_destroy_pair w p) p =
      (bio_at w p)\<lparr>bio_ptr := Ptr_pair (b1\<lparr>bb_peer := None, bb_len := 0, bb_offset := 0\<rparr>), bio_init := False\<rparr>"
    "bio_at (bio_destroy_pair w p) q =
      (bio_at w q)\<lparr>bio_ptr := Ptr_pair (b2\<lparr>bb_peer := None, bb_len := 0, bb_offset := 0\<rparr>), bio_init := False\<rparr>"
    using b l(1) po by (auto simp: bio_destroy_pair_def Let_def bio_at_set_pair)
  with l(3,4) show ?thesis by (auto simp: half_idle_def ring_ok_def)
qed

text \<open>C35: Joining two idle halves makes a connected pair with nothing in transit, or fails; taking a pair
apart leaves two idle halves, which can be joined again, and neither can be used before.\<close>

theorem bio_pair_lifecycle:
  assumes "malloc_bounded mal" "n1 < 2 ^ 31" "n2 < 2 ^ 31"
  shows "(half_idle w p \<and> half_idle w q \<and> p \<noteq> q \<longrightarrow>
      (case bio_make_pair mal w p q n1 n2 of
         (True, w') \<Rightarrow> pair_live w' p q \<and> in_transit w' p = [] \<and> in_transit w' q = []
       | (False, w') \<Rightarrow> w_errors w' = w_errors w @ [(ERR_LIB_BIO, ERR_R_MALLOC_FAILURE)])) \<and>
    (pair_live w p q \<longrightarrow>
      half_idle (bio_destroy_pair w p) p \<and> half_idle (bio_destroy_pair w p) q \<and>
      bio_read (bio_destroy_pair w p) q True 1 =
        Some (0, [], set_bio q (BIO_clear_retry_flags (bio_at (bio_destroy_pair w p) q)) (bio_destroy_pair w p)))"
proof (intro conjI impI)
  assume h: "half_idle w p \<and> half_idle w q \<and> p \<noteq> q"
  obtain okay w' where m: "bio_make_pair mal w p q n1 n2 = (okay, w')" by fastforce
  show "case bio_make_pair mal w p q n1 n2 of
      (True, w') \<Rightarrow> pair_live w' p q \<and> in_transit w' p = [] \<and> in_transit w' q = []
    | (False, w') \<Rightarrow> w_errors w' = w_errors w @ [(ERR_LIB_BIO, ERR_R_MALLOC_FAILURE)]"
  proof (cases okay)
    case True
    with make_pair_live [OF _ _ _ assms, of w p q w'] h m show ?thesis by simp
  next
    case False
    have "bb_peer (pair_of w p) = None" "bb_peer (pair_of w q) = None"
      using h by (auto simp: half_idle_def pair_of_def)
    with m False h have "w_errors w' = w_errors w @ [(ERR_LIB_BIO, ERR_R_MALLOC_FAILURE)]"
      by (auto simp: bio_make_pair_def Let_def set_pair_def split: prod.splits bool.splits)
    with m False show ?thesis by simp
  qed
next
  assume h: "pair_live w p q"
  note d = destroy_pair_idle [OF h]
  then show "half_idle (bio_destroy_pair w p) p" "half_idle (bio_destroy_pair w p) q" by simp_all
  show "bio_read (bio_destroy_pair w p) q True 1 =
      Some (0, [], set_bio q (BIO_clear_retry_flags (bio_at (bio_destroy_pair w p) q)) (bio_destroy_pair w p))"
    using d by (simp add: bio_read_def Let_def)
qed

section \<open>A concrete pair\<close>

definition zero_bio :: bio where
  "zero_bio = \<lparr>bio_meth = Some Method_pair, bio_init = False, bio_shutdown = 1, bio_flags = 0, bio_retry_reason = 0,
     bio_num = 0, bio_references = 1, bio_ptr = Ptr_NULL, bio_next = None, bio_num_read = 0, bio_num_write = 0\<rparr>"

definition idle_world :: bio_world where
  "idle_world = \<lparr>w_bios = (\<lambda>p. pair_new roomy_malloc zero_bio), w_errors = []\<rparr>"

definition pair_world :: bio_world where
  "pair_world = snd (bio_make_pair roomy_malloc idle_world 0 1 4 4)"

lemma idle_world_idle: "half_idle idle_world p"
  using roomy_malloc_Some [of sizeof_bio_bio]
  by (auto simp: half_idle_def idle_world_def bio_at_def pair_new_def sizeof_bio_bio_def)

lemma pair_world_made: "bio_make_pair roomy_malloc idle_world 0 1 4 4 = (True, pair_world)"
proof -
  obtain blk where "OPENSSL_malloc roomy_malloc sizeof_bio_bio = Some blk"
    using roomy_malloc_Some [of sizeof_bio_bio] by (auto simp: sizeof_bio_bio_def)
  moreover obtain buf where "OPENSSL_malloc roomy_malloc 4 = Some buf" using roomy_malloc_Some [of 4] by auto
  ultimately have "fst (bio_make_pair roomy_malloc idle_world 0 1 4 4)"
    by (simp add: bio_make_pair_def idle_world_def pair_new_def pair_of_def bio_at_def pair_alloc_def Let_def set_pair_def set_bio_def)
  then show ?thesis by (metis pair_world_def prod.collapse)
qed

lemma pair_world_live: "pair_live pair_world 0 1" "in_transit pair_world 0 = []" "in_transit pair_world 1 = []"
    "\<not> bb_closed (pair_of pair_world 0)"
  using make_pair_live [OF idle_world_idle idle_world_idle _ roomy_malloc_ok(1) _ _ pair_world_made] by auto

theorem bio_write_fifo_witness:
  "\<exists>ret w'. bio_write pair_world 0 (Some [1, 2, 3]) 3 = Some (ret, w') \<and> pair_live w' 0 1 \<and>
     in_transit w' 0 = take (nat ret) [1, 2, 3]"
  using bio_write_fifo [OF pair_world_live(1), of "[1, 2, 3]"] by (auto simp: pair_world_live)

theorem bio_read_fifo_witness:
  "\<exists>w'. bio_read pair_world 1 True 3 = Some (-1, [], w') \<and> pair_live w' 1 0"
  using bio_read_fifo [OF pair_live_sym [OF pair_world_live(1)], of 3] by (auto simp: pair_world_live)

theorem bio_pair_pipe_witness:
  "\<exists>acc rcv w'. run_pipe (\<lambda>w data. bio_write w 0 (Some data) (int (length data))) (\<lambda>w n. bio_read w 1 True n) pair_world
     [Send [1, 2, 3], Recv 2, Send [4, 5, 6], Recv 9] = Some (acc, rcv, w') \<and> acc = rcv @ in_transit w' 0"
  using bio_pair_pipe [OF pair_world_live(1), of "[Send [1, 2, 3], Recv 2, Send [4, 5, 6], Recv 9]"]
  by (auto simp: pair_world_live fits_int_def)

theorem bio_pair_lifecycle_witness:
  "half_idle (bio_destroy_pair pair_world 0) 1 \<and> pair_live (snd (bio_make_pair roomy_malloc idle_world 0 1 4 4)) 0 1"
  using bio_pair_lifecycle [OF roomy_malloc_ok(1), of 4 4 pair_world 0 1]
    bio_pair_lifecycle [OF roomy_malloc_ok(1), of 4 4 idle_world 0 1] pair_world_live(1) idle_world_idle
  by (simp add: pair_world_made [unfolded One_nat_def])

end
