(* ===== verification/BioMem.thy ===== *)
theory BioMem
  imports BioPair
begin

text \<open>
  \<^verbatim>\<open>crypto/bio/bio_mem.c\<close>: the BIO over a \<open>BUF_MEM\<close>, and the read-only BIO over a caller's
  bytes, whose data pointer moves through them. The functions work on the record of the BIO; they
  return what the C function returns, the bytes it stores for the caller, the errors it puts on
  the queue, and the record.
\<close>

section \<open>The operations\<close>

definition mem_of :: "bio \<Rightarrow> buf_mem" where
  "mem_of bio = (case bio_ptr bio of Ptr_mem b \<Rightarrow> b | _ \<Rightarrow> undefined)"

definition mem_new :: "malloc_fn \<Rightarrow> bio \<Rightarrow> put_error list \<times> bio option" where
  "mem_new mal bio =
     (case BUF_MEM_new mal of
        (errs, None) \<Rightarrow> (errs, None)
      | (errs, Some b) \<Rightarrow>
          (errs, Some (bio\<lparr>bio_shutdown := 1, bio_init := True, bio_num := -1, bio_ptr := Ptr_mem b\<rparr>)))"

definition mem_free :: "bio \<Rightarrow> bio" where
  "mem_free bio =
     (if bio_shutdown bio = 0 \<or> \<not> bio_init bio \<or> bio_ptr bio = Ptr_NULL then bio
      else bio\<lparr>bio_ptr := Ptr_NULL\<rparr>)"

definition rdonly :: "bio \<Rightarrow> bool" where
  "rdonly bio \<longleftrightarrow> bio_flags bio AND BIO_FLAGS_MEM_RDONLY \<noteq> 0"

definition mem_read :: "bio \<Rightarrow> int \<Rightarrow> int \<times> u8 list \<times> bio" where
  "mem_read bio outl =
     (let b = mem_of bio; bio = BIO_clear_retry_flags bio;
          ret = (if bm_length b < INT_MAX \<and> outl > int_of_size (bm_length b)
                 then int_of_size (bm_length b) else outl)
      in if ret > 0 then
           (let d = the (bm_data b); n = nat ret; len = bm_length b - n
            in (ret, take n (drop (bm_off b) d),
                bio\<lparr>bio_ptr := Ptr_mem
                  (if rdonly bio then b\<lparr>bm_length := len, bm_off := bm_off b + n\<rparr>
                   else b\<lparr>bm_length := len,
                          bm_data := Some (store_at (bm_off b) (take len (drop (bm_off b + n) d)) d)\<rparr>)\<rparr>))
         else if bm_length b = 0 then
           (bio_num bio, [], if bio_num bio \<noteq> 0 then BIO_set_retry_read bio else bio)
         else (ret, [], bio))"

text \<open>The data to write has \<open>inl\<close> bytes.\<close>

definition mem_write :: "malloc_fn \<Rightarrow> bio \<Rightarrow> u8 list \<Rightarrow> int \<Rightarrow> int \<times> put_error list \<times> bio" where
  "mem_write mal bio src inl =
     (if rdonly bio then (-1, [(ERR_LIB_BIO, BIO_R_WRITE_TO_READ_ONLY_BIO)], bio)
      else
        (let b = mem_of bio; bio = BIO_clear_retry_flags bio; blen = int_of_size (bm_length b)
         in if int INT_MAX - blen < inl then (-1, [], bio)
            else
              (case BUF_MEM_grow_clean mal b (size_of_int (blen + inl)) of
                 (n, errs, b') \<Rightarrow>
                   if n \<noteq> sz (size_of_int blen + size_of_int inl)
                   then (-1, errs, bio\<lparr>bio_ptr := Ptr_mem b'\<rparr>)
                   else
                     (inl, errs,
                      bio\<lparr>bio_ptr := Ptr_mem
                        (b'\<lparr>bm_data := map_option (store_at (bm_off b' + nat blen) (take (nat inl) src)) (bm_data b')\<rparr>)\<rparr>))))"

text \<open>How many bytes there are up to and with the first newline.\<close>

fun line_len :: "u8 list \<Rightarrow> nat" where
  "line_len [] = 0"
| "line_len (c # cs) = (if c = 10 then 1 else Suc (line_len cs))"

definition mem_gets :: "bio \<Rightarrow> int \<Rightarrow> int \<times> u8 list \<times> bio" where
  "mem_gets bio size' =
     (let b = mem_of bio; bio = BIO_clear_retry_flags bio; j = int_of_size (bm_length b);
          j = (if size' - 1 < j then size' - 1 else j)
      in if j \<le> 0 then (0, if size' > 0 then [0] else [], bio)
         else
           (let i = line_len (take (nat j) (drop (bm_off b) (the (bm_data b))))
            in case mem_read bio (int i) of
                 (ret, out, bio) \<Rightarrow> (ret, if ret > 0 then out @ [0] else out, bio)))"

text \<open>
  The buffer argument is the one \<open>BIO_C_SET_BUF_MEM\<close> hands over. \<open>BIO_CTRL_INFO\<close> and
  \<open>BIO_C_GET_BUF_MEM_PTR\<close> also hand out a pointer to the buffer, which has no effect here.
\<close>

definition mem_ctrl :: "bio \<Rightarrow> bio_cmd \<Rightarrow> int \<Rightarrow> buf_mem option \<Rightarrow> int \<times> bio" where
  "mem_ctrl bio cmd num arg =
     (let b = mem_of bio
      in case cmd of
           BIO_CTRL_RESET \<Rightarrow>
             (1, case bm_data b of
                   None \<Rightarrow> bio
                 | Some d \<Rightarrow>
                     bio\<lparr>bio_ptr := Ptr_mem
                       (if rdonly bio
                        then b\<lparr>bm_off := bm_off b - (bm_max b - bm_length b), bm_length := bm_max b\<rparr>
                        else b\<lparr>bm_data := Some (store_at (bm_off b) (replicate (bm_max b) 0) d), bm_length := 0\<rparr>)\<rparr>)
         | BIO_CTRL_EOF \<Rightarrow> (of_bool (bm_length b = 0), bio)
         | BIO_C_SET_BUF_MEM_EOF_RETURN \<Rightarrow> (1, bio\<lparr>bio_num := int_of_long num\<rparr>)
         | BIO_CTRL_INFO \<Rightarrow> (long_of_size (bm_length b), bio)
         | BIO_C_SET_BUF_MEM \<Rightarrow>
             (1, (mem_free bio)\<lparr>bio_shutdown := int_of_long num,
                   bio_ptr := (case arg of None \<Rightarrow> Ptr_NULL | Some b' \<Rightarrow> Ptr_mem b')\<rparr>)
         | BIO_C_GET_BUF_MEM_PTR \<Rightarrow> (1, bio)
         | BIO_CTRL_GET_CLOSE \<Rightarrow> (bio_shutdown bio, bio)
         | BIO_CTRL_SET_CLOSE \<Rightarrow> (1, bio\<lparr>bio_shutdown := int_of_long num\<rparr>)
         | BIO_CTRL_WPENDING \<Rightarrow> (0, bio)
         | BIO_CTRL_PENDING \<Rightarrow> (long_of_size (bm_length b), bio)
         | BIO_CTRL_FLUSH \<Rightarrow> (1, bio)
         | _ \<Rightarrow> (0, bio))"

definition BIO_mem_contents :: "bio \<Rightarrow> u8 list option" where
  "BIO_mem_contents bio = (if bio_meth bio \<noteq> Some Method_mem then None else Some (bm_bytes (mem_of bio)))"

section \<open>The invariant\<close>

definition mem_ok :: "bio \<Rightarrow> bool" where
  "mem_ok bio \<longleftrightarrow>
     bio_init bio \<and> bio_meth bio = Some Method_mem \<and>
     (\<exists>b. bio_ptr bio = Ptr_mem b \<and> bm_length b < 2 ^ 31 \<and>
        (if rdonly bio
         then bm_length b \<le> bm_max b \<and> bm_off b = bm_max b - bm_length b \<and>
           (case bm_data b of None \<Rightarrow> bm_max b = 0 | Some d \<Rightarrow> length d \<ge> bm_max b)
         else buf_mem_ok b))"

definition mem_bytes :: "bio \<Rightarrow> u8 list" where
  "mem_bytes bio = bm_bytes (mem_of bio)"



lemma rdonly_flags [simp]:
  "rdonly (BIO_clear_retry_flags b) = rdonly b" "rdonly (BIO_set_retry_read b) = rdonly b"
  "rdonly (b\<lparr>bio_ptr := x\<rparr>) = rdonly b" "rdonly (b\<lparr>bio_num := k\<rparr>) = rdonly b"
  by (simp_all add: rdonly_def BIO_clear_retry_flags_def BIO_set_retry_read_def bio_flag_defs
      bit.conj_disj_distrib2 and.assoc)

lemma meth_flags [simp]:
  "bio_meth (BIO_clear_retry_flags b) = bio_meth b" "bio_meth (BIO_set_retry_read b) = bio_meth b"
  "bio_num (BIO_clear_retry_flags b) = bio_num b" "bio_num (BIO_set_retry_read b) = bio_num b"
  by (simp_all add: BIO_clear_retry_flags_def BIO_set_retry_read_def)

lemma mem_of_simps [simp]:
  "mem_of (BIO_clear_retry_flags b) = mem_of b" "mem_of (BIO_set_retry_read b) = mem_of b"
  "mem_of (b\<lparr>bio_ptr := Ptr_mem m\<rparr>) = m"
  by (simp_all add: mem_of_def)

lemma mem_ok_retry [simp]: "mem_ok (BIO_clear_retry_flags b) = mem_ok b" "mem_ok (BIO_set_retry_read b) = mem_ok b"
  by (simp_all add: mem_ok_def)

text \<open>The parts of the invariant, over \<open>mem_of\<close>.\<close>

lemma mem_ok_iff:
  "mem_ok bio \<longleftrightarrow> bio_init bio \<and> bio_meth bio = Some Method_mem \<and> bio_ptr bio = Ptr_mem (mem_of bio) \<and>
     bm_length (mem_of bio) < 2 ^ 31 \<and>
     (if rdonly bio
      then bm_length (mem_of bio) \<le> bm_max (mem_of bio) \<and>
        bm_off (mem_of bio) = bm_max (mem_of bio) - bm_length (mem_of bio) \<and>
        (case bm_data (mem_of bio) of None \<Rightarrow> bm_max (mem_of bio) = 0 | Some d \<Rightarrow> length d \<ge> bm_max (mem_of bio))
      else buf_mem_ok (mem_of bio))"
proof (cases "bio_ptr bio")
  case (Ptr_mem b)
  then have "mem_of bio = b" by (simp add: mem_of_def)
  with Ptr_mem show ?thesis unfolding mem_ok_def by auto
qed (simp_all add: mem_ok_def)

lemma length_mem_bytes [simp]: "mem_ok bio \<Longrightarrow> length (mem_bytes bio) = bm_length (mem_of bio)"
  by (auto simp: mem_ok_iff mem_bytes_def bm_bytes_def buf_mem_ok_def split: option.splits if_splits)

lemma mem_data:
  assumes "mem_ok bio" "bm_length (mem_of bio) \<noteq> 0"
  obtains d where "bm_data (mem_of bio) = Some d" "mem_bytes bio = take (bm_length (mem_of bio)) (drop (bm_off (mem_of bio)) d)"
    "bm_off (mem_of bio) + bm_length (mem_of bio) \<le> length d"
    "rdonly bio \<or> bm_off (mem_of bio) = 0 \<and> length d = bm_max (mem_of bio)"
  using assms by (auto simp: mem_ok_iff mem_bytes_def bm_bytes_def buf_mem_ok_def split: option.splits if_splits)

text \<open>The block a read-only BIO was made of, where resetting it goes back to.\<close>

definition mem_block :: "bio \<Rightarrow> u8 list option \<times> nat" where
  "mem_block bio = (bm_data (mem_of bio), bm_max (mem_of bio))"

lemma mem_read_bytes:
  assumes "mem_ok bio" "0 < n" "n < 2 ^ 31"
  shows "\<exists>ret bio'. mem_read bio n = (ret, take (nat n) (mem_bytes bio), bio') \<and> mem_ok bio' \<and>
    mem_bytes bio' = drop (nat n) (mem_bytes bio) \<and> rdonly bio' = rdonly bio \<and> bio_num bio' = bio_num bio \<and>
    (rdonly bio \<longrightarrow> mem_block bio' = mem_block bio) \<and>
    ret = (if mem_bytes bio \<noteq> [] then int (min (nat n) (length (mem_bytes bio))) else bio_num bio)"
proof -
  let ?b = "mem_of bio"
  have len: "bm_length ?b < 2 ^ 31" using assms(1) by (simp add: mem_ok_iff)
  show ?thesis
  proof (cases "bm_length ?b = 0")
    case True
    then have e: "mem_bytes bio = []" using length_mem_bytes [OF assms(1)] by simp
    have "mem_read bio n = (bio_num bio, [], if bio_num bio \<noteq> 0 then BIO_set_retry_read (BIO_clear_retry_flags bio) else BIO_clear_retry_flags bio)"
      using True assms(2) by (simp add: mem_read_def Let_def INT_MAX_def)
    with e assms(1) show ?thesis by (auto simp: mem_bytes_def mem_block_def)
  next
    case False
    obtain d where d: "bm_data ?b = Some d" "mem_bytes bio = take (bm_length ?b) (drop (bm_off ?b) d)"
      "bm_off ?b + bm_length ?b \<le> length d" "rdonly bio \<or> bm_off ?b = 0 \<and> length d = bm_max ?b"
      using mem_data [OF assms(1) False] by blast
    define k where "k = min (nat n) (bm_length ?b)"
    have k: "0 < k" "k \<le> bm_length ?b" using assms(2) False by (simp_all add: k_def)
    have ret: "(if bm_length ?b < INT_MAX \<and> n > int_of_size (bm_length ?b) then int_of_size (bm_length ?b) else n) = int k"
      using len assms(2,3) by (auto simp: k_def INT_MAX_def min_def)
    let ?len = "bm_length ?b - k"
    let ?m = "if rdonly bio then ?b\<lparr>bm_length := ?len, bm_off := bm_off ?b + k\<rparr>
      else ?b\<lparr>bm_length := ?len, bm_data := Some (store_at (bm_off ?b) (take ?len (drop (bm_off ?b + k) d)) d)\<rparr>"
    have r: "mem_read bio n = (int k, take k (drop (bm_off ?b) d), (BIO_clear_retry_flags bio)\<lparr>bio_ptr := Ptr_mem ?m\<rparr>)"
      using k unfolding mem_read_def Let_def ret by (simp add: d(1))
    have out: "take k (drop (bm_off ?b) d) = take (nat n) (mem_bytes bio)"
      using d(2) by (simp add: k_def min.commute)
    have rest: "drop (nat n) (mem_bytes bio) = take ?len (drop (bm_off ?b + k) d)"
      using d(2) by (auto simp: k_def drop_take add.commute min_def)
    have bytes: "bm_bytes ?m = drop (nat n) (mem_bytes bio)"
    proof (cases "rdonly bio")
      case True
      then show ?thesis by (simp add: bm_bytes_def d(1) rest)
    next
      case False
      with d(4) have o: "bm_off ?b = 0" "length d = bm_max ?b" by simp_all
      have "take ?len (store_at 0 (take ?len (drop k d)) d) = take ?len (drop k d)"
        using d(3) k o by (simp add: store_at_def)
      with False o show ?thesis by (simp add: bm_bytes_def rest)
    qed
    have "mem_ok ((BIO_clear_retry_flags bio)\<lparr>bio_ptr := Ptr_mem ?m\<rparr>)"
      using assms(1) d k len by (auto simp: mem_ok_iff buf_mem_ok_def length_store_at)
    moreover have "mem_bytes ((BIO_clear_retry_flags bio)\<lparr>bio_ptr := Ptr_mem ?m\<rparr>) = drop (nat n) (mem_bytes bio)"
      using bytes by (simp add: mem_bytes_def)
    moreover have "mem_bytes bio \<noteq> []" using length_mem_bytes [OF assms(1)] False by auto
    moreover have "rdonly bio \<longrightarrow> mem_block ((BIO_clear_retry_flags bio)\<lparr>bio_ptr := Ptr_mem ?m\<rparr>) = mem_block bio"
      by (simp add: mem_block_def)
    moreover have "k = min (nat n) (length (mem_bytes bio))" by (simp add: k_def assms(1))
    ultimately show ?thesis using r out by simp
  qed
qed

lemma mem_write_bytes:
  assumes "mem_ok bio" "\<not> rdonly bio" "malloc_bounded mal" "length src < 2 ^ 31"
  shows "\<exists>ret errs bio'. mem_write mal bio src (int (length src)) = (ret, errs, bio') \<and> mem_ok bio' \<and> \<not> rdonly bio' \<and>
    bio_num bio' = bio_num bio \<and>
    (ret = int (length src) \<and> errs = [] \<and> mem_bytes bio' = mem_bytes bio @ src \<or>
     ret = -1 \<and> mem_bytes bio' = mem_bytes bio \<and>
       (if length (mem_bytes bio) + length src > INT_MAX then errs = [] else errs = [(ERR_LIB_BUF, ERR_R_MALLOC_FAILURE)]))"
proof -
  let ?b = "mem_of bio" and ?c = "BIO_clear_retry_flags bio"
  have b: "buf_mem_ok ?b" "bm_length ?b < 2 ^ 31" using assms(1,2) by (simp_all add: mem_ok_iff)
  have cm: "bio_ptr ?c = Ptr_mem ?b" using assms(1) by (simp add: mem_ok_iff)
  show ?thesis
  proof (cases "length (mem_bytes bio) + length src > INT_MAX")
    case True
    then have "int INT_MAX - int_of_size (bm_length ?b) < int (length src)"
      using b(2) length_mem_bytes [OF assms(1)] by simp
    then have "mem_write mal bio src (int (length src)) = (-1, [], ?c)"
      using assms(2) by (simp add: mem_write_def Let_def)
    with True assms(1,2) show ?thesis by (simp add: mem_bytes_def)
  next
    case False
    let ?n = "bm_length ?b + length src"
    have n: "?n \<le> INT_MAX" using False length_mem_bytes [OF assms(1)] by simp
    then have n': "?n < 2 ^ 31" "?n < 2 ^ 63" by (simp_all add: INT_MAX_def)
    obtain m errs b' where g: "BUF_MEM_grow_clean mal ?b ?n = (m, errs, b')" by (metis prod_cases3)
    have sizes: "size_of_int (int_of_size (bm_length ?b) + int (length src)) = ?n"
      "sz (size_of_int (int_of_size (bm_length ?b)) + size_of_int (int (length src))) = ?n"
      "nat (int_of_size (bm_length ?b)) = bm_length ?b" "int_of_size (bm_length ?b) = int (bm_length ?b)"
      using b(2) n' assms(4) by (simp_all add: nat_add_distrib)
    have lim: "\<not> int INT_MAX - int (bm_length ?b) < int (length src)" using n by simp
    have w: "mem_write mal bio src (int (length src)) =
        (if m \<noteq> ?n then (-1, errs, ?c\<lparr>bio_ptr := Ptr_mem b'\<rparr>)
         else (int (length src), errs,
           ?c\<lparr>bio_ptr := Ptr_mem (b'\<lparr>bm_data := map_option (store_at (bm_off b' + bm_length ?b) src) (bm_data b')\<rparr>)\<rparr>))"
      using assms(2) lim unfolding mem_write_def Let_def mem_of_simps sizes(1-3) unfolding sizes(4) g by simp
    note gr = BUF_MEM_grow_bytes [OF g [unfolded BUF_MEM_grow_clean_def] b(1) assms(3) n'(2)]
    show ?thesis
    proof (cases "errs = []")
      case True
      with gr have e: "m = ?n" "buf_mem_ok b'" "bm_bytes b' = bm_bytes ?b @ replicate (length src) 0"
        by (simp_all add: b(1))
      have l: "bm_length b' = ?n" using arg_cong [OF e(3), of length] e(2) b(1) by simp
      let ?b2 = "b'\<lparr>bm_data := map_option (store_at (bm_off b' + bm_length ?b) src) (bm_data b')\<rparr>"
      have fill: "buf_mem_ok ?b2 \<and> bm_bytes ?b2 = bm_bytes ?b @ src"
      proof (cases "src = []")
        case True
        have "store_at i [] d = d" for i and d :: "u8 list" by (simp add: store_at_def)
        then have "map_option (store_at (bm_off b' + bm_length ?b) src) (bm_data b') = bm_data b'"
          by (cases "bm_data b'") (simp_all add: True)
        with e True show ?thesis by simp
      next
        case False
        then obtain d where d: "bm_data b' = Some d" "length d = bm_max b'" "bm_bytes b' = take ?n d"
          using buf_mem_ok_data [OF e(2), of ?n] e(2) l by (auto simp: buf_mem_ok_def)
        have o: "bm_off b' = 0" "?n \<le> length d" using e(2) l d(2) by (simp_all add: buf_mem_ok_def)
        have "take (bm_length ?b) d = take (bm_length ?b) (take ?n d)" by simp
        also have "\<dots> = take (bm_length ?b) (bm_bytes ?b @ replicate (length src) 0)" using d(3) e(3) by metis
        also have "\<dots> = bm_bytes ?b" using b(1) by simp
        finally have "take ?n (store_at (bm_length ?b) src d) = bm_bytes ?b @ src"
          using take_store_at [of "bm_length ?b" src d] o by simp
        with d o l e(2) length_store_at [of "bm_length ?b" src d] show ?thesis
          by (simp add: buf_mem_ok_def bm_bytes_def)
      qed
      have "mem_ok (?c\<lparr>bio_ptr := Ptr_mem ?b2\<rparr>)" using fill assms(1,2) l n' by (simp add: mem_ok_iff)
      moreover have "mem_bytes (?c\<lparr>bio_ptr := Ptr_mem ?b2\<rparr>) = mem_bytes bio @ src" using fill by (simp add: mem_bytes_def)
      ultimately show ?thesis using w e(1) True assms(2) by simp
    next
      case errs: False
      with gr have e: "m = 0" "b' = ?b" "errs = [(ERR_LIB_BUF, ERR_R_MALLOC_FAILURE)]" by auto
      have "?n \<noteq> 0"
      proof
        assume "?n = 0"
        with g errs show False by (auto simp: BUF_MEM_grow_clean_def BUF_MEM_grow_def BUF_MEM_reserve_def)
      qed
      then have w: "mem_write mal bio src (int (length src)) = (-1, errs, ?c\<lparr>bio_ptr := Ptr_mem ?b\<rparr>)"
        using w e by auto
      have "mem_ok (?c\<lparr>bio_ptr := Ptr_mem ?b\<rparr>)" using assms(1,2) by (simp add: mem_ok_iff)
      moreover have "mem_bytes (?c\<lparr>bio_ptr := Ptr_mem ?b\<rparr>) = mem_bytes bio" by (simp add: mem_bytes_def)
      ultimately show ?thesis using w e(3) False assms(2) by simp
    qed
  qed
qed


lemma line_len_le: "line_len xs \<le> length xs"
  by (induction xs) auto

lemma line_len_take: "k \<le> length xs \<Longrightarrow> line_len (take k xs) = min k (line_len xs)"
  by (induction xs arbitrary: k) (auto simp: take_Cons' split: if_splits)

text \<open>C34: A read from a memory BIO takes bytes from the front of what it holds, and an empty one returns its
configured value and asks to retry unless that is zero; a line read takes at most one line, up to and
with its newline, that fits the caller's buffer with its terminator, and stores the terminator.\<close>

theorem mem_read_gets_fifo:
  assumes "mem_ok bio" "0 < n" "n < 2 ^ 31"
  shows "(\<exists>ret bio'. mem_read bio n = (ret, take (nat n) (mem_bytes bio), bio') \<and> mem_ok bio' \<and>
      mem_bytes bio' = drop (nat n) (mem_bytes bio) \<and>
      ret = (if mem_bytes bio \<noteq> [] then int (min (nat n) (length (mem_bytes bio))) else bio_num bio)) \<and>
    (\<exists>bio' k. mem_gets bio n = (int k, take k (mem_bytes bio) @ [0], bio') \<and> mem_ok bio' \<and>
      mem_bytes bio' = drop k (mem_bytes bio) \<and> k = min (nat n - 1) (line_len (mem_bytes bio)))"
    (is "?read \<and> ?gets")
proof
  show ?read using mem_read_bytes [OF assms] by blast
  let ?b = "mem_of bio" and ?c = "BIO_clear_retry_flags bio"
  have len: "bm_length ?b < 2 ^ 31" using assms(1) by (simp add: mem_ok_iff)
  define j where "j = min (nat n - 1) (bm_length ?b)"
  have j: "(if n - 1 < int_of_size (bm_length ?b) then n - 1 else int_of_size (bm_length ?b)) = int j"
    using len assms(2) by (auto simp: j_def min_def)
  show ?gets
  proof (cases "j = 0")
    case True
    have "mem_gets bio n = (0, [0], ?c)"
      using True assms(2) j unfolding mem_gets_def Let_def mem_of_simps j by simp
    moreover have "min (nat n - 1) (line_len (mem_bytes bio)) = 0"
      using True line_len_le [of "mem_bytes bio"] assms(1) by (auto simp: j_def min_def split: if_splits)
    moreover have "mem_bytes ?c = mem_bytes bio" by (simp add: mem_bytes_def)
    ultimately show ?thesis using assms(1) by simp
  next
    case False
    then have l0: "bm_length ?b \<noteq> 0" by (simp add: j_def)
    obtain d where d: "bm_data ?b = Some d" "mem_bytes bio = take (bm_length ?b) (drop (bm_off ?b) d)"
      using mem_data [OF assms(1) l0] by blast
    define i where "i = line_len (take j (mem_bytes bio))"
    have t: "take j (drop (bm_off ?b) d) = take j (mem_bytes bio)" using d(2) by (simp add: j_def min_def)
    have jl: "j \<le> length (mem_bytes bio)" using assms(1) by (simp add: j_def)
    have i: "i = min (nat n - 1) (line_len (mem_bytes bio))"
      using line_len_take [OF jl] line_len_le [of "mem_bytes bio"] assms(1) by (auto simp: i_def j_def min_def)
    have "mem_bytes bio \<noteq> []" using jl False by auto
    then have i0: "0 < i" using i False by (cases "mem_bytes bio") (auto simp: j_def)
    have i31: "int i < 2 ^ 31" using i assms(2,3) by linarith
    have il: "i \<le> length (mem_bytes bio)" using i line_len_le [of "mem_bytes bio"] by simp
    have g: "mem_gets bio n = (case mem_read ?c (int i) of (ret, out, bio) \<Rightarrow> (ret, if ret > 0 then out @ [0] else out, bio))"
      using False unfolding mem_gets_def Let_def mem_of_simps j by (simp add: d(1) t i_def)
    have cb: "mem_bytes ?c = mem_bytes bio" by (simp add: mem_bytes_def)
    from mem_read_bytes [of ?c "int i"] i0 i31 assms(1) obtain ret bio'
      where r: "mem_read ?c (int i) = (ret, take i (mem_bytes bio), bio')" "mem_ok bio'"
        "mem_bytes bio' = drop i (mem_bytes bio)"
        "ret = (if mem_bytes bio \<noteq> [] then int (min i (length (mem_bytes bio))) else bio_num ?c)"
      by (auto simp: cb)
    have "ret = int i" using r(4) il i0 by auto
    then have "mem_gets bio n = (int i, take i (mem_bytes bio) @ [0], bio')" using g r(1) i0 by simp
    with r(2,3) i show ?thesis by blast
  qed
qed

text \<open>A sequence of reads.\<close>

fun mem_reads :: "bio \<Rightarrow> int list \<Rightarrow> bio" where
  "mem_reads bio [] = bio"
| "mem_reads bio (n # ns) = mem_reads (snd (snd (mem_read bio n))) ns"

lemma mem_reads_block:
  assumes "mem_ok bio" "rdonly bio" "\<forall>n \<in> set ns. 0 < n \<and> n < 2 ^ 31"
  shows "mem_ok (mem_reads bio ns) \<and> rdonly (mem_reads bio ns) \<and> mem_block (mem_reads bio ns) = mem_block bio"
  using assms
proof (induction ns arbitrary: bio)
  case (Cons n ns)
  from mem_read_bytes [OF Cons.prems(1), of n] Cons.prems(3) obtain ret bio'
    where "mem_read bio n = (ret, take (nat n) (mem_bytes bio), bio')" "mem_ok bio'" "rdonly bio' = rdonly bio"
      "mem_block bio' = mem_block bio" using Cons.prems(2) by auto
  with Cons.IH [of bio'] Cons.prems(2,3) show ?case by simp
qed simp

text \<open>Resetting a read-only memory BIO takes it back to all the bytes it was made of, however much of it
has been read.\<close>

theorem mem_reset_rdonly:
  assumes "mem_ok bio" "rdonly bio" "bm_data (mem_of bio) = Some d" "\<forall>n \<in> set ns. 0 < n \<and> n < 2 ^ 31"
  shows "mem_bytes (snd (mem_ctrl (mem_reads bio ns) BIO_CTRL_RESET 0 None)) = take (bm_max (mem_of bio)) d"
proof -
  let ?r = "mem_reads bio ns"
  note r = mem_reads_block [OF assms(1,2,4)]
  then have m: "bm_data (mem_of ?r) = Some d" "bm_max (mem_of ?r) = bm_max (mem_of bio)"
    using assms(3) by (simp_all add: mem_block_def)
  with r show ?thesis
    by (simp add: mem_ctrl_def Let_def mem_bytes_def bm_bytes_def mem_ok_iff)
qed

section \<open>The memory BIO as a pipe\<close>

definition mem_send :: "malloc_fn \<Rightarrow> bio \<Rightarrow> u8 list \<Rightarrow> (int \<times> bio) option" where
  "mem_send mal bio data = (case mem_write mal bio data (int (length data)) of (ret, _, bio') \<Rightarrow> Some (ret, bio'))"

definition mem_recv :: "bio \<Rightarrow> int \<Rightarrow> (int \<times> u8 list \<times> bio) option" where
  "mem_recv bio n = Some (mem_read bio n)"

interpretation mem: byte_pipe "\<lambda>bio. malloc_bounded mal \<and> mem_ok bio \<and> \<not> rdonly bio" mem_bytes "mem_send mal" mem_recv
proof unfold_locales
  fix bio :: bio and data :: "u8 list"
  assume h: "malloc_bounded mal \<and> mem_ok bio \<and> \<not> rdonly bio" "data \<noteq> []" "length data < 2 ^ 31"
  from mem_write_bytes [of bio mal data] h show "\<exists>ret w'. mem_send mal bio data = Some (ret, w') \<and>
      (malloc_bounded mal \<and> mem_ok w' \<and> \<not> rdonly w') \<and> mem_bytes w' = mem_bytes bio @ take (nat ret) data"
    by (auto simp: mem_send_def)
next
  fix bio :: bio and n :: int
  assume h: "malloc_bounded mal \<and> mem_ok bio \<and> \<not> rdonly bio" "0 < n" "n < 2 ^ 31"
  from mem_read_bytes [of bio n] h show "\<exists>ret out w'. mem_recv bio n = Some (ret, out, w') \<and>
      (malloc_bounded mal \<and> mem_ok w' \<and> \<not> rdonly w') \<and> mem_bytes bio = out @ mem_bytes w' \<and>
      (mem_bytes bio \<noteq> [] \<longrightarrow> out \<noteq> [])"
    by (auto simp: mem_recv_def)
qed

text \<open>Over any sequence of writes and reads a memory BIO gives back exactly the bytes it accepted, in
order, and a write it accepts is accepted whole.\<close>

theorem mem_pipe:
  assumes "malloc_bounded mal" "mem_ok bio" "\<not> rdonly bio" "list_all fits_int steps"
  shows "\<exists>acc rcv bio'. run_pipe (mem_send mal) mem_recv bio steps = Some (acc, rcv, bio') \<and>
    mem_ok bio' \<and> mem_bytes bio @ acc = rcv @ mem_bytes bio'"
  using mem.run_pipe_conserves [of mal bio steps] assms by blast

section \<open>Concrete memory BIOs\<close>

definition text_bio :: bio where
  "text_bio = zero_bio\<lparr>bio_meth := Some Method_mem, bio_init := True, bio_flags := 0x200,
     bio_ptr := Ptr_mem \<lparr>bm_length = 4, bm_data = Some [65, 10, 66, 67], bm_max = 4, bm_off = 0\<rparr>\<rparr>"

definition empty_mem_bio :: bio where
  "empty_mem_bio = zero_bio\<lparr>bio_meth := Some Method_mem, bio_init := True, bio_num := -1,
     bio_ptr := Ptr_mem \<lparr>bm_length = 0, bm_data = None, bm_max = 0, bm_off = 0\<rparr>\<rparr>"

lemma text_bio_ok: "mem_ok text_bio" "rdonly text_bio" "mem_bytes text_bio = [65, 10, 66, 67]"
  by (simp_all add: text_bio_def mem_ok_def rdonly_def BIO_FLAGS_MEM_RDONLY_def mem_bytes_def bm_bytes_def mem_of_def zero_bio_def)

lemma empty_mem_bio_ok: "mem_ok empty_mem_bio" "\<not> rdonly empty_mem_bio" "mem_bytes empty_mem_bio = []"
  by (simp_all add: empty_mem_bio_def mem_ok_def rdonly_def mem_bytes_def bm_bytes_def mem_of_def zero_bio_def buf_mem_ok_def)

theorem mem_read_gets_fifo_witness:
  "\<exists>bio'. mem_gets text_bio 9 = (2, [65, 10, 0], bio') \<and> mem_bytes bio' = [66, 67]"
  using mem_read_gets_fifo [OF text_bio_ok(1), of 9] by (auto simp: text_bio_ok)

theorem mem_reset_rdonly_witness:
  "mem_bytes (snd (mem_ctrl (mem_reads text_bio [1, 2]) BIO_CTRL_RESET 0 None)) = [65, 10, 66, 67]"
  using mem_reset_rdonly [OF text_bio_ok(1,2), of "[65, 10, 66, 67]" "[1, 2]"]
  by (simp add: text_bio_def mem_of_def)

theorem mem_pipe_witness:
  "\<exists>acc rcv bio'. run_pipe (mem_send roomy_malloc) mem_recv empty_mem_bio [Send [1, 2, 3], Recv 2, Send [4], Recv 9] =
     Some (acc, rcv, bio') \<and> acc = rcv @ mem_bytes bio'"
  using mem_pipe [OF roomy_malloc_ok(1) empty_mem_bio_ok(1,2), of "[Send [1, 2, 3], Recv 2, Send [4], Recv 9]"]
  by (auto simp: empty_mem_bio_ok fits_int_def)

end
