(* ===== verification/BioIo.thy ===== *)
theory BioIo
  imports BioMem Der
begin

text \<open>
  The entry points of \<^verbatim>\<open>crypto/bio/bio.c\<close> (and the constructors of \<^verbatim>\<open>bio_mem.c\<close> and \<^verbatim>\<open>pair.c\<close>,
  and the reference counts of \<^verbatim>\<open>crypto/refcount_lock.c\<close>): they look up the method of a BIO and call
  it. A BIO argument may be NULL (\<open>None\<close>), a buffer argument may not. A result \<open>None\<close> of a function
  that loops is a loop that does not end.
\<close>

section \<open>Reference counts, creation and release\<close>

definition CRYPTO_REFCOUNT_MAX :: nat where
  "CRYPTO_REFCOUNT_MAX = 0xffffffff"

definition CRYPTO_refcount_inc :: "nat \<Rightarrow> nat" where
  "CRYPTO_refcount_inc cnt = (if cnt < CRYPTO_REFCOUNT_MAX then cnt + 1 else cnt)"

text \<open>\<open>None\<close> is the abort on a count of zero.\<close>

definition CRYPTO_refcount_dec_and_test_zero :: "nat \<Rightarrow> (bool \<times> nat) option" where
  "CRYPTO_refcount_dec_and_test_zero cnt =
     (if cnt = 0 then None
      else (let cnt = (if cnt < CRYPTO_REFCOUNT_MAX then cnt - 1 else cnt)
            in Some (cnt = 0, cnt)))"

definition sizeof_BIO :: nat where
  "sizeof_BIO = 96"

definition put_errors :: "put_error list \<Rightarrow> bio_world \<Rightarrow> bio_world" where
  "put_errors errs w = w\<lparr>w_errors := w_errors w @ errs\<rparr>"

text \<open>A BIO whose method has not run yet.\<close>

definition blank_bio :: "bio_method \<Rightarrow> bio" where
  "blank_bio m = \<lparr>bio_meth = Some m, bio_init = False, bio_shutdown = 1, bio_flags = 0, bio_retry_reason = 0,
     bio_num = 0, bio_references = 1, bio_ptr = Ptr_NULL, bio_next = None, bio_num_read = 0, bio_num_write = 0\<rparr>"

text \<open>\<open>p\<close> is the address of the new BIO. The result says whether one was made.\<close>

definition BIO_new :: "malloc_fn \<Rightarrow> bio_method \<Rightarrow> nat \<Rightarrow> bio_world \<Rightarrow> bool \<times> bio_world" where
  "BIO_new mal m p w =
     (case OPENSSL_malloc mal sizeof_BIO of
        None \<Rightarrow> (False, put_error ERR_LIB_BIO ERR_R_MALLOC_FAILURE w)
      | Some _ \<Rightarrow>
          (case (case m of
                   Method_mem \<Rightarrow> mem_new mal (blank_bio m)
                 | Method_pair \<Rightarrow> ([], pair_new mal (blank_bio m))) of
             (errs, None) \<Rightarrow> (False, put_errors errs w)
           | (errs, Some bio) \<Rightarrow> (True, set_bio p bio (put_errors errs w))))"

definition BIO_up_ref :: "bio_world \<Rightarrow> nat \<Rightarrow> bio_world" where
  "BIO_up_ref w p =
     set_bio p ((bio_at w p)\<lparr>bio_references := CRYPTO_refcount_inc (bio_references (bio_at w p))\<rparr>) w"

definition bio_destroy :: "bio_world \<Rightarrow> nat \<Rightarrow> bio_world" where
  "bio_destroy w p =
     (case bio_meth (bio_at w p) of
        None \<Rightarrow> w
      | Some Method_mem \<Rightarrow> set_bio p (mem_free (bio_at w p)) w
      | Some Method_pair \<Rightarrow> pair_free w p)"

definition free_bio :: "nat \<Rightarrow> bio_world \<Rightarrow> bio_world" where
  "free_bio p w = w\<lparr>w_bios := (w_bios w)(p := None)\<rparr>"

text \<open>\<open>None\<close> is also the abort of the reference count.\<close>

partial_function (option) bio_free_loop :: "bio_world \<Rightarrow> nat option \<Rightarrow> (bool \<times> bio_world) option" where
  "bio_free_loop w bio =
     (case bio of
        None \<Rightarrow> Some (True, w)
      | Some p \<Rightarrow>
          (case CRYPTO_refcount_dec_and_test_zero (bio_references (bio_at w p)) of
             None \<Rightarrow> None
           | Some (zero, cnt) \<Rightarrow>
               (let w = set_bio p ((bio_at w p)\<lparr>bio_references := cnt\<rparr>) w
                in if \<not> zero then Some (False, w)
                   else
                     (case BIO_pop w (Some p) of
                        (next_bio, w) \<Rightarrow> bio_free_loop (free_bio p (bio_destroy w p)) next_bio))))"

definition BIO_free :: "bio_world \<Rightarrow> nat option \<Rightarrow> (bool \<times> bio_world) option" where
  "BIO_free w bio = bio_free_loop w bio"

definition BIO_new_mem_buf ::
  "malloc_fn \<Rightarrow> u8 list option \<Rightarrow> int \<Rightarrow> nat \<Rightarrow> bio_world \<Rightarrow> bool \<times> bio_world" where
  "BIO_new_mem_buf mal buf len p w =
     (let n = (if len < 0 then c_strlen (the buf) else nat len)
      in if buf = None \<and> len \<noteq> 0 then (False, put_error ERR_LIB_BIO BIO_R_NULL_PARAMETER w)
         else
           (case BIO_new mal Method_mem p w of
              (False, w) \<Rightarrow> (False, w)
            | (True, w) \<Rightarrow>
                (let bio = bio_at w p; b = (mem_of bio)\<lparr>bm_data := buf, bm_length := n, bm_max := n\<rparr>
                 in (True, set_bio p (bio\<lparr>bio_ptr := Ptr_mem b, bio_flags := bio_flags bio OR BIO_FLAGS_MEM_RDONLY,
                                         bio_num := 0\<rparr>) w))))"

text \<open>The addresses of the two new BIOs are \<open>p1\<close> and \<open>p2\<close>.\<close>

definition BIO_new_bio_pair ::
  "malloc_fn \<Rightarrow> nat \<Rightarrow> nat \<Rightarrow> nat \<Rightarrow> nat \<Rightarrow> bio_world \<Rightarrow> (bool \<times> bio_world) option" where
  "BIO_new_bio_pair mal p1 writebuf1_len p2 writebuf2_len w =
     (case BIO_new mal Method_pair p1 w of
        (ok1, w) \<Rightarrow>
          (case BIO_new mal Method_pair p2 w of
             (ok2, w) \<Rightarrow>
               (case (if ok1 \<and> ok2 then bio_make_pair mal w p1 p2 writebuf1_len writebuf2_len else (False, w)) of
                  (True, w) \<Rightarrow> Some (True, w)
                | (False, w) \<Rightarrow>
                    (case BIO_free w (if ok1 then Some p1 else None) of
                       None \<Rightarrow> None
                     | Some (_, w) \<Rightarrow>
                         map_option (\<lambda>(_, w). (False, w)) (BIO_free w (if ok2 then Some p2 else None))))))"

section \<open>Reading and writing\<close>

definition bio_bread :: "bio_world \<Rightarrow> nat \<Rightarrow> bio_method \<Rightarrow> int \<Rightarrow> (int \<times> u8 list \<times> bio_world) option" where
  "bio_bread w p m len =
     (case m of
        Method_mem \<Rightarrow> (case mem_read (bio_at w p) len of (ret, out, bio) \<Rightarrow> Some (ret, out, set_bio p bio w))
      | Method_pair \<Rightarrow> bio_read w p True len)"

definition BIO_read :: "bio_world \<Rightarrow> nat option \<Rightarrow> int \<Rightarrow> (int \<times> u8 list \<times> bio_world) option" where
  "BIO_read w bio len =
     (case (case bio of None \<Rightarrow> None | Some p \<Rightarrow> map_option (Pair p) (bio_meth (bio_at w p))) of
        None \<Rightarrow> Some (-2, [], put_error ERR_LIB_BIO BIO_R_UNSUPPORTED_METHOD w)
      | Some (p, m) \<Rightarrow>
          if \<not> bio_init (bio_at w p) then Some (-2, [], put_error ERR_LIB_BIO BIO_R_UNINITIALIZED w)
          else if len \<le> 0 then Some (0, [], w)
          else
            (case bio_bread w p m len of
               None \<Rightarrow> None
             | Some (ret, out, w) \<Rightarrow>
                 Some (ret, out,
                   if ret > 0
                   then set_bio p ((bio_at w p)\<lparr>bio_num_read := sz (bio_num_read (bio_at w p) + nat ret)\<rparr>) w
                   else w)))"

text \<open>A BIO pair has no \<open>bgets\<close>.\<close>

definition BIO_gets :: "bio_world \<Rightarrow> nat option \<Rightarrow> int \<Rightarrow> int \<times> u8 list \<times> bio_world" where
  "BIO_gets w bio len =
     (case (case bio of None \<Rightarrow> None | Some p \<Rightarrow> map_option (Pair p) (bio_meth (bio_at w p))) of
        Some (p, Method_mem) \<Rightarrow>
          if \<not> bio_init (bio_at w p) then (-2, [], put_error ERR_LIB_BIO BIO_R_UNINITIALIZED w)
          else if len \<le> 0 then (0, [], w)
          else
            (case mem_gets (bio_at w p) len of
               (ret, out, b) \<Rightarrow>
                 (ret, out,
                  set_bio p (if ret > 0 then b\<lparr>bio_num_read := sz (bio_num_read b + nat ret)\<rparr> else b) w))
      | _ \<Rightarrow> (-2, [], put_error ERR_LIB_BIO BIO_R_UNSUPPORTED_METHOD w))"

definition bio_bwrite :: "malloc_fn \<Rightarrow> bio_world \<Rightarrow> nat \<Rightarrow> bio_method \<Rightarrow> u8 list \<Rightarrow> int \<Rightarrow> (int \<times> bio_world) option" where
  "bio_bwrite mal w p m src inl =
     (case m of
        Method_mem \<Rightarrow>
          (case mem_write mal (bio_at w p) src inl of (ret, errs, bio) \<Rightarrow> Some (ret, set_bio p bio (put_errors errs w)))
      | Method_pair \<Rightarrow> bio_write w p (Some src) inl)"

definition BIO_write ::
  "malloc_fn \<Rightarrow> bio_world \<Rightarrow> nat option \<Rightarrow> u8 list \<Rightarrow> int \<Rightarrow> (int \<times> bio_world) option" where
  "BIO_write mal w bio src inl =
     (case (case bio of None \<Rightarrow> None | Some p \<Rightarrow> map_option (Pair p) (bio_meth (bio_at w p))) of
        None \<Rightarrow> Some (-2, put_error ERR_LIB_BIO BIO_R_UNSUPPORTED_METHOD w)
      | Some (p, m) \<Rightarrow>
          if \<not> bio_init (bio_at w p) then Some (-2, put_error ERR_LIB_BIO BIO_R_UNINITIALIZED w)
          else if inl \<le> 0 then Some (0, w)
          else
            (case bio_bwrite mal w p m src inl of
               None \<Rightarrow> None
             | Some (ret, w) \<Rightarrow>
                 Some (ret,
                   if ret > 0
                   then set_bio p ((bio_at w p)\<lparr>bio_num_write := sz (bio_num_write (bio_at w p) + nat ret)\<rparr>) w
                   else w)))"

partial_function (option) BIO_write_all ::
  "malloc_fn \<Rightarrow> bio_world \<Rightarrow> nat option \<Rightarrow> u8 list \<Rightarrow> (bool \<times> bio_world) option" where
  "BIO_write_all mal w bio data =
     (if data = [] then Some (True, w)
      else
        (case BIO_write mal w bio data (if length data > INT_MAX then int INT_MAX else int (length data)) of
           None \<Rightarrow> None
         | Some (ret, w) \<Rightarrow>
             if ret \<le> 0 then Some (False, w) else BIO_write_all mal w bio (drop (nat ret) data)))"

definition BIO_puts :: "malloc_fn \<Rightarrow> bio_world \<Rightarrow> nat option \<Rightarrow> u8 list \<Rightarrow> (int \<times> bio_world) option" where
  "BIO_puts mal w bio str = BIO_write mal w bio (c_str str) (int_of_size (c_strlen str))"

fun indent_loop :: "malloc_fn \<Rightarrow> nat \<Rightarrow> bio_world \<Rightarrow> nat option \<Rightarrow> (bool \<times> bio_world) option" where
  "indent_loop mal 0 w bio = Some (True, w)"
| "indent_loop mal (Suc indent) w bio =
     (case BIO_puts mal w bio [32, 0] of
        None \<Rightarrow> None
      | Some (ret, w) \<Rightarrow> if ret \<noteq> 1 then Some (False, w) else indent_loop mal indent w bio)"

definition BIO_indent :: "malloc_fn \<Rightarrow> bio_world \<Rightarrow> nat option \<Rightarrow> nat \<Rightarrow> nat \<Rightarrow> (bool \<times> bio_world) option" where
  "BIO_indent mal w bio indent max_indent =
     indent_loop mal (if indent > max_indent then max_indent else indent) w bio"

section \<open>Control\<close>

text \<open>The pointer argument of \<open>BIO_ctrl\<close>: NULL, a BIO or a \<open>BUF_MEM\<close>.\<close>

datatype ctrl_arg = Arg_NULL | Arg_bio nat | Arg_buf buf_mem

definition BIO_ctrl :: "bio_world \<Rightarrow> nat option \<Rightarrow> bio_cmd \<Rightarrow> int \<Rightarrow> ctrl_arg \<Rightarrow> int \<times> bio_world" where
  "BIO_ctrl w bio cmd larg parg =
     (case bio of
        None \<Rightarrow> (0, w)
      | Some p \<Rightarrow>
          (case bio_meth (bio_at w p) of
             None \<Rightarrow> (-2, put_error ERR_LIB_BIO BIO_R_UNSUPPORTED_METHOD w)
           | Some Method_mem \<Rightarrow>
               (case mem_ctrl (bio_at w p) cmd larg (case parg of Arg_buf b \<Rightarrow> Some b | _ \<Rightarrow> None) of
                  (ret, b) \<Rightarrow> (ret, set_bio p b w))
           | Some Method_pair \<Rightarrow> pair_ctrl w p cmd larg (case parg of Arg_bio q \<Rightarrow> Some q | _ \<Rightarrow> None)))"

definition BIO_flush :: "bio_world \<Rightarrow> nat option \<Rightarrow> int \<times> bio_world" where
  "BIO_flush w bio = (case BIO_ctrl w bio BIO_CTRL_FLUSH 0 Arg_NULL of (r, w) \<Rightarrow> (int_of_long r, w))"

definition BIO_reset :: "bio_world \<Rightarrow> nat option \<Rightarrow> int \<times> bio_world" where
  "BIO_reset w bio = (case BIO_ctrl w bio BIO_CTRL_RESET 0 Arg_NULL of (r, w) \<Rightarrow> (int_of_long r, w))"

definition BIO_eof :: "bio_world \<Rightarrow> nat option \<Rightarrow> int \<times> bio_world" where
  "BIO_eof w bio = (case BIO_ctrl w bio BIO_CTRL_EOF 0 Arg_NULL of (r, w) \<Rightarrow> (int_of_long r, w))"

definition BIO_set_close :: "bio_world \<Rightarrow> nat option \<Rightarrow> int \<Rightarrow> int \<times> bio_world" where
  "BIO_set_close w bio close_flag =
     (case BIO_ctrl w bio BIO_CTRL_SET_CLOSE close_flag Arg_NULL of (r, w) \<Rightarrow> (int_of_long r, w))"

text \<open>A negative result, which the code asserts away, counts as zero.\<close>

definition BIO_pending :: "bio_world \<Rightarrow> nat option \<Rightarrow> nat" where
  "BIO_pending w bio = (let r = fst (BIO_ctrl w bio BIO_CTRL_PENDING 0 Arg_NULL) in if r < 0 then 0 else nat r)"

definition BIO_ctrl_pending :: "bio_world \<Rightarrow> nat option \<Rightarrow> nat" where
  "BIO_ctrl_pending w bio = BIO_pending w bio"

definition BIO_wpending :: "bio_world \<Rightarrow> nat option \<Rightarrow> nat" where
  "BIO_wpending w bio = (let r = fst (BIO_ctrl w bio BIO_CTRL_WPENDING 0 Arg_NULL) in if r < 0 then 0 else nat r)"

definition BIO_ctrl_get_read_request :: "bio_world \<Rightarrow> nat option \<Rightarrow> nat" where
  "BIO_ctrl_get_read_request w bio = size_of_int (fst (BIO_ctrl w bio BIO_C_GET_READ_REQUEST 0 Arg_NULL))"

definition BIO_ctrl_get_write_guarantee :: "bio_world \<Rightarrow> nat option \<Rightarrow> nat" where
  "BIO_ctrl_get_write_guarantee w bio = size_of_int (fst (BIO_ctrl w bio BIO_C_GET_WRITE_GUARANTEE 0 Arg_NULL))"

definition BIO_shutdown_wr :: "bio_world \<Rightarrow> nat option \<Rightarrow> int \<times> bio_world" where
  "BIO_shutdown_wr w bio = (case BIO_ctrl w bio BIO_C_SHUTDOWN_WR 0 Arg_NULL of (r, w) \<Rightarrow> (int_of_long r, w))"

definition BIO_set_mem_eof_return :: "bio_world \<Rightarrow> nat option \<Rightarrow> int \<Rightarrow> int \<times> bio_world" where
  "BIO_set_mem_eof_return w bio eof_value =
     (case BIO_ctrl w bio BIO_C_SET_BUF_MEM_EOF_RETURN eof_value Arg_NULL of (r, w) \<Rightarrow> (int_of_long r, w))"

definition BIO_set_mem_buf :: "bio_world \<Rightarrow> nat option \<Rightarrow> buf_mem \<Rightarrow> int \<Rightarrow> int \<times> bio_world" where
  "BIO_set_mem_buf w bio b take_ownership =
     (case BIO_ctrl w bio BIO_C_SET_BUF_MEM take_ownership (Arg_buf b) of (r, w) \<Rightarrow> (int_of_long r, w))"

section \<open>Reading whole objects\<close>

text \<open>Whether all of \<open>len\<close> bytes were read, those that were, \<open>*out_eof_on_first_read\<close> and the heap.\<close>

partial_function (option) read_full_loop ::
  "bio_world \<Rightarrow> nat option \<Rightarrow> bool \<Rightarrow> nat \<Rightarrow> u8 list \<Rightarrow> (bool \<times> u8 list \<times> bool \<times> bio_world) option" where
  "read_full_loop w bio first_read len out =
     (if len = 0 then Some (True, out, False, w)
      else
        (case BIO_read w bio (if len \<le> INT_MAX then int len else int INT_MAX) of
           None \<Rightarrow> None
         | Some (ret, bytes, w) \<Rightarrow>
             if ret \<le> 0 then Some (False, out, first_read \<and> ret = 0, w)
             else read_full_loop w bio False (len - nat ret) (out @ bytes)))"

definition bio_read_full ::
  "bio_world \<Rightarrow> nat option \<Rightarrow> nat \<Rightarrow> (bool \<times> u8 list \<times> bool \<times> bio_world) option" where
  "bio_read_full w bio len = read_full_loop w bio True len []"

definition kChunkSize :: nat where
  "kChunkSize = 4096"

text \<open>
  How a function that fills a block of its own ends: it fails, it gives the block, an \<open>assert\<close> of it
  is violated, or it has left its block (it lets memory outside be written, or hands out more bytes
  than the block has).
\<close>

datatype 'a ended = Fails | Gives 'a | Aborts | Outside

text \<open>
  The loop of \<open>bio_read_all\<close>. \<open>len\<close> is the size of the block, \<open>out\<close> what has been written to it and
  \<open>done\<close> the count of the bytes that are done; both sizes wrap as \<open>size_t\<close> does. The code tests for 0
  and -1 only: another negative result is added to \<open>done\<close> like a number of bytes.
\<close>

partial_function (option) read_all_loop ::
  "malloc_fn \<Rightarrow> bio_world \<Rightarrow> nat option \<Rightarrow> nat \<Rightarrow> nat \<Rightarrow> nat \<Rightarrow> u8 list \<Rightarrow> (u8 list ended \<times> bio_world) option" where
  "read_all_loop mal w bio max_len len done_len out =
     (if done_len = len then Some (Fails, w)
      else
        (let todo = size_of_int (int len - int done_len)
         in if \<not> todo < INT_MAX then Some (Aborts, w)
            else
              (case BIO_read w bio (int_of_size todo) of
                 None \<Rightarrow> None
               | Some (n, bytes, w) \<Rightarrow>
                   if n = 0 then Some (if done_len \<le> len then Gives (take done_len out) else Outside, w)
                   else if n = -1 then Some (Fails, w)
                   else if n > 0 \<and> len < done_len then Some (Outside, w)
                   else
                     (let out = (if n > 0 then take done_len out @ bytes else out);
                          done_len = size_of_int (int done_len + n)
                      in if len < max_len \<and> size_of_int (int len - int done_len) < kChunkSize div 2 then
                           (let len = sz (len + kChunkSize); len = (if len < kChunkSize \<or> len > max_len then max_len else len)
                            in case OPENSSL_malloc mal len of
                                 None \<Rightarrow> Some (Fails, w)
                               | Some _ \<Rightarrow> read_all_loop mal w bio max_len len done_len out)
                         else read_all_loop mal w bio max_len len done_len out))))"

definition bio_read_all ::
  "malloc_fn \<Rightarrow> bio_world \<Rightarrow> nat option \<Rightarrow> u8 list \<Rightarrow> nat \<Rightarrow> (u8 list ended \<times> bio_world) option" where
  "bio_read_all mal w bio prefix max_len =
     (let len = sz (length prefix + kChunkSize); len = (if len > max_len then max_len else len)
      in if len < length prefix then Some (Fails, w)
         else
           (case OPENSSL_malloc mal len of
              None \<Rightarrow> Some (Fails, w)
            | Some _ \<Rightarrow> read_all_loop mal w bio max_len len (length prefix) prefix))"

definition ERR_LIB_ASN1 :: nat where
  "ERR_LIB_ASN1 = 12"

definition ASN1_R_DECODE_ERROR :: nat where
  "ASN1_R_DECODE_ERROR = 109"

definition ASN1_R_HEADER_TOO_LONG :: nat where
  "ASN1_R_HEADER_TOO_LONG = 123"

definition ASN1_R_NOT_ENOUGH_DATA :: nat where
  "ASN1_R_NOT_ENOUGH_DATA = 162"

definition ASN1_R_TOO_LONG :: nat where
  "ASN1_R_TOO_LONG = 177"

definition kInitialHeaderLen :: nat where
  "kInitialHeaderLen = 2"

text \<open>The big-endian length after the first length byte, in 32 bits.\<close>

definition asn1_len32 :: "u8 list \<Rightarrow> u32" where
  "asn1_len32 bs = foldl (\<lambda>len32 b. push_bit 8 len32 OR ucast b) 0 bs"

text \<open>The end of \<open>BIO_read_asn1\<close>, once the length of the contents and the header are known.\<close>

definition read_asn1_body ::
  "malloc_fn \<Rightarrow> bio_world \<Rightarrow> nat option \<Rightarrow> u8 list \<Rightarrow> nat \<Rightarrow> nat \<Rightarrow> (u8 list ended \<times> bio_world) option" where
  "read_asn1_body mal w bio header len max_len =
     (let header_len = length header
      in if sz (len + header_len) < len \<or> sz (len + header_len) > max_len \<or> len > INT_MAX
         then Some (Fails, put_error ERR_LIB_ASN1 ASN1_R_TOO_LONG w)
         else
           (case OPENSSL_malloc mal (sz (len + header_len)) of
              None \<Rightarrow> Some (Fails, put_error ERR_LIB_ASN1 ERR_R_MALLOC_FAILURE w)
            | Some _ \<Rightarrow>
                (case bio_read_full w bio (sz (len + header_len) - header_len) of
                   None \<Rightarrow> None
                 | Some (True, body, _, w) \<Rightarrow> Some (Gives (header @ body), w)
                 | Some (False, _, _, w) \<Rightarrow> Some (Fails, put_error ERR_LIB_ASN1 ASN1_R_NOT_ENOUGH_DATA w))))"

definition BIO_read_asn1 ::
  "malloc_fn \<Rightarrow> bio_world \<Rightarrow> nat option \<Rightarrow> nat \<Rightarrow> (u8 list ended \<times> bio_world) option" where
  "BIO_read_asn1 mal w bio max_len =
     (case bio_read_full w bio kInitialHeaderLen of
        None \<Rightarrow> None
      | Some (False, _, eof_on_first_read, w) \<Rightarrow>
          Some (Fails, put_error ERR_LIB_ASN1
                  (if eof_on_first_read then ASN1_R_HEADER_TOO_LONG else ASN1_R_NOT_ENOUGH_DATA) w)
      | Some (True, header, _, w) \<Rightarrow>
          (let tag = header ! 0; length_byte = header ! 1
           in if tag AND 0x1f = 0x1f then Some (Fails, put_error ERR_LIB_ASN1 ASN1_R_DECODE_ERROR w)
              else if length_byte AND 0x80 = 0 then read_asn1_body mal w bio header (unat length_byte) max_len
              else
                (let num_bytes = unat (length_byte AND 0x7f)
                 in if tag AND 0x20 \<noteq> 0 \<and> num_bytes = 0 then
                      (case bio_read_all mal w bio header max_len of
                         None \<Rightarrow> None
                       | Some (Fails, w) \<Rightarrow> Some (Fails, put_error ERR_LIB_ASN1 ASN1_R_NOT_ENOUGH_DATA w)
                       | Some (r, w) \<Rightarrow> Some (r, w))
                    else if num_bytes = 0 \<or> num_bytes > 4
                    then Some (Fails, put_error ERR_LIB_ASN1 ASN1_R_DECODE_ERROR w)
                    else
                      (case bio_read_full w bio num_bytes of
                         None \<Rightarrow> None
                       | Some (False, _, _, w) \<Rightarrow> Some (Fails, put_error ERR_LIB_ASN1 ASN1_R_NOT_ENOUGH_DATA w)
                       | Some (True, len_bytes, _, w) \<Rightarrow>
                           (let len32 = asn1_len32 len_bytes
                            in if len32 < 128 then Some (Fails, put_error ERR_LIB_ASN1 ASN1_R_DECODE_ERROR w)
                               else if drop_bit ((num_bytes - 1) * 8) len32 = 0
                               then Some (Fails, put_error ERR_LIB_ASN1 ASN1_R_DECODE_ERROR w)
                               else read_asn1_body mal w bio (header @ len_bytes) (unat len32) max_len)))))"



section \<open>Reading from a memory BIO\<close>

definition mem_at :: "bio_world \<Rightarrow> nat \<Rightarrow> u8 list \<Rightarrow> bool" where
  "mem_at w p xs \<longleftrightarrow> mem_ok (bio_at w p) \<and> mem_bytes (bio_at w p) = xs"

lemma mem_num_read [simp]:
  "mem_ok (b\<lparr>bio_num_read := k\<rparr>) = mem_ok b" "mem_bytes (b\<lparr>bio_num_read := k\<rparr>) = mem_bytes b"
  by (simp_all add: mem_ok_def rdonly_def mem_bytes_def mem_of_def)

lemma mem_at_length: "mem_at w p xs \<Longrightarrow> length xs < 2 ^ 31"
  using length_mem_bytes by (auto simp: mem_at_def mem_ok_iff)

lemma BIO_read_mem:
  assumes "mem_at w p xs" "0 < n" "n < 2 ^ 31"
  shows "\<exists>ret w'. BIO_read w (Some p) n = Some (ret, take (nat n) xs, w') \<and> mem_at w' p (drop (nat n) xs) \<and>
    w_errors w' = w_errors w \<and> bio_num (bio_at w' p) = bio_num (bio_at w p) \<and>
    ret = (if xs \<noteq> [] then int (min (nat n) (length xs)) else bio_num (bio_at w p))"
proof -
  have m: "bio_meth (bio_at w p) = Some Method_mem" "bio_init (bio_at w p)" "mem_ok (bio_at w p)" "mem_bytes (bio_at w p) = xs"
    using assms(1) by (simp_all add: mem_at_def mem_ok_iff)
  from mem_read_bytes [OF m(3) assms(2,3)] obtain ret b
    where b: "mem_read (bio_at w p) n = (ret, take (nat n) xs, b)" "mem_ok b" "mem_bytes b = drop (nat n) xs"
      "bio_num b = bio_num (bio_at w p)" "ret = (if xs \<noteq> [] then int (min (nat n) (length xs)) else bio_num (bio_at w p))"
    by (auto simp: m(4))
  then show ?thesis using assms(2) m(1,2) by (simp add: BIO_read_def bio_bread_def mem_at_def)
qed

lemma read_full_mem:
  assumes "mem_at w p xs" "len \<le> length xs"
  shows "\<exists>w'. read_full_loop w (Some p) fst' len out = Some (True, out @ take len xs, False, w') \<and>
    mem_at w' p (drop len xs) \<and> w_errors w' = w_errors w \<and> bio_num (bio_at w' p) = bio_num (bio_at w p)"
proof (cases "len = 0")
  case True
  with assms show ?thesis by (subst read_full_loop.simps) simp
next
  case False
  have l: "len < 2 ^ 31" using mem_at_length [OF assms(1)] assms(2) by simp
  then have n: "(if len \<le> INT_MAX then int len else int INT_MAX) = int len" by (simp add: INT_MAX_def)
  from BIO_read_mem [OF assms(1), of "int len"] False l obtain ret w'
    where r: "BIO_read w (Some p) (int len) = Some (ret, take len xs, w')" "mem_at w' p (drop len xs)"
      "w_errors w' = w_errors w" "bio_num (bio_at w' p) = bio_num (bio_at w p)"
      "ret = (if xs \<noteq> [] then int (min len (length xs)) else bio_num (bio_at w p))" by auto
  have "ret = int len" using r(5) False assms(2) by (auto simp: min_def)
  with r(1) False n have "read_full_loop w (Some p) fst' len out = read_full_loop w' (Some p) False 0 (out @ take len xs)"
    by (subst read_full_loop.simps) simp
  also have "\<dots> = Some (True, out @ take len xs, False, w')" by (subst read_full_loop.simps) simp
  finally show ?thesis using r by blast
qed

lemma read_full_mem_short:
  assumes "mem_at w p xs" "length xs < len" "len < 2 ^ 31" "bio_num (bio_at w p) \<le> 0"
  shows "\<exists>w'. read_full_loop w (Some p) fst' len out = Some (False, out @ xs, xs = [] \<and> fst' \<and> bio_num (bio_at w p) = 0, w') \<and>
    mem_at w' p [] \<and> w_errors w' = w_errors w"
proof -
  have n: "(if len \<le> INT_MAX then int len else int INT_MAX) = int len" if "len < 2 ^ 31" for len
    using that by (simp add: INT_MAX_def)
  have empty: "\<exists>w'. read_full_loop w (Some p) f len out = Some (False, out, f \<and> bio_num (bio_at w p) = 0, w') \<and>
      mem_at w' p [] \<and> w_errors w' = w_errors w"
    if "mem_at w p []" "0 < len" "len < 2 ^ 31" "bio_num (bio_at w p) \<le> 0" for w len f out
  proof -
    from BIO_read_mem [OF that(1), of "int len"] that obtain w'
      where r: "BIO_read w (Some p) (int len) = Some (bio_num (bio_at w p), [], w')" "mem_at w' p []" "w_errors w' = w_errors w"
      by auto
    with n [OF that(3)] that(2,4) show ?thesis by (subst read_full_loop.simps) simp
  qed
  show ?thesis
  proof (cases "xs = []")
    case True
    with empty [of w len fst' out] assms show ?thesis by auto
  next
    case False
    from BIO_read_mem [OF assms(1), of "int len"] assms False obtain ret w'
      where r: "BIO_read w (Some p) (int len) = Some (ret, xs, w')" "mem_at w' p []"
        "w_errors w' = w_errors w" "bio_num (bio_at w' p) = bio_num (bio_at w p)" "ret = int (length xs)" by auto
    have "read_full_loop w (Some p) fst' len out = read_full_loop w' (Some p) False (len - length xs) (out @ xs)"
      using r(1,5) False assms(2) n [OF assms(3)] by (subst read_full_loop.simps) simp
    with empty [OF r(2), of "len - length xs" False "out @ xs"] assms r(3,4) False show ?thesis by auto
  qed
qed



section \<open>Reading an element\<close>

lemma asn1_len32_eq:
  "length bs \<le> 4 \<Longrightarrow> unat (asn1_len32 bs) = be_nat bs"
proof (induction bs rule: rev_induct)
  case Nil
  then show ?case by (simp add: asn1_len32_def)
next
  case (snoc b bs)
  then have ih: "unat (asn1_len32 bs) = be_nat bs" by simp
  have "be_nat bs < 256 ^ length bs" by (rule be_nat_lt)
  also have "\<dots> \<le> 256 ^ 3" using snoc.prems by (intro power_increasing) simp_all
  finally have "unat (asn1_len32 bs) * 2 ^ 8 < 2 ^ LENGTH(32)" using ih by simp
  moreover have "unat (ucast b :: u32) < 2 ^ 8" using unat_lt_pow [of b] by simp
  moreover have "asn1_len32 (bs @ [b]) = push_bit 8 (asn1_len32 bs) OR ucast b" by (simp add: asn1_len32_def)
  ultimately show ?case by (simp only: unat_shift_or ih be_nat_snoc unat_ucast_u8_u32) simp
qed

lemma der_len_long_header:
  assumes "0x7f < n" "n < 2 ^ 32"
  obtains k where "1 \<le> k" "k \<le> 4" "der_len n = word_of_nat (0x80 + k) # be_bytes k n" "n < 256 ^ k"
    "n div 256 ^ (k - 1) \<noteq> 0"
proof -
  consider "n \<le> 0xff" | "0xff < n" "n \<le> 0xffff" | "0xffff < n" "n \<le> 0xffffff" | "0xffffff < n" by linarith
  then show ?thesis
  proof cases
    case 1
    with assms that [of 1] show ?thesis by (simp add: der_len_def)
  next
    case 2
    with assms that [of 2] show ?thesis by (simp add: der_len_def div_greater_zero_iff)
  next
    case 3
    with assms that [of 3] show ?thesis by (simp add: der_len_def div_greater_zero_iff)
  next
    case 4
    with assms that [of 4] show ?thesis by (simp add: der_len_def div_greater_zero_iff)
  qed
qed

lemma read_asn1_body_mem:
  assumes "mem_at w p (xs @ rest)" "malloc_bounded mal" "OPENSSL_malloc mal (length header + length xs) \<noteq> None"
    and "length header + length xs \<le> max_len" "length header < 2 ^ 31"
  shows "\<exists>w'. read_asn1_body mal w (Some p) header (length xs) max_len = Some (Gives (header @ xs), w') \<and>
    mem_at w' p rest \<and> w_errors w' = w_errors w"
proof -
  have l: "length xs < 2 ^ 31" using mem_at_length [OF assms(1)] by simp
  have sz: "sz (length xs + length header) = length header + length xs" using l assms(5) by simp
  from read_full_mem [OF assms(1), of "length xs" True "[]"] obtain w'
    where "read_full_loop w (Some p) True (length xs) [] = Some (True, xs, False, w')" "mem_at w' p rest"
      "w_errors w' = w_errors w" by auto
  with assms(3,4) l show ?thesis
    by (auto simp: read_asn1_body_def Let_def sz INT_MAX_def bio_read_full_def)
qed

lemma BIO_read_asn1_short:
  assumes "mem_at w p (t # word_of_nat (length xs) # xs @ rest)" "t AND 0x1f \<noteq> 0x1f" "length xs \<le> 0x7f"
    and "malloc_bounded mal" "OPENSSL_malloc mal (2 + length xs) \<noteq> None" "2 + length xs \<le> max_len"
  shows "\<exists>w'. BIO_read_asn1 mal w (Some p) max_len = Some (Gives (t # word_of_nat (length xs) # xs), w') \<and>
    mem_at w' p rest \<and> w_errors w' = w_errors w"
proof -
  let ?l = "word_of_nat (length xs) :: u8"
  from read_full_mem [OF assms(1), of 2 True "[]"] obtain w1
    where w1: "read_full_loop w (Some p) True 2 [] = Some (True, [t, ?l], False, w1)" "mem_at w1 p (xs @ rest)"
      "w_errors w1 = w_errors w" by (auto simp: numeral_2_eq_2)
  have ul: "unat ?l = length xs" using assms(3) by (simp add: unat_of_nat)
  have "?l AND 0x80 = 0"
  proof -
    have "take_bit 7 ?l = ?l" by (rule take_bit_eq_self_of_unat) (use ul assms(3) in simp)
    then have "?l AND 0x80 = (take_bit 7 ?l) AND 0x80" by simp
    also have "\<dots> = 0" by (simp flip: and_0x7f add: and.assoc)
    finally show ?thesis .
  qed
  moreover from read_asn1_body_mem [OF w1(2) assms(4), of "[t, ?l]" max_len] assms(5,6) obtain w'
    where "read_asn1_body mal w1 (Some p) [t, ?l] (length xs) max_len = Some (Gives ([t, ?l] @ xs), w')"
      "mem_at w' p rest" "w_errors w' = w_errors w1" by auto
  ultimately show ?thesis
    using w1(1,3) assms(2) ul by (auto simp: BIO_read_asn1_def bio_read_full_def kInitialHeaderLen_def Let_def)
qed

lemma BIO_read_asn1_long:
  assumes "mem_at w p (t # der_len (length xs) @ xs @ rest)" "t AND 0x1f \<noteq> 0x1f" "0x7f < length xs"
    and "malloc_bounded mal" "OPENSSL_malloc mal (1 + length (der_len (length xs)) + length xs) \<noteq> None"
    and "1 + length (der_len (length xs)) + length xs \<le> max_len"
  shows "\<exists>w'. BIO_read_asn1 mal w (Some p) max_len = Some (Gives (t # der_len (length xs) @ xs), w') \<and>
    mem_at w' p rest \<and> w_errors w' = w_errors w"
proof -
  let ?n = "length xs"
  have "?n < 2 ^ 32" using mem_at_length [OF assms(1)] by simp
  then obtain k where k: "1 \<le> k" "k \<le> 4" "der_len ?n = word_of_nat (0x80 + k) # be_bytes k ?n" "?n < 256 ^ k"
    "?n div 256 ^ (k - 1) \<noteq> 0"
    by (rule der_len_long_header [OF assms(3)])
  let ?l = "word_of_nat (0x80 + k) :: u8"
  have ks: "k = 1 \<or> k = 2 \<or> k = 3 \<or> k = 4" using k(1,2) by auto
  have l: "?l AND 0x80 \<noteq> 0" "unat (?l AND 0x7f) = k" using ks by auto
  from read_full_mem [OF assms(1), of 2 True "[]"] k(3) obtain w1
    where w1: "read_full_loop w (Some p) True 2 [] = Some (True, [t, ?l], False, w1)"
      "mem_at w1 p (be_bytes k ?n @ xs @ rest)" "w_errors w1 = w_errors w" by (auto simp: numeral_2_eq_2)
  from read_full_mem [OF w1(2), of k True "[]"] obtain w2
    where w2: "read_full_loop w1 (Some p) True k [] = Some (True, be_bytes k ?n, False, w2)"
      "mem_at w2 p (xs @ rest)" "w_errors w2 = w_errors w1" by auto
  have u: "unat (asn1_len32 (be_bytes k ?n)) = ?n" using k by (simp add: asn1_len32_eq be_nat_be_bytes)
  have "\<not> asn1_len32 (be_bytes k ?n) < 128" using u assms(3) by (simp add: word_less_nat_alt)
  moreover have "drop_bit ((k - 1) * 8) (asn1_len32 (be_bytes k ?n)) \<noteq> 0"
  proof
    assume "drop_bit ((k - 1) * 8) (asn1_len32 (be_bytes k ?n)) = 0"
    then have "?n div 2 ^ ((k - 1) * 8) = 0" using u by (metis unat_drop_bit unsigned_0)
    moreover have "(2 :: nat) ^ ((k - 1) * 8) = 256 ^ (k - 1)" by (subst mult.commute, subst power_mult) simp
    ultimately show False using k(5) by simp
  qed
  moreover from read_asn1_body_mem [OF w2(2) assms(4), of "[t, ?l] @ be_bytes k ?n" max_len] assms(5,6) k(2,3) obtain w'
    where "read_asn1_body mal w2 (Some p) ([t, ?l] @ be_bytes k ?n) ?n max_len = Some (Gives (([t, ?l] @ be_bytes k ?n) @ xs), w')"
      "mem_at w' p rest" "w_errors w' = w_errors w2" by auto
  ultimately show ?thesis
    using w1(1,3) w2(1,3) assms(2) k l u
    by (auto simp: BIO_read_asn1_def bio_read_full_def kInitialHeaderLen_def Let_def)
qed


text \<open>C17: Over a memory BIO, \<open>BIO_read_asn1\<close> reads what the element reader of \<open>cbs.c\<close> would take from the
same bytes, when the tag has the one-byte form and the element fits \<open>max_len\<close> and memory: the
element comes back whole and the BIO is left with the rest.\<close>

theorem BIO_read_asn1_element:
  assumes "mem_at w p bs" "CBS_get_any_asn1_element bs = (Some (e, tag, hl), r)" "hd e AND 0x1f \<noteq> 0x1f"
    and "malloc_bounded mal" "OPENSSL_malloc mal (length e) \<noteq> None" "length e \<le> max_len"
  shows "\<exists>w'. BIO_read_asn1 mal w (Some p) max_len = Some (Gives e, w') \<and> mem_at w' p r \<and> w_errors w' = w_errors w"
proof -
  have "length bs < 2 ^ 64" using mem_at_length [OF assms(1)] by simp
  from CBS_get_any_asn1_element_canonical [OF assms(2) this] obtain xs
    where xs: "e = der_element tag xs" "bs = e @ r" by blast
  have "tag AND CBS_ASN1_TAG_NUMBER_MASK < 0x1f"
  proof (rule ccontr)
    assume "\<not> tag AND CBS_ASN1_TAG_NUMBER_MASK < 0x1f"
    then have "hd e = tag_octet_bits tag OR 0x1f"
      by (simp add: xs(1) der_element_def der_tag_def Let_def not_less)
    then have "hd e AND 0x1f = 0x1f" by (auto intro!: bit_eqI simp only: bit_and_iff bit_or_iff)
    with assms(3) show False by simp
  qed
  then obtain t where t: "der_tag tag = [t]" by (simp add: der_tag_def Let_def not_le)
  then have e: "e = t # der_len (length xs) @ xs" by (simp add: xs(1) der_element_def with_prefix_def)
  have bs: "bs = t # der_len (length xs) @ xs @ r" using xs(2) e by simp
  show ?thesis
  proof (cases "length xs \<le> 0x7f")
    case True
    then have "der_len (length xs) = [word_of_nat (length xs)]" by (simp add: der_len_def)
    with BIO_read_asn1_short [of w p t xs r mal max_len] assms True e bs show ?thesis by simp
  next
    case False
    with BIO_read_asn1_long [of w p t xs r mal max_len] assms e bs show ?thesis by simp
  qed
qed

section \<open>Reading an element of indefinite length\<close>

text \<open>One round of the loop of \<open>bio_read_all\<close> that goes on.\<close>

lemma read_all_loop_step:
  assumes "done_len \<noteq> len" "size_of_int (int len - int done_len) = todo" "todo < INT_MAX"
    and "BIO_read w bio (int todo) = Some (n, bytes, w')" "n \<noteq> 0" "n \<noteq> -1" "n > 0 \<Longrightarrow> done_len \<le> len"
    and "size_of_int (int done_len + n) = d" "len + 4096 < 2 ^ 64" "OPENSSL_malloc mal (min (len + 4096) max_len) \<noteq> None"
    and "len' = (if len < max_len \<and> size_of_int (int len - int d) < 2048 then min (len + 4096) max_len else len)"
  shows "read_all_loop mal w bio max_len len done_len out =
    read_all_loop mal w' bio max_len len' d (if n > 0 then take done_len out @ bytes else out)"
proof -
  have sz: "sz (len + kChunkSize) = len + kChunkSize" "\<not> len + kChunkSize < kChunkSize"
    using assms(9) by (simp_all add: kChunkSize_def)
  have grow: "(if len + kChunkSize < kChunkSize \<or> len + kChunkSize > max_len then max_len else len + kChunkSize) = min (len + 4096) max_len"
    by (auto simp: kChunkSize_def)
  obtain b where b: "OPENSSL_malloc mal (min (len + 4096) max_len) = Some b" using assms(10) by fastforce
  have "int_of_size todo = int todo" using assms(3) by (simp add: INT_MAX_def)
  moreover have "\<not> (n > 0 \<and> len < done_len)" using assms(7) by linarith
  moreover have "kChunkSize div 2 = 2048" by (simp add: kChunkSize_def)
  ultimately show ?thesis
    using assms(1,3,5,6,11)
    by (subst read_all_loop.simps) (simp only: assms(2,4,8) Let_def sz(1) grow b option.case prod.case if_False if_True simp_thms split: if_split, blast?)
qed

text \<open>As long as there are bytes the loop of \<open>bio_read_all\<close> reads them and keeps room in its block.\<close>

lemma read_all_loop_bytes:
  assumes "mem_at w p xs" "length out < len" "len \<le> max_len" "length out + length xs < max_len" "max_len < INT_MAX"
    and "\<forall>k \<le> max_len. OPENSSL_malloc mal k \<noteq> None" "len < max_len \<longrightarrow> length out + 2048 \<le> len"
  shows "\<exists>w' len'. read_all_loop mal w (Some p) max_len len (length out) out =
      read_all_loop mal w' (Some p) max_len len' (length (out @ xs)) (out @ xs) \<and>
    mem_at w' p [] \<and> bio_num (bio_at w' p) = bio_num (bio_at w p) \<and> length (out @ xs) < len' \<and> len' \<le> max_len"
  using assms
proof (induction "length xs" arbitrary: w len out xs rule: less_induct)
  case less
  show ?case
  proof (cases "xs = []")
    case True
    with less.prems show ?thesis by auto
  next
    case False
    let ?todo = "len - length out"
    let ?k = "min ?todo (length xs)"
    let ?out = "out @ take ?todo xs"
    let ?len = "if len < max_len \<and> len - length ?out < 2048 then min (len + 4096) max_len else len"
    have m: "max_len < 2147483647" using less.prems(5) by (simp add: INT_MAX_def)
    have todo: "size_of_int (int len - int (length out)) = ?todo" "0 < ?todo" "?todo < INT_MAX" "?todo < 2 ^ 31"
      using less.prems(2,3,5) m by (simp_all add: size_of_int_def nat_diff_distrib)
    have t: "0 < int ?todo" "int ?todo < 2 ^ 31"
      by (simp_all only: of_nat_0_less_iff todo(2) of_nat_less_numeral_power_cancel_iff todo(4))
    from BIO_read_mem [OF less.prems(1) t] False obtain w1
      where w1: "BIO_read w (Some p) (int ?todo) = Some (int ?k, take ?todo xs, w1)" "mem_at w1 p (drop ?todo xs)"
        "bio_num (bio_at w1 p) = bio_num (bio_at w p)" by auto
    have k: "0 < ?k" "length ?out = length out + ?k" using False todo(2) by auto
    have out: "length ?out \<le> len" using less.prems(2) by auto
    have done_len: "size_of_int (int (length out) + int ?k) = length ?out"
      "size_of_int (int len - int (length ?out)) = len - length ?out"
      using out k(2) m less.prems(3) by (simp_all add: size_of_int_def nat_diff_distrib nat_add_distrib)
    have "OPENSSL_malloc mal (min (len + 4096) max_len) \<noteq> None" "len + 4096 < 2 ^ 64"
      using less.prems(3,6) m by simp_all
    from read_all_loop_step [OF _ todo(1,3) w1(1) _ _ _ done_len(1) this(2,1) refl, of out]
    have step: "read_all_loop mal w (Some p) max_len len (length out) out =
        read_all_loop mal w1 (Some p) max_len ?len (length ?out) ?out"
      using k(1) less.prems(2) unfolding done_len(2) by simp
    have len': "length ?out < ?len" "?len \<le> max_len" "?len < max_len \<longrightarrow> length ?out + 2048 \<le> ?len"
      using out less.prems(3,4) k by (auto simp: min_def split: if_splits)
    have xs: "length (drop ?todo xs) < length xs" "length ?out + length (drop ?todo xs) = length out + length xs"
      using less.prems(2) False by (cases xs; auto)+
    from less.hyps [OF xs(1) w1(2) len'(1,2) _ less.prems(5,6) len'(3)] xs(2) less.prems(4) step w1(3)
    show ?thesis by fastforce
  qed
qed

text \<open>
  On an empty memory BIO that answers with a negative number below -1, \<open>todo\<close> grows with every read
  until the assertion stops the loop.
\<close>

lemma read_all_loop_aborts:
  assumes "mem_at w p []" "bio_num (bio_at w p) = n" "n < -1" "- (2 ^ 31) \<le> n" "len \<le> max_len" "max_len < INT_MAX"
    and "\<forall>k \<le> max_len. OPENSSL_malloc mal k \<noteq> None" "done_len < 2 ^ 64"
    and "0 < (int len - int done_len) mod 2 ^ 64" "(int len - int done_len) mod 2 ^ 64 < 2 ^ 33"
  shows "\<exists>w'. read_all_loop mal w (Some p) max_len len done_len out = Some (Aborts, w')"
  using assms
proof (induction "nat (2 ^ 33 - (int len - int done_len) mod 2 ^ 64)" arbitrary: w len done_len rule: less_induct)
  case less
  let ?t = "(int len - int done_len) mod 2 ^ 64"
  let ?d = "size_of_int (int done_len + n)"
  have todo: "size_of_int (int len - int done_len) = nat ?t" by (simp add: size_of_int_def)
  have ne: "done_len \<noteq> len" using less.prems(9) by auto
  show ?case
  proof (cases "?t < int INT_MAX")
    case False
    then have "\<not> nat ?t < INT_MAX" by linarith
    with ne show ?thesis by (subst read_all_loop.simps) (simp add: todo)
  next
    case True
    then have t: "nat ?t < INT_MAX" "nat ?t < 2 ^ 31" "0 < int (nat ?t)" "int (nat ?t) < 2 ^ 31"
      using less.prems(9) by (simp_all add: INT_MAX_def nat_less_iff)
    from BIO_read_mem [OF less.prems(1) t(3,4)] less.prems(2) obtain w1
      where w1: "BIO_read w (Some p) (int (nat ?t)) = Some (n, [], w1)" "mem_at w1 p []" "bio_num (bio_at w1 p) = n"
      by auto
    have d: "int ?d = (int done_len + n) mod 2 ^ 64" by (simp add: size_of_int_def)
    have m: "max_len < 2147483647" using less.prems(6) by (simp add: INT_MAX_def)
    have left: "(int len' - int ?d) mod 2 ^ 64 = ?t - n + (int len' - int len)" if "len \<le> len'" "len' \<le> len + 4096" for len'
    proof -
      have "(int len' - int ?d) mod 2 ^ 64 = (int len' - (int done_len + n)) mod 2 ^ 64" by (simp add: d mod_diff_right_eq)
      also have "int len' - (int done_len + n) = (int len - int done_len) + ((int len' - int len) - n)" by simp
      also have "\<dots> mod 2 ^ 64 = (?t + ((int len' - int len) - n)) mod 2 ^ 64" by (simp only: mod_add_left_eq)
      also have "\<dots> = ?t + ((int len' - int len) - n)"
        by (rule mod_pos_pos_trivial) (use that less.prems(3,4,9) t(4) in \<open>auto simp: nat_less_iff\<close>)
      finally show ?thesis by simp
    qed
    let ?len = "if len < max_len \<and> nat ((int len - int ?d) mod 2 ^ 64) < 2048 then min (len + 4096) max_len else len"
    have mal: "OPENSSL_malloc mal (min (len + 4096) max_len) \<noteq> None" "len + 4096 < 2 ^ 64"
      using less.prems(5,7) m by simp_all
    have "n \<noteq> 0" "n \<noteq> -1" "\<not> n > 0" using less.prems(3) by linarith+
    with read_all_loop_step [OF ne todo t(1) w1(1) _ _ _ refl mal(2,1) refl, of out]
    have step: "read_all_loop mal w (Some p) max_len len done_len out = read_all_loop mal w1 (Some p) max_len ?len ?d out"
      by (simp add: size_of_int_def [of "int len - int x" for x])
    have len': "len \<le> ?len" "?len \<le> len + 4096" "?len \<le> max_len" using less.prems(5) by auto
    note left = left [OF len'(1,2)]
    have "?d < 2 ^ 64" by (simp add: size_of_int_def nat_less_iff)
    moreover have "0 < (int ?len - int ?d) mod 2 ^ 64" "(int ?len - int ?d) mod 2 ^ 64 < 2 ^ 33"
      "nat (2 ^ 33 - (int ?len - int ?d) mod 2 ^ 64) < nat (2 ^ 33 - ?t)"
      unfolding left using len'(1,2) less.prems(3,4,9,10) t(4) by (simp_all add: nat_less_iff)
    ultimately show ?thesis
      unfolding step using less.hyps [OF _ w1(2,3) less.prems(3,4) len'(3) less.prems(6,7)] by blast
  qed
qed

text \<open>C40: An element of indefinite length that a memory BIO holds is read to the end of the contents, which the
configured end-of-data value tells: 0 gives all the bytes, -1 is a failure. The code knows no other
negative value: the loop of \<open>bio_read_all\<close> counts it as a number of bytes, moves back, also in front of
its block, and goes on until the difference that is left violates its assertion.\<close>

theorem BIO_read_asn1_eof_value:
  assumes "mem_at w p ([t, 0x80] @ xs)" "t AND 0x1f \<noteq> 0x1f" "t AND 0x20 \<noteq> 0" "2 + length xs < max_len" "max_len < INT_MAX"
    and "\<forall>k \<le> max_len. OPENSSL_malloc mal k \<noteq> None" "bio_num (bio_at w p) = n" "n \<le> 0" "- (2 ^ 31) \<le> n"
  shows "\<exists>w'. BIO_read_asn1 mal w (Some p) max_len =
    Some (if n = 0 then Gives ([t, 0x80] @ xs) else if n = -1 then Fails else Aborts, w')"
proof -
  let ?r = "if n = 0 then Gives ([t, 0x80] @ xs) else if n = -1 then Fails else Aborts"
  let ?len = "min 4098 max_len"
  from read_full_mem [OF assms(1), of 2 True "[]"] assms(7) obtain w1
    where w1: "read_full_loop w (Some p) True 2 [] = Some (True, [t, 0x80], False, w1)" "mem_at w1 p xs"
      "bio_num (bio_at w1 p) = n" by (auto simp: numeral_2_eq_2)
  have m: "max_len < 2147483647" using assms(5) by (simp add: INT_MAX_def)
  from read_all_loop_bytes [OF w1(2), of "[t, 0x80]" ?len max_len mal] assms(4-6) obtain w2 len'
    where loop: "read_all_loop mal w1 (Some p) max_len ?len 2 [t, 0x80] =
        read_all_loop mal w2 (Some p) max_len len' (2 + length xs) ([t, 0x80] @ xs)"
      and w2: "mem_at w2 p []" "bio_num (bio_at w2 p) = n" and len': "2 + length xs < len'" "len' \<le> max_len"
    using w1(3) by (auto simp: numeral_2_eq_2)
  have todo: "size_of_int (int len' - int (2 + length xs)) = len' - (2 + length xs)"
    using len' m by (simp add: size_of_int_def nat_diff_distrib)
  from BIO_read_mem [OF w2(1), of "int (len' - (2 + length xs))"] len' m w2(2) obtain w3
    where w3: "BIO_read w2 (Some p) (int (len' - (2 + length xs))) = Some (n, [], w3)" by auto
  have "\<exists>w'. read_all_loop mal w2 (Some p) max_len len' (2 + length xs) ([t, 0x80] @ xs) = Some (?r, w')"
  proof (cases "n < -1")
    case True
    with read_all_loop_aborts [OF w2(1,2) True assms(9) len'(2) assms(5,6), of "2 + length xs"] len' m show ?thesis by simp
  next
    case False
    then have "n = 0 \<or> n = -1" using assms(8) by linarith
    moreover have "len' - (2 + length xs) < 2147483647" using len' m by simp
    ultimately show ?thesis
      using w3 len'
      by (subst read_all_loop.simps) (auto simp only: todo INT_MAX_def Let_def int_of_size_small split: if_splits, auto)
  qed
  moreover have "bio_read_all mal w1 (Some p) [t, 0x80] max_len = read_all_loop mal w1 (Some p) max_len ?len 2 [t, 0x80]"
  proof -
    obtain b where "OPENSSL_malloc mal ?len = Some b" using assms(6) by fastforce
    moreover have "sz (length [t, 0x80] + kChunkSize) = 4098" by (simp add: kChunkSize_def)
    ultimately show ?thesis
      unfolding bio_read_all_def using assms(4) by (auto simp: Let_def min_def numeral_2_eq_2 split: if_splits)
  qed
  ultimately show ?thesis
    using w1(1) assms(2,3) loop
    by (auto simp: BIO_read_asn1_def bio_read_full_def kInitialHeaderLen_def Let_def split: if_splits)
qed

section \<open>A memory BIO in a heap\<close>

definition bytes_bio :: "u8 list \<Rightarrow> int \<Rightarrow> bio" where
  "bytes_bio bs eof = (blank_bio Method_mem)\<lparr>bio_init := True, bio_num := eof,
     bio_ptr := Ptr_mem \<lparr>bm_length = length bs, bm_data = Some bs, bm_max = length bs, bm_off = 0\<rparr>\<rparr>"

definition bytes_world :: "u8 list \<Rightarrow> int \<Rightarrow> bio_world" where
  "bytes_world bs eof = \<lparr>w_bios = (\<lambda>_. Some (bytes_bio bs eof)), w_errors = []\<rparr>"

lemma bytes_world_at: "length bs < 2 ^ 31 \<Longrightarrow> mem_at (bytes_world bs eof) p bs \<and> bio_num (bio_at (bytes_world bs eof) p) = eof"
  by (simp add: mem_at_def bytes_world_def bio_at_def bytes_bio_def blank_bio_def mem_ok_def rdonly_def buf_mem_ok_def
      mem_bytes_def bm_bytes_def mem_of_def)

theorem BIO_read_asn1_element_witness:
  "\<exists>w'. BIO_read_asn1 roomy_malloc (bytes_world [4, 1, 0x55, 0] 0) (Some 0) 100 = Some (Gives [4, 1, 0x55], w') \<and>
     mem_at w' 0 [0]"
proof -
  have "der_element 4 [0x55] = [4, 1, 0x55]"
    by (simp add: der_element_def der_tag_def tag_octet_bits_def with_prefix_def der_len_def
        CBS_ASN1_TAG_NUMBER_MASK_def CBS_ASN1_TAG_SHIFT_def)
  then have c: "CBS_get_any_asn1_element [4, 1, 0x55, 0] = (Some ([4, 1, 0x55], 4, 2), [0])"
    using CBS_get_any_asn1_element_der [where xs = "[0x55]" and tag = 4 and r = "[0]"] by (simp add: CBS_get_any_asn1_element_def)
  have "OPENSSL_malloc roomy_malloc (length [4, 1, 0x55 :: u8]) \<noteq> None"
    using roomy_malloc_Some [of "length [4, 1, 0x55 :: u8]"] by auto
  with BIO_read_asn1_element [OF _ c _ roomy_malloc_ok(1), of "bytes_world [4, 1, 0x55, 0] 0" 0 100]
    bytes_world_at [of "[4, 1, 0x55, 0]" 0 0] show ?thesis by auto
qed

theorem BIO_read_asn1_eof_value_witness:
  "\<exists>w'. BIO_read_asn1 roomy_malloc (bytes_world [0x30, 0x80, 0, 0] (-3)) (Some 0) 10000 = Some (Aborts, w')"
proof -
  have "\<forall>k \<le> 10000. OPENSSL_malloc roomy_malloc k \<noteq> None" using roomy_malloc_Some by fastforce
  with BIO_read_asn1_eof_value [of "bytes_world [0x30, 0x80, 0, 0] (-3)" 0 "0x30" "[0, 0]" 10000 roomy_malloc "-3"]
    bytes_world_at [of "[0x30, 0x80, 0, 0]" "-3" 0] show ?thesis by (simp add: INT_MAX_def)
qed

section \<open>Chains\<close>

text \<open>The addresses of a chain, from the one \<open>p\<close> points at to the end.\<close>

fun chain :: "bio_world \<Rightarrow> nat option \<Rightarrow> nat list \<Rightarrow> bool" where
  "chain w p [] \<longleftrightarrow> p = None"
| "chain w p (q # qs) \<longleftrightarrow> p = Some q \<and> chain w (bio_next (bio_at w q)) qs"

lemma chain_cong:
  "(\<And>q. q \<in> set qs \<Longrightarrow> bio_next (bio_at w' q) = bio_next (bio_at w q)) \<Longrightarrow> chain w' p qs = chain w p qs"
  by (induction qs arbitrary: p) auto

lemma chain_last_eq: "chain w (Some p) ps \<Longrightarrow> chain_last w p = Some (last ps)"
proof (induction ps arbitrary: p)
  case (Cons q qs)
  then show ?case by (subst chain_last.simps) (cases qs; auto)
qed simp

lemma chain_extend:
  assumes "chain w p (ps @ [x])" "chain w a qs" "distinct (ps @ x # qs)"
  shows "chain (set_bio x ((bio_at w x)\<lparr>bio_next := a\<rparr>) w) p (ps @ x # qs)"
  using assms
proof (induction ps arbitrary: p)
  case Nil
  have "chain (set_bio x ((bio_at w x)\<lparr>bio_next := a\<rparr>) w) a qs = chain w a qs"
    by (rule chain_cong) (use Nil in auto)
  with Nil show ?case by simp
next
  case (Cons q ps)
  then show ?case by auto
qed

lemma BIO_push_chain:
  assumes "chain w (Some p) ps" "chain w a qs" "distinct (ps @ qs)"
  shows "\<exists>w'. BIO_push w (Some p) a = Some (Some p, w') \<and> chain w' (Some p) (ps @ qs) \<and> w_errors w' = w_errors w"
proof -
  have "ps \<noteq> []" using assms(1) by auto
  then obtain ys x where ps: "ps = ys @ [x]" by (metis rev_exhaust)
  with chain_extend [of w "Some p" ys x a qs] assms chain_last_eq [OF assms(1)] show ?thesis
    by (simp add: BIO_push_def)
qed

text \<open>
  The heap after a release of the chain \<open>ps\<close>: the BIOs with a last reference are gone up to the first
  one with more, whose count is one less unless it is saturated; every other BIO is as it was.
\<close>

definition released :: "bio_world \<Rightarrow> nat list \<Rightarrow> nat list" where
  "released w ps = takeWhile (\<lambda>q. bio_references (bio_at w q) = 1) ps"

definition after_release :: "bio_world \<Rightarrow> nat list \<Rightarrow> nat \<Rightarrow> bio option" where
  "after_release w ps q =
     (if q \<in> set (released w ps) then None
      else if length (released w ps) < length ps \<and> q = ps ! length (released w ps) then
        Some ((bio_at w q)\<lparr>bio_references :=
          (if bio_references (bio_at w q) = CRYPTO_REFCOUNT_MAX then CRYPTO_REFCOUNT_MAX else bio_references (bio_at w q) - 1)\<rparr>)
      else w_bios w q)"

lemma released_simps [simp]:
  "released w [] = []"
  "released w (q # qs) = (if bio_references (bio_at w q) = 1 then q # released w qs else [])"
  by (simp_all add: released_def)

lemma released_cong:
  "(\<And>q. q \<in> set ps \<Longrightarrow> bio_at w' q = bio_at w q) \<Longrightarrow> released w' ps = released w ps"
  by (induction ps) auto

lemma set_released: "q \<in> set (released w ps) \<Longrightarrow> q \<in> set ps"
  by (auto simp: released_def dest: set_takeWhileD)

lemma after_release_step:
  assumes "bio_references (bio_at w q) = 1" "q \<notin> set qs" "\<And>r. w_bios w' r = (if r = q then None else w_bios w r)"
  shows "after_release w' qs r = after_release w (q # qs) r"
proof -
  have at: "bio_at w' r = bio_at w r" if "r \<noteq> q" for r using assms(3) [of r] that by (simp add: bio_at_def)
  have rel: "released w' qs = released w qs" by (rule released_cong) (use assms(2) at in metis)
  show ?thesis
  proof (cases "r = q")
    case True
    have "q \<notin> set (released w qs)" using assms(2) set_released by blast
    moreover have "q \<noteq> qs ! length (released w qs)" if "length (released w qs) < length qs"
      using assms(2) that by (metis nth_mem)
    ultimately show ?thesis using True assms(1,3) by (auto simp: after_release_def rel)
  next
    case False
    then show ?thesis
      unfolding after_release_def rel at [OF False] using assms(1,3) by simp
  qed
qed

lemma bio_free_chain:
  assumes "chain w p ps" "distinct ps"
    and "\<forall>q \<in> set ps. 0 < bio_references (bio_at w q) \<and> bio_references (bio_at w q) \<le> CRYPTO_REFCOUNT_MAX \<and>
      bio_meth (bio_at w q) \<noteq> Some Method_pair"
  shows "\<exists>w'. bio_free_loop w p = Some (released w ps = ps, w') \<and> w_bios w' = after_release w ps \<and> w_errors w' = w_errors w"
  using assms
proof (induction ps arbitrary: w p)
  case Nil
  then show ?case by (subst bio_free_loop.simps) (auto simp: after_release_def)
next
  case (Cons q qs)
  let ?b = "bio_at w q"
  let ?w1 = "set_bio q (?b\<lparr>bio_references := 0\<rparr>) w"
  let ?w2 = "set_bio q (?b\<lparr>bio_references := 0, bio_next := None\<rparr>) ?w1"
  define w3 where "w3 = free_bio q (bio_destroy ?w2 q)"
  have p: "p = Some q" using Cons.prems(1) by simp
  show ?case
  proof (cases "bio_references ?b = 1")
    case True
    have ref: "CRYPTO_refcount_dec_and_test_zero (bio_references ?b) = Some (True, 0)"
      by (simp add: True CRYPTO_refcount_dec_and_test_zero_def CRYPTO_REFCOUNT_MAX_def Let_def)
    have loop: "bio_free_loop w p = bio_free_loop w3 (bio_next ?b)"
      unfolding p w3_def by (subst bio_free_loop.simps) (simp add: ref BIO_pop_def Let_def)
    have frame: "w_bios w3 r = (if r = q then None else w_bios w r)" for r
      using Cons.prems(3)
      by (cases "bio_meth ?b") (auto simp: w3_def free_bio_def bio_destroy_def split: bio_method.splits)
    have errs: "w_errors w3 = w_errors w"
      using Cons.prems(3) by (cases "bio_meth ?b") (auto simp: w3_def free_bio_def bio_destroy_def split: bio_method.splits)
    have at: "bio_at w3 r = bio_at w r" if "r \<in> set qs" for r
      using frame [of r] that Cons.prems(2) by (auto simp: bio_at_def)
    have "chain w3 (bio_next ?b) qs = chain w (bio_next ?b) qs" by (rule chain_cong) (simp add: at)
    then have "chain w3 (bio_next ?b) qs" using Cons.prems(1) by simp
    from Cons.IH [OF this] Cons.prems(2,3) at obtain w'
      where w': "bio_free_loop w3 (bio_next ?b) = Some (released w3 qs = qs, w')" "w_bios w' = after_release w3 qs"
        "w_errors w' = w_errors w3" by auto
    have "released w3 qs = released w qs" by (rule released_cong) (simp add: at)
    moreover have "after_release w3 qs = after_release w (q # qs)"
      using after_release_step [OF True _ frame] Cons.prems(2) by auto
    ultimately show ?thesis using w' loop errs True by simp
  next
    case False
    let ?cnt = "if bio_references ?b = CRYPTO_REFCOUNT_MAX then CRYPTO_REFCOUNT_MAX else bio_references ?b - 1"
    have "CRYPTO_refcount_dec_and_test_zero (bio_references ?b) = Some (False, ?cnt)"
      using False Cons.prems(3) by (auto simp: CRYPTO_refcount_dec_and_test_zero_def CRYPTO_REFCOUNT_MAX_def Let_def)
    then have "bio_free_loop w p = Some (False, set_bio q (?b\<lparr>bio_references := ?cnt\<rparr>) w)"
      unfolding p by (subst bio_free_loop.simps) (simp add: Let_def)
    moreover have "w_bios (set_bio q (?b\<lparr>bio_references := ?cnt\<rparr>) w) = after_release w (q # qs)"
      using False by (auto simp: after_release_def set_bio_def)
    ultimately show ?thesis using False by simp
  qed
qed

text \<open>C38: On chains without a cycle, pushing appends the other chain. Releasing a chain that has no BIO pair in
it ends: it takes one reference from each BIO as long as that was the last one and frees these BIOs, and
it stops at the first BIO with other references, whose count it lowers (a saturated count stays). It
answers 1 exactly when the whole chain is freed, and no other BIO changes.\<close>

theorem BIO_chain_push_free:
  assumes "chain w (Some p) ps" "chain w a qs" "distinct (ps @ qs)"
  shows "(\<exists>w'. BIO_push w (Some p) a = Some (Some p, w') \<and> chain w' (Some p) (ps @ qs)) \<and>
    ((\<forall>q \<in> set ps. 0 < bio_references (bio_at w q) \<and> bio_references (bio_at w q) \<le> CRYPTO_REFCOUNT_MAX \<and>
        bio_meth (bio_at w q) \<noteq> Some Method_pair) \<longrightarrow>
      (\<exists>w'. BIO_free w (Some p) = Some (released w ps = ps, w') \<and> w_bios w' = after_release w ps \<and>
        w_errors w' = w_errors w))"
proof (intro conjI impI)
  show "\<exists>w'. BIO_push w (Some p) a = Some (Some p, w') \<and> chain w' (Some p) (ps @ qs)"
    using BIO_push_chain [OF assms] by blast
  assume "\<forall>q \<in> set ps. 0 < bio_references (bio_at w q) \<and> bio_references (bio_at w q) \<le> CRYPTO_REFCOUNT_MAX \<and>
    bio_meth (bio_at w q) \<noteq> Some Method_pair"
  with bio_free_chain [OF assms(1)] assms(3)
  show "\<exists>w'. BIO_free w (Some p) = Some (released w ps = ps, w') \<and> w_bios w' = after_release w ps \<and> w_errors w' = w_errors w"
    by (simp add: BIO_free_def)
qed

text \<open>A heap in which BIO 3 is followed by BIO 4, which has a second reference.\<close>

definition chained_world :: bio_world where
  "chained_world = (bytes_world [] 0)\<lparr>w_bios := (\<lambda>_. Some (bytes_bio [] 0))
     (3 := Some ((bytes_bio [] 0)\<lparr>bio_next := Some 4\<rparr>), 4 := Some ((bytes_bio [] 0)\<lparr>bio_references := 2\<rparr>))\<rparr>"

theorem BIO_chain_push_free_witness:
  "(\<exists>w'. BIO_push chained_world (Some 3) (Some 5) = Some (Some 3, w') \<and> chain w' (Some 3) [3, 4, 5]) \<and>
   (\<exists>w'. BIO_free chained_world (Some 3) = Some (False, w') \<and> w_bios w' 3 = None \<and>
     bio_references (bio_at w' 4) = 1 \<and> w_bios w' 5 = w_bios chained_world 5)"
proof -
  have b: "bio_at chained_world 3 = (bytes_bio [] 0)\<lparr>bio_next := Some 4\<rparr>"
    "bio_at chained_world 4 = (bytes_bio [] 0)\<lparr>bio_references := 2\<rparr>" "bio_at chained_world 5 = bytes_bio [] 0"
    by (simp_all add: chained_world_def bio_at_def)
  have c: "chain chained_world (Some 3) [3, 4]" "chain chained_world (Some 5) [5]"
    by (simp_all add: b) (simp_all add: bytes_bio_def blank_bio_def)
  have "\<forall>q \<in> set [3, 4]. 0 < bio_references (bio_at chained_world q) \<and>
      bio_references (bio_at chained_world q) \<le> CRYPTO_REFCOUNT_MAX \<and> bio_meth (bio_at chained_world q) \<noteq> Some Method_pair"
    by (simp add: b) (simp add: bytes_bio_def blank_bio_def CRYPTO_REFCOUNT_MAX_def)
  moreover have "released chained_world [3, 4] = [3]" by (simp add: b) (simp add: bytes_bio_def blank_bio_def)
  moreover have "after_release chained_world [3, 4] 4 = Some (bytes_bio [] 0)"
    by (simp add: after_release_def \<open>released chained_world [3, 4] = [3]\<close> b) (simp add: bytes_bio_def blank_bio_def CRYPTO_REFCOUNT_MAX_def)
  ultimately show ?thesis
    using BIO_chain_push_free [OF c]
    by (auto simp: after_release_def bio_at_def bytes_bio_def blank_bio_def)
qed

end
