(* ===== verification/Err.thy ===== *)
theory Err
  imports Oid
begin

text \<open>
  \<^verbatim>\<open>crypto/err/err.c\<close>: the queue of errors every thread has. Each function of the code starts by
  getting the thread's state; here \<open>on_state\<close> does, and the body of the function is a function of the
  state. The result of a function includes the thread's slot as it leaves it.
\<close>

section \<open>State\<close>

text \<open>One queued error. \<open>err_data\<close> is the block the error owns.\<close>

record err_error =
  err_file :: "u8 list option"
  err_data :: "u8 list option"
  err_packed :: u32
  err_line :: u16
  err_mark :: bool

text \<open>The ring of a thread: the queued errors are those after \<open>es_bottom\<close> up to \<open>es_top\<close>.\<close>

record err_state =
  es_errors :: "err_error list"
  es_top :: nat
  es_bottom :: nat
  es_to_free :: "u8 list option"

definition ERR_NUM_ERRORS :: nat where
  "ERR_NUM_ERRORS = 16"

definition ERR_FLAG_STRING :: nat where
  "ERR_FLAG_STRING = 1"

definition ERR_LIB_SYS :: u32 where
  "ERR_LIB_SYS = 2"

definition ERR_PACK :: "u32 \<Rightarrow> u32 \<Rightarrow> u32" where
  "ERR_PACK lib reason = push_bit 24 (lib AND 0xff) OR (reason AND 0xfff)"

definition ERR_GET_LIB :: "u32 \<Rightarrow> u32" where
  "ERR_GET_LIB packed_error = drop_bit 24 packed_error AND 0xff"

definition ERR_GET_REASON :: "u32 \<Rightarrow> u32" where
  "ERR_GET_REASON packed_error = packed_error AND 0xfff"

text \<open>A zeroed error, as memset leaves it.\<close>

definition zero_error :: err_error where
  "zero_error = \<lparr>err_file = None, err_data = None, err_packed = 0, err_line = 0, err_mark = False\<rparr>"

definition err_clear :: "err_error \<Rightarrow> err_error" where
  "err_clear error = zero_error"

definition err_copy :: "malloc_fn \<Rightarrow> err_error \<Rightarrow> err_error \<Rightarrow> err_error" where
  "err_copy mal dst src = (err_clear dst)
     \<lparr>err_file := err_file src,
      err_data := (case err_data src of None \<Rightarrow> None | Some d \<Rightarrow> OPENSSL_strdup mal (Some d)),
      err_packed := err_packed src, err_line := err_line src\<rparr>"

text \<open>
  What an operation needs of its surroundings: malloc, and whether the platform can store
  the thread's pointer.
\<close>

record err_env =
  env_malloc :: malloc_fn
  env_set_tls :: bool

definition sizeof_ERR_STATE :: nat where
  "sizeof_ERR_STATE = 400"

definition zero_state :: err_state where
  "zero_state = \<lparr>es_errors = replicate ERR_NUM_ERRORS zero_error, es_top = 0, es_bottom = 0, es_to_free = None\<rparr>"

text \<open>The thread-local slot, read and filled on first use.\<close>

definition err_get_state :: "err_env \<Rightarrow> err_state option \<Rightarrow> err_state option" where
  "err_get_state env slot =
     (case slot of
        Some st \<Rightarrow> Some st
      | None \<Rightarrow>
          (case OPENSSL_malloc (env_malloc env) sizeof_ERR_STATE of
             None \<Rightarrow> None
           | Some _ \<Rightarrow> if env_set_tls env then Some zero_state else None))"

text \<open>The common beginning of the operations: \<open>d\<close> is their result without a state.\<close>

definition on_state ::
  "err_env \<Rightarrow> 'a \<Rightarrow> (err_state \<Rightarrow> 'a \<times> err_state) \<Rightarrow> err_state option \<Rightarrow> 'a \<times> err_state option" where
  "on_state env d f slot =
     (case err_get_state env slot of
        None \<Rightarrow> (d, None)
      | Some st \<Rightarrow> (case f st of (r, st') \<Rightarrow> (r, Some st')))"

definition set_error :: "nat \<Rightarrow> err_error \<Rightarrow> err_state \<Rightarrow> err_state" where
  "set_error i e st = st\<lparr>es_errors := (es_errors st)[i := e]\<rparr>"

section \<open>Reading errors\<close>

text \<open>The packed error, and what is stored through the pointers for file and line and for data and flags.\<close>

type_synonym err_reply = "u32 \<times> (u8 list \<times> int) option \<times> (u8 list \<times> nat) option"

definition ascii :: "string \<Rightarrow> u8 list" where
  "ascii s = map (\<lambda>c. word_of_nat (of_char c)) s"

definition error_file_line :: "err_error \<Rightarrow> u8 list \<times> int" where
  "error_file_line error =
     (case err_file error of None \<Rightarrow> (ascii ''NA'', 0) | Some f \<Rightarrow> (f, uint (err_line error)))"

definition error_data_flags :: "err_error \<Rightarrow> u8 list \<times> nat" where
  "error_data_flags error =
     (case err_data error of None \<Rightarrow> ([0], 0) | Some d \<Rightarrow> (d, ERR_FLAG_STRING))"

definition get_values :: "bool \<Rightarrow> bool \<Rightarrow> bool \<Rightarrow> bool \<Rightarrow> err_state \<Rightarrow> err_reply \<times> err_state" where
  "get_values inc newest want_file want_data st =
     (if es_bottom st = es_top st then ((0, None, None), st)
      else
        (let i = (if newest then es_top st else (es_bottom st + 1) mod ERR_NUM_ERRORS);
             error = es_errors st ! i;
             file_line = (if want_file then Some (error_file_line error) else None);
             data_flags = (if want_data then Some (error_data_flags error) else None);
             st1 = (if want_data \<and> inc \<and> err_data error \<noteq> None
                    then set_error i (error\<lparr>err_data := None\<rparr>) (st\<lparr>es_to_free := err_data error\<rparr>)
                    else st);
             st2 = (if inc then (set_error i (err_clear (es_errors st1 ! i)) st1)\<lparr>es_bottom := i\<rparr> else st1)
         in ((err_packed error, file_line, data_flags), st2)))"

definition get_error_values ::
  "err_env \<Rightarrow> bool \<Rightarrow> bool \<Rightarrow> bool \<Rightarrow> bool \<Rightarrow> err_state option \<Rightarrow> err_reply \<times> err_state option" where
  "get_error_values env inc newest want_file want_data =
     on_state env (0, None, None) (get_values inc newest want_file want_data)"

definition ERR_get_error :: "err_env \<Rightarrow> err_state option \<Rightarrow> u32 \<times> err_state option" where
  "ERR_get_error env slot = (case get_error_values env True False False False slot of ((ret, _), slot') \<Rightarrow> (ret, slot'))"

definition ERR_get_error_line :: "err_env \<Rightarrow> err_state option \<Rightarrow> err_reply \<times> err_state option" where
  "ERR_get_error_line env = get_error_values env True False True False"

definition ERR_get_error_line_data :: "err_env \<Rightarrow> err_state option \<Rightarrow> err_reply \<times> err_state option" where
  "ERR_get_error_line_data env = get_error_values env True False True True"

definition ERR_peek_error :: "err_env \<Rightarrow> err_state option \<Rightarrow> u32 \<times> err_state option" where
  "ERR_peek_error env slot = (case get_error_values env False False False False slot of ((ret, _), slot') \<Rightarrow> (ret, slot'))"

definition ERR_peek_error_line :: "err_env \<Rightarrow> err_state option \<Rightarrow> err_reply \<times> err_state option" where
  "ERR_peek_error_line env = get_error_values env False False True False"

definition ERR_peek_error_line_data :: "err_env \<Rightarrow> err_state option \<Rightarrow> err_reply \<times> err_state option" where
  "ERR_peek_error_line_data env = get_error_values env False False True True"

definition ERR_peek_last_error :: "err_env \<Rightarrow> err_state option \<Rightarrow> u32 \<times> err_state option" where
  "ERR_peek_last_error env slot = (case get_error_values env False True False False slot of ((ret, _), slot') \<Rightarrow> (ret, slot'))"

definition ERR_peek_last_error_line :: "err_env \<Rightarrow> err_state option \<Rightarrow> err_reply \<times> err_state option" where
  "ERR_peek_last_error_line env = get_error_values env False True True False"

definition ERR_peek_last_error_line_data :: "err_env \<Rightarrow> err_state option \<Rightarrow> err_reply \<times> err_state option" where
  "ERR_peek_last_error_line_data env = get_error_values env False True True True"

section \<open>Clearing and adding errors\<close>

definition clear_state :: "err_state \<Rightarrow> err_state" where
  "clear_state st = \<lparr>es_errors = map err_clear (es_errors st), es_top = 0, es_bottom = 0, es_to_free = None\<rparr>"

definition ERR_clear_error :: "err_env \<Rightarrow> err_state option \<Rightarrow> err_state option" where
  "ERR_clear_error env slot = snd (on_state env () (\<lambda>st. ((), clear_state st)) slot)"

text \<open>For another thread's identifier the function asserts; nothing happens where assertions are off.\<close>

definition ERR_remove_thread_state :: "err_env \<Rightarrow> bool \<Rightarrow> err_state option \<Rightarrow> err_state option" where
  "ERR_remove_thread_state env tid_given slot = (if tid_given then slot else ERR_clear_error env slot)"

definition ERR_remove_state :: "err_env \<Rightarrow> err_state option \<Rightarrow> err_state option" where
  "ERR_remove_state env slot = ERR_clear_error env slot"

text \<open>The next free library number, handed out and counted up.\<close>

definition ERR_get_next_error_library :: "nat \<Rightarrow> nat \<times> nat" where
  "ERR_get_next_error_library global_next_library = (global_next_library, global_next_library + 1)"

definition put_values :: "u32 \<Rightarrow> u32 \<Rightarrow> u32 \<Rightarrow> u8 list option \<Rightarrow> u32 \<Rightarrow> err_state \<Rightarrow> err_state" where
  "put_values errno library reason file line st =
     (let reason' = (if library = ERR_LIB_SYS \<and> reason = 0 then errno else reason);
          t = (es_top st + 1) mod ERR_NUM_ERRORS;
          b = (if t = es_bottom st then (es_bottom st + 1) mod ERR_NUM_ERRORS else es_bottom st);
          error = (err_clear (es_errors st ! t))\<lparr>err_file := file, err_line := ucast line,
                    err_packed := ERR_PACK library reason'\<rparr>
      in set_error t error (st\<lparr>es_top := t, es_bottom := b\<rparr>))"

definition ERR_put_error ::
  "err_env \<Rightarrow> u32 \<Rightarrow> u32 \<Rightarrow> u32 \<Rightarrow> u8 list option \<Rightarrow> u32 \<Rightarrow> err_state option \<Rightarrow> err_state option" where
  "ERR_put_error env errno library reason file line slot =
     snd (on_state env () (\<lambda>st. ((), put_values errno library reason file line st)) slot)"

definition set_data :: "u8 list \<Rightarrow> err_state \<Rightarrow> err_state" where
  "set_data data st =
     (if es_top st = es_bottom st then st
      else set_error (es_top st) ((es_errors st ! es_top st)\<lparr>err_data := Some data\<rparr>) st)"

definition err_set_error_data :: "err_env \<Rightarrow> u8 list \<Rightarrow> err_state option \<Rightarrow> err_state option" where
  "err_set_error_data env data slot = snd (on_state env () (\<lambda>st. ((), set_data data st)) slot)"

text \<open>
  The concatenation of the arguments: the block, its capacity and the length used. \<open>None\<close> is the
  early return, with the block freed.
\<close>

fun vdata_loop :: "malloc_fn \<Rightarrow> u8 list option list \<Rightarrow> u8 list \<Rightarrow> nat \<Rightarrow> nat \<Rightarrow> (u8 list \<times> nat) option" where
  "vdata_loop mal [] buf alloced len = Some (buf, len)"
| "vdata_loop mal (None # args) buf alloced len = vdata_loop mal args buf alloced len"
| "vdata_loop mal (Some substr # args) buf alloced len =
     (let substr_len = c_strlen substr;
          new_len = sz (len + substr_len)
      in if new_len > alloced then
           (if sz (alloced + 20 + 1) < alloced then None
            else
              (let alloced' = sz (new_len + 20)
               in case OPENSSL_realloc mal (Some buf) (sz (alloced' + 1)) of
                    None \<Rightarrow> None
                  | Some new_buf \<Rightarrow>
                      vdata_loop mal args (store_at len (take substr_len substr) new_buf) alloced' new_len))
         else vdata_loop mal args (store_at len (take substr_len substr) buf) alloced new_len)"

definition err_add_error_vdata :: "err_env \<Rightarrow> u8 list option list \<Rightarrow> err_state option \<Rightarrow> err_state option" where
  "err_add_error_vdata env args slot =
     (case OPENSSL_malloc (env_malloc env) (80 + 1) of
        None \<Rightarrow> slot
      | Some buf \<Rightarrow>
          (case vdata_loop (env_malloc env) args buf 80 0 of
             None \<Rightarrow> slot
           | Some (buf', len) \<Rightarrow> err_set_error_data env (store_at len [0] buf') slot))"

definition ERR_add_error_data :: "err_env \<Rightarrow> u8 list option list \<Rightarrow> err_state option \<Rightarrow> err_state option" where
  "ERR_add_error_data env args slot = err_add_error_vdata env args slot"

text \<open>libc's snprintf: the text cut to the buffer, with its terminator.\<close>

definition BIO_snprintf :: "u8 list \<Rightarrow> nat \<Rightarrow> u8 list \<Rightarrow> u8 list" where
  "BIO_snprintf buf n text = (if n = 0 then buf else store_at 0 (take (n - 1) text @ [0]) buf)"

text \<open>\<open>text\<close> is the format with its arguments filled in.\<close>

definition ERR_add_error_dataf :: "err_env \<Rightarrow> u8 list \<Rightarrow> err_state option \<Rightarrow> err_state option" where
  "ERR_add_error_dataf env text slot =
     (let buf_len = 256
      in case OPENSSL_malloc (env_malloc env) (buf_len + 1) of
           None \<Rightarrow> slot
         | Some buf \<Rightarrow> err_set_error_data env (store_at buf_len [0] (BIO_snprintf buf buf_len text)) slot)"

section \<open>Marks\<close>

definition mark_top :: "err_state \<Rightarrow> bool \<times> err_state" where
  "mark_top st =
     (if es_bottom st = es_top st then (False, st)
      else (True, set_error (es_top st) ((es_errors st ! es_top st)\<lparr>err_mark := True\<rparr>) st))"

definition ERR_set_mark :: "err_env \<Rightarrow> err_state option \<Rightarrow> bool \<times> err_state option" where
  "ERR_set_mark env = on_state env False mark_top"

partial_function (option) pop_loop :: "err_state \<Rightarrow> (bool \<times> err_state) option" where
  "pop_loop st =
     (if es_bottom st = es_top st then Some (False, st)
      else
        (let error = es_errors st ! es_top st
         in if err_mark error then Some (True, set_error (es_top st) (error\<lparr>err_mark := False\<rparr>) st)
            else pop_loop ((set_error (es_top st) (err_clear error) st)
                   \<lparr>es_top := (if es_top st = 0 then ERR_NUM_ERRORS - 1 else es_top st - 1)\<rparr>)))"

definition ERR_pop_to_mark :: "err_env \<Rightarrow> err_state option \<Rightarrow> (bool \<times> err_state option) option" where
  "ERR_pop_to_mark env slot =
     (case err_get_state env slot of
        None \<Rightarrow> Some (False, None)
      | Some st \<Rightarrow> map_option (\<lambda>(r, st'). (r, Some st')) (pop_loop st))"

section \<open>Saving and restoring the queue\<close>

definition sizeof_ERR_SAVE_STATE :: nat where
  "sizeof_ERR_SAVE_STATE = 16"

definition sizeof_err_error_st :: nat where
  "sizeof_err_error_st = 24"

text \<open>A saved queue is its array of errors.\<close>

definition save_values :: "malloc_fn \<Rightarrow> err_state \<Rightarrow> err_error list option" where
  "save_values mal st =
     (if es_top st = es_bottom st then None
      else case OPENSSL_malloc mal sizeof_ERR_SAVE_STATE of
             None \<Rightarrow> None
           | Some _ \<Rightarrow>
               (let num_errors = (if es_top st \<ge> es_bottom st then es_top st - es_bottom st
                                  else ERR_NUM_ERRORS + es_top st - es_bottom st)
                in case OPENSSL_malloc mal (num_errors * sizeof_err_error_st) of
                     None \<Rightarrow> None
                   | Some _ \<Rightarrow>
                       Some (map (\<lambda>i. err_copy mal zero_error
                                        (es_errors st ! ((es_bottom st + i + 1) mod ERR_NUM_ERRORS)))
                               [0..<num_errors])))"

definition ERR_save_state :: "err_env \<Rightarrow> err_state option \<Rightarrow> err_error list option \<times> err_state option" where
  "ERR_save_state env = on_state env None (\<lambda>st. (save_values (env_malloc env) st, st))"

definition restore_values :: "malloc_fn \<Rightarrow> err_error list \<Rightarrow> err_state \<Rightarrow> err_state" where
  "restore_values mal saved dst =
     dst\<lparr>es_errors := map (\<lambda>i. if i < length saved then err_copy mal (es_errors dst ! i) (saved ! i) else es_errors dst ! i)
                        [0..<length (es_errors dst)],
         es_top := length saved - 1, es_bottom := ERR_NUM_ERRORS - 1\<rparr>"

definition ERR_restore_state :: "err_env \<Rightarrow> err_error list option \<Rightarrow> err_state option \<Rightarrow> err_state option" where
  "ERR_restore_state env state slot =
     (case state of
        None \<Rightarrow> ERR_clear_error env slot
      | Some saved \<Rightarrow>
          (if saved = [] then ERR_clear_error env slot
           else snd (on_state env () (\<lambda>dst. ((), restore_values (env_malloc env) saved dst)) slot)))"

section \<open>The ring as a bounded queue\<close>

definition err_ok :: "err_state \<Rightarrow> bool" where
  "err_ok st \<longleftrightarrow> length (es_errors st) = 16 \<and> es_top st < 16 \<and> es_bottom st < 16"

definition err_count :: "err_state \<Rightarrow> nat" where
  "err_count st = (es_top st + 16 - es_bottom st) mod 16"

text \<open>The queued errors, the least recent first.\<close>

definition err_queue :: "err_state \<Rightarrow> err_error list" where
  "err_queue st = map (\<lambda>i. es_errors st ! ((es_bottom st + 1 + i) mod 16)) [0..<err_count st]"

lemma length_err_queue [simp]: "length (err_queue st) = err_count st"
  by (simp add: err_queue_def)

lemma err_count_le: "err_count st \<le> 15"
proof -
  have "err_count st < 16" by (simp add: err_count_def)
  then show ?thesis by simp
qed

lemma mod16: "(n :: nat) < 32 \<Longrightarrow> n mod 16 = (if n < 16 then n else n - 16)"
  by (simp add: le_mod_geq)

lemma err_count_eq:
  "err_ok st \<Longrightarrow> err_count st = (if es_bottom st \<le> es_top st then es_top st - es_bottom st
     else es_top st + 16 - es_bottom st)"
  by (subst err_count_def, subst mod16) (auto simp: err_ok_def)

lemma ring_pos:
  "b < 16 \<Longrightarrow> i < 16 \<Longrightarrow> ((b :: nat) + 1 + i) mod 16 = (if b + 1 + i < 16 then b + 1 + i else b + 1 + i - 16)"
  by (rule mod16) simp

lemma err_count_0: "err_ok st \<Longrightarrow> err_count st = 0 \<longleftrightarrow> es_top st = es_bottom st"
  by (auto simp: err_count_eq err_ok_def)

lemma err_queue_empty: "err_ok st \<Longrightarrow> err_queue st = [] \<longleftrightarrow> es_top st = es_bottom st"
  using err_count_0 [of st] length_err_queue [of st] by (metis length_0_conv)

lemma err_queue_nth: "i < err_count st \<Longrightarrow> err_queue st ! i = es_errors st ! ((es_bottom st + 1 + i) mod 16)"
  by (simp add: err_queue_def)

lemma set_error_simps [simp]:
  "es_top (set_error i e st) = es_top st" "es_bottom (set_error i e st) = es_bottom st"
  "es_to_free (set_error i e st) = es_to_free st" "es_errors (set_error i e st) = (es_errors st)[i := e]"
  by (simp_all add: set_error_def)

lemma set_error_ok [simp]: "err_ok (set_error i e st) = err_ok st"
  by (simp add: err_ok_def)

text \<open>Positions of the ring: the errors of the queue sit at distinct places, the most recent at the top.\<close>

lemma ring_top:
  assumes "err_ok st" "i < err_count st"
  shows "(es_bottom st + 1 + i) mod 16 = es_top st \<longleftrightarrow> i = err_count st - 1"
proof -
  have "i < 16" using assms(2) err_count_le [of st] by simp
  then show ?thesis
    using assms unfolding err_ok_def
    by (subst ring_pos) (auto simp: err_count_eq [OF assms(1)] split: if_splits)
qed

lemma err_queue_set_top:
  assumes "err_ok st" "es_top st \<noteq> es_bottom st"
  shows "err_queue (set_error (es_top st) e st) = butlast (err_queue st) @ [e]"
    and "err_queue st \<noteq> []" and "last (err_queue st) = es_errors st ! es_top st"
proof -
  have n: "0 < err_count st" using err_count_0 [OF assms(1)] assms(2) by simp
  then show ne: "err_queue st \<noteq> []" by (simp flip: length_greater_0_conv)
  have top: "(es_bottom st + 1 + (err_count st - 1)) mod 16 = es_top st"
    using ring_top [OF assms(1), of "err_count st - 1"] n by simp
  then show "last (err_queue st) = es_errors st ! es_top st"
    using n by (simp add: last_conv_nth [OF ne] err_queue_nth)
  have cnt: "err_count (set_error (es_top st) e st) = err_count st" by (simp add: err_count_def)
  show "err_queue (set_error (es_top st) e st) = butlast (err_queue st) @ [e]"
  proof (rule nth_equalityI)
    show "length (err_queue (set_error (es_top st) e st)) = length (butlast (err_queue st) @ [e])"
      using n by (simp add: cnt)
    fix i
    assume "i < length (err_queue (set_error (es_top st) e st))"
    then have i: "i < err_count st" by (simp add: cnt)
    then have "err_queue (set_error (es_top st) e st) ! i =
        (es_errors st)[es_top st := e] ! ((es_bottom st + 1 + i) mod 16)"
      by (simp add: err_queue_nth cnt)
    also have "\<dots> = (if i = err_count st - 1 then e else es_errors st ! ((es_bottom st + 1 + i) mod 16))"
      using ring_top [OF assms(1) i] assms(1) by (auto simp: nth_list_update err_ok_def)
    also have "\<dots> = (butlast (err_queue st) @ [e]) ! i"
      using i by (auto simp: nth_append nth_butlast err_queue_nth)
    finally show "err_queue (set_error (es_top st) e st) ! i = (butlast (err_queue st) @ [e]) ! i" .
  qed
qed

text \<open>Moving the bottom of the ring up drops the least recent error, moving the top down the most recent.\<close>

lemma err_queue_drop_first:
  assumes "err_ok st" "es_top st \<noteq> es_bottom st"
  shows "err_queue (st\<lparr>es_bottom := (es_bottom st + 1) mod 16\<rparr>) = tl (err_queue st)"
    and "hd (err_queue st) = es_errors st ! ((es_bottom st + 1) mod 16)"
proof -
  let ?st = "st\<lparr>es_bottom := (es_bottom st + 1) mod 16\<rparr>"
  have n: "0 < err_count st" using err_count_0 [OF assms(1)] assms(2) by simp
  then show "hd (err_queue st) = es_errors st ! ((es_bottom st + 1) mod 16)"
    by (subst hd_conv_nth) (simp_all add: err_queue_nth flip: length_greater_0_conv)
  have cnt: "err_count ?st = err_count st - 1"
  proof (subst err_count_eq)
    show "err_ok ?st" using assms(1) by (auto simp: err_ok_def)
    show "(if es_bottom ?st \<le> es_top ?st then es_top ?st - es_bottom ?st else es_top ?st + 16 - es_bottom ?st) =
        err_count st - 1"
      using assms by (auto simp: err_ok_def err_count_eq mod16)
  qed
  show "err_queue ?st = tl (err_queue st)"
  proof (rule nth_equalityI)
    fix i
    assume "i < length (err_queue ?st)"
    then have i: "i < err_count st - 1" by (simp only: length_err_queue cnt)
    have "((es_bottom st + 1) mod 16 + 1 + i) mod 16 = (es_bottom st + 1 + Suc i) mod 16"
      by (metis (no_types) add.assoc add.commute add_Suc_right mod_add_left_eq plus_1_eq_Suc)
    with i show "err_queue ?st ! i = tl (err_queue st) ! i"
      using err_queue_nth [of i ?st] err_queue_nth [of "Suc i" st] by (simp only: cnt) (simp add: nth_tl)
  qed (simp only: length_err_queue length_tl cnt)
qed

lemma err_queue_drop_last:
  assumes "err_ok st" "es_top st \<noteq> es_bottom st"
  shows "err_queue (st\<lparr>es_top := (if es_top st = 0 then 15 else es_top st - 1)\<rparr>) = butlast (err_queue st)"
proof -
  let ?st = "st\<lparr>es_top := (if es_top st = 0 then 15 else es_top st - 1)\<rparr>"
  have cnt: "err_count ?st = err_count st - 1"
  proof (subst err_count_eq)
    show "err_ok ?st" using assms(1) by (auto simp: err_ok_def)
    show "(if es_bottom ?st \<le> es_top ?st then es_top ?st - es_bottom ?st else es_top ?st + 16 - es_bottom ?st) =
        err_count st - 1"
      using assms by (auto simp: err_ok_def err_count_eq)
  qed
  show ?thesis
    by (rule nth_equalityI) (simp_all add: cnt err_queue_nth nth_butlast)
qed

text \<open>The queue does not depend on places of the ring outside it.\<close>

lemma err_queue_cong:
  assumes "es_top st' = es_top st" "es_bottom st' = es_bottom st"
    and "\<And>i. i < err_count st \<Longrightarrow>
      es_errors st' ! ((es_bottom st + 1 + i) mod 16) = es_errors st ! ((es_bottom st + 1 + i) mod 16)"
  shows "err_queue st' = err_queue st"
  using assms by (simp add: err_queue_def err_count_def)

lemma err_queue_outside:
  assumes "err_ok st" "es_top st = es_bottom st \<or> k = es_bottom st"
  shows "err_queue (set_error k e st) = err_queue st"
proof (rule err_queue_cong)
  fix i
  assume i: "i < err_count st"
  then have b: "k = es_bottom st" using assms err_count_0 [OF assms(1)] by auto
  have "i < 16" using i err_count_le [of st] by simp
  then have "(es_bottom st + 1 + i) mod 16 \<noteq> es_bottom st"
    using assms(1) i err_count_le [of st] by (subst ring_pos) (auto simp: err_ok_def)
  then show "es_errors (set_error k e st) ! ((es_bottom st + 1 + i) mod 16) = es_errors st ! ((es_bottom st + 1 + i) mod 16)"
    using b by simp
qed simp_all

section \<open>The operations on the queue\<close>

text \<open>A full queue drops its least recent error for a new one.\<close>

definition queue_put :: "'a \<Rightarrow> 'a list \<Rightarrow> 'a list" where
  "queue_put e q = (if length q < 15 then q else tl q) @ [e]"

definition new_error :: "u32 \<Rightarrow> u32 \<Rightarrow> u32 \<Rightarrow> u8 list option \<Rightarrow> u32 \<Rightarrow> err_error" where
  "new_error errno library reason file line = zero_error
     \<lparr>err_file := file, err_line := ucast line,
      err_packed := ERR_PACK library (if library = ERR_LIB_SYS \<and> reason = 0 then errno else reason)\<rparr>"

lemma put_values_ok: "err_ok st \<Longrightarrow> err_ok (put_values errno library reason file line st)"
  by (simp add: put_values_def Let_def err_ok_def ERR_NUM_ERRORS_def)

lemma err_queue_advance:
  assumes "err_ok st" "(es_top st + 1) mod 16 \<noteq> es_bottom st"
  shows "err_queue (st\<lparr>es_top := (es_top st + 1) mod 16\<rparr>) = err_queue st @ [es_errors st ! ((es_top st + 1) mod 16)]"
proof -
  let ?st = "st\<lparr>es_top := (es_top st + 1) mod 16\<rparr>"
  have ok: "err_ok ?st" using assms(1) by (simp add: err_ok_def)
  have cnt: "err_count ?st = err_count st + 1"
    using assms(2) assms(1) unfolding err_count_eq [OF ok] err_count_eq [OF assms(1)]
    by (auto simp: err_ok_def mod16 split: if_splits)
  show ?thesis
  proof (rule nth_equalityI)
    fix i
    assume "i < length (err_queue ?st)"
    then have i: "i < err_count st + 1" by (simp only: length_err_queue cnt)
    have top: "(es_bottom st + 1 + i) mod 16 = (es_top st + 1) mod 16" if "i = err_count st"
      using ring_top [OF ok, of i] that unfolding cnt by simp
    have "err_queue ?st ! i = es_errors st ! ((es_bottom st + 1 + i) mod 16)"
      using err_queue_nth [of i ?st] i unfolding cnt by simp
    then show "err_queue ?st ! i = (err_queue st @ [es_errors st ! ((es_top st + 1) mod 16)]) ! i"
      using i top by (auto simp: nth_append err_queue_nth less_Suc_eq)
  qed (simp only: length_err_queue length_append cnt list.size)
qed

lemma put_values_queue:
  assumes "err_ok st"
  shows "err_queue (put_values errno library reason file line st) =
    queue_put (new_error errno library reason file line) (err_queue st)"
proof -
  let ?t = "(es_top st + 1) mod 16"
  let ?e = "new_error errno library reason file line"
  let ?b = "if ?t = es_bottom st then (es_bottom st + 1) mod 16 else es_bottom st"
  define st1 where "st1 = st\<lparr>es_bottom := ?b\<rparr>"
  have ok1: "err_ok st1" using assms by (simp add: st1_def err_ok_def)
  have full: "?t = es_bottom st \<longleftrightarrow> \<not> err_count st < 15"
    using assms by (auto simp: err_ok_def err_count_eq [OF assms] mod16 split: if_splits)
  have q1: "err_queue st1 = (if err_count st < 15 then err_queue st else tl (err_queue st))"
    using full err_queue_drop_first(1) [OF assms] assms
    by (cases "?t = es_bottom st") (auto simp: st1_def err_ok_def mod16 split: if_splits)
  have t1: "es_top st1 = es_top st" by (simp add: st1_def)
  have ne: "(es_top st1 + 1) mod 16 \<noteq> es_bottom st1"
    using assms by (auto simp: st1_def err_ok_def mod16 split: if_splits)
  define st2 where "st2 = st1\<lparr>es_top := ?t\<rparr>"
  have ok2: "err_ok st2" using ok1 by (simp add: st2_def err_ok_def)
  have q2: "err_queue st2 = err_queue st1 @ [es_errors st1 ! ?t]"
    using err_queue_advance [OF ok1 ne] by (simp add: st2_def t1)
  have ne2: "es_top st2 \<noteq> es_bottom st2" using ne by (simp add: st2_def t1)
  have "put_values errno library reason file line st = set_error (es_top st2) ?e st2"
    by (simp add: put_values_def Let_def ERR_NUM_ERRORS_def st2_def st1_def err_clear_def new_error_def set_error_def)
  then show ?thesis
    using err_queue_set_top(1) [OF ok2 ne2] by (simp add: q2 q1 queue_put_def)
qed

lemma get_values_queue:
  assumes ok: "err_ok st" and q: "err_queue st = e # q"
  shows "fst (get_values inc False wantf wantd st) =
      (err_packed e, if wantf then Some (error_file_line e) else None, if wantd then Some (error_data_flags e) else None)"
    and "err_ok (snd (get_values inc False wantf wantd st))"
    and "err_queue (snd (get_values inc False wantf wantd st)) = (if inc then q else e # q)"
proof -
  have ne: "es_top st \<noteq> es_bottom st" using q err_queue_empty [OF ok] by auto
  let ?i = "(es_bottom st + 1) mod 16"
  have e: "es_errors st ! ?i = e" using err_queue_drop_first(2) [OF ok ne] q by simp
  have ib: "?i < 16" by simp
  show "fst (get_values inc False wantf wantd st) =
      (err_packed e, if wantf then Some (error_file_line e) else None, if wantd then Some (error_data_flags e) else None)"
    using ne e by (simp add: get_values_def Let_def ERR_NUM_ERRORS_def)
  show "err_ok (snd (get_values inc False wantf wantd st))"
    using ok by (simp add: get_values_def Let_def err_ok_def ERR_NUM_ERRORS_def)
  show "err_queue (snd (get_values inc False wantf wantd st)) = (if inc then q else e # q)"
  proof (cases inc)
    case True
    define st' where "st' = snd (get_values inc False wantf wantd st)"
    let ?st = "st\<lparr>es_bottom := ?i\<rparr>"
    have ok1: "err_ok ?st" using ok by (simp add: err_ok_def)
    have pos: "es_top st' = es_top st" "es_bottom st' = ?i"
      "\<And>k. k \<noteq> ?i \<Longrightarrow> es_errors st' ! k = es_errors st ! k"
      using True ne by (simp_all add: st'_def get_values_def Let_def ERR_NUM_ERRORS_def)
    have "err_queue st' = err_queue ?st"
    proof (rule err_queue_cong)
      fix k
      assume k: "k < err_count ?st"
      have "(es_bottom ?st + 1 + k) mod 16 \<noteq> ?i"
        using k err_count_le [of ?st] by (subst ring_pos) auto
      then show "es_errors st' ! ((es_bottom ?st + 1 + k) mod 16) = es_errors ?st ! ((es_bottom ?st + 1 + k) mod 16)"
        using pos(3) by simp
    qed (simp_all add: pos)
    with True err_queue_drop_first(1) [OF ok ne] q show ?thesis by (simp add: st'_def)
  next
    case False
    with ne q show ?thesis by (simp add: get_values_def Let_def)
  qed
qed

lemma get_values_newest:
  assumes ok: "err_ok st" and q: "err_queue st \<noteq> []"
  shows "get_values False True wantf wantd st =
      ((err_packed (last (err_queue st)), if wantf then Some (error_file_line (last (err_queue st))) else None,
        if wantd then Some (error_data_flags (last (err_queue st))) else None), st)"
proof -
  have ne: "es_top st \<noteq> es_bottom st" using q err_queue_empty [OF ok] by auto
  then show ?thesis
    using err_queue_set_top(3) [OF ok ne] by (simp add: get_values_def Let_def)
qed

lemma get_values_empty: "err_ok st \<Longrightarrow> err_queue st = [] \<Longrightarrow> get_values inc newest wantf wantd st = ((0, None, None), st)"
  by (simp add: get_values_def err_queue_empty)

lemma clear_state_ok [simp]: "err_ok st \<Longrightarrow> err_ok (clear_state st)" "err_queue (clear_state st) = []"
  by (simp_all add: clear_state_def err_ok_def err_queue_def err_count_def)

lemma zero_state_ok [simp]: "err_ok zero_state" "err_queue zero_state = []"
  by (simp_all add: zero_state_def err_ok_def err_queue_def err_count_def ERR_NUM_ERRORS_def)

lemma mark_top_queue:
  assumes "err_ok st"
  shows "mark_top st =
     (err_queue st \<noteq> [], if err_queue st = [] then st else set_error (es_top st) ((last (err_queue st))\<lparr>err_mark := True\<rparr>) st)"
  using err_queue_empty [OF assms] err_queue_set_top(3) [OF assms] by (auto simp: mark_top_def)

text \<open>A thread's slot is ready when it holds a state, or one can be made.\<close>

definition err_ready :: "err_env \<Rightarrow> err_state option \<Rightarrow> bool" where
  "err_ready env slot = (case err_get_state env slot of None \<Rightarrow> False | Some st \<Rightarrow> err_ok st)"

definition err_items :: "err_env \<Rightarrow> err_state option \<Rightarrow> err_error list" where
  "err_items env slot = (case err_get_state env slot of None \<Rightarrow> [] | Some st \<Rightarrow> err_queue st)"

lemma err_get_state_Some [simp]: "err_get_state env (Some st) = Some st"
  by (simp add: err_get_state_def)

lemma err_ready_cases:
  assumes "err_ready env slot"
  obtains st where "err_get_state env slot = Some st" "err_ok st" "err_items env slot = err_queue st"
  using assms that by (cases "err_get_state env slot") (auto simp: err_ready_def err_items_def)

lemma on_state_ready:
  "err_get_state env slot = Some st \<Longrightarrow> on_state env d f slot = (fst (f st), Some (snd (f st)))"
  by (simp add: on_state_def split_beta)

lemma err_Some [simp]: "err_ready env (Some st) = err_ok st" "err_items env (Some st) = err_queue st"
  by (simp_all add: err_ready_def err_items_def)

lemma ERR_put_error_items:
  assumes "err_ready env slot"
  shows "err_ready env (ERR_put_error env errno library reason file line slot)"
    and "err_items env (ERR_put_error env errno library reason file line slot) =
      queue_put (new_error errno library reason file line) (err_items env slot)"
  using assms
  by (auto elim!: err_ready_cases simp: ERR_put_error_def on_state_ready put_values_ok put_values_queue)

lemma ERR_get_error_line_data_items:
  assumes "err_ready env slot"
  shows "err_ready env (snd (ERR_get_error_line_data env slot))"
    and "err_items env (snd (ERR_get_error_line_data env slot)) = tl (err_items env slot)"
    and "fst (ERR_get_error_line_data env slot) =
      (case err_items env slot of [] \<Rightarrow> (0, None, None)
       | e # _ \<Rightarrow> (err_packed e, Some (error_file_line e), Some (error_data_flags e)))"
proof -
  obtain st where st: "err_get_state env slot = Some st" "err_ok st" "err_items env slot = err_queue st"
    using err_ready_cases [OF assms] .
  have eq: "ERR_get_error_line_data env slot =
      (fst (get_values True False True True st), Some (snd (get_values True False True True st)))"
    by (simp add: ERR_get_error_line_data_def get_error_values_def on_state_ready [OF st(1)])
  show "err_ready env (snd (ERR_get_error_line_data env slot))"
    and "err_items env (snd (ERR_get_error_line_data env slot)) = tl (err_items env slot)"
    and "fst (ERR_get_error_line_data env slot) =
      (case err_items env slot of [] \<Rightarrow> (0, None, None)
       | e # _ \<Rightarrow> (err_packed e, Some (error_file_line e), Some (error_data_flags e)))"
    by (cases "err_queue st";
        simp add: eq st get_values_empty [OF st(2)] get_values_queue [OF st(2)])+
qed

text \<open>C18: Each operation on a thread's ring of 16 places is the operation on a queue of at most 15 errors:
putting an error drops the least recent one of a full queue, getting removes and reports the least recent one,
the peek functions report it or the most recent one and change nothing, and clearing empties the queue.\<close>

theorem ERR_operations_refine:
  assumes "err_ready env slot" and q: "q = err_items env slot"
  shows "length q \<le> 15 \<and>
    err_items env (ERR_put_error env errno library reason file line slot) =
      queue_put (new_error errno library reason file line) q \<and>
    err_items env (snd (ERR_get_error_line_data env slot)) = tl q \<and>
    fst (ERR_get_error_line_data env slot) =
      (case q of [] \<Rightarrow> (0, None, None) | e # _ \<Rightarrow> (err_packed e, Some (error_file_line e), Some (error_data_flags e))) \<and>
    err_items env (snd (ERR_peek_error env slot)) = q \<and>
    fst (ERR_peek_error env slot) = (if q = [] then 0 else err_packed (hd q)) \<and>
    err_items env (snd (ERR_peek_last_error env slot)) = q \<and>
    fst (ERR_peek_last_error env slot) = (if q = [] then 0 else err_packed (last q)) \<and>
    err_items env (ERR_clear_error env slot) = []"
proof -
  obtain st where st: "err_get_state env slot = Some st" "err_ok st" "err_items env slot = err_queue st"
    using err_ready_cases [OF assms(1)] .
  have peek: "err_items env (snd (ERR_peek_error env slot)) = q"
    "fst (ERR_peek_error env slot) = (if q = [] then 0 else err_packed (hd q))"
    by (cases "err_queue st";
        simp add: q ERR_peek_error_def get_error_values_def on_state_ready [OF st(1)] split_beta st
          get_values_empty [OF st(2)] get_values_queue [OF st(2)])+
  have newest: "err_items env (snd (ERR_peek_last_error env slot)) = q"
    "fst (ERR_peek_last_error env slot) = (if q = [] then 0 else err_packed (last q))"
    by (cases "err_queue st = []";
        simp add: q ERR_peek_last_error_def get_error_values_def on_state_ready [OF st(1)] split_beta st
          get_values_empty [OF st(2)] get_values_newest [OF st(2)])+
  have "length q \<le> 15" by (simp add: q st(3) err_count_le)
  with peek newest ERR_put_error_items(2) [OF assms(1)] ERR_get_error_line_data_items(2,3) [OF assms(1)]
  show ?thesis by (simp add: q ERR_clear_error_def on_state_ready [OF st(1)])
qed

section \<open>Bounded queues\<close>

text \<open>Reports the items of a queue one by one, at most \<open>n\<close>, until there is none.\<close>

fun drain_queue :: "('s \<Rightarrow> 'e option \<times> 's) \<Rightarrow> nat \<Rightarrow> 's \<Rightarrow> 'e list" where
  "drain_queue get 0 s = []"
| "drain_queue get (Suc n) s = (case get s of (None, _) \<Rightarrow> [] | (Some e, s') \<Rightarrow> e # drain_queue get n s')"

text \<open>What a client of a queue that forgets its oldest items relies on.\<close>

locale bounded_queue =
  fixes ok :: "'s \<Rightarrow> bool" and items :: "'s \<Rightarrow> 'e list" and cap :: nat
    and put :: "'a \<Rightarrow> 's \<Rightarrow> 's" and view :: "'a \<Rightarrow> 'e" and get :: "'s \<Rightarrow> 'e option \<times> 's"
  assumes items_cap: "ok s \<Longrightarrow> length (items s) \<le> cap"
    and put_ok: "ok s \<Longrightarrow> ok (put a s)"
    and put_items: "ok s \<Longrightarrow> items (put a s) = (if length (items s) < cap then items s else tl (items s)) @ [view a]"
    and get_ok: "ok s \<Longrightarrow> ok (snd (get s))"
    and get_Nil: "ok s \<Longrightarrow> items s = [] \<Longrightarrow> fst (get s) = None"
    and get_Cons: "ok s \<Longrightarrow> items s = e # es \<Longrightarrow> fst (get s) = Some e \<and> items (snd (get s)) = es"
begin

lemma fold_put:
  "ok s \<Longrightarrow> ok (fold put as s) \<and>
     items (fold put as s) = drop (length (items s) + length as - cap) (items s @ map view as)"
proof (induction as arbitrary: s)
  case Nil
  then show ?case using items_cap by simp
next
  case (Cons a as)
  have len: "length (items s) \<le> cap" by (rule items_cap [OF Cons.prems])
  show ?case
  proof (cases "length (items s) < cap")
    case True
    then show ?thesis using Cons.IH [OF put_ok [OF Cons.prems]] put_items [OF Cons.prems] by simp
  next
    case False
    with len have full: "length (items s) = cap" by simp
    show ?thesis
    proof (cases "items s")
      case Nil
      with full have "cap = 0" by simp
      with items_cap [OF put_ok [OF Cons.prems]] put_items [OF Cons.prems, of a] show ?thesis by simp
    next
      case (Cons e es)
      have "items (put a s) = es @ [view a]" using put_items [OF Cons.prems, of a] False Cons by simp
      with Cons.IH [OF put_ok [OF Cons.prems]] full Cons show ?thesis
        by (auto simp: drop_Cons' Suc_diff_le)
    qed
  qed
qed

lemma drain: "ok s \<Longrightarrow> drain_queue get n s = take n (items s)"
proof (induction n arbitrary: s)
  case (Suc n)
  then show ?case
    using get_ok [OF Suc.prems] get_Nil [OF Suc.prems] get_Cons [OF Suc.prems]
    by (cases "items s"; cases "get s") auto
qed simp

lemma put_drain:
  "ok s \<Longrightarrow> cap \<le> n \<Longrightarrow>
     drain_queue get n (fold put as s) = drop (length (items s) + length as - cap) (items s @ map view as)"
  using fold_put [of s as] drain [of "fold put as s" n] items_cap [of "fold put as s"] by auto

end

text \<open>What a reader learns of an error.\<close>

definition err_view :: "err_error \<Rightarrow> u32 \<times> (u8 list \<times> int) \<times> (u8 list \<times> nat)" where
  "err_view e = (err_packed e, error_file_line e, error_data_flags e)"

type_synonym put_args = "u32 \<times> u32 \<times> u32 \<times> u8 list option \<times> u32"

fun put_args :: "err_env \<Rightarrow> put_args \<Rightarrow> err_state option \<Rightarrow> err_state option" where
  "put_args env (errno, library, reason, file, line) slot = ERR_put_error env errno library reason file line slot"

fun args_error :: "put_args \<Rightarrow> err_error" where
  "args_error (errno, library, reason, file, line) = new_error errno library reason file line"

definition get_report :: "err_env \<Rightarrow> err_state option \<Rightarrow> (u32 \<times> (u8 list \<times> int) \<times> (u8 list \<times> nat)) option \<times> err_state option" where
  "get_report env slot =
     (case ERR_get_error_line_data env slot of
        ((ret, Some file_line, Some data_flags), slot') \<Rightarrow> (Some (ret, file_line, data_flags), slot')
      | (_, slot') \<Rightarrow> (None, slot'))"

lemma get_report_items:
  assumes "err_ready env slot"
  shows "snd (get_report env slot) = snd (ERR_get_error_line_data env slot)"
    and "fst (get_report env slot) = (case err_items env slot of [] \<Rightarrow> None | e # _ \<Rightarrow> Some (err_view e))"
  using ERR_get_error_line_data_items(3) [OF assms]
  by (cases "ERR_get_error_line_data env slot"; simp add: get_report_def err_view_def split: list.splits)+

lemma err_items_le: "length (err_items env slot) \<le> 15"
  by (simp add: err_items_def err_count_le split: option.split)

interpretation err: bounded_queue "err_ready env" "\<lambda>slot. map err_view (err_items env slot)" 15
  "put_args env" "\<lambda>a. err_view (args_error a)" "get_report env"
proof
  fix slot a e es
  assume ready: "err_ready env slot"
  show "length (map err_view (err_items env slot)) \<le> 15" by (simp add: err_items_le)
  show "err_ready env (put_args env a slot)"
    by (cases a) (simp add: ERR_put_error_items(1) [OF ready])
  show "map err_view (err_items env (put_args env a slot)) =
      (if length (map err_view (err_items env slot)) < 15 then map err_view (err_items env slot)
       else tl (map err_view (err_items env slot))) @ [err_view (args_error a)]"
    by (cases a) (simp add: ERR_put_error_items(2) [OF ready] queue_put_def map_tl)
  show "err_ready env (snd (get_report env slot))"
    by (simp add: get_report_items(1) [OF ready] ERR_get_error_line_data_items(1) [OF ready])
  show "map err_view (err_items env slot) = [] \<Longrightarrow> fst (get_report env slot) = None"
    by (simp add: get_report_items(2) [OF ready])
  show "map err_view (err_items env slot) = e # es \<Longrightarrow>
      fst (get_report env slot) = Some e \<and> map err_view (err_items env (snd (get_report env slot))) = es"
    by (auto simp: get_report_items [OF ready] ERR_get_error_line_data_items(2) [OF ready] map_tl)
qed

text \<open>After any errors are put, reading the queue until it is empty reports the 15 most recent errors of
those queued before and those put, the least recent first, with file, line and data.\<close>

theorem ERR_queue_keeps_newest:
  assumes "err_ready env slot"
  shows "drain_queue (get_report env) 15 (fold (put_args env) args slot) =
    map err_view (drop (length (err_items env slot) + length args - 15) (err_items env slot @ map args_error args))"
  using err.put_drain [OF assms, of 15 args] by (simp add: drop_map comp_def)

section \<open>Marks\<close>

text \<open>Popping to a mark on the queue reversed: the most recent error first.\<close>

fun pop_marked :: "err_error list \<Rightarrow> bool \<times> err_error list" where
  "pop_marked [] = (False, [])"
| "pop_marked (e # es) = (if err_mark e then (True, e\<lparr>err_mark := False\<rparr> # es) else pop_marked es)"

lemma pop_loop_queue:
  "err_ok st \<Longrightarrow> \<exists>st'. pop_loop st = Some (fst (pop_marked (rev (err_queue st))), st') \<and> err_ok st' \<and>
     err_queue st' = rev (snd (pop_marked (rev (err_queue st))))"
proof (induction "err_count st" arbitrary: st)
  case 0
  then show ?case
    using err_count_0 [of st] err_queue_empty [of st] by (subst pop_loop.simps) simp
next
  case (Suc n)
  have ne: "es_top st \<noteq> es_bottom st" using Suc.hyps(2) err_count_0 [OF Suc.prems] by simp
  note top = err_queue_set_top [OF Suc.prems ne]
  let ?e = "es_errors st ! es_top st"
  have q: "err_queue st = butlast (err_queue st) @ [?e]"
    using top(2,3) by (metis append_butlast_last_id)
  show ?case
  proof (cases "err_mark ?e")
    case True
    then have "pop_loop st = Some (True, set_error (es_top st) (?e\<lparr>err_mark := False\<rparr>) st)"
      using ne by (subst pop_loop.simps) (simp add: Let_def)
    moreover have "pop_marked (rev (err_queue st)) = (True, ?e\<lparr>err_mark := False\<rparr> # rev (butlast (err_queue st)))"
      using True by (subst q) simp
    ultimately show ?thesis using Suc.prems top(1) by simp
  next
    case False
    let ?s1 = "set_error (es_top st) (err_clear ?e) st"
    let ?st = "?s1\<lparr>es_top := (if es_top ?s1 = 0 then 15 else es_top ?s1 - 1)\<rparr>"
    have loop: "pop_loop st = pop_loop ?st"
      using ne False by (subst pop_loop.simps) (simp add: Let_def ERR_NUM_ERRORS_def)
    have ok: "err_ok ?st" using Suc.prems by (auto simp: err_ok_def)
    have st: "err_queue ?st = butlast (err_queue st)"
      using err_queue_drop_last [of ?s1] Suc.prems ne top(1) by simp
    have n: "n = err_count ?st"
      using arg_cong [OF st, of length] Suc.hyps(2) by simp
    have "pop_marked (rev (err_queue st)) = pop_marked (rev (butlast (err_queue st)))"
      using False by (subst q) simp
    with Suc.hyps(1) [OF n ok] show ?thesis unfolding loop st by simp
  qed
qed

lemma ERR_pop_to_mark_items:
  assumes "err_ready env slot"
  obtains slot' where "ERR_pop_to_mark env slot = Some (fst (pop_marked (rev (err_items env slot))), slot')"
    "err_ready env slot'" "err_items env slot' = rev (snd (pop_marked (rev (err_items env slot))))"
proof -
  obtain st where st: "err_get_state env slot = Some st" "err_ok st" "err_items env slot = err_queue st"
    using err_ready_cases [OF assms] .
  obtain st' where "pop_loop st = Some (fst (pop_marked (rev (err_queue st))), st')" "err_ok st'"
    "err_queue st' = rev (snd (pop_marked (rev (err_queue st))))"
    using pop_loop_queue [OF st(2)] by blast
  with st that [of "Some st'"] show ?thesis by (simp add: ERR_pop_to_mark_def)
qed

lemma ERR_set_mark_items:
  assumes "err_ready env slot" "err_items env slot \<noteq> []"
  shows "fst (ERR_set_mark env slot)" "err_ready env (snd (ERR_set_mark env slot))"
    and "err_items env (snd (ERR_set_mark env slot)) =
      butlast (err_items env slot) @ [(last (err_items env slot))\<lparr>err_mark := True\<rparr>]"
proof -
  obtain st where st: "err_get_state env slot = Some st" "err_ok st" "err_items env slot = err_queue st"
    using err_ready_cases [OF assms(1)] .
  moreover have "es_top st \<noteq> es_bottom st" using assms(2) st err_queue_empty [OF st(2)] by simp
  ultimately show "fst (ERR_set_mark env slot)" "err_ready env (snd (ERR_set_mark env slot))"
    "err_items env (snd (ERR_set_mark env slot)) =
      butlast (err_items env slot) @ [(last (err_items env slot))\<lparr>err_mark := True\<rparr>]"
    using assms(2) err_queue_set_top(1) [OF st(2)]
    by (simp_all add: ERR_set_mark_def on_state_ready [OF st(1)] mark_top_queue)
qed

lemma new_error_mark [simp]: "\<not> err_mark (new_error errno library reason file line)"
  by (simp add: new_error_def zero_error_def)

lemma pop_marked_unmarked: "\<forall>e \<in> set es. \<not> err_mark e \<Longrightarrow> pop_marked (es @ q) = pop_marked q"
  by (induction es) auto

lemma fold_put_args_items:
  "err_ready env slot \<Longrightarrow> length (err_items env slot) + length args \<le> 15 \<Longrightarrow>
     err_ready env (fold (put_args env) args slot) \<and>
     err_items env (fold (put_args env) args slot) = err_items env slot @ map args_error args"
proof (induction args arbitrary: slot)
  case (Cons a args)
  obtain errno library reason fn ln where a: "a = (errno, library, reason, fn, ln)" by (cases a)
  note put = ERR_put_error_items [OF Cons.prems(1), of errno library reason fn ln]
  have "err_items env (put_args env a slot) = err_items env slot @ [args_error a]"
    using put(2) Cons.prems(2) by (simp add: a queue_put_def)
  with Cons.IH [of "put_args env a slot"] put(1) Cons.prems(2) show ?case by (simp add: a)
qed simp

text \<open>C20: In every reachable shape of the ring \<open>ERR_pop_to_mark\<close> ends. Errors put after \<open>ERR_set_mark\<close>, as long as
the queue has room for them, are exactly the ones it removes.\<close>

theorem ERR_pop_to_mark_undoes:
  assumes ready: "err_ready env slot"
  shows "(\<exists>found slot'. ERR_pop_to_mark env slot = Some (found, slot') \<and> err_ready env slot' \<and>
      (\<not> found \<longrightarrow> err_items env slot' = [])) \<and>
    (err_items env slot \<noteq> [] \<and> length (err_items env slot) + length args \<le> 15 \<longrightarrow>
      (\<exists>slot'. ERR_pop_to_mark env (fold (put_args env) args (snd (ERR_set_mark env slot))) = Some (True, slot') \<and>
        err_items env slot' = butlast (err_items env slot) @ [(last (err_items env slot))\<lparr>err_mark := False\<rparr>]))"
proof (intro conjI impI)
  have none: "\<not> fst (pop_marked q) \<Longrightarrow> snd (pop_marked q) = []" for q
    by (induction q) auto
  show "\<exists>found slot'. ERR_pop_to_mark env slot = Some (found, slot') \<and> err_ready env slot' \<and>
      (\<not> found \<longrightarrow> err_items env slot' = [])"
    by (rule ERR_pop_to_mark_items [OF ready]) (use none in auto)
  assume q: "err_items env slot \<noteq> [] \<and> length (err_items env slot) + length args \<le> 15"
  note mark = ERR_set_mark_items [OF ready conjunct1 [OF q]]
  have len: "length (err_items env (snd (ERR_set_mark env slot))) + length args \<le> 15"
    using q by (simp add: mark(3))
  note put = fold_put_args_items [OF mark(2) len]
  obtain slot' where slot': "ERR_pop_to_mark env (fold (put_args env) args (snd (ERR_set_mark env slot))) =
      Some (fst (pop_marked (rev (err_items env (fold (put_args env) args (snd (ERR_set_mark env slot)))))), slot')"
    "err_items env slot' = rev (snd (pop_marked (rev (err_items env (fold (put_args env) args (snd (ERR_set_mark env slot)))))))"
    using ERR_pop_to_mark_items [OF conjunct1 [OF put]] by metis
  have unmarked: "\<forall>e \<in> set (rev (map args_error args)). \<not> err_mark e" by auto
  show "\<exists>slot'. ERR_pop_to_mark env (fold (put_args env) args (snd (ERR_set_mark env slot))) = Some (True, slot') \<and>
        err_items env slot' = butlast (err_items env slot) @ [(last (err_items env slot))\<lparr>err_mark := False\<rparr>]"
    using slot' by (simp add: conjunct2 [OF put] mark(3) pop_marked_unmarked [OF unmarked])
qed

section \<open>Saving and restoring\<close>

text \<open>The copy of a saved error: its data in a block of its own, without its mark.\<close>

definition saved_error :: "err_error \<Rightarrow> err_error" where
  "saved_error e = e\<lparr>err_data := map_option (\<lambda>d. c_str d @ [0]) (err_data e), err_mark := False\<rparr>"

definition data_ok :: "err_error \<Rightarrow> bool" where
  "data_ok e = (case err_data e of None \<Rightarrow> True | Some d \<Rightarrow> 0 \<in> set d \<and> length d < 2 ^ 63)"

lemma c_str_split: "0 \<in> set d \<Longrightarrow> \<exists>r. d = c_str d @ 0 # r"
  by (induction d) auto

lemma zero_notin_c_str: "0 \<notin> set (c_str d)"
  by (induction d) auto

lemma c_str_len: "0 \<in> set d \<Longrightarrow> length (c_str d) < length d"
  by (induction d) auto

lemma OPENSSL_malloc_total_length:
  assumes "malloc_total mal" "n + 8 < 2 ^ 64"
  obtains b where "OPENSSL_malloc mal n = Some b" "length b = n"
proof -
  have lawful: "malloc_lawful mal"
    unfolding malloc_lawful_def
  proof (intro allI impI)
    fix n b
    assume "mal n = Some b"
    moreover obtain b' where "mal n = Some b'" "length b' = n" using assms(1) unfolding malloc_total_def by blast
    ultimately show "length b = n" by simp
  qed
  obtain b where "OPENSSL_malloc mal n = Some b" using OPENSSL_malloc_total [OF assms(1)] by blast
  with OPENSSL_malloc_usable [OF lawful _ assms(2)] that show ?thesis by blast
qed

lemma OPENSSL_strdup_eq:
  assumes "malloc_total mal" "0 \<in> set d" "length d < 2 ^ 63"
  shows "OPENSSL_strdup mal (Some d) = Some (c_str d @ [0])"
proof -
  obtain r where r: "d = c_str d @ 0 # r" using c_str_split [OF assms(2)] by blast
  have len: "c_strlen d + 1 \<le> length d" using c_str_len [OF assms(2)] by (simp add: c_strlen_def)
  with assms(3) have "c_strlen d + 1 + 8 < 2 ^ 64" by simp
  then obtain b where b: "OPENSSL_malloc mal (c_strlen d + 1) = Some b" "length b = c_strlen d + 1"
    using OPENSSL_malloc_total_length [OF assms(1)] by metis
  have "take (c_strlen d + 1) d = c_str d @ [0]"
    by (subst r) (simp add: c_strlen_def)
  then show ?thesis using b len assms(3) by (simp add: OPENSSL_strdup_def Let_def)
qed

lemma err_copy_eq:
  assumes "malloc_total mal" "data_ok src"
  shows "err_copy mal dst src = saved_error src"
  using assms
  by (cases src; cases "err_data src")
    (auto simp: err_copy_def saved_error_def err_clear_def zero_error_def data_ok_def OPENSSL_strdup_eq)

lemma saved_error_idem:
  assumes "data_ok e"
  shows "data_ok (saved_error e)" "saved_error (saved_error e) = saved_error e"
proof -
  show "data_ok (saved_error e)"
  proof (cases "err_data e")
    case (Some d)
    with assms c_str_len [of d] show ?thesis by (simp add: data_ok_def saved_error_def)
  qed (simp add: data_ok_def saved_error_def)
  show "saved_error (saved_error e) = saved_error e"
    by (simp add: saved_error_def option.map_comp comp_def zero_notin_c_str)
qed

lemma save_values_eq:
  assumes ok: "err_ok st" and mal: "malloc_total mal" and data: "\<forall>e \<in> set (err_queue st). data_ok e"
  shows "save_values mal st = (if err_queue st = [] then None else Some (map saved_error (err_queue st)))"
proof (cases "err_queue st = []")
  case True
  then show ?thesis using err_queue_empty [OF ok] by (simp add: save_values_def)
next
  case False
  let ?n = "if es_top st \<ge> es_bottom st then es_top st - es_bottom st else ERR_NUM_ERRORS + es_top st - es_bottom st"
  have n: "?n = err_count st"
    by (simp add: err_count_eq [OF ok] ERR_NUM_ERRORS_def add.commute)
  obtain b1 where b1: "OPENSSL_malloc mal sizeof_ERR_SAVE_STATE = Some b1"
    using OPENSSL_malloc_total [OF mal, of sizeof_ERR_SAVE_STATE] by (auto simp: sizeof_ERR_SAVE_STATE_def)
  have small: "err_count st * sizeof_err_error_st \<le> 360"
    using err_count_le [of st] by (simp add: sizeof_err_error_st_def)
  then obtain b2 where b2: "OPENSSL_malloc mal (err_count st * sizeof_err_error_st) = Some b2"
    using OPENSSL_malloc_total [OF mal, of "err_count st * sizeof_err_error_st"] by auto
  have "map (\<lambda>i. err_copy mal zero_error (es_errors st ! ((es_bottom st + i + 1) mod ERR_NUM_ERRORS))) [0..<err_count st] =
      map saved_error (err_queue st)"
    using data by (auto simp: err_queue_def ERR_NUM_ERRORS_def err_copy_eq [OF mal])
  with False ok b1 b2 show ?thesis
    unfolding save_values_def Let_def n by (simp add: err_queue_empty)
qed

lemma restore_values_queue:
  assumes ok: "err_ok dst" and n: "saved \<noteq> []" "length saved \<le> 15"
  shows "err_ok (restore_values mal saved dst)"
    and "err_queue (restore_values mal saved dst) =
      map (\<lambda>i. err_copy mal (es_errors dst ! i) (saved ! i)) [0..<length saved]"
proof -
  let ?st = "restore_values mal saved dst"
  have "length saved - 1 < 16" using n by simp
  then show okr: "err_ok ?st" using ok by (simp add: restore_values_def err_ok_def ERR_NUM_ERRORS_def)
  have cnt: "err_count ?st = length saved"
    using n by (auto simp: err_count_eq [OF okr]) (simp_all add: restore_values_def ERR_NUM_ERRORS_def Suc_le_eq)
  show "err_queue ?st = map (\<lambda>i. err_copy mal (es_errors dst ! i) (saved ! i)) [0..<length saved]"
    unfolding err_queue_def cnt using ok n by (simp add: restore_values_def ERR_NUM_ERRORS_def err_ok_def)
qed

text \<open>C19: A queue saved on one thread's state and restored over any other is the saved queue: the same errors in
the same order with their data copied. Their marks are not kept, and an empty queue restores to an empty one.\<close>

theorem ERR_save_restore:
  assumes "err_ready env slot" "err_ready env' slot'" "malloc_total (env_malloc env)" "malloc_total (env_malloc env')"
    and "\<forall>e \<in> set (err_items env slot). data_ok e"
  shows "err_items env' (ERR_restore_state env' (fst (ERR_save_state env slot)) slot') =
    map saved_error (err_items env slot)"
proof -
  obtain st where st: "err_get_state env slot = Some st" "err_ok st" "err_items env slot = err_queue st"
    using err_ready_cases [OF assms(1)] .
  obtain dst where dst: "err_get_state env' slot' = Some dst" "err_ok dst"
    using err_ready_cases [OF assms(2)] .
  have data: "\<forall>e \<in> set (err_queue st). data_ok e" using assms(5) st(3) by simp
  have save: "fst (ERR_save_state env slot) = (if err_queue st = [] then None else Some (map saved_error (err_queue st)))"
    by (simp add: ERR_save_state_def on_state_ready [OF st(1)] save_values_eq [OF st(2) assms(3) data])
  show ?thesis
  proof (cases "err_queue st = []")
    case True
    then show ?thesis
      by (simp add: save ERR_restore_state_def ERR_clear_error_def on_state_ready [OF dst(1)] st(3))
  next
    case False
    let ?saved = "map saved_error (err_queue st)"
    have n: "?saved \<noteq> []" "length ?saved \<le> 15" using False err_count_le by simp_all
    have "err_copy (env_malloc env') (es_errors dst ! i) (?saved ! i) = ?saved ! i" if "i < length ?saved" for i
    proof -
      have "data_ok (err_queue st ! i)" using that data by simp
      then show ?thesis
        using that by (simp add: err_copy_eq [OF assms(4)] saved_error_idem)
    qed
    then have "map (\<lambda>i. err_copy (env_malloc env') (es_errors dst ! i) (?saved ! i)) [0..<length ?saved] = ?saved"
      by (intro nth_equalityI) auto
    with False restore_values_queue(2) [OF dst(2) n] show ?thesis
      by (simp add: save ERR_restore_state_def on_state_ready [OF dst(1)] st(3))
  qed
qed

section \<open>Error data\<close>

definition arg_text :: "u8 list option list \<Rightarrow> u8 list" where
  "arg_text args = concat (map (\<lambda>a. case a of None \<Rightarrow> [] | Some s \<Rightarrow> c_str s) args)"

lemma arg_text_simps [simp]:
  "arg_text [] = []" "arg_text (None # args) = arg_text args" "arg_text (Some s # args) = c_str s @ arg_text args"
  by (simp_all add: arg_text_def)

lemma take_c_strlen: "take (c_strlen s) s = c_str s"
  unfolding c_strlen_def c_str_def by (metis takeWhile_eq_take)

lemma store_tail:
  assumes "len + length xs \<le> length buf"
  shows "length (store_at len xs buf) = length buf" "take (len + length xs) (store_at len xs buf) = take len buf @ xs"
  using assms by (simp_all add: length_store_at take_store_at)

lemma OPENSSL_realloc_grow:
  assumes "malloc_total mal" "n + 8 < 2 ^ 64" "length old \<le> n"
  obtains b where "OPENSSL_realloc mal (Some old) n = Some b" "length b = n" "take (length old) b = old"
proof -
  obtain ret where ret: "OPENSSL_malloc mal n = Some ret" "length ret = n"
    using OPENSSL_malloc_total_length [OF assms(1,2)] .
  with assms(3) that [of "old @ drop (length old) ret"] show ?thesis
    by (cases "length old < n") (auto simp: OPENSSL_realloc_def)
qed

lemma vdata_loop_eq:
  assumes "malloc_total mal" "length buf = alloced + 1" "len \<le> alloced"
    "alloced < 2 ^ 62" "len + length (arg_text args) < 2 ^ 61"
  shows "\<exists>buf'. vdata_loop mal args buf alloced len = Some (buf', len + length (arg_text args)) \<and>
    len + length (arg_text args) < length buf' \<and>
    take (len + length (arg_text args)) buf' = take len buf @ arg_text args"
  using assms(2-)
proof (induction args arbitrary: buf alloced len)
  case (Cons a args)
  show ?case
  proof (cases a)
    case None
    with Cons show ?thesis by simp
  next
    case (Some s)
    let ?n = "len + c_strlen s"
    have args: "len + length (arg_text (a # args)) = ?n + length (arg_text args)"
      by (simp add: Some c_strlen_def)
    have n: "?n + length (arg_text args) < 2 ^ 61" using Cons.prems(4) args by simp
    have sz: "sz ?n = ?n" "sz (alloced + 20 + 1) = alloced + 20 + 1" "sz (?n + 20) = ?n + 20" "sz (?n + 20 + 1) = ?n + 20 + 1"
      using n Cons.prems(3) by simp_all
    obtain buf1 al1 where step: "vdata_loop mal (a # args) buf alloced len =
          vdata_loop mal args (store_at len (c_str s) buf1) al1 ?n"
      and buf1: "length buf1 = al1 + 1" "take len buf1 = take len buf" "?n \<le> al1" "al1 < 2 ^ 62"
    proof (cases "?n > alloced")
      case True
      have "?n + 20 + 1 + 8 < 2 ^ 64" using n by simp
      moreover have "length buf \<le> ?n + 20 + 1" using True Cons.prems(1) by simp
      ultimately obtain b where b: "OPENSSL_realloc mal (Some buf) (?n + 20 + 1) = Some b" "length b = ?n + 20 + 1"
        "take (length buf) b = buf"
        using OPENSSL_realloc_grow [OF assms(1)] by metis
      have "take len b = take len buf"
        using arg_cong [OF b(3), of "take len"] Cons.prems(1,2) by (simp add: min_def)
      moreover have "vdata_loop mal (a # args) buf alloced len =
          vdata_loop mal args (store_at len (c_str s) b) (?n + 20) ?n"
        using True b(1) unfolding Some vdata_loop.simps Let_def sz by (simp add: take_c_strlen)
      ultimately show thesis using that [of b "?n + 20"] b(2) n by simp
    next
      case False
      then have "vdata_loop mal (a # args) buf alloced len = vdata_loop mal args (store_at len (c_str s) buf) alloced ?n"
        unfolding Some vdata_loop.simps Let_def sz by (simp add: take_c_strlen)
      with that [of buf alloced] False Cons.prems show thesis by simp
    qed
    have fit: "len + length (c_str s) \<le> length buf1" using buf1(1,3) by (simp add: c_strlen_def)
    note store = store_tail [OF fit]
    have "take ?n (store_at len (c_str s) buf1) = take len buf @ c_str s"
      using store(2) buf1(2) by (simp add: c_strlen_def)
    with Cons.IH [of "store_at len (c_str s) buf1" al1 ?n] store(1) buf1 n show ?thesis
      unfolding step args by (simp add: Some)
  qed
qed simp

lemma set_data_queue:
  assumes "err_ok st" "err_queue st \<noteq> []"
  shows "err_ok (set_data d st)" "err_queue (set_data d st) = butlast (err_queue st) @ [(last (err_queue st))\<lparr>err_data := Some d\<rparr>]"
  using assms err_queue_empty [OF assms(1)] err_queue_set_top [OF assms(1)] by (auto simp: set_data_def)

lemma zero_notin_arg_text: "0 \<notin> set (arg_text args)"
  by (auto simp: arg_text_def zero_notin_c_str split: option.splits)

lemma err_set_error_data_items:
  assumes "err_ready env slot" "err_items env slot \<noteq> []"
  shows "err_items env (err_set_error_data env d slot) =
    butlast (err_items env slot) @ [(last (err_items env slot))\<lparr>err_data := Some d\<rparr>]"
proof -
  obtain st where st: "err_get_state env slot = Some st" "err_ok st" "err_items env slot = err_queue st"
    using err_ready_cases [OF assms(1)] .
  with assms(2) show ?thesis
    by (simp add: err_set_error_data_def on_state_ready [OF st(1)] set_data_queue)
qed

lemma ERR_add_error_dataf_items:
  assumes "malloc_total (env_malloc env)" "err_ready env slot" "err_items env slot \<noteq> []" "0 \<notin> set text"
  shows "\<exists>d. err_items env (ERR_add_error_dataf env text slot) =
      butlast (err_items env slot) @ [(last (err_items env slot))\<lparr>err_data := Some d\<rparr>] \<and> c_str d = take 255 text"
proof -
  obtain buf where buf: "OPENSSL_malloc (env_malloc env) (256 + 1) = Some buf" "length buf = 257"
    using OPENSSL_malloc_total_length [OF assms(1), of "256 + 1"] by auto
  let ?t = "take 255 text"
  let ?d = "store_at 256 [0] (BIO_snprintf buf 256 text)"
  have "256 - length ?t = Suc (255 - length ?t)" by simp
  then have "?d = ?t @ 0 # take (255 - length ?t) (drop (length ?t + 1) buf) @ [0]"
    using buf(2) by (simp add: BIO_snprintf_def store_at_def del: length_take)
  then have "c_str ?d = ?t"
    using assms(4) by (metis c_str_terminated in_set_takeD)
  with err_set_error_data_items [OF assms(2,3), of ?d] buf(1) show ?thesis
    by (auto simp: ERR_add_error_dataf_def Let_def)
qed

text \<open>With memory at hand \<open>ERR_add_error_data\<close> gives the most recent error, and no other, the concatenation of
its arguments as data, growing the buffer as needed and writing only inside it.\<close>

theorem ERR_add_error_data_concat:
  assumes "malloc_total (env_malloc env)" "err_ready env slot" "err_items env slot \<noteq> []" "length (arg_text args) < 2 ^ 60"
  shows "\<exists>d. err_items env (ERR_add_error_data env args slot) =
      butlast (err_items env slot) @ [(last (err_items env slot))\<lparr>err_data := Some d\<rparr>] \<and>
    c_str d = arg_text args \<and> 0 \<in> set d"
proof -
  obtain buf where buf: "OPENSSL_malloc (env_malloc env) (80 + 1) = Some buf" "length buf = 80 + 1"
    using OPENSSL_malloc_total_length [OF assms(1), of "80 + 1"] by auto
  obtain buf' where loop: "vdata_loop (env_malloc env) args buf 80 0 = Some (buf', length (arg_text args))"
    "length (arg_text args) < length buf'" "take (length (arg_text args)) buf' = arg_text args"
    using vdata_loop_eq [OF assms(1) buf(2), of 0 args] assms(4) by auto
  define d where "d = store_at (length (arg_text args)) [0] buf'"
  have "d = arg_text args @ 0 # drop (length (arg_text args) + 1) buf'"
    using loop(2,3) by (simp add: d_def store_at_def)
  then have "c_str d = arg_text args \<and> 0 \<in> set d" by (simp add: zero_notin_arg_text)
  moreover have "ERR_add_error_data env args slot = err_set_error_data env d slot"
    using buf(1) loop(1) by (simp add: ERR_add_error_data_def err_add_error_vdata_def d_def)
  ultimately show ?thesis using err_set_error_data_items [OF assms(2,3), of d] by auto
qed

section \<open>The statements on concrete inputs\<close>

definition sample_env :: err_env where
  "sample_env = \<lparr>env_malloc = zero_malloc, env_set_tls = True\<rparr>"

definition one_error :: "err_state option" where
  "one_error = ERR_put_error sample_env 0 7 65 (Some [98, 46, 99]) 3 None"

lemma fresh_ready: "err_ready sample_env None" "err_items sample_env None = []"
proof -
  have "err_get_state sample_env None = Some zero_state"
    using OPENSSL_malloc_total [OF zero_malloc_total, of sizeof_ERR_STATE] by (auto simp: err_get_state_def sample_env_def)
  then show "err_ready sample_env None" "err_items sample_env None = []" by (simp_all add: err_ready_def err_items_def)
qed

lemma one_error_ready: "err_ready sample_env one_error" "err_items sample_env one_error = [new_error 0 7 65 (Some [98, 46, 99]) 3]"
  using ERR_put_error_items [OF fresh_ready(1)] by (simp_all add: one_error_def fresh_ready(2) queue_put_def)

lemma sample_env_total: "malloc_total (env_malloc sample_env)"
  by (simp add: sample_env_def zero_malloc_total)

theorem ERR_operations_refine_witness:
  "err_items sample_env (ERR_put_error sample_env 0 17 3 None 5 one_error) =
     [new_error 0 7 65 (Some [98, 46, 99]) 3, new_error 0 17 3 None 5] \<and>
   err_items sample_env (snd (ERR_get_error_line_data sample_env one_error)) = []"
  using ERR_operations_refine [OF one_error_ready(1) refl, of 0 17 3 None 5] by (simp add: one_error_ready(2) queue_put_def)

theorem ERR_queue_keeps_newest_witness:
  "drain_queue (get_report sample_env) 15 (fold (put_args sample_env) [(0, 17, 3, None, 5)] one_error) =
     map err_view [new_error 0 7 65 (Some [98, 46, 99]) 3, new_error 0 17 3 None 5]"
  using ERR_queue_keeps_newest [OF one_error_ready(1), of "[(0, 17, 3, None, 5)]"] by (simp add: one_error_ready(2))

theorem ERR_pop_to_mark_undoes_witness:
  "\<exists>slot'. ERR_pop_to_mark sample_env (fold (put_args sample_env) [(0, 17, 3, None, 5)] (snd (ERR_set_mark sample_env one_error))) =
       Some (True, slot') \<and> err_items sample_env slot' = [new_error 0 7 65 (Some [98, 46, 99]) 3]"
  using ERR_pop_to_mark_undoes [OF one_error_ready(1), of "[(0, 17, 3, None, 5)]"]
  by (auto simp: one_error_ready(2) new_error_def zero_error_def)

theorem ERR_save_restore_witness:
  "err_items sample_env (ERR_restore_state sample_env (fst (ERR_save_state sample_env one_error)) None) =
     [new_error 0 7 65 (Some [98, 46, 99]) 3]"
  using ERR_save_restore [OF one_error_ready(1) fresh_ready(1) sample_env_total sample_env_total]
  by (simp add: one_error_ready(2) data_ok_def saved_error_def new_error_def zero_error_def)

theorem ERR_add_error_data_concat_witness:
  "\<exists>d. err_items sample_env (ERR_add_error_data sample_env [Some [65, 0], None, Some [66, 67, 0]] one_error) =
      [(new_error 0 7 65 (Some [98, 46, 99]) 3)\<lparr>err_data := Some d\<rparr>] \<and> c_str d = [65, 66, 67]"
  using ERR_add_error_data_concat [OF sample_env_total one_error_ready(1), of "[Some [65, 0], None, Some [66, 67, 0]]"]
  by (auto simp: one_error_ready(2))

end
