(* ===== verification/ErrText.thy ===== *)
theory ErrText
  imports Err BufMem
begin

text \<open>
  The text functions of \<^verbatim>\<open>crypto/err/err.c\<close>: names of libraries and reasons, error strings and the
  printing of the queue. The generated tables and libc's strerror and bsearch are parameters.
\<close>

section \<open>Names\<close>

definition ERR_NUM_LIBS :: nat where
  "ERR_NUM_LIBS = 33"

definition kLibraryNames :: "u8 list list" where
  "kLibraryNames = map ascii
     [''invalid library (0)'', ''unknown library'', ''system library'', ''bignum routines'', ''RSA routines'',
      ''Diffie-Hellman routines'', ''public key routines'', ''memory buffer routines'', ''object identifier routines'',
      ''PEM routines'', ''DSA routines'', ''X.509 certificate routines'', ''ASN.1 encoding routines'',
      ''configuration file routines'', ''common libcrypto routines'', ''elliptic curve routines'', ''SSL routines'',
      ''BIO routines'', ''PKCS7 routines'', ''PKCS8 routines'', ''X509 V3 routines'', ''random number generator'',
      ''ENGINE routines'', ''OCSP routines'', ''UI routines'', ''COMP routines'', ''ECDSA routines'', ''ECDH routines'',
      ''HMAC routines'', ''Digest functions'', ''Cipher functions'', ''HKDF functions'', ''User defined functions'']"

definition ERR_lib_error_string :: "u32 \<Rightarrow> u8 list option" where
  "ERR_lib_error_string packed_error =
     (let lib = unat (ERR_GET_LIB packed_error)
      in if lib \<ge> ERR_NUM_LIBS then None else Some (kLibraryNames ! lib))"

definition ERR_func_error_string :: "u32 \<Rightarrow> u8 list" where
  "ERR_func_error_string packed_error = ascii ''OPENSSL_internal''"

text \<open>
  What the functions look strings up in: the generated tables, libc's strerror and its bsearch,
  which gets the comparison, the key and the array.
\<close>

record err_tables =
  reason_values :: "u32 list"
  reason_data :: "u8 list"
  tab_strerror :: "nat \<Rightarrow> u8 list"
  tab_bsearch :: "(u32 \<Rightarrow> u32 \<Rightarrow> int) \<Rightarrow> u32 \<Rightarrow> u32 list \<Rightarrow> u32 option"

definition err_string_cmp :: "u32 \<Rightarrow> u32 \<Rightarrow> int" where
  "err_string_cmp a b =
     (let a_key = drop_bit 15 a; b_key = drop_bit 15 b
      in if a_key < b_key then -1 else if a_key > b_key then 1 else 0)"

definition err_string_lookup :: "err_tables \<Rightarrow> u32 \<Rightarrow> u32 \<Rightarrow> u8 list option" where
  "err_string_lookup tabs lib key =
     (if lib \<ge> push_bit 6 1 \<or> key \<ge> push_bit 11 1 then None
      else
        (let search_key = push_bit 26 lib OR push_bit 15 key
         in case tab_bsearch tabs err_string_cmp search_key (reason_values tabs) of
              None \<Rightarrow> None
            | Some result \<Rightarrow> Some (drop (unat (result AND 0x7fff)) (reason_data tabs))))"

definition ERR_reason_error_string :: "err_tables \<Rightarrow> u32 \<Rightarrow> u8 list option" where
  "ERR_reason_error_string tabs packed_error =
     (let lib = ERR_GET_LIB packed_error;
          reason = ERR_GET_REASON packed_error
      in if lib = ERR_LIB_SYS then
           (if reason < 127 then Some (tab_strerror tabs (unat reason)) else None)
         else if unat reason < ERR_NUM_LIBS then Some (kLibraryNames ! unat reason)
         else if reason < 100 then
           (if unat reason = ERR_R_MALLOC_FAILURE then Some (ascii ''malloc failure'')
            else if reason = 2 OR 64 then Some (ascii ''function should not have been called'')
            else if reason = 3 OR 64 then Some (ascii ''passed a null parameter'')
            else if reason = 4 OR 64 then Some (ascii ''internal error'')
            else if unat reason = ERR_R_OVERFLOW then Some (ascii ''overflow'')
            else None)
         else err_string_lookup tabs lib reason)"

text \<open>The documented behaviour of bsearch on an array in ascending order of its keys.\<close>

definition bsearch_lawful :: "((u32 \<Rightarrow> u32 \<Rightarrow> int) \<Rightarrow> u32 \<Rightarrow> u32 list \<Rightarrow> u32 option) \<Rightarrow> bool" where
  "bsearch_lawful bsearch \<longleftrightarrow>
     (\<forall>key vals. sorted (map (\<lambda>v. drop_bit 15 v) vals) \<longrightarrow>
        (case bsearch err_string_cmp key vals of
           None \<Rightarrow> \<forall>v \<in> set vals. err_string_cmp key v \<noteq> 0
         | Some v \<Rightarrow> v \<in> set vals \<and> err_string_cmp key v = 0))"

lemma bsearch_lawfulD:
  "bsearch_lawful bs \<Longrightarrow> sorted (map (\<lambda>v. drop_bit 15 v) vals) \<Longrightarrow>
   (case bs err_string_cmp key vals of
      None \<Rightarrow> \<forall>v \<in> set vals. err_string_cmp key v \<noteq> 0
    | Some v \<Rightarrow> v \<in> set vals \<and> err_string_cmp key v = 0)"
  unfolding bsearch_lawful_def by blast

text \<open>A row of the table: library, reason and the place of the string.\<close>

definition table_row :: "nat \<Rightarrow> nat \<Rightarrow> nat \<Rightarrow> u32" where
  "table_row lib key offset = word_of_nat (lib * 2 ^ 26 + key * 2 ^ 15 + offset)"

lemma err_string_cmp_0: "err_string_cmp a b = 0 \<longleftrightarrow> drop_bit 15 a = drop_bit 15 b"
  by (auto simp: err_string_cmp_def Let_def)

lemma unat_table_row:
  assumes "lib < 64" "key < 2048" "offset < 32768"
  shows "unat (table_row lib key offset) = lib * 2 ^ 26 + key * 2 ^ 15 + offset"
proof -
  have "lib * 2 ^ 26 + key * 2 ^ 15 + offset < 2 ^ 32" using assms by simp
  then show ?thesis
    unfolding table_row_def unat_of_nat by simp
qed

lemma search_key_eq:
  fixes lib key :: u32
  assumes "unat lib < 64" "unat key < 2048"
  shows "push_bit 26 lib OR push_bit 15 key = table_row (unat lib) (unat key) 0"
proof (rule word_eqI_unat)
  have k: "unat (push_bit 15 key) = unat key * 2 ^ 15"
    using assms(2) by (subst unsigned_push_bit_eq)
      (simp add: push_bit_eq_mult [where 'a = nat] take_bit_nat_eq_self mult.commute)
  have "unat (push_bit 26 lib OR push_bit 15 key) = unat lib * 2 ^ 26 + unat (push_bit 15 key)"
    by (rule unat_shift_or) (use assms k in simp_all)
  also have "\<dots> = unat (table_row (unat lib) (unat key) 0)"
    using assms by (simp add: k unat_table_row)
  finally show "unat (push_bit 26 lib OR push_bit 15 key) = unat (table_row (unat lib) (unat key) 0)" .
qed

lemma table_row_key:
  assumes "lib < 64" "key < 2048" "offset < 32768"
  shows "unat (drop_bit 15 (table_row lib key offset)) = lib * 2048 + key"
    and "unat (table_row lib key offset AND 0x7fff) = offset"
proof -
  show "unat (drop_bit 15 (table_row lib key offset)) = lib * 2048 + key"
    using assms by (simp add: unat_drop_bit unat_table_row)
  have m: "(0x7fff :: u32) = Bit_Operations.mask 15" by (simp add: mask_eq_exp_minus_1)
  show "unat (table_row lib key offset AND 0x7fff) = offset"
  proof -
    have "unat (take_bit 15 (table_row lib key offset)) = unat (table_row lib key offset) mod 2 ^ 15"
      by (simp add: unsigned_take_bit_eq take_bit_eq_mod [where 'a = nat])
    also have "\<dots> = (offset + (lib * 2048 + key) * 2 ^ 15) mod 2 ^ 15"
      unfolding unat_table_row [OF assms] by (simp add: algebra_simps)
    also have "\<dots> = offset" using assms(3) by (simp only: mod_mult_self1) simp
    finally show ?thesis unfolding m by (simp add: take_bit_eq_mask)
  qed
qed

lemma table_row_mono:
  assumes "l < 64" "k < 2048" "off < 32768" "l' < 64" "k' < 2048" "off' < 32768" "l < l' \<or> l = l' \<and> k < k'"
  shows "drop_bit 15 (table_row l k off) \<le> drop_bit 15 (table_row l' k' off')"
  using assms(2,7) unfolding word_le_nat_alt table_row_key(1) [OF assms(1-3)] table_row_key(1) [OF assms(4-6)]
  by linarith

lemma table_sorted:
  "\<forall>(l, k, off) \<in> set rows. l < 64 \<and> k < 2048 \<and> off < 32768 \<Longrightarrow>
   sorted_wrt (\<lambda>(l, k, _) (l', k', _). l < l' \<or> l = l' \<and> k < k') rows \<Longrightarrow>
   sorted (map (\<lambda>v. drop_bit 15 v) (map (\<lambda>(l, k, off). table_row l k off) rows))"
proof (induction rows)
  case (Cons r rows)
  obtain l k off where r: "r = (l, k, off)" by (cases r)
  have "drop_bit 15 (table_row l k off) \<le> drop_bit 15 (table_row l' k' off')" if "(l', k', off') \<in> set rows" for l' k' off'
    by (rule table_row_mono) (use that Cons.prems in \<open>auto simp: r\<close>)
  with Cons show ?case by (auto simp: r)
qed simp

lemma row_key_inj:
  assumes "l * 2048 + k = l' * 2048 + k'" "k < 2048" "k' < (2048 :: nat)"
  shows "l = l' \<and> k = k'"
proof
  show "l = l'" using arg_cong [OF assms(1), of "\<lambda>x. x div 2048"] assms(2,3) by simp
  show "k = k'" using arg_cong [OF assms(1), of "\<lambda>x. x mod 2048"] assms(2,3) by simp
qed

lemma rows_unique:
  "sorted_wrt (\<lambda>(l, k, _) (l', k', _). l < l' \<or> l = l' \<and> k < (k' :: nat)) rows \<Longrightarrow>
     (l :: nat, k, a) \<in> set rows \<Longrightarrow> (l, k, b) \<in> set rows \<Longrightarrow> a = b"
  by (induction rows) auto

text \<open>What the lookup does for a pair that fits its key, and for one that does not.\<close>

lemma err_string_lookup_unfold:
  assumes "unat lib < 64" "unat key < 2048"
  shows "err_string_lookup tabs lib key =
    map_option (\<lambda>v. drop (unat (v AND 0x7fff)) (reason_data tabs))
      (tab_bsearch tabs err_string_cmp (table_row (unat lib) (unat key) 0) (reason_values tabs))"
proof -
  have "\<not> (lib \<ge> push_bit 6 1 \<or> key \<ge> push_bit 11 1)"
    using assms by (simp add: word_le_nat_alt push_bit_eq_mult)
  then show ?thesis
    unfolding err_string_lookup_def search_key_eq [OF assms] by (simp only: if_False Let_def) (simp split: option.split)
qed

lemma err_string_lookup_big:
  assumes "\<not> (unat lib < 64 \<and> unat key < 2048)"
  shows "err_string_lookup tabs lib key = None"
proof -
  have "lib \<ge> push_bit 6 1 \<or> key \<ge> push_bit 11 1"
    using assms by (auto simp: word_le_nat_alt push_bit_eq_mult)
  then show ?thesis unfolding err_string_lookup_def by (simp only: if_True)
qed

lemma err_string_cmp_row:
  assumes "l < 64" "k < 2048" "off < 32768" "l' < 64" "k' < 2048"
  shows "err_string_cmp (table_row l' k' 0) (table_row l k off) = 0 \<longleftrightarrow> l = l' \<and> k = k'"
proof -
  have "err_string_cmp (table_row l' k' 0) (table_row l k off) = 0 \<longleftrightarrow> l' * 2048 + k' = l * 2048 + k"
    using assms by (simp add: err_string_cmp_0 word_unat_eq_iff table_row_key(1))
  also have "\<dots> \<longleftrightarrow> l = l' \<and> k = k'"
    using row_key_inj [of l' k' l k] assms by blast
  finally show ?thesis .
qed

text \<open>In a table sorted by library and reason, without two rows for the same pair, the string found for an error
is the one its row points at, and nothing is found for an error without a row.\<close>

theorem err_string_lookup_exact:
  assumes "bsearch_lawful (tab_bsearch tabs)"
    and rows: "reason_values tabs = map (\<lambda>(l, k, off). table_row l k off) rows"
    and fits: "\<forall>(l, k, off) \<in> set rows. l < 64 \<and> k < 2048 \<and> off < 32768"
    and sorted_rows: "sorted_wrt (\<lambda>(l, k, _) (l', k', _). l < l' \<or> l = l' \<and> k < k') rows"
  shows "err_string_lookup tabs lib key = Some s \<longleftrightarrow>
    (\<exists>off. (unat lib, unat key, off) \<in> set rows \<and> s = drop off (reason_data tabs))"
proof (cases "unat lib < 64 \<and> unat key < 2048")
  case False
  moreover have "(unat lib, unat key, off) \<notin> set rows" for off using False fits by blast
  ultimately show ?thesis by (simp add: err_string_lookup_big)
next
  case True
  let ?found = "tab_bsearch tabs err_string_cmp (table_row (unat lib) (unat key) 0) (reason_values tabs)"
  have keys: "sorted (map (\<lambda>v. drop_bit 15 v) (reason_values tabs))"
    unfolding rows by (rule table_sorted [OF fits sorted_rows])
  note spec = bsearch_lawfulD [OF assms(1) keys, of "table_row (unat lib) (unat key) 0"]
  have row: "err_string_cmp (table_row (unat lib) (unat key) 0) (table_row l k off) = 0 \<longleftrightarrow> l = unat lib \<and> k = unat key"
    if "(l, k, off) \<in> set rows" for l k off
    by (rule err_string_cmp_row) (use that fits True in auto)
  have lookup: "err_string_lookup tabs lib key = map_option (\<lambda>v. drop (unat (v AND 0x7fff)) (reason_data tabs)) ?found"
    using True by (simp add: err_string_lookup_unfold)
  show ?thesis
  proof (cases ?found)
    case None
    have "(unat lib, unat key, off) \<notin> set rows" for off
    proof
      assume in_rows: "(unat lib, unat key, off) \<in> set rows"
      then have "table_row (unat lib) (unat key) off \<in> set (reason_values tabs)" by (force simp: rows)
      with spec None row [OF in_rows] show False by simp
    qed
    with None show ?thesis by (simp add: lookup)
  next
    case (Some v)
    then obtain l k off where v: "(l, k, off) \<in> set rows" "v = table_row l k off"
      "err_string_cmp (table_row (unat lib) (unat key) 0) v = 0"
      using spec by (auto simp: rows)
    then have off: "(unat lib, unat key, off) \<in> set rows" using row [OF v(1)] by simp
    have unique: "off' = off" if "(unat lib, unat key, off') \<in> set rows" for off'
      by (rule rows_unique [OF sorted_rows that off])
    have "unat (v AND 0x7fff) = off" using v(1,2) fits by (auto simp: table_row_key(2))
    then have "err_string_lookup tabs lib key = Some (drop off (reason_data tabs))"
      unfolding lookup Some by simp
    with off unique show ?thesis by (metis option.inject)
  qed
qed

section \<open>Error strings\<close>

text \<open>The conversion \<open>%08x\<close>.\<close>

definition hex_digit :: "nat \<Rightarrow> u8" where
  "hex_digit n = (if n < 10 then word_of_nat (48 + n) else word_of_nat (87 + n))"

definition hex8 :: "u32 \<Rightarrow> u8 list" where
  "hex8 w = map (\<lambda>i. hex_digit (unat (drop_bit (4 * i) w AND 0xf))) [7, 6, 5, 4, 3, 2, 1, 0]"

text \<open>libc's strchr on a C string: the distance of the first occurrence.\<close>

fun strchr :: "u8 list \<Rightarrow> u8 \<Rightarrow> nat option" where
  "strchr [] c = None"
| "strchr (x # xs) c = (if x = c then Some 0 else if x = 0 then None else map_option Suc (strchr xs c))"

text \<open>\<open>n\<close> colons are still to be found, the next from position \<open>s\<close> on; memset writes the missing ones at the end.\<close>

fun colon_loop :: "nat \<Rightarrow> nat \<Rightarrow> nat \<Rightarrow> u8 list \<Rightarrow> u8 list" where
  "colon_loop 0 s len buf = buf"
| "colon_loop (Suc n) s len buf =
     (let last_pos = len - 1 - Suc n
      in case strchr (drop s buf) 58 of
           None \<Rightarrow> store_at last_pos (replicate (Suc n) 58) buf
         | Some k \<Rightarrow>
             if s + k > last_pos then store_at last_pos (replicate (Suc n) 58) buf
             else colon_loop n (s + k + 1) len buf)"

definition error_text :: "err_tables \<Rightarrow> u32 \<Rightarrow> u8 list" where
  "error_text tabs packed_error =
     (let lib = unat (ERR_GET_LIB packed_error);
          reason = unat (ERR_GET_REASON packed_error);
          lib_str = (case ERR_lib_error_string packed_error of
             None \<Rightarrow> c_str (BIO_snprintf (replicate 64 0) 64 (ascii ''lib('' @ dec_digits lib @ ascii '')''))
           | Some s \<Rightarrow> c_str s);
          reason_str = (case ERR_reason_error_string tabs packed_error of
             None \<Rightarrow> c_str (BIO_snprintf (replicate 64 0) 64 (ascii ''reason('' @ dec_digits reason @ ascii '')''))
           | Some s \<Rightarrow> c_str s)
      in ascii ''error:'' @ hex8 packed_error @ ascii '':'' @ lib_str @ ascii '':OPENSSL_internal:'' @ reason_str)"

definition ERR_error_string_n :: "err_tables \<Rightarrow> u32 \<Rightarrow> u8 list \<Rightarrow> nat \<Rightarrow> u8 list option" where
  "ERR_error_string_n tabs packed_error buf len =
     (if len = 0 then None
      else
        (let buf' = BIO_snprintf buf len (error_text tabs packed_error);
             num_colons = 4
         in if c_strlen buf' = len - 1 then
              (if len \<le> num_colons then Some buf' else Some (colon_loop num_colons 0 len buf'))
            else Some buf'))"

definition ERR_ERROR_STRING_BUF_LEN :: nat where
  "ERR_ERROR_STRING_BUF_LEN = 120"

definition ERR_error_string :: "err_tables \<Rightarrow> u32 \<Rightarrow> u8 list \<Rightarrow> u8 list option" where
  "ERR_error_string tabs packed_error ret =
     ERR_error_string_n tabs packed_error (store_at 0 (replicate ERR_ERROR_STRING_BUF_LEN 0) ret) ERR_ERROR_STRING_BUF_LEN"

lemma strchr_eq:
  "0 \<notin> set x \<Longrightarrow> c \<noteq> 0 \<Longrightarrow> strchr (x @ 0 # r) c =
     (if c \<in> set x then Some (length (takeWhile (\<lambda>y. y \<noteq> c) x)) else None)"
  by (induction x) auto

lemma count_list_le: "count_list xs c \<le> length xs"
  by (induction xs) auto

lemma count_list_replicate [simp]: "count_list (replicate n c) c = n"
  by (induction n) auto

lemma colon_loop_eq:
  assumes "0 \<notin> set (p @ x)" "n \<le> length x" "len = length (p @ x) + 1"
  shows "\<exists>x'. colon_loop n (length p) len (p @ x @ 0 # r) = p @ x' @ 0 # r \<and> length x' = length x \<and>
    0 \<notin> set x' \<and> n \<le> count_list x' 58 \<and> (n \<le> count_list x 58 \<longrightarrow> x' = x)"
  using assms
proof (induction n arbitrary: p x)
  case (Suc n)
  let ?last = "len - 1 - Suc n"
  let ?fill = "take (length x - Suc n) x @ replicate (Suc n) 58"
  have last: "?last = length p + (length x - Suc n)" using Suc.prems(2,3) by simp
  have store: "store_at ?last (replicate (Suc n) 58) (p @ x @ 0 # r) = p @ ?fill @ 0 # r"
    using Suc.prems(2) unfolding last store_at_def by simp
  have fill: "length ?fill = length x" "0 \<notin> set ?fill" "Suc n \<le> count_list ?fill 58"
    using Suc.prems(1,2) by (auto dest: in_set_takeD)
  have chr: "strchr (drop (length p) (p @ x @ 0 # r)) 58 =
      (if 58 \<in> set x then Some (length (takeWhile (\<lambda>y. y \<noteq> 58) x)) else None)"
    using Suc.prems(1) by (simp add: strchr_eq)
  show ?case
  proof (cases "58 \<in> set x")
    case False
    then have "colon_loop (Suc n) (length p) len (p @ x @ 0 # r) = p @ ?fill @ 0 # r"
      using chr store by (simp add: Let_def)
    moreover have "count_list x 58 = 0" using False by simp
    ultimately show ?thesis using fill by (intro exI [of _ ?fill]) simp
  next
    case True
    then obtain y z where x: "x = y @ 58 # z" "58 \<notin> set y" by (meson split_list_first)
    have k: "length (takeWhile (\<lambda>y. y \<noteq> 58) x) = length y"
      using x(2) by (simp add: x(1) takeWhile_append)
    show ?thesis
    proof (cases "length p + length y > ?last")
      case True
      then have "colon_loop (Suc n) (length p) len (p @ x @ 0 # r) = p @ ?fill @ 0 # r"
        using chr store k \<open>58 \<in> set x\<close> by (simp add: Let_def)
      moreover have "count_list x 58 < Suc n"
        using True last x(2) Suc.prems(2) count_list_le [of z 58] by (simp add: x(1))
      ultimately show ?thesis using fill by (intro exI [of _ ?fill]) simp
    next
      case False
      let ?p = "p @ y @ [58]"
      have step: "colon_loop (Suc n) (length p) len (p @ x @ 0 # r) = colon_loop n (length ?p) len (?p @ z @ 0 # r)"
        using chr k False \<open>58 \<in> set x\<close> by (simp add: Let_def) (simp add: x(1))
      have "n \<le> length z" using False last Suc.prems(2) by (simp add: x(1))
      moreover have "0 \<notin> set (?p @ z)" "len = length (?p @ z) + 1" using Suc.prems(1,3) by (simp_all add: x(1))
      ultimately obtain z' where z': "colon_loop n (length ?p) len (?p @ z @ 0 # r) = ?p @ z' @ 0 # r"
        "length z' = length z" "0 \<notin> set z'" "n \<le> count_list z' 58" "n \<le> count_list z 58 \<longrightarrow> z' = z"
        using Suc.IH [of ?p z] by blast
      with step x Suc.prems(1) show ?thesis by (intro exI [of _ "y @ 58 # z'"]) auto
    qed
  qed
qed (use assms in auto)

lemma drop_store_at: "i + length xs \<le> n \<Longrightarrow> n \<le> length data \<Longrightarrow> drop n (store_at i xs data) = drop n data"
  by (simp add: store_at_def)

lemma colon_loop_whole:
  assumes "0 \<notin> set x" "4 \<le> length x" "len = length x + 1"
  obtains x' where "colon_loop 4 0 len (x @ 0 # r) = x' @ 0 # r" "length x' = length x" "0 \<notin> set x'"
    "4 \<le> count_list x' 58" "4 \<le> count_list x 58 \<longrightarrow> x' = x"
  using colon_loop_eq [of "[]" x 4 len r] assms that by auto

text \<open>The tables' strings are the texts themselves.\<close>

lemma ascii_colons: "count_list (ascii '':OPENSSL_internal:'') 58 = 2" "count_list (ascii '':'') 58 = 1"
  "count_list (ascii ''error:'') 58 = 1"
  by (simp_all add: ascii_def)

lemma hex8_nonzero: "0 \<notin> set (hex8 w)"
proof -
  have digit: "hex_digit n \<noteq> 0" if "n \<le> 15" for n
    using that by (simp add: hex_digit_def word_unat_eq_iff unat_of_nat del: of_nat_add)
  have "hex_digit (unat (x AND 0xf)) \<noteq> 0" for x :: u32
    using word_and_le1 [of x "0xf"] by (intro digit) (simp add: word_le_nat_alt)
  then show ?thesis by (auto simp: hex8_def)
qed

lemma error_text_facts: "0 \<notin> set (error_text tabs packed)" "4 \<le> count_list (error_text tabs packed) 58"
proof -
  obtain a b where t: "error_text tabs packed = ascii ''error:'' @ hex8 packed @ ascii '':'' @ a @ ascii '':OPENSSL_internal:'' @ b"
    "0 \<notin> set a" "0 \<notin> set b"
    unfolding error_text_def Let_def by (auto simp: zero_notin_c_str split: option.splits)
  have "0 \<notin> set (ascii '':OPENSSL_internal:'')" "0 \<notin> set (ascii '':'')" "0 \<notin> set (ascii ''error:'')"
    by (simp_all add: ascii_def)
  then show "0 \<notin> set (error_text tabs packed)" using t hex8_nonzero by simp
  show "4 \<le> count_list (error_text tabs packed) 58" unfolding t(1) by (simp add: ascii_colons)
qed

text \<open>C36: Into a buffer of \<open>len\<close> bytes, five or more, \<open>ERR_error_string_n\<close> writes a terminated string as long as the
message or as fits, always with the four colons of a full message, and the message itself when it fits.\<close>

theorem ERR_error_string_n_colons:
  assumes "5 \<le> len" "len \<le> length buf"
  shows "\<exists>out s. ERR_error_string_n tabs packed buf len = Some out \<and> c_str out = s \<and> length out = length buf \<and>
    length s = min (len - 1) (length (error_text tabs packed)) \<and> 4 \<le> count_list s 58 \<and>
    drop len out = drop len buf \<and>
    (length (error_text tabs packed) \<le> len - 1 \<longrightarrow> s = error_text tabs packed)"
proof -
  let ?t = "error_text tabs packed"
  let ?x = "take (len - 1) ?t"
  let ?r = "drop (length ?x + 1) buf"
  define b where "b = BIO_snprintf buf len ?t"
  have b: "b = ?x @ 0 # ?r" using assms by (simp add: b_def BIO_snprintf_def store_at_def)
  have x0: "0 \<notin> set ?x" using error_text_facts(1) [of tabs packed] by (meson in_set_takeD)
  then have str: "c_str b = ?x" unfolding b by simp
  show ?thesis
  proof (cases "len - 1 \<le> length ?t")
    case False
    then have "c_strlen b \<noteq> len - 1" "?x = ?t" by (simp_all add: c_strlen_def str)
    moreover from this have "ERR_error_string_n tabs packed buf len = Some b"
      using assms by (simp add: ERR_error_string_n_def b_def Let_def)
    moreover have "length b = length buf" using False assms unfolding b by simp
    moreover have "drop len b = drop len buf"
      using drop_store_at [of 0 "?x @ [0]" len buf] False assms by (simp add: b_def BIO_snprintf_def)
    ultimately show ?thesis using str error_text_facts(2) False by auto
  next
    case True
    then have len: "length ?x = len - 1" by simp
    then have "c_strlen b = len - 1" by (simp add: c_strlen_def str)
    then have eq: "ERR_error_string_n tabs packed buf len = Some (colon_loop 4 0 len b)"
      using assms by (simp add: ERR_error_string_n_def b_def Let_def)
    have "4 \<le> length ?x" "len = length ?x + 1" using len assms(1) by simp_all
    then obtain x' where x': "colon_loop 4 0 len (?x @ 0 # ?r) = x' @ 0 # ?r" "length x' = length ?x"
      "0 \<notin> set x'" "4 \<le> count_list x' 58" "4 \<le> count_list ?x 58 \<longrightarrow> x' = ?x"
      by (rule colon_loop_whole [OF x0])
    have out: "colon_loop 4 0 len b = x' @ 0 # ?r" using x'(1) unfolding b .
    have "length (x' @ 0 # ?r) = length buf" "drop len (x' @ 0 # ?r) = drop len buf"
      using x'(2) len assms by simp_all
    moreover have "length ?t \<le> len - 1 \<longrightarrow> x' = ?t"
      using x'(5) error_text_facts(2) [of tabs packed] by auto
    moreover have "c_str (x' @ 0 # ?r) = x'" using x'(3) by simp
    ultimately show ?thesis using eq out x'(2,4) len True by auto
  qed
qed

section \<open>Printing the queue\<close>

definition print_line :: "err_tables \<Rightarrow> nat \<Rightarrow> u32 \<Rightarrow> u8 list \<times> int \<Rightarrow> u8 list \<times> nat \<Rightarrow> u8 list" where
  "print_line tabs thread_hash packed_error file_line data_flags =
     (let buf = (case ERR_error_string_n tabs packed_error (replicate ERR_ERROR_STRING_BUF_LEN 0) ERR_ERROR_STRING_BUF_LEN of
                   None \<Rightarrow> [] | Some b \<Rightarrow> b);
          text = dec_digits thread_hash @ ascii '':'' @ c_str buf @ ascii '':'' @ c_str (fst file_line) @ ascii '':'' @
                 dec_digits (nat (snd file_line)) @ ascii '':'' @
                 (if snd data_flags AND ERR_FLAG_STRING \<noteq> 0 then c_str (fst data_flags) else []) @ [10]
      in c_str (BIO_snprintf (replicate 1024 0) 1024 text))"

text \<open>
  The callback gets the line and its own state; a result that is not positive stops the loop. It runs on
  the thread that prints, so it may call functions of this library, \<open>ERR_put_error\<close> among them, and
  change the queue that is being printed: it gets the slot of the thread and gives it back.
\<close>

type_synonym 'c print_callback = "u8 list \<Rightarrow> 'c \<Rightarrow> err_state option \<Rightarrow> int \<times> 'c \<times> err_state option"

partial_function (option) print_loop ::
  "err_tables \<Rightarrow> err_env \<Rightarrow> nat \<Rightarrow> 'c print_callback \<Rightarrow> 'c \<Rightarrow> err_state option \<Rightarrow> ('c \<times> err_state option) option" where
  "print_loop tabs env thread_hash callback ctx slot =
     (case ERR_get_error_line_data env slot of
        ((packed_error, Some file_line, Some data_flags), slot) \<Rightarrow>
          (if packed_error = 0 then Some (ctx, slot)
           else
             (case callback (print_line tabs thread_hash packed_error file_line data_flags) ctx slot of
                (r, ctx, slot) \<Rightarrow>
                  if r \<le> 0 then Some (ctx, slot) else print_loop tabs env thread_hash callback ctx slot))
      | (_, slot) \<Rightarrow> Some (ctx, slot))"

definition ERR_print_errors_cb ::
  "err_tables \<Rightarrow> err_env \<Rightarrow> nat \<Rightarrow> 'c print_callback \<Rightarrow> 'c \<Rightarrow> err_state option \<Rightarrow> ('c \<times> err_state option) option" where
  "ERR_print_errors_cb tabs env thread_hash callback ctx slot =
     print_loop tabs env thread_hash callback ctx (err_get_state env slot)"

text \<open>One round of the loop, on an empty queue and on one whose least recent error is \<open>e\<close>.\<close>

lemma print_loop_Nil:
  assumes "err_ready env slot" "err_items env slot = []"
  shows "print_loop tabs env hash callback ctx slot = Some (ctx, snd (ERR_get_error_line_data env slot))"
proof -
  obtain r slot' where get: "ERR_get_error_line_data env slot = (r, slot')" by (cases "ERR_get_error_line_data env slot")
  show ?thesis
    using ERR_get_error_line_data_items [OF assms(1)] assms(2) by (subst print_loop.simps) (simp add: get)
qed

lemma print_loop_Cons:
  assumes "err_ready env slot" "err_items env slot = e # q"
  shows "print_loop tabs env hash callback ctx slot =
    (if err_packed e = 0 then Some (ctx, snd (ERR_get_error_line_data env slot))
     else
       (case callback (print_line tabs hash (err_packed e) (error_file_line e) (error_data_flags e)) ctx
           (snd (ERR_get_error_line_data env slot)) of
          (r, ctx, slot) \<Rightarrow> if r \<le> 0 then Some (ctx, slot) else print_loop tabs env hash callback ctx slot))"
proof -
  obtain r slot' where get: "ERR_get_error_line_data env slot = (r, slot')" by (cases "ERR_get_error_line_data env slot")
  show ?thesis
    using ERR_get_error_line_data_items [OF assms(1)] assms(2) by (subst print_loop.simps) (simp add: get)
qed

subsection \<open>A callback that queues no errors\<close>

text \<open>A callback that never leaves more errors queued than there were when it was called.\<close>

definition queues_nothing :: "err_env \<Rightarrow> 'c print_callback \<Rightarrow> bool" where
  "queues_nothing env callback \<longleftrightarrow>
     (\<forall>line c slot. err_ready env slot \<longrightarrow>
        (case callback line c slot of (r, c', slot') \<Rightarrow>
           err_ready env slot' \<and> length (err_items env slot') \<le> length (err_items env slot)))"

lemma print_loop_ends:
  assumes "err_ready env slot" "queues_nothing env callback"
  shows "\<exists>ctx' slot'. print_loop tabs env hash callback ctx slot = Some (ctx', slot') \<and> err_ready env slot' \<and>
    length (err_items env slot') \<le> length (err_items env slot)"
  using assms
proof (induction "length (err_items env slot)" arbitrary: slot ctx rule: less_induct)
  case less
  show ?case
  proof (cases "err_items env slot")
    case Nil
    then show ?thesis
      using ERR_get_error_line_data_items(1,2) [OF less.prems(1)] by (simp add: print_loop_Nil [OF less.prems(1)])
  next
    case (Cons e q)
    define slot1 where "slot1 = snd (ERR_get_error_line_data env slot)"
    have s1: "err_ready env slot1" "err_items env slot1 = q"
      using ERR_get_error_line_data_items(1,2) [OF less.prems(1)] Cons by (simp_all add: slot1_def)
    note loop = print_loop_Cons [OF less.prems(1) Cons, folded slot1_def]
    let ?line = "print_line tabs hash (err_packed e) (error_file_line e) (error_data_flags e)"
    obtain r ctx2 slot2 where cb: "callback ?line ctx slot1 = (r, ctx2, slot2)" by (cases "callback ?line ctx slot1")
    have "case callback ?line ctx slot1 of (r, c', slot') \<Rightarrow>
        err_ready env slot' \<and> length (err_items env slot') \<le> length (err_items env slot1)"
      using less.prems(2) s1(1) by (simp add: queues_nothing_def)
    then have s2: "err_ready env slot2" "length (err_items env slot2) \<le> length q" using s1(2) by (simp_all add: cb)
    have "length (err_items env slot2) < length (err_items env slot)" using s2(2) Cons by simp
    from less.hyps [OF this s2(1) less.prems(2)] s1 s2 show ?thesis
      by (fastforce simp: loop cb Cons)
  qed
qed

text \<open>
  A callback with a state of its own that leaves the queue alone; what it has made of its state when the
  queue \<open>q\<close> has been reported, and the errors left.
\<close>

definition own_state :: "(u8 list \<Rightarrow> 'c \<Rightarrow> int \<times> 'c) \<Rightarrow> 'c print_callback" where
  "own_state f line ctx slot = (case f line ctx of (r, ctx') \<Rightarrow> (r, ctx', slot))"

fun print_spec ::
  "err_tables \<Rightarrow> nat \<Rightarrow> (u8 list \<Rightarrow> 'c \<Rightarrow> int \<times> 'c) \<Rightarrow> 'c \<Rightarrow> err_error list \<Rightarrow> 'c \<times> err_error list" where
  "print_spec tabs thread_hash f ctx [] = (ctx, [])"
| "print_spec tabs thread_hash f ctx (e # q) =
     (if err_packed e = 0 then (ctx, q)
      else
        (case f (print_line tabs thread_hash (err_packed e) (error_file_line e) (error_data_flags e)) ctx of (r, ctx') \<Rightarrow>
           if r \<le> 0 then (ctx', q) else print_spec tabs thread_hash f ctx' q))"

lemma print_loop_eq:
  "err_ready env slot \<Longrightarrow> \<exists>slot'. print_loop tabs env hash (own_state f) ctx slot =
       Some (fst (print_spec tabs hash f ctx (err_items env slot)), slot') \<and>
     err_items env slot' = snd (print_spec tabs hash f ctx (err_items env slot))"
proof (induction "err_items env slot" arbitrary: slot ctx)
  case Nil
  then show ?case using ERR_get_error_line_data_items(2) [OF Nil.prems] by (simp add: print_loop_Nil [OF Nil.prems])
next
  case (Cons e q)
  define slot' where "slot' = snd (ERR_get_error_line_data env slot)"
  have slot': "err_ready env slot'" "err_items env slot' = q"
    using ERR_get_error_line_data_items(1,2) [OF Cons.prems] by (simp_all add: slot'_def flip: Cons.hyps(2))
  note loop = print_loop_Cons [OF Cons.prems Cons.hyps(2) [symmetric], folded slot'_def]
  obtain n ctx' where cb: "f (print_line tabs hash (err_packed e) (error_file_line e) (error_data_flags e)) ctx = (n, ctx')"
    by fastforce
  have "\<exists>s. print_loop tabs env hash (own_state f) ctx' slot' = Some (fst (print_spec tabs hash f ctx' q), s) \<and>
      err_items env s = snd (print_spec tabs hash f ctx' q)"
    using Cons.hyps(1) [OF slot'(2) [symmetric] slot'(1)] by (simp add: slot'(2))
  then show ?case
    unfolding Cons.hyps(2) [symmetric] loop by (auto simp: own_state_def cb slot'(2))
qed

subsection \<open>A callback that keeps the queue filled\<close>

definition reportable :: "err_env \<Rightarrow> err_state option \<Rightarrow> bool" where
  "reportable env slot \<longleftrightarrow>
     err_ready env slot \<and> err_items env slot \<noteq> [] \<and> (\<forall>e \<in> set (err_items env slot). err_packed e \<noteq> 0)"

text \<open>A callback that always asks to go on and, where no error is 0, leaves a queue with an error to print.\<close>

definition keeps_filled :: "err_env \<Rightarrow> 'c print_callback \<Rightarrow> bool" where
  "keeps_filled env callback \<longleftrightarrow>
     (\<forall>line c slot. err_ready env slot \<and> (\<forall>e \<in> set (err_items env slot). err_packed e \<noteq> 0) \<longrightarrow>
        (case callback line c slot of (r, c', slot') \<Rightarrow> 0 < r \<and> reportable env slot'))"

lemma print_loop_diverges:
  assumes "reportable env slot" "keeps_filled env callback"
  shows "print_loop tabs env hash callback ctx slot = None"
proof -
  have "\<not> (reportable env slot \<and> keeps_filled env callback)" if "print_loop tabs env hash callback ctx slot = Some y" for y
  proof (rule print_loop.raw_induct
      [where P = "\<lambda>tabs env hash callback ctx slot y. \<not> (reportable env slot \<and> keeps_filled env callback)", OF _ that], goal_cases)
    case (1 loop tabs env hash callback ctx slot y)
    show ?case
    proof
      assume filled: "reportable env slot \<and> keeps_filled env callback"
      then obtain e q where q: "err_items env slot = e # q" "err_packed e \<noteq> 0" "\<forall>e \<in> set q. err_packed e \<noteq> 0"
        "err_ready env slot" by (cases "err_items env slot") (auto simp: reportable_def)
      obtain r0 slot1 where get0: "ERR_get_error_line_data env slot = (r0, slot1)" by (cases "ERR_get_error_line_data env slot")
      note items = ERR_get_error_line_data_items [OF q(4)]
      have s1: "err_ready env slot1" "err_items env slot1 = q" using items(1,2) by (simp_all add: get0 q(1))
      have get: "ERR_get_error_line_data env slot = ((err_packed e, Some (error_file_line e), Some (error_data_flags e)), slot1)"
        using items(3) get0 by (simp add: q(1))
      let ?line = "print_line tabs hash (err_packed e) (error_file_line e) (error_data_flags e)"
      obtain r ctx2 slot2 where cb: "callback ?line ctx slot1 = (r, ctx2, slot2)" by (cases "callback ?line ctx slot1")
      have "case callback ?line ctx slot1 of (r, c', slot') \<Rightarrow> 0 < r \<and> reportable env slot'"
        using filled s1 q(3) by (simp add: keeps_filled_def)
      then have s2: "0 < r" "reportable env slot2" by (simp_all add: cb)
      then have "loop tabs env hash callback ctx2 slot2 = Some y" using 1(2) q(2) by (simp add: get cb)
      from 1(1) [OF this] s2(2) filled show False by blast
    qed
  qed
  with assms show ?thesis by (meson option.exhaust)
qed

lemma err_get_state_ready:
  assumes "err_ready env slot"
  shows "err_ready env (err_get_state env slot)" "err_items env (err_get_state env slot) = err_items env slot"
  using assms by (auto elim!: err_ready_cases)

text \<open>C39: Whether printing the queue ends depends on the callback. With one that never leaves more errors queued
than it found it ends. One with a state of its own that leaves the queue alone is called with one line for
each error, the least recent first, until it refuses one or an error is 0, and the later errors stay queued.
With one that always asks to go on and leaves an error in the queue, for example by putting one, printing does not end.\<close>

theorem ERR_print_errors_cb_ends:
  assumes "err_ready env slot"
  shows "(queues_nothing env callback \<longrightarrow>
      (\<exists>ctx' slot'. ERR_print_errors_cb tabs env thread_hash callback ctx slot = Some (ctx', slot') \<and> err_ready env slot')) \<and>
    (\<exists>slot'. ERR_print_errors_cb tabs env thread_hash (own_state f) ctx slot =
        Some (fst (print_spec tabs thread_hash f ctx (err_items env slot)), slot') \<and>
      err_items env slot' = snd (print_spec tabs thread_hash f ctx (err_items env slot))) \<and>
    (reportable env slot \<and> keeps_filled env callback \<longrightarrow>
      ERR_print_errors_cb tabs env thread_hash callback ctx slot = None)"
proof (intro conjI impI)
  note ready = err_get_state_ready [OF assms]
  assume "queues_nothing env callback"
  from print_loop_ends [OF ready(1) this]
  show "\<exists>ctx' slot'. ERR_print_errors_cb tabs env thread_hash callback ctx slot = Some (ctx', slot') \<and> err_ready env slot'"
    unfolding ERR_print_errors_cb_def by blast
next
  note ready = err_get_state_ready [OF assms]
  show "\<exists>slot'. ERR_print_errors_cb tabs env thread_hash (own_state f) ctx slot =
        Some (fst (print_spec tabs thread_hash f ctx (err_items env slot)), slot') \<and>
      err_items env slot' = snd (print_spec tabs thread_hash f ctx (err_items env slot))"
    using print_loop_eq [OF ready(1)] by (simp add: ERR_print_errors_cb_def ready(2))
next
  note ready = err_get_state_ready [OF assms]
  assume filled: "reportable env slot \<and> keeps_filled env callback"
  then have "reportable env (err_get_state env slot)" by (simp add: reportable_def ready)
  then show "ERR_print_errors_cb tabs env thread_hash callback ctx slot = None"
    using filled by (simp add: ERR_print_errors_cb_def print_loop_diverges)
qed

section \<open>The statements on concrete inputs\<close>

definition linear_bsearch :: "(u32 \<Rightarrow> u32 \<Rightarrow> int) \<Rightarrow> u32 \<Rightarrow> u32 list \<Rightarrow> u32 option" where
  "linear_bsearch cmp key vals = find (\<lambda>v. cmp key v = 0) vals"

definition sample_tables :: err_tables where
  "sample_tables = \<lparr>reason_values = [table_row 12 100 0, table_row 17 103 2], reason_data = [65, 0, 66, 67, 0],
     tab_strerror = (\<lambda>n. [63, 0]), tab_bsearch = linear_bsearch\<rparr>"

lemma linear_bsearch_lawful: "bsearch_lawful linear_bsearch"
  by (auto simp: bsearch_lawful_def linear_bsearch_def find_None_iff find_Some_iff split: option.split)

theorem err_string_lookup_exact_witness: "err_string_lookup sample_tables 17 103 = Some [66, 67, 0]"
  using err_string_lookup_exact [of sample_tables "[(12, 100, 0), (17, 103, 2)]" 17 103 "[66, 67, 0]"] linear_bsearch_lawful
  by (simp add: sample_tables_def)

theorem ERR_error_string_n_colons_witness:
  "\<exists>out. ERR_error_string_n sample_tables 0x0b000064 (replicate 10 0) 10 = Some out \<and>
     4 \<le> count_list (c_str out) 58 \<and> length out = 10"
  using ERR_error_string_n_colons [of 10 "replicate 10 0" sample_tables "0x0b000064"] by auto

text \<open>A callback that puts an error whenever it is called.\<close>

definition putting_callback :: "nat print_callback" where
  "putting_callback line n slot = (1, n + 1, ERR_put_error sample_env 0 17 3 None 5 slot)"

lemma putting_callback_keeps_filled: "keeps_filled sample_env putting_callback"
proof -
  have "err_packed (new_error 0 17 3 None 5) \<noteq> 0" by (simp add: new_error_def zero_error_def ERR_PACK_def ERR_LIB_SYS_def)
  then show ?thesis
    by (auto simp: keeps_filled_def putting_callback_def reportable_def ERR_put_error_items queue_put_def dest: list.set_sel(2) [rotated])
qed

theorem ERR_print_errors_cb_ends_witness:
  "(\<exists>slot'. ERR_print_errors_cb sample_tables sample_env 1 (own_state (\<lambda>line n. (1, n + 1))) (0 :: nat) one_error = Some (1, slot') \<and>
     err_items sample_env slot' = []) \<and>
   ERR_print_errors_cb sample_tables sample_env 1 putting_callback 0 one_error = None"
proof -
  have e: "err_packed (new_error 0 7 65 (Some [98, 46, 99]) 3) \<noteq> 0"
    by (simp add: new_error_def zero_error_def ERR_PACK_def ERR_LIB_SYS_def)
  then have "reportable sample_env one_error" by (simp add: reportable_def one_error_ready)
  with ERR_print_errors_cb_ends [OF one_error_ready(1), of putting_callback sample_tables 1 0 "\<lambda>line n. (1, n + 1)"] e
    putting_callback_keeps_filled
  show ?thesis by (auto simp: one_error_ready(2))
qed

end
