(* ===== verification/PbStream.thy ===== *)
theory PbStream
  imports Prelude
begin

text \<open>
  The streams and the wire format of nanopb (\<^verbatim>\<open>nanopb/pb_encode.c\<close>, \<^verbatim>\<open>nanopb/pb_decode.c\<close>), in the
  configuration of the app: 64-bit integers, 32-bit field sizes, error messages and malloc. A \<open>size_t\<close> is a
  natural number below \<open>2 ^ 64\<close>. A function that returns false gives \<open>False\<close> or \<open>None\<close> and the
  stream as it leaves it.
\<close>

section \<open>Output streams\<close>

text \<open>
  The callback gets the stream's \<open>state\<close> and the bytes, and gives its result and the new state. A stream
  without one only counts.
\<close>

record 's pb_ostream =
  os_callback :: "('s \<Rightarrow> u8 list \<Rightarrow> bool \<times> 's) option"
  os_state :: 's
  os_max_size :: nat
  os_bytes_written :: nat
  os_errmsg :: "string option"

text \<open>\<open>PB_SET_ERROR\<close>: the first message stays. \<open>PB_RETURN_ERROR\<close> returns false after it.\<close>

definition os_error :: "string \<Rightarrow> 's pb_ostream \<Rightarrow> bool \<times> 's pb_ostream" where
  "os_error msg st =
     (False, if os_errmsg st = None then st\<lparr>os_errmsg := Some msg\<rparr> else st)"

text \<open>The state of a buffer stream is what has been written to the buffer so far.\<close>

definition buf_write :: "u8 list \<Rightarrow> u8 list \<Rightarrow> bool \<times> u8 list" where
  "buf_write state buf = (True, state @ buf)"

definition pb_ostream_from_buffer :: "nat \<Rightarrow> u8 list pb_ostream" where
  "pb_ostream_from_buffer bufsize =
     \<lparr>os_callback = Some buf_write, os_state = [], os_max_size = bufsize, os_bytes_written = 0, os_errmsg = None\<rparr>"

definition PB_OSTREAM_SIZING :: "'s \<Rightarrow> 's pb_ostream" where
  "PB_OSTREAM_SIZING s =
     \<lparr>os_callback = None, os_state = s, os_max_size = 0, os_bytes_written = 0, os_errmsg = None\<rparr>"

definition pb_write :: "'s pb_ostream \<Rightarrow> u8 list \<Rightarrow> bool \<times> 's pb_ostream" where
  "pb_write stream buf =
     (let count = length buf;
          finish = (\<lambda>st. (True, st\<lparr>os_bytes_written := sz (os_bytes_written st + count)\<rparr>))
      in case (if count > 0 then os_callback stream else None) of
           None \<Rightarrow> finish stream
         | Some callback \<Rightarrow>
             (if sz (os_bytes_written stream + count) < os_bytes_written stream \<or>
                 sz (os_bytes_written stream + count) > os_max_size stream
              then os_error ''stream full'' stream
              else
                (case callback (os_state stream) buf of
                   (False, s) \<Rightarrow> os_error ''io error'' (stream\<lparr>os_state := s\<rparr>)
                 | (True, s) \<Rightarrow> finish (stream\<lparr>os_state := s\<rparr>))))"

section \<open>Writing values\<close>

text \<open>The bytes of the loop, each with the continuation bit; the last one loses it afterwards.\<close>

fun varint_loop :: "nat \<Rightarrow> u64 \<Rightarrow> u8 list" where
  "varint_loop 0 v = []"
| "varint_loop (Suc n) v =
     (if v = 0 then [] else ucast (v AND 0x7f OR 0x80) # varint_loop n (drop_bit 7 v))"

definition pb_encode_varint :: "'s pb_ostream \<Rightarrow> u64 \<Rightarrow> bool \<times> 's pb_ostream" where
  "pb_encode_varint stream v =
     (if v \<le> 0x7f then pb_write stream [ucast v]
      else
        (let buffer = varint_loop 10 v
         in pb_write stream (buffer[length buffer - 1 := buffer ! (length buffer - 1) AND 0x7f])))"

text \<open>A signed 64-bit integer is passed as its bits.\<close>

definition pb_encode_svarint :: "'s pb_ostream \<Rightarrow> u64 \<Rightarrow> bool \<times> 's pb_ostream" where
  "pb_encode_svarint stream v =
     (let zigzagged = (if v <s 0 then NOT (push_bit 1 v) else push_bit 1 v)
      in pb_encode_varint stream zigzagged)"

definition le_bytes :: "nat \<Rightarrow> 'a::len word \<Rightarrow> u8 list" where
  "le_bytes n v = map (\<lambda>i. ucast (drop_bit (8 * i) v AND 0xff)) [0..<n]"

definition pb_encode_fixed32 :: "'s pb_ostream \<Rightarrow> u32 \<Rightarrow> bool \<times> 's pb_ostream" where
  "pb_encode_fixed32 stream val = pb_write stream (le_bytes 4 val)"

definition pb_encode_fixed64 :: "'s pb_ostream \<Rightarrow> u64 \<Rightarrow> bool \<times> 's pb_ostream" where
  "pb_encode_fixed64 stream val = pb_write stream (le_bytes 8 val)"

text \<open>Wire types are three-bit numbers; these four have a meaning.\<close>

definition PB_WT_VARINT :: u32 where
  "PB_WT_VARINT = 0"

definition PB_WT_64BIT :: u32 where
  "PB_WT_64BIT = 1"

definition PB_WT_STRING :: u32 where
  "PB_WT_STRING = 2"

definition PB_WT_32BIT :: u32 where
  "PB_WT_32BIT = 5"

definition pb_encode_tag :: "'s pb_ostream \<Rightarrow> u32 \<Rightarrow> u32 \<Rightarrow> bool \<times> 's pb_ostream" where
  "pb_encode_tag stream wiretype field_number =
     (let tag = push_bit 3 (ucast field_number :: u64) OR ucast wiretype
      in pb_encode_varint stream tag)"

definition pb_encode_string :: "'s pb_ostream \<Rightarrow> u8 list \<Rightarrow> bool \<times> 's pb_ostream" where
  "pb_encode_string stream buffer =
     (case pb_encode_varint stream (word_of_nat (length buffer)) of
        (False, st) \<Rightarrow> (False, st)
      | (True, st) \<Rightarrow> pb_write st buffer)"

text \<open>\<open>enc\<close> is \<open>pb_encode\<close> on the fields and the message.\<close>

definition pb_encode_submessage ::
  "('s pb_ostream \<Rightarrow> bool \<times> 's pb_ostream) \<Rightarrow> 's pb_ostream \<Rightarrow> bool \<times> 's pb_ostream" where
  "pb_encode_submessage enc stream =
     (case enc (PB_OSTREAM_SIZING (os_state stream)) of
        (False, sub) \<Rightarrow> (False, stream\<lparr>os_errmsg := os_errmsg sub\<rparr>)
      | (True, sub) \<Rightarrow>
     (let size = os_bytes_written sub
      in case pb_encode_varint stream (word_of_nat size) of
           (False, st) \<Rightarrow> (False, st)
         | (True, st) \<Rightarrow>
             (if os_callback st = None then
                (True, st\<lparr>os_bytes_written := sz (os_bytes_written st + size)\<rparr>)
              else if sz (os_bytes_written st + size) > os_max_size st then os_error ''stream full'' st
              else
                (case enc (st\<lparr>os_max_size := size, os_bytes_written := 0, os_errmsg := None\<rparr>) of
                   (status, sub2) \<Rightarrow>
                     (let st2 = st\<lparr>os_bytes_written := sz (os_bytes_written st + os_bytes_written sub2),
                                   os_state := os_state sub2, os_errmsg := os_errmsg sub2\<rparr>
                      in if os_bytes_written sub2 \<noteq> size then os_error ''submsg size changed'' st2
                         else (status, st2))))))"

section \<open>Input streams\<close>

text \<open>
  \<open>buf_read\<close> takes bytes off a buffer; any other callback gets the state and a count and gives the bytes.
\<close>

datatype 's reader = Buf_read "u8 list" | Callback "'s \<Rightarrow> nat \<Rightarrow> u8 list option \<times> 's" 's

record 's pb_istream =
  is_reader :: "'s reader"
  is_bytes_left :: nat
  is_errmsg :: "string option"

definition is_error :: "string \<Rightarrow> 's pb_istream \<Rightarrow> 'a option \<times> 's pb_istream" where
  "is_error msg st = (None, if is_errmsg st = None then st\<lparr>is_errmsg := Some msg\<rparr> else st)"

fun call_reader :: "'s reader \<Rightarrow> nat \<Rightarrow> u8 list option \<times> 's reader" where
  "call_reader (Buf_read bs) n = (Some (take n bs), Buf_read (drop n bs))"
| "call_reader (Callback f s) n = (case f s n of (r, s') \<Rightarrow> (r, Callback f s'))"

text \<open>Reading \<open>count\<close> bytes, with a buffer to put them in.\<close>

definition pb_read_buf :: "nat \<Rightarrow> 's pb_istream \<Rightarrow> u8 list option \<times> 's pb_istream" where
  "pb_read_buf n stream =
     (if n = 0 then (Some [], stream)
      else if is_bytes_left stream < n then is_error ''end-of-stream'' stream
      else
        (case call_reader (is_reader stream) n of
           (None, r) \<Rightarrow> is_error ''io error'' (stream\<lparr>is_reader := r\<rparr>)
         | (Some bs, r) \<Rightarrow> (Some bs, stream\<lparr>is_reader := r, is_bytes_left := is_bytes_left stream - n\<rparr>)))"

text \<open>Without a buffer a callback stream is read in pieces of at most 16 bytes.\<close>

function skip_loop :: "nat \<Rightarrow> 's pb_istream \<Rightarrow> bool \<times> 's pb_istream" where
  "skip_loop n stream =
     (if n > 16 then
        (case pb_read_buf 16 stream of
           (None, st) \<Rightarrow> (False, st)
         | (Some _, st) \<Rightarrow> skip_loop (n - 16) st)
      else (case pb_read_buf n stream of (r, st) \<Rightarrow> (r \<noteq> None, st)))"
  by pat_completeness auto
termination by (relation "measure fst") auto

definition pb_skip :: "nat \<Rightarrow> 's pb_istream \<Rightarrow> bool \<times> 's pb_istream" where
  "pb_skip n stream =
     (if n = 0 then (True, stream)
      else case is_reader stream of
             Callback _ _ \<Rightarrow> skip_loop n stream
           | Buf_read _ \<Rightarrow> (case pb_read_buf n stream of (r, st) \<Rightarrow> (r \<noteq> None, st)))"

definition pb_readbyte :: "'s pb_istream \<Rightarrow> u8 option \<times> 's pb_istream" where
  "pb_readbyte stream =
     (if is_bytes_left stream = 0 then is_error ''end-of-stream'' stream
      else
        (case call_reader (is_reader stream) 1 of
           (None, r) \<Rightarrow> is_error ''io error'' (stream\<lparr>is_reader := r\<rparr>)
         | (Some bs, r) \<Rightarrow> (Some (hd bs), stream\<lparr>is_reader := r, is_bytes_left := is_bytes_left stream - 1\<rparr>)))"

definition pb_istream_from_buffer :: "u8 list \<Rightarrow> nat \<Rightarrow> 's pb_istream" where
  "pb_istream_from_buffer buf bufsize = \<lparr>is_reader = Buf_read buf, is_bytes_left = bufsize, is_errmsg = None\<rparr>"

section \<open>Reading values\<close>

lemma pb_readbyte_left:
  "pb_readbyte stream = (Some b, st) \<Longrightarrow> is_bytes_left st < is_bytes_left stream"
  by (auto simp: pb_readbyte_def is_error_def split: if_splits prod.splits option.splits)

lemma pb_read_buf_left:
  "pb_read_buf n stream = (Some bs, st) \<Longrightarrow> is_bytes_left st = is_bytes_left stream - n \<and> n \<le> is_bytes_left stream"
  by (auto simp: pb_read_buf_def is_error_def split: if_splits prod.splits option.splits)

text \<open>
  The bytes after the first of a 32-bit varint. \<open>bitpos\<close> is a \<open>uint_fast8_t\<close>, which has 8 bits, so it
  starts over at 256. The result has the last byte and the position after it.
\<close>

function varint32_loop :: "nat \<Rightarrow> u32 \<Rightarrow> 's pb_istream \<Rightarrow> (u32 \<times> nat \<times> u8) option \<times> 's pb_istream" where
  "varint32_loop bitpos result stream =
     (case pb_readbyte stream of
        (None, st) \<Rightarrow> (None, st)
      | (Some byte, st) \<Rightarrow>
          (let sign_extension = (if bitpos < 63 then 0xff else 1)
           in if bitpos \<ge> 32 \<and> byte AND 0x7f \<noteq> 0 \<and> (drop_bit 31 result = 0 \<or> byte \<noteq> sign_extension)
              then is_error ''varint overflow'' st
              else
                (let result' = (if bitpos \<ge> 32 then result else result OR push_bit bitpos (ucast (byte AND 0x7f)));
                     bitpos' = (bitpos + 7) mod 256
                 in if byte AND 0x80 \<noteq> 0 then varint32_loop bitpos' result' st
                    else (Some (result', bitpos', byte), st))))"
  by pat_completeness auto
termination
  by (relation "measure (\<lambda>(_, _, st). is_bytes_left st)") (auto dest: pb_readbyte_left [OF sym])

declare varint32_loop.simps [simp del]

text \<open>The result, whether the end of the stream was met before the first byte, and the stream.\<close>

definition pb_decode_varint32_eof :: "'s pb_istream \<Rightarrow> u32 option \<times> bool \<times> 's pb_istream" where
  "pb_decode_varint32_eof stream =
     (case pb_readbyte stream of
        (None, st) \<Rightarrow> (None, is_bytes_left st = 0, st)
      | (Some byte, st) \<Rightarrow>
          (if byte AND 0x80 = 0 then (Some (ucast byte), False, st)
           else
             (case varint32_loop 7 (ucast (byte AND 0x7f)) st of
                (None, st') \<Rightarrow> (None, False, st')
              | (Some (result, bitpos, byte'), st') \<Rightarrow>
                  (if bitpos = 35 \<and> byte' AND 0x70 \<noteq> 0
                   then (case is_error ''varint overflow'' st' of (r, st'') \<Rightarrow> (r, False, st''))
                   else (Some result, False, st')))))"

definition pb_decode_varint32 :: "'s pb_istream \<Rightarrow> u32 option \<times> 's pb_istream" where
  "pb_decode_varint32 stream = (case pb_decode_varint32_eof stream of (r, _, st) \<Rightarrow> (r, st))"

function varint64_loop :: "nat \<Rightarrow> u64 \<Rightarrow> 's pb_istream \<Rightarrow> u64 option \<times> 's pb_istream" where
  "varint64_loop bitpos result stream =
     (if bitpos \<ge> 64 then is_error ''varint overflow'' stream
      else
        (case pb_readbyte stream of
           (None, st) \<Rightarrow> (None, st)
         | (Some byte, st) \<Rightarrow>
             (let result' = result OR push_bit bitpos (ucast (byte AND 0x7f))
              in if byte AND 0x80 \<noteq> 0 then varint64_loop (bitpos + 7) result' st else (Some result', st))))"
  by pat_completeness auto
termination
  by (relation "measure (\<lambda>(bitpos, _, _). 64 - bitpos)") auto

declare varint64_loop.simps [simp del]

definition pb_decode_varint :: "'s pb_istream \<Rightarrow> u64 option \<times> 's pb_istream" where
  "pb_decode_varint stream = varint64_loop 0 0 stream"

function pb_skip_varint :: "'s pb_istream \<Rightarrow> bool \<times> 's pb_istream" where
  "pb_skip_varint stream =
     (case pb_read_buf 1 stream of
        (None, st) \<Rightarrow> (False, st)
      | (Some bs, st) \<Rightarrow> if hd bs AND 0x80 \<noteq> 0 then pb_skip_varint st else (True, st))"
  by pat_completeness auto
termination
  by (relation "measure is_bytes_left") (auto dest!: pb_read_buf_left [OF sym])

declare pb_skip_varint.simps [simp del]

definition pb_skip_string :: "'s pb_istream \<Rightarrow> bool \<times> 's pb_istream" where
  "pb_skip_string stream =
     (case pb_decode_varint32 stream of
        (None, st) \<Rightarrow> (False, st)
      | (Some len, st) \<Rightarrow> pb_skip (unat len) st)"

text \<open>The wire type and the field number, whether the message ends here, and the stream.\<close>

definition pb_decode_tag :: "'s pb_istream \<Rightarrow> (u32 \<times> u32) option \<times> bool \<times> 's pb_istream" where
  "pb_decode_tag stream =
     (case pb_decode_varint32_eof stream of
        (None, eof, st) \<Rightarrow> (None, eof, st)
      | (Some temp, _, st) \<Rightarrow>
          (if temp = 0 then (None, True, st)
           else (Some (temp AND 7, drop_bit 3 temp), False, st)))"

definition pb_skip_field :: "'s pb_istream \<Rightarrow> u32 \<Rightarrow> bool \<times> 's pb_istream" where
  "pb_skip_field stream wire_type =
     (if wire_type = PB_WT_VARINT then pb_skip_varint stream
      else if wire_type = PB_WT_64BIT then pb_skip 8 stream
      else if wire_type = PB_WT_STRING then pb_skip_string stream
      else if wire_type = PB_WT_32BIT then pb_skip 4 stream
      else (case is_error ''invalid wire_type'' stream of (_ :: unit option, st) \<Rightarrow> (False, st)))"

text \<open>The bytes of a varint into a buffer of \<open>max_size\<close> bytes; \<open>acc\<close> are those read so far.\<close>

function raw_varint_loop :: "nat \<Rightarrow> u8 list \<Rightarrow> 's pb_istream \<Rightarrow> u8 list option \<times> 's pb_istream" where
  "raw_varint_loop max_size acc stream =
     (if length acc + 1 > max_size then (None, stream)
      else
        (case pb_read_buf 1 stream of
           (None, st) \<Rightarrow> (None, st)
         | (Some bs, st) \<Rightarrow>
             if hd bs AND 0x80 \<noteq> 0 then raw_varint_loop max_size (acc @ [hd bs]) st else (Some (acc @ [hd bs]), st)))"
  by pat_completeness auto
termination
  by (relation "measure (\<lambda>(_, _, st). is_bytes_left st)") (auto dest!: pb_read_buf_left [OF sym])

declare raw_varint_loop.simps [simp del]

definition read_raw_value :: "'s pb_istream \<Rightarrow> u32 \<Rightarrow> nat \<Rightarrow> u8 list option \<times> 's pb_istream" where
  "read_raw_value stream wire_type max_size =
     (if wire_type = PB_WT_VARINT then raw_varint_loop max_size [] stream
      else if wire_type = PB_WT_64BIT then pb_read_buf 8 stream
      else if wire_type = PB_WT_32BIT then pb_read_buf 4 stream
      else is_error ''invalid wire_type'' stream)"

definition pb_make_string_substream :: "'s pb_istream \<Rightarrow> 's pb_istream option \<times> 's pb_istream" where
  "pb_make_string_substream stream =
     (case pb_decode_varint32 stream of
        (None, st) \<Rightarrow> (None, st)
      | (Some n, st) \<Rightarrow>
          (if is_bytes_left st < unat n then is_error ''parent stream too short'' st
           else (Some (st\<lparr>is_bytes_left := unat n\<rparr>), st\<lparr>is_bytes_left := is_bytes_left st - unat n\<rparr>)))"

definition pb_close_string_substream :: "'s pb_istream \<Rightarrow> 's pb_istream \<Rightarrow> bool \<times> 's pb_istream" where
  "pb_close_string_substream stream substream =
     (case (if is_bytes_left substream \<noteq> 0 then pb_skip (is_bytes_left substream) substream else (True, substream)) of
        (False, _) \<Rightarrow> (False, stream)
      | (True, sub) \<Rightarrow> (True, stream\<lparr>is_reader := is_reader sub, is_errmsg := is_errmsg sub\<rparr>))"

definition pb_decode_svarint :: "'s pb_istream \<Rightarrow> u64 option \<times> 's pb_istream" where
  "pb_decode_svarint stream =
     (case pb_decode_varint stream of
        (None, st) \<Rightarrow> (None, st)
      | (Some v, st) \<Rightarrow> (Some (if v AND 1 \<noteq> 0 then NOT (drop_bit 1 v) else drop_bit 1 v), st))"

definition le_value :: "u8 list \<Rightarrow> 'a::len word" where
  "le_value bs = foldr (\<lambda>(i, b) v. push_bit (8 * i) (ucast b) OR v) (enumerate 0 bs) 0"

definition pb_decode_fixed32 :: "'s pb_istream \<Rightarrow> u32 option \<times> 's pb_istream" where
  "pb_decode_fixed32 stream =
     (case pb_read_buf 4 stream of (None, st) \<Rightarrow> (None, st) | (Some bs, st) \<Rightarrow> (Some (le_value bs), st))"

definition pb_decode_fixed64 :: "'s pb_istream \<Rightarrow> u64 option \<times> 's pb_istream" where
  "pb_decode_fixed64 stream =
     (case pb_read_buf 8 stream of (None, st) \<Rightarrow> (None, st) | (Some bs, st) \<Rightarrow> (Some (le_value bs), st))"

definition pb_dec_bool :: "'s pb_istream \<Rightarrow> bool option \<times> 's pb_istream" where
  "pb_dec_bool stream =
     (case pb_decode_varint32 stream of (None, st) \<Rightarrow> (None, st) | (Some v, st) \<Rightarrow> (Some (v \<noteq> 0), st))"

definition pb_decode_bool :: "'s pb_istream \<Rightarrow> bool option \<times> 's pb_istream" where
  "pb_decode_bool stream = pb_dec_bool stream"

end
