(* ===== verification/PbField.thy ===== *)
theory PbField
  imports PbStream
begin

text \<open>
  The coders of nanopb for single fields. A field of the C structure is an integer of \<open>data_size\<close> bytes, read
  as signed or unsigned; bytes and strings are in a fixed array or in memory the decoder allocates.
\<close>

section \<open>Integers\<close>

text \<open>The value of a signed, and of an unsigned, C integer of so many bytes that has the bits of \<open>v\<close>.\<close>

definition as_signed :: "nat \<Rightarrow> int \<Rightarrow> int" where
  "as_signed data_size v = signed_take_bit (8 * data_size - 1) v"

definition as_unsigned :: "nat \<Rightarrow> int \<Rightarrow> int" where
  "as_unsigned data_size v = take_bit (8 * data_size) v"

definition int_size :: "nat \<Rightarrow> bool" where
  "int_size data_size \<longleftrightarrow> data_size = 1 \<or> data_size = 2 \<or> data_size = 4 \<or> data_size = 8"

definition pb_enc_bool :: "'s pb_ostream \<Rightarrow> bool \<Rightarrow> bool \<times> 's pb_ostream" where
  "pb_enc_bool stream b = pb_encode_varint stream (if b then 1 else 0)"

definition pb_enc_varint :: "'s pb_ostream \<Rightarrow> nat \<Rightarrow> int \<Rightarrow> bool \<times> 's pb_ostream" where
  "pb_enc_varint stream data_size v =
     (if int_size data_size then pb_encode_varint stream (word_of_int (as_signed data_size v))
      else os_error ''invalid data_size'' stream)"

definition pb_enc_uvarint :: "'s pb_ostream \<Rightarrow> nat \<Rightarrow> int \<Rightarrow> bool \<times> 's pb_ostream" where
  "pb_enc_uvarint stream data_size v =
     (if int_size data_size then pb_encode_varint stream (word_of_int (as_unsigned data_size v))
      else os_error ''invalid data_size'' stream)"

definition pb_enc_svarint :: "'s pb_ostream \<Rightarrow> nat \<Rightarrow> int \<Rightarrow> bool \<times> 's pb_ostream" where
  "pb_enc_svarint stream data_size v =
     (if int_size data_size then pb_encode_svarint stream (word_of_int (as_signed data_size v))
      else os_error ''invalid data_size'' stream)"

definition pb_enc_fixed32 :: "'s pb_ostream \<Rightarrow> u32 \<Rightarrow> bool \<times> 's pb_ostream" where
  "pb_enc_fixed32 stream v = pb_encode_fixed32 stream v"

definition pb_enc_fixed64 :: "'s pb_ostream \<Rightarrow> u64 \<Rightarrow> bool \<times> 's pb_ostream" where
  "pb_enc_fixed64 stream v = pb_encode_fixed64 stream v"

text \<open>
  The decoders give their result, the value they have stored in the field, which is there even when it is found
  to be too large, and the stream.
\<close>

definition store_int :: "(int \<Rightarrow> int) \<Rightarrow> int \<Rightarrow> nat \<Rightarrow> 's pb_istream \<Rightarrow> bool \<times> int option \<times> 's pb_istream" where
  "store_int cast v data_size st =
     (if int_size data_size then
        (let clamped = cast v
         in if clamped \<noteq> v
            then (case is_error ''integer too large'' st of (_ :: unit option, st') \<Rightarrow> (False, Some clamped, st'))
            else (True, Some clamped, st))
      else (case is_error ''invalid data_size'' st of (_ :: unit option, st') \<Rightarrow> (False, None, st')))"

definition pb_dec_varint :: "'s pb_istream \<Rightarrow> nat \<Rightarrow> bool \<times> int option \<times> 's pb_istream" where
  "pb_dec_varint stream data_size =
     (case pb_decode_varint stream of
        (None, st) \<Rightarrow> (False, None, st)
      | (Some v, st) \<Rightarrow>
          (let svalue = (if data_size = 8 then sint v else as_signed 4 (uint v))
           in store_int (as_signed data_size) svalue data_size st))"

definition pb_dec_uvarint :: "'s pb_istream \<Rightarrow> nat \<Rightarrow> bool \<times> int option \<times> 's pb_istream" where
  "pb_dec_uvarint stream data_size =
     (case pb_decode_varint stream of
        (None, st) \<Rightarrow> (False, None, st)
      | (Some v, st) \<Rightarrow> store_int (as_unsigned data_size) (uint v) data_size st)"

definition pb_dec_svarint :: "'s pb_istream \<Rightarrow> nat \<Rightarrow> bool \<times> int option \<times> 's pb_istream" where
  "pb_dec_svarint stream data_size =
     (case pb_decode_svarint stream of
        (None, st) \<Rightarrow> (False, None, st)
      | (Some v, st) \<Rightarrow> store_int (as_signed data_size) (sint v) data_size st)"

definition pb_dec_fixed32 :: "'s pb_istream \<Rightarrow> u32 option \<times> 's pb_istream" where
  "pb_dec_fixed32 stream = pb_decode_fixed32 stream"

definition pb_dec_fixed64 :: "'s pb_istream \<Rightarrow> u64 option \<times> 's pb_istream" where
  "pb_dec_fixed64 stream = pb_decode_fixed64 stream"

section \<open>Bytes and strings\<close>

text \<open>\<open>sizeof_size\<close> is the offset of the data in a \<open>pb_bytes_array_t\<close>.\<close>

definition sizeof_size :: nat where
  "sizeof_size = 4"

text \<open>The bytes of a field, \<open>None\<close> for a null pointer.\<close>

definition pb_enc_bytes :: "'s pb_ostream \<Rightarrow> bool \<Rightarrow> nat \<Rightarrow> u8 list option \<Rightarrow> bool \<times> 's pb_ostream" where
  "pb_enc_bytes stream is_pointer data_size src =
     (case src of
        None \<Rightarrow> pb_encode_string stream []
      | Some bytes \<Rightarrow>
          (let allocsize = sz (length bytes + sizeof_size)
           in if allocsize < length bytes \<or> (\<not> is_pointer \<and> allocsize > data_size)
              then os_error ''bytes size exceeded'' stream
              else pb_encode_string stream bytes))"

fun string_loop :: "nat \<Rightarrow> nat \<Rightarrow> u8 list \<Rightarrow> nat" where
  "string_loop n max_size [] = n"
| "string_loop n max_size (c # p) = (if n < max_size \<and> c \<noteq> 0 then string_loop (n + 1) max_size p else n)"

definition pb_enc_string :: "'s pb_ostream \<Rightarrow> bool \<Rightarrow> nat \<Rightarrow> u8 list option \<Rightarrow> bool \<times> 's pb_ostream" where
  "pb_enc_string stream is_pointer data_size src =
     (let max_size = (if is_pointer then 2 ^ 64 - 1 else data_size)
      in case src of
           None \<Rightarrow> pb_encode_string stream []
         | Some p \<Rightarrow> pb_encode_string stream (take (string_loop 0 max_size p) p))"

definition pb_enc_submessage ::
  "'s pb_ostream \<Rightarrow> ('s pb_ostream \<Rightarrow> bool \<times> 's pb_ostream) option \<Rightarrow> bool \<times> 's pb_ostream" where
  "pb_enc_submessage stream enc =
     (case enc of None \<Rightarrow> os_error ''invalid field descriptor'' stream | Some e \<Rightarrow> pb_encode_submessage e stream)"

definition pb_enc_fixed_length_bytes :: "'s pb_ostream \<Rightarrow> u8 list \<Rightarrow> bool \<times> 's pb_ostream" where
  "pb_enc_fixed_length_bytes stream src = pb_encode_string stream src"

text \<open>\<open>realloc_ok\<close> says for a size whether realloc gives a block of that size.\<close>

definition allocate_field :: "(nat \<Rightarrow> bool) \<Rightarrow> nat \<Rightarrow> nat \<Rightarrow> 's pb_istream \<Rightarrow> bool \<times> 's pb_istream" where
  "allocate_field realloc_ok data_size array_size stream =
     (let fail = (\<lambda>msg. case is_error msg stream of (_ :: unit option, st) \<Rightarrow> (False, st));
          check_limit = 2 ^ 32
      in if data_size = 0 \<or> array_size = 0 then fail ''invalid size''
         else if (data_size \<ge> check_limit \<or> array_size \<ge> check_limit) \<and> (2 ^ 64 - 1) div array_size < data_size
         then fail ''size too large''
         else if \<not> realloc_ok (sz (array_size * data_size)) then fail ''realloc failed''
         else (True, stream))"

text \<open>Where the bytes go: \<open>Inl\<close> a fixed array of so many bytes, \<open>Inr\<close> allocated memory.\<close>

definition reserve_bytes ::
  "nat + (nat \<Rightarrow> bool) \<Rightarrow> string \<Rightarrow> nat \<Rightarrow> nat \<Rightarrow> 's pb_istream \<Rightarrow> bool \<times> 's pb_istream" where
  "reserve_bytes place overflow_msg len alloc_size st =
     (let fail = (\<lambda>msg. case is_error msg st of (_ :: unit option, st') \<Rightarrow> (False, st'))
      in case place of
           Inr realloc_ok \<Rightarrow>
             if is_bytes_left st < len then fail ''end-of-stream'' else allocate_field realloc_ok alloc_size 1 st
         | Inl data_size \<Rightarrow> if alloc_size > data_size then fail overflow_msg else (True, st))"

definition pb_dec_bytes :: "'s pb_istream \<Rightarrow> nat + (nat \<Rightarrow> bool) \<Rightarrow> u8 list option \<times> 's pb_istream" where
  "pb_dec_bytes stream place =
     (case pb_decode_varint32 stream of
        (None, st) \<Rightarrow> (None, st)
      | (Some n, st) \<Rightarrow>
          (let len = unat n; alloc_size = sz (len + sizeof_size)
           in if len > 2 ^ 32 - 1 then is_error ''bytes overflow'' st
              else if len > alloc_size then is_error ''size too large'' st
              else
                (case reserve_bytes place ''bytes overflow'' len alloc_size st of
                   (False, st') \<Rightarrow> (None, st')
                 | (True, st') \<Rightarrow> pb_read_buf len st')))"

text \<open>The sum for the terminator is computed in 32 bits. The result is the string with its terminator.\<close>

definition pb_dec_string :: "'s pb_istream \<Rightarrow> nat + (nat \<Rightarrow> bool) \<Rightarrow> u8 list option \<times> 's pb_istream" where
  "pb_dec_string stream place =
     (case pb_decode_varint32 stream of
        (None, st) \<Rightarrow> (None, st)
      | (Some n, st) \<Rightarrow>
          (let len = unat n; alloc_size = unat (n + 1)
           in if alloc_size < len then is_error ''size too large'' st
              else
                (case reserve_bytes place ''string overflow'' len alloc_size st of
                   (False, st') \<Rightarrow> (None, st')
                 | (True, st') \<Rightarrow>
                     (case pb_read_buf len st' of (r, st'') \<Rightarrow> (map_option (\<lambda>bs. bs @ [0]) r, st'')))))"

definition pb_dec_fixed_length_bytes :: "'s pb_istream \<Rightarrow> nat \<Rightarrow> u8 list option \<times> 's pb_istream" where
  "pb_dec_fixed_length_bytes stream data_size =
     (case pb_decode_varint32 stream of
        (None, st) \<Rightarrow> (None, st)
      | (Some n, st) \<Rightarrow>
          (if unat n > 2 ^ 32 - 1 then is_error ''bytes overflow'' st
           else if n = 0 then (Some (replicate data_size 0), st)
           else if unat n \<noteq> data_size then is_error ''incorrect fixed length bytes size'' st
           else pb_read_buf data_size st))"

text \<open>\<open>dec\<close> decodes the fields of the message from the substream.\<close>

definition pb_dec_submessage ::
  "'s pb_istream \<Rightarrow> ('s pb_istream \<Rightarrow> 'm option \<times> 's pb_istream) option \<Rightarrow> 'm option \<times> 's pb_istream" where
  "pb_dec_submessage stream dec =
     (case pb_make_string_substream stream of
        (None, st) \<Rightarrow> (None, st)
      | (Some sub, st) \<Rightarrow>
          (case dec of
             None \<Rightarrow> is_error ''invalid field descriptor'' st
           | Some d \<Rightarrow>
               (case d sub of (status, sub') \<Rightarrow>
                  (case pb_close_string_substream st sub' of
                     (False, st') \<Rightarrow> (None, st')
                   | (True, st') \<Rightarrow> (status, st')))))"

definition pb_encode_delimited :: "('s pb_ostream \<Rightarrow> bool \<times> 's pb_ostream) \<Rightarrow> 's pb_ostream \<Rightarrow> bool \<times> 's pb_ostream" where
  "pb_encode_delimited enc stream = pb_encode_submessage enc stream"

definition pb_encode_nullterminated :: "('s pb_ostream \<Rightarrow> bool \<times> 's pb_ostream) \<Rightarrow> 's pb_ostream \<Rightarrow> bool \<times> 's pb_ostream" where
  "pb_encode_nullterminated enc stream =
     (case enc stream of (False, st) \<Rightarrow> (False, st) | (True, st) \<Rightarrow> pb_write st [0])"

definition pb_get_encoded_size :: "('s pb_ostream \<Rightarrow> bool \<times> 's pb_ostream) \<Rightarrow> 's \<Rightarrow> nat option" where
  "pb_get_encoded_size enc s =
     (case enc (PB_OSTREAM_SIZING s) of (False, _) \<Rightarrow> None | (True, st) \<Rightarrow> Some (os_bytes_written st))"

end
