(* ===== verification/PbWire.thy ===== *)
theory PbWire
  imports PbField
begin

text \<open>
  What the coders of nanopb do on buffers: the exact bytes of every value, what the readers accept, and
  messages written field by field and read back.
\<close>

section \<open>Streams on buffers\<close>

text \<open>A buffer of \<open>n\<close> bytes into which \<open>bs\<close> has been written, and one from which \<open>bs\<close> is still to be read.\<close>

definition out_buf :: "nat \<Rightarrow> u8 list \<Rightarrow> u8 list pb_ostream" where
  "out_buf n bs = \<lparr>os_callback = Some buf_write, os_state = bs, os_max_size = n, os_bytes_written = length bs, os_errmsg = None\<rparr>"

definition in_buf :: "nat \<Rightarrow> u8 list \<Rightarrow> 's pb_istream" where
  "in_buf n bs = \<lparr>is_reader = Buf_read bs, is_bytes_left = n, is_errmsg = None\<rparr>"

lemma from_buffer_eq: "pb_ostream_from_buffer n = out_buf n []" "pb_istream_from_buffer bs n = in_buf n bs"
  by (simp_all add: pb_ostream_from_buffer_def out_buf_def pb_istream_from_buffer_def in_buf_def)

lemma pb_write_buf:
  assumes "length xs + length bs \<le> n" "n < 2 ^ 64"
  shows "pb_write (out_buf n xs) bs = (True, out_buf n (xs @ bs))"
  using assms by (simp add: pb_write_def out_buf_def buf_write_def Let_def)

lemma pb_write_full:
  assumes "n < length xs + length bs" "length xs + length bs < 2 ^ 64" "bs \<noteq> []"
  shows "fst (pb_write (out_buf n xs) bs) = False"
  using assms by (simp add: pb_write_def out_buf_def os_error_def Let_def)

lemma pb_readbyte_buf [simp]: "pb_readbyte (in_buf (Suc n) (b # bs)) = (Some b, in_buf n bs)"
  by (simp add: pb_readbyte_def in_buf_def)

lemma pb_readbyte_empty [simp]: "fst (pb_readbyte (in_buf 0 bs)) = None" "is_bytes_left (snd (pb_readbyte (in_buf 0 bs))) = 0"
  by (simp_all add: pb_readbyte_def in_buf_def is_error_def)

lemma pb_read_buf_in:
  assumes "length xs \<le> n"
  shows "pb_read_buf (length xs) (in_buf n (xs @ bs) :: 's pb_istream) = (Some xs, in_buf (n - length xs) bs)"
  using assms by (simp add: pb_read_buf_def in_buf_def)

lemma pb_skip_in:
  assumes "length xs \<le> n"
  shows "pb_skip (length xs) (in_buf n (xs @ bs) :: 's pb_istream) = (True, in_buf (n - length xs) bs)"
  using assms by (simp add: pb_skip_def pb_read_buf_def in_buf_def)

section \<open>Varints\<close>

text \<open>The base-128 digits of a number, the least significant first, each but the last with a continuation bit.\<close>

fun varint_bytes :: "nat \<Rightarrow> u8 list" where
  "varint_bytes v = (if v < 128 then [word_of_nat v] else word_of_nat (v mod 128 + 128) # varint_bytes (v div 128))"

declare varint_bytes.simps [simp del]

lemma varint_bytes_small: "v < 128 \<Longrightarrow> varint_bytes v = [word_of_nat v]"
  by (subst varint_bytes.simps) simp

lemma varint_bytes_big: "128 \<le> v \<Longrightarrow> varint_bytes v = word_of_nat (v mod 128 + 128) # varint_bytes (v div 128)"
  by (subst varint_bytes.simps) simp

lemma varint_bytes_ne [simp]: "varint_bytes v \<noteq> []"
  by (subst varint_bytes.simps) simp

lemma varint_bytes_length: "v < 2 ^ (7 * k) \<Longrightarrow> 0 < k \<Longrightarrow> length (varint_bytes v) \<le> k"
proof (induction k arbitrary: v)
  case (Suc k)
  show ?case
  proof (cases "v < 128")
    case False
    then have k: "0 < k" using Suc.prems(1) by (cases k) auto
    have "v div 128 < 2 ^ (7 * k)"
      using Suc.prems(1) by (simp add: less_mult_imp_div_less power_add mult.commute)
    from Suc.IH [OF this k] False show ?thesis by (simp add: varint_bytes_big)
  qed (simp add: varint_bytes_small)
qed simp

text \<open>Words and their low seven bits.\<close>

lemma unat_and_7f: "7 < LENGTH('a) \<Longrightarrow> unat (w AND 0x7f :: 'a::len word) = unat w mod 128"
  unfolding and_0x7f by (subst unsigned_take_bit_eq) (simp_all add: take_bit_eq_mod [where 'a = nat])

lemma cont_bit: "b AND 0x80 = 0 \<longleftrightarrow> unat (b :: u8) < 128"
proof -
  have "bit b 7 \<longleftrightarrow> odd (unat b div 128)"
  proof -
    have "bit (unat b) 7 \<longleftrightarrow> bit b 7" by (simp add: bit_unsigned_iff)
    then show ?thesis by (simp add: bit_iff_odd [where 'a = nat])
  qed
  moreover have "unat b div 128 < 2" using unat_u8_lt [of b] by (intro less_mult_imp_div_less) simp
  moreover have "odd n \<longleftrightarrow> n = 1" if "n < 2" for n :: nat using that by (auto simp: less_2_cases_iff)
  ultimately show ?thesis by (auto simp: and_0x80)
qed

lemma unat_small_u8: "v < 256 \<Longrightarrow> unat (word_of_nat v :: u8) = v"
  by (simp add: unat_of_nat)

lemma varint_byte: "ucast (v AND 0x7f OR 0x80) = (word_of_nat (unat v mod 128 + 128) :: u8)" for v :: u64
proof (rule word_eqI_unat)
  have "unat (v AND 0x7f OR 0x80) = unat (v AND 0x7f) + unat (0x80 :: u64)"
  proof (rule unat_or_disjoint)
    have "push_bit 7 (1 :: u64) AND (v AND 0x7f) = 0" by (rule push_bit_and_disjoint) (simp add: unat_and_7f)
    then show "(v AND 0x7f) AND 0x80 = 0" by (simp add: push_bit_eq_mult and.commute)
  qed
  then have "unat (v AND 0x7f OR 0x80) = unat v mod 128 + 128" by (simp add: unat_and_7f)
  then show "unat (ucast (v AND 0x7f OR 0x80) :: u8) = unat (word_of_nat (unat v mod 128 + 128) :: u8)"
    by (simp add: unsigned_ucast_eq unat_of_nat take_bit_eq_mod del: of_nat_add)
qed

lemma varint_loop_bytes:
  "unat v < 2 ^ (7 * n) \<Longrightarrow> v \<noteq> 0 \<Longrightarrow>
     (let b = varint_loop n v in b \<noteq> [] \<and> b[length b - 1 := b ! (length b - 1) AND 0x7f] = varint_bytes (unat v))"
proof (induction n arbitrary: v)
  case (Suc n)
  have h: "ucast (v AND 0x7f OR 0x80) = (word_of_nat (unat v mod 128 + 128) :: u8)" by (rule varint_byte)
  have d: "unat (drop_bit 7 v) = unat v div 128" by (simp add: unat_drop_bit)
  show ?case
  proof (cases "unat v < 128")
    case True
    then have "drop_bit 7 v = 0" using d by (simp add: unat_eq_zero)
    moreover have "(word_of_nat (unat v + 128) AND 0x7f) = (word_of_nat (unat v) :: u8)"
      using True by (intro word_eqI_unat) (simp add: unat_and_7f unat_of_nat mod_mod_cancel unsigned_ucast_eq take_bit_nat_eq_self del: of_nat_add)
    ultimately show ?thesis using True Suc.prems(2) by (cases n) (simp_all add: h varint_bytes_small Let_def)
  next
    case False
    then have nz: "drop_bit 7 v \<noteq> 0" using d by (auto simp: unat_eq_zero [symmetric])
    have small: "unat (drop_bit 7 v) < 2 ^ (7 * n)"
      using Suc.prems(1) d by (simp add: less_mult_imp_div_less power_add mult.commute)
    note IH = Suc.IH [OF small nz, unfolded Let_def]
    define r where "r = varint_loop n (drop_bit 7 v)"
    have "r \<noteq> [] \<and> r[length r - 1 := r ! (length r - 1) AND 0x7f] = varint_bytes (unat (drop_bit 7 v))"
      unfolding r_def by (rule IH)
    then have r: "r \<noteq> []" "r[length r - 1 := r ! (length r - 1) AND 0x7f] = varint_bytes (unat v div 128)"
      unfolding d by blast+
    have "varint_loop (Suc n) v = word_of_nat (unat v mod 128 + 128) # r"
      using Suc.prems(2) h by (simp add: r_def)
    then show ?thesis
      using r False by (cases r) (simp_all only: Let_def varint_bytes_big not_less, simp_all)
  qed
qed (simp add: unat_eq_zero)

lemma pb_encode_varint_eq: "pb_encode_varint stream v = pb_write stream (varint_bytes (unat v))"
proof (cases "v \<le> 0x7f")
  case True
  then have "unat v < 128" by (simp add: word_le_nat_alt)
  moreover from this have "ucast v = (word_of_nat (unat v) :: u8)"
    by simp
  ultimately show ?thesis using True by (simp add: pb_encode_varint_def varint_bytes_small)
next
  case False
  moreover from this have "v \<noteq> 0" by auto
  moreover have "unat v < 2 ^ (7 * 10)" by (rule less_trans [OF unat_u64_lt]) simp
  ultimately show ?thesis
    using varint_loop_bytes [of v 10] by (auto simp: pb_encode_varint_def Let_def)
qed

text \<open>The value of the first varint of a byte string that has it within \<open>k\<close> bytes, and the rest.\<close>

fun varint_scan :: "nat \<Rightarrow> u8 list \<Rightarrow> (nat \<times> u8 list) option" where
  "varint_scan 0 bs = None"
| "varint_scan (Suc k) [] = None"
| "varint_scan (Suc k) (b # bs) =
     (if unat b < 128 then Some (unat b, bs)
      else map_option (\<lambda>(v, r). (unat b - 128 + 128 * v, r)) (varint_scan k bs))"

lemma varint_scan_bytes:
  "v < 2 ^ (7 * k) \<Longrightarrow> 0 < k \<Longrightarrow> varint_scan k (varint_bytes v @ bs) = Some (v, bs)"
proof (induction k arbitrary: v)
  case (Suc k)
  show ?case
  proof (cases "v < 128")
    case False
    then have k: "0 < k" using Suc.prems(1) by (cases k) auto
    have "v div 128 < 2 ^ (7 * k)"
      using Suc.prems(1) by (simp add: less_mult_imp_div_less power_add mult.commute)
    from Suc.IH [OF this k] False show ?thesis
      by (simp add: varint_bytes_big unat_small_u8 del: of_nat_add)
  qed (simp add: varint_bytes_small unat_small_u8)
qed simp

lemma or_push_low:
  fixes acc x :: "'a::len word"
  assumes "unat acc < 2 ^ n"
  shows "acc OR push_bit n x = acc + x * 2 ^ n"
proof -
  have "push_bit n x AND acc = 0" by (rule push_bit_and_disjoint [OF assms])
  then have "acc AND push_bit n x = 0" by (simp add: and.commute)
  with word_plus_and_or [of acc "push_bit n x"] have "acc OR push_bit n x = acc + push_bit n x" by simp
  then show ?thesis by (simp add: push_bit_eq_mult)
qed

lemma ucast_7f: "(ucast (b AND 0x7f) :: u64) = word_of_nat (unat b mod 128)"
  "(ucast (b AND 0x7f) :: u32) = word_of_nat (unat b mod 128)" for b :: u8
  by (rule word_eqI_unat, simp add: unat_and_7f unat_of_nat)+

lemma varint64_step:
  assumes "n < 64" "unat acc < 2 ^ n"
  shows "varint64_loop n acc (in_buf (Suc m) (b # bs)) =
    (if unat b < 128 then (Some (acc + word_of_nat (unat b mod 128) * 2 ^ n), in_buf m bs)
     else varint64_loop (n + 7) (acc + word_of_nat (unat b mod 128) * 2 ^ n) (in_buf m bs))"
proof (rule trans [OF varint64_loop.simps])
  show "(if 64 \<le> n then is_error ''varint overflow'' (in_buf (Suc m) (b # bs))
      else case pb_readbyte (in_buf (Suc m) (b # bs)) of (None, st) \<Rightarrow> (None, st)
        | (Some byte, st) \<Rightarrow>
            (let result' = acc OR push_bit n (ucast (byte AND 0x7f))
             in if byte AND 0x80 \<noteq> 0 then varint64_loop (n + 7) result' st else (Some result', st))) =
    (if unat b < 128 then (Some (acc + word_of_nat (unat b mod 128) * 2 ^ n), in_buf m bs)
     else varint64_loop (n + 7) (acc + word_of_nat (unat b mod 128) * 2 ^ n) (in_buf m bs))"
    using assms(1) by (simp only: pb_readbyte_buf Let_def prod.case option.case or_push_low [OF assms(2)] ucast_7f cont_bit) simp
qed

lemma varint64_loop_eq:
  assumes "k \<le> 10" "unat acc < 2 ^ (7 * (10 - k)) \<or> k = 0"
  shows "case varint_scan k bs of
      None \<Rightarrow> fst (varint64_loop (7 * (10 - k)) acc (in_buf (length bs) (bs @ t) :: 's pb_istream)) = None
    | Some (v, r) \<Rightarrow> varint64_loop (7 * (10 - k)) acc (in_buf (length bs) (bs @ t) :: 's pb_istream) =
        (Some (acc + word_of_nat v * 2 ^ (7 * (10 - k))), in_buf (length r) (r @ t))"
  using assms
proof (induction k bs arbitrary: acc rule: varint_scan.induct)
  case (1 bs)
  then show ?case by (subst varint64_loop.simps) (simp add: is_error_def)
next
  case (2 k)
  then show ?case by (subst varint64_loop.simps) (auto split: prod.splits dest: arg_cong [of _ _ fst])
next
  case (3 k b bs)
  define n where "n = 7 * (10 - Suc k)"
  have acc: "unat acc < 2 ^ n" using 3(3) by (simp add: n_def)
  have n: "n < 64" "n + 7 = 7 * (10 - k)" using 3(2) by (simp_all add: n_def)
  let ?d = "word_of_nat (unat b mod 128) :: u64"
  let ?acc = "acc + ?d * 2 ^ n"
  have step: "varint64_loop n acc (in_buf (length (b # bs)) ((b # bs) @ t) :: 's pb_istream) =
      (if unat b < 128 then (Some ?acc, in_buf (length bs) (bs @ t)) else varint64_loop (n + 7) ?acc (in_buf (length bs) (bs @ t)))"
    unfolding length_Cons append_Cons by (rule varint64_step [OF n(1) acc])
  show ?case
  proof (cases "unat b < 128")
    case True
    then show ?thesis unfolding n_def [symmetric] step by simp
  next
    case False
    have "unat ?acc < 2 ^ (7 * (10 - k)) \<or> k = 0"
    proof (cases k)
      case (Suc j)
      have le: "n + 7 \<le> 63" using 3(2) Suc by (simp add: n_def)
      have d: "unat ?d * 2 ^ n < 2 ^ (n + 7)" by (simp add: unat_of_nat power_add)
      also have "(2 :: nat) ^ (n + 7) \<le> 2 ^ 63" using le by (intro power_increasing) auto
      finally have "unat (push_bit n ?d OR acc) = unat ?d * 2 ^ n + unat acc"
        by (intro unat_shift_or acc) simp
      moreover have "unat ?d * 2 ^ n + unat acc < 2 ^ (n + 7)"
      proof -
        have "unat ?d \<le> 127" by (simp add: unat_of_nat)
        then have "unat ?d * 2 ^ n \<le> 127 * 2 ^ n" by (rule mult_le_mono1)
        with acc have "unat ?d * 2 ^ n + unat acc < 127 * 2 ^ n + 2 ^ n" by linarith
        also have "\<dots> = 2 ^ (n + 7)" by (simp add: power_add)
        finally show ?thesis .
      qed
      ultimately show ?thesis
        using or_push_low [OF acc, of ?d] n(2) by (simp add: or.commute)
    qed simp
    with 3(1) [OF False, of ?acc] 3(2)
    have IH: "case varint_scan k bs of
        None \<Rightarrow> fst (varint64_loop (n + 7) ?acc (in_buf (length bs) (bs @ t) :: 's pb_istream)) = None
      | Some (v, r) \<Rightarrow> varint64_loop (n + 7) ?acc (in_buf (length bs) (bs @ t) :: 's pb_istream) =
          (Some (?acc + word_of_nat v * 2 ^ (n + 7)), in_buf (length r) (r @ t))"
      by (simp only: n(2))
    define m where "m = unat b - 128"
    have "m < 128" using unat_u8_lt [of b] unfolding m_def by linarith
    then have m: "unat b mod 128 = m" using False by (simp add: m_def le_mod_geq)
    have "?acc + word_of_nat v * 2 ^ (n + 7) = acc + word_of_nat (m + 128 * v) * 2 ^ n" for v
      unfolding m by (simp add: power_add algebra_simps)
    with IH False show ?thesis
      unfolding n_def [symmetric] step varint_scan.simps m_def [symmetric]
      by (cases "varint_scan k bs") (simp_all only: if_not_P option.case option.map prod.case split_beta fst_conv snd_conv, simp_all)
  qed
qed

text \<open>C21: On a buffer \<open>pb_decode_varint\<close> accepts exactly the byte strings that start with a varint of at most ten
bytes, gives its value modulo \<open>2 ^ 64\<close>, and leaves the rest.\<close>

theorem pb_decode_varint_exact:
  "fst (pb_decode_varint (pb_istream_from_buffer bs (length bs) :: 's pb_istream)) =
     map_option (\<lambda>(v, _). word_of_nat v) (varint_scan 10 bs) \<and>
   (\<forall>v r. varint_scan 10 bs = Some (v, r) \<longrightarrow>
     snd (pb_decode_varint (pb_istream_from_buffer bs (length bs) :: 's pb_istream)) = pb_istream_from_buffer r (length r))"
  using varint64_loop_eq [of 10 0 bs "[]", where 's = 's]
  by (cases "varint_scan 10 bs") (auto simp: pb_decode_varint_def from_buffer_eq)

theorem pb_decode_varint_exact_witness:
  "snd (pb_decode_varint (pb_istream_from_buffer [0x96, 1, 7] 3 :: unit pb_istream)) = pb_istream_from_buffer [7] 1"
proof -
  have "varint_scan 10 [0x96, 1, 7] = Some (150, [7])" by code_simp
  with pb_decode_varint_exact [of "[0x96, 1, 7]", where 's = unit] show ?thesis by (simp add: numeral_3_eq_3)
qed

lemma pb_decode_varint_bytes:
  "v < 2 ^ 64 \<Longrightarrow> pb_decode_varint (in_buf (length (varint_bytes v) + m) (varint_bytes v @ t) :: 's pb_istream) =
     (Some (word_of_nat v), in_buf m t)"
  if "m \<le> length t"
proof -
  assume v: "v < 2 ^ 64"
  have "varint_scan 10 (varint_bytes v @ take m t) = Some (v, take m t)"
    by (rule varint_scan_bytes) (use v in simp_all)
  with varint64_loop_eq [of 10 0 "varint_bytes v @ take m t" "drop m t", where 's = 's] that show ?thesis
    by (simp add: pb_decode_varint_def min_absorb2)
qed

section \<open>Varints of 32 bits\<close>

abbreviation vb_buf :: "nat \<Rightarrow> nat \<Rightarrow> u8 list \<Rightarrow> 's pb_istream" where
  "vb_buf v m t \<equiv> in_buf (length (varint_bytes v) + m) (varint_bytes v @ t)"

lemma varint32_step:
  assumes "b \<le> 28"
  shows "varint32_loop b (word_of_nat (v mod 2 ^ b)) (vb_buf (v div 2 ^ b) m t :: 's pb_istream) =
    (if v div 2 ^ b < 128 then (Some (word_of_nat (v mod 2 ^ (b + 7)), b + 7, word_of_nat (v div 2 ^ b)), in_buf m t)
     else varint32_loop (b + 7) (word_of_nat (v mod 2 ^ (b + 7))) (vb_buf (v div 2 ^ (b + 7)) m t))"
proof -
  let ?w = "v div 2 ^ b"
  have lt: "v mod 2 ^ b < 2 ^ b" by simp
  have res: "unat (word_of_nat (v mod 2 ^ b) :: u32) < 2 ^ b"
    unfolding unat_of_nat by (rule le_less_trans [OF mod_less_eq_dividend lt])
  have val: "v mod 2 ^ (b + 7) = v mod 2 ^ b + ?w mod 128 * 2 ^ b"
    using mod_mult2_eq [of v "2 ^ b" 128] by (simp add: power_add mult.commute)
  have add: "word_of_nat (v mod 2 ^ b) OR push_bit b (ucast (x AND 0x7f)) = (word_of_nat (v mod 2 ^ (b + 7)) :: u32)"
    if "unat x mod 128 = ?w mod 128" for x :: u8
    unfolding or_push_low [OF res] ucast_7f that val by simp
  have b: "\<not> 32 \<le> b" "(b + 7) mod 256 = b + 7" using assms by simp_all
  show ?thesis
  proof (cases "?w < 128")
    case True
    then have "unat (word_of_nat ?w :: u8) = ?w" by (simp add: unat_small_u8)
    with True b add [of "word_of_nat ?w"] show ?thesis
      by (subst varint32_loop.simps) (simp add: varint_bytes_small Let_def cont_bit)
  next
    case False
    let ?x = "word_of_nat (?w mod 128 + 128) :: u8"
    have x: "unat ?x = ?w mod 128 + 128" by (rule unat_small_u8) simp
    have vb: "varint_bytes ?w = ?x # varint_bytes (v div 2 ^ (b + 7))"
      using False by (simp add: varint_bytes_big power_add div_mult2_eq)
    have cont: "?x AND 0x80 \<noteq> 0" using x by (simp add: cont_bit)
    have "varint32_loop b (word_of_nat (v mod 2 ^ b)) (vb_buf ?w m t) =
        varint32_loop (b + 7) (word_of_nat (v mod 2 ^ (b + 7))) (vb_buf (v div 2 ^ (b + 7)) m t)"
      using b cont add [of ?x] x
      by (subst varint32_loop.simps) (simp only: vb length_Cons append_Cons add_Suc pb_readbyte_buf Let_def prod.case option.case, simp)
    with False show ?thesis by simp
  qed
qed

lemma varint32_high_error:
  "35 \<le> b \<Longrightarrow> 0 < w \<Longrightarrow> w * 2 ^ b < 2 ^ 63 \<Longrightarrow> fst (varint32_loop b res (vb_buf w m t :: 's pb_istream)) = None"
proof (induction w arbitrary: b rule: varint_bytes.induct)
  case (1 w)
  have "(2 :: nat) ^ b \<le> w * 2 ^ b" using 1(3) by simp
  then have "(2 :: nat) ^ b < 2 ^ 63" using 1(4) by (rule le_less_trans)
  then have b: "b < 63" by (simp only: power_strict_increasing_iff)
  show ?case
  proof (cases "w < 128")
    case True
    let ?x = "word_of_nat w :: u8"
    have x: "unat ?x = w" using True by (simp add: unat_small_u8)
    then have "?x AND 0x7f \<noteq> 0" "?x \<noteq> 0xff"
      using 1(3) True by (auto simp: word_unat_eq_iff unat_and_7f)
    then show ?thesis
      using True b 1(2) by (subst varint32_loop.simps) (simp add: varint_bytes_small Let_def is_error_def)
  next
    case False
    let ?x = "word_of_nat (w mod 128 + 128) :: u8"
    have "unat ?x = w mod 128 + 128" by (rule unat_small_u8) simp
    then have cont: "?x AND 0x80 \<noteq> 0" by (simp add: cont_bit)
    have "w div 128 * 2 ^ (b + 7) \<le> w * 2 ^ b" by (simp add: power_add)
    then have "w div 128 * 2 ^ (b + 7) < 2 ^ 63" using 1(4) by (rule le_less_trans)
    moreover have "(b + 7) mod 256 = b + 7" using b by simp
    moreover have "0 < w div 128" using False by (simp add: div_greater_zero_iff)
    ultimately have "fst (varint32_loop ((b + 7) mod 256) res (vb_buf (w div 128) m t :: 's pb_istream)) = None"
      using 1(1) [OF False, of "b + 7"] 1(2) by simp
    then show ?thesis
      using b 1(2) cont False
      by (subst varint32_loop.simps) (simp add: varint_bytes_big Let_def is_error_def)
  qed
qed

text \<open>The value of the fifth byte and the check of its upper bits.\<close>

lemma fifth_byte: "w < 128 \<Longrightarrow> (word_of_nat w :: u8) AND 0x70 = 0 \<longleftrightarrow> w < 16"
proof -
  have "\<forall>w \<in> set [0..<128]. ((word_of_nat w :: u8) AND 0x70 = 0) = (w < 16)" by code_simp
  then show "w < 128 \<Longrightarrow> (word_of_nat w :: u8) AND 0x70 = 0 \<longleftrightarrow> w < 16" by auto
qed

lemma pb_decode_varint32_bytes:
  "pb_decode_varint32 (vb_buf v m t :: 's pb_istream) =
    (if v < 128 then (Some (word_of_nat v), in_buf m t)
     else case varint32_loop 7 (word_of_nat (v mod 2 ^ 7)) (vb_buf (v div 2 ^ 7) m t) of
       (None, st) \<Rightarrow> (None, st)
     | (Some (result, bitpos, byte), st) \<Rightarrow>
         if bitpos = 35 \<and> byte AND 0x70 \<noteq> 0 then is_error ''varint overflow'' st else (Some result, st))"
proof (cases "v < 128")
  case True
  then have "(word_of_nat v :: u8) AND 0x80 = 0" by (simp add: cont_bit unat_small_u8)
  moreover have "ucast (word_of_nat v :: u8) = (word_of_nat v :: u32)"
    using True by (intro word_eqI_unat) (simp add: unat_small_u8 unat_of_nat)
  ultimately show ?thesis
    using True by (simp add: pb_decode_varint32_def pb_decode_varint32_eof_def varint_bytes_small)
next
  case False
  let ?x = "word_of_nat (v mod 128 + 128) :: u8"
  have x: "unat ?x = v mod 128 + 128" by (rule unat_small_u8) simp
  then have "?x AND 0x80 \<noteq> 0" "ucast (?x AND 0x7f) = (word_of_nat (v mod 2 ^ 7) :: u32)"
    by (simp_all add: cont_bit ucast_7f x)
  then have eq: "pb_decode_varint32_eof (vb_buf v m t) =
      (case varint32_loop 7 (word_of_nat (v mod 2 ^ 7)) (vb_buf (v div 128) m t :: 's pb_istream) of
        (None, st') \<Rightarrow> (None, False, st')
      | (Some (result, bitpos, byte'), st') \<Rightarrow>
          (if bitpos = 35 \<and> byte' AND 0x70 \<noteq> 0
           then (case is_error ''varint overflow'' st' of (r, st'') \<Rightarrow> (r, False, st''))
           else (Some result, False, st')))"
    using False unfolding pb_decode_varint32_eof_def
    by (simp only: varint_bytes_big not_less length_Cons append_Cons add_Suc pb_readbyte_buf prod.case option.case if_False)
  obtain r st where "varint32_loop 7 (word_of_nat (v mod 2 ^ 7)) (vb_buf (v div 128) m t :: 's pb_istream) = (r, st)"
    by (metis surj_pair)
  with eq False show ?thesis
    by (cases r) (auto simp: pb_decode_varint32_def is_error_def)
qed

lemma word32_mod: "32 \<le> b \<Longrightarrow> (word_of_nat (v mod 2 ^ b) :: u32) = word_of_nat v"
proof (rule word_eqI_unat)
  assume "32 \<le> b"
  then have "(2 :: nat) ^ 32 dvd 2 ^ b" by (rule le_imp_power_dvd)
  then show "unat (word_of_nat (v mod 2 ^ b) :: u32) = unat (word_of_nat v :: u32)"
    by (simp add: unat_of_nat mod_mod_cancel)
qed

lemma varint32_low:
  assumes "128 \<le> v" "v < 2 ^ 35"
  shows "\<exists>b byte. varint32_loop 7 (word_of_nat (v mod 2 ^ 7)) (vb_buf (v div 2 ^ 7) m t :: 's pb_istream) =
      (Some (word_of_nat v, b, byte), in_buf m t) \<and> (b = 35 \<and> byte AND 0x70 \<noteq> 0 \<longleftrightarrow> 2 ^ 32 \<le> v)"
proof -
  note s = varint32_step [where 's = 's and v = v and m = m and t = t and b = 7, simplified]
    varint32_step [where 's = 's and v = v and m = m and t = t and b = 14, simplified]
    varint32_step [where 's = 's and v = v and m = m and t = t and b = 21, simplified]
    varint32_step [where 's = 's and v = v and m = m and t = t and b = 28, simplified]
  consider "v < 2 ^ 14" | "2 ^ 14 \<le> v" "v < 2 ^ 21" | "2 ^ 21 \<le> v" "v < 2 ^ 28" | "2 ^ 28 \<le> v"
    by linarith
  then show ?thesis
  proof cases
    case 1
    then have "v div 2 ^ 7 < 128" by (simp add: less_mult_imp_div_less)
    with s(1) 1 show ?thesis by simp
  next
    case 2
    then have "\<not> v div 2 ^ 7 < 128" "v div 2 ^ 14 < 128"
      by (simp_all add: less_mult_imp_div_less not_less less_eq_div_iff_mult_less_eq)
    with s(1,2) 2 show ?thesis by simp
  next
    case 3
    then have "\<not> v div 2 ^ 7 < 128" "\<not> v div 2 ^ 14 < 128" "v div 2 ^ 21 < 128"
      by (simp_all add: less_mult_imp_div_less not_less less_eq_div_iff_mult_less_eq)
    with s(1-3) 3 show ?thesis by simp
  next
    case 4
    then have c: "\<not> v div 2 ^ 7 < 128" "\<not> v div 2 ^ 14 < 128" "\<not> v div 2 ^ 21 < 128" "v div 2 ^ 28 < 128"
      using assms(2) by (simp_all add: less_mult_imp_div_less not_less less_eq_div_iff_mult_less_eq)
    have "(word_of_nat (v div 2 ^ 28) :: u8) AND 0x70 \<noteq> 0 \<longleftrightarrow> 2 ^ 32 \<le> v"
      unfolding fifth_byte [OF c(4)] by (simp add: not_less less_eq_div_iff_mult_less_eq)
    with s c word32_mod [of 35 v] show ?thesis by simp
  qed
qed

lemma varint32_at_35:
  assumes "2 ^ 35 \<le> v"
  shows "varint32_loop 7 (word_of_nat (v mod 2 ^ 7)) (vb_buf (v div 2 ^ 7) m t :: 's pb_istream) =
    varint32_loop 35 (word_of_nat v) (vb_buf (v div 2 ^ 35) m t)"
proof -
  note s = varint32_step [where 's = 's and v = v and m = m and t = t and b = 7, simplified]
    varint32_step [where 's = 's and v = v and m = m and t = t and b = 14, simplified]
    varint32_step [where 's = 's and v = v and m = m and t = t and b = 21, simplified]
    varint32_step [where 's = 's and v = v and m = m and t = t and b = 28, simplified]
  have "\<not> v div 2 ^ 7 < 128" "\<not> v div 2 ^ 14 < 128" "\<not> v div 2 ^ 21 < 128" "\<not> v div 2 ^ 28 < 128"
    using assms by (simp_all add: not_less less_eq_div_iff_mult_less_eq)
  with s word32_mod [of 35 v] show ?thesis by simp
qed

text \<open>The end of the ten-byte varint of a negative 32-bit integer.\<close>

lemma varint32_sign:
  assumes "drop_bit 31 res \<noteq> 0"
  shows "varint32_loop 35 res (vb_buf 536870911 m t :: 's pb_istream) = (Some (res, 70, 1), in_buf m t)"
proof -
  have "varint_bytes 536870911 = [0xff, 0xff, 0xff, 0xff, 1]"
    by (simp add: varint_bytes_big varint_bytes_small)
  then show ?thesis using assms by (simp add: varint32_loop.simps Let_def)
qed

text \<open>C22: On the shortest encoding of a number \<open>pb_decode_varint32\<close> gives the numbers below \<open>2 ^ 32\<close>, and of the
64-bit encodings of negative 32-bit integers their 32 bits; numbers from \<open>2 ^ 32\<close> up to \<open>2 ^ 63\<close> are refused.\<close>

theorem pb_decode_varint32_canonical:
  shows "(v < 2 ^ 32 \<longrightarrow> pb_decode_varint32 (vb_buf v m t :: 's pb_istream) = (Some (word_of_nat v), in_buf m t)) \<and>
    (2 ^ 32 \<le> v \<and> v < 2 ^ 63 \<longrightarrow> fst (pb_decode_varint32 (vb_buf v m t :: 's pb_istream)) = None) \<and>
    (2 ^ 64 - 2 ^ 31 \<le> v \<and> v < 2 ^ 64 \<longrightarrow>
      pb_decode_varint32 (vb_buf v m t :: 's pb_istream) = (Some (word_of_nat v), in_buf m t))"
proof (intro conjI impI)
  assume v: "v < 2 ^ 32"
  show "pb_decode_varint32 (vb_buf v m t :: 's pb_istream) = (Some (word_of_nat v), in_buf m t)"
  proof (cases "v < 128")
    case False
    with v varint32_low [of v m t, where 's = 's] show ?thesis
      unfolding pb_decode_varint32_bytes by auto
  qed (simp add: pb_decode_varint32_bytes)
next
  assume v: "2 ^ 32 \<le> v \<and> v < 2 ^ 63"
  show "fst (pb_decode_varint32 (vb_buf v m t :: 's pb_istream)) = None"
  proof (cases "v < 2 ^ 35")
    case True
    with v varint32_low [of v m t, where 's = 's] show ?thesis
      unfolding pb_decode_varint32_bytes by (auto simp: is_error_def)
  next
    case False
    then have "0 < v div 2 ^ 35" by (simp add: div_greater_zero_iff)
    moreover have "v div 2 ^ 35 * 2 ^ 35 < 2 ^ 63" by (rule le_less_trans [OF div_times_less_eq_dividend]) (use v in simp)
    ultimately have "fst (varint32_loop 35 (word_of_nat v) (vb_buf (v div 2 ^ 35) m t :: 's pb_istream)) = None"
      by (intro varint32_high_error) simp_all
    with False varint32_at_35 [of v m t, where 's = 's] v show ?thesis
      unfolding pb_decode_varint32_bytes by (auto split: prod.splits option.splits)
  qed
next
  assume v: "2 ^ 64 - 2 ^ 31 \<le> v \<and> v < 2 ^ 64"
  have w: "v div 2 ^ 35 = 536870911" using v by (intro div_nat_eqI) simp_all
  have "unat (word_of_nat v :: u32) div 2 ^ 31 \<noteq> 0"
  proof -
    have "v mod 2 ^ 32 = v - (2 ^ 64 - 2 ^ 32)"
    proof -
      have "v = (v - (2 ^ 64 - 2 ^ 32)) + (2 ^ 32 - 1) * 2 ^ 32" "v - (2 ^ 64 - 2 ^ 32) < 2 ^ 32"
      proof -
        have "18446744071562067968 \<le> v" "v < 18446744073709551616" using v by simp_all
        then show "v = (v - (2 ^ 64 - 2 ^ 32)) + (2 ^ 32 - 1) * 2 ^ 32" "v - (2 ^ 64 - 2 ^ 32) < 2 ^ 32"
          by simp_all
      qed
      then show ?thesis by (metis mod_less mod_mult_self1)
    qed
    then have "2 ^ 31 \<le> unat (word_of_nat v :: u32)" using v by (simp add: unat_of_nat le_diff_conv2)
    then show ?thesis by (simp only: div_eq_0_iff not_less) simp
  qed
  then have "drop_bit 31 (word_of_nat v :: u32) \<noteq> 0" by (metis unat_drop_bit unsigned_0)
  from varint32_sign [OF this, of m t, where 's = 's] varint32_at_35 [of v m t, where 's = 's] v w
  show "pb_decode_varint32 (vb_buf v m t :: 's pb_istream) = (Some (word_of_nat v), in_buf m t)"
    unfolding pb_decode_varint32_bytes by simp
qed

theorem pb_decode_varint32_canonical_witness:
  "pb_decode_varint32 (in_buf 3 [0x96, 1, 7] :: unit pb_istream) = (Some 150, in_buf 1 [7]) \<and>
   fst (pb_decode_varint32 (vb_buf (2 ^ 32) 0 [] :: unit pb_istream)) = None"
proof -
  have "varint_bytes 150 = [0x96, 1]" by (simp add: varint_bytes_big varint_bytes_small)
  with pb_decode_varint32_canonical [of 150 1 "[7]", where 's = unit]
    pb_decode_varint32_canonical [of "2 ^ 32" 0 "[]", where 's = unit]
  show ?thesis by (simp add: numeral_3_eq_3)
qed

lemma varint32_pad: "varint32_loop b res (in_buf (Suc n) (0x80 # bs) :: 's pb_istream) = varint32_loop ((b + 7) mod 256) res (in_buf n bs)"
  by (rule trans [OF varint32_loop.simps]) (simp add: Let_def)

lemma varint32_pads:
  "varint32_loop b res (in_buf (n + k) (replicate n 0x80 @ bs) :: 's pb_istream) = varint32_loop ((b + 7 * n) mod 256) res (in_buf k bs)" if "b < 256"
  using that
proof (induction n arbitrary: b)
  case (Suc n)
  have "varint32_loop b res (in_buf (Suc n + k) (replicate (Suc n) 0x80 @ bs) :: 's pb_istream) =
      varint32_loop ((b + 7) mod 256) res (in_buf (n + k) (replicate n 0x80 @ bs))"
    by (simp add: varint32_pad)
  also have "\<dots> = varint32_loop (((b + 7) mod 256 + 7 * n) mod 256) res (in_buf k bs)"
    by (rule Suc.IH) simp
  also have "((b + 7) mod 256 + 7 * n) mod 256 = (b + 7 * Suc n) mod 256"
    by (simp add: mod_simps add.assoc)
  finally show ?case .
qed simp

lemma varint32_zero:
  "varint32_loop b res (in_buf (Suc m) (0 # t) :: 's pb_istream) = (Some (res, (b + 7) mod 256, 0), in_buf m t)"
  by (rule trans [OF varint32_loop.simps]) (simp add: Let_def)

text \<open>So many digits of a number, each with the continuation bit.\<close>

fun varint_more :: "nat \<Rightarrow> nat \<Rightarrow> u8 list" where
  "varint_more 0 v = []"
| "varint_more (Suc n) v = word_of_nat (v mod 128 + 128) # varint_more n (v div 128)"

lemma length_varint_more [simp]: "length (varint_more n v) = n"
  by (induction n v rule: varint_more.induct) simp_all

lemma varint_more_0: "varint_more n 0 = replicate n 0x80"
  by (induction n) simp_all

lemma varint_scan_more: "v < 128 ^ n \<Longrightarrow> n < k \<Longrightarrow> varint_scan k (varint_more n v @ 0 # t) = Some (v, t)"
proof (induction n v arbitrary: k rule: varint_more.induct)
  case (1 v)
  then show ?case by (cases k) simp_all
next
  case (2 n v)
  obtain j where k: "k = Suc j" using 2(3) by (cases k) auto
  have x: "unat (word_of_nat (v mod 128 + 128) :: u8) = v mod 128 + 128" by (rule unat_small_u8) simp
  have "varint_scan j (varint_more n (v div 128) @ 0 # t) = Some (v div 128, t)"
    using 2(2,3) k by (intro 2(1)) (simp_all add: less_mult_imp_div_less mult.commute)
  then show ?case by (simp add: k x del: of_nat_add)
qed

lemma varint32_more:
  assumes "b \<le> 28"
  shows "varint32_loop b (word_of_nat (v mod 2 ^ b)) (in_buf (Suc k) (varint_more (Suc n) (v div 2 ^ b) @ t) :: 's pb_istream) =
    varint32_loop (b + 7) (word_of_nat (v mod 2 ^ (b + 7))) (in_buf k (varint_more n (v div 2 ^ (b + 7)) @ t))"
proof -
  let ?x = "word_of_nat (v div 2 ^ b mod 128 + 128) :: u8"
  have x: "unat ?x = v div 2 ^ b mod 128 + 128" by (rule unat_small_u8) simp
  have cont: "?x AND 0x80 \<noteq> 0" using x by (simp add: cont_bit)
  have lt: "v mod 2 ^ b < 2 ^ b" by simp
  have res: "unat (word_of_nat (v mod 2 ^ b) :: u32) < 2 ^ b"
    unfolding unat_of_nat by (rule le_less_trans [OF mod_less_eq_dividend lt])
  have "v mod 2 ^ (b + 7) = v mod 2 ^ b + v div 2 ^ b mod 128 * 2 ^ b"
    using mod_mult2_eq [of v "2 ^ b" 128] by (simp add: power_add mult.commute)
  then have add: "word_of_nat (v mod 2 ^ b) OR push_bit b (ucast (?x AND 0x7f)) = (word_of_nat (v mod 2 ^ (b + 7)) :: u32)"
    unfolding or_push_low [OF res] ucast_7f x by simp
  have "v div 2 ^ b div 128 = v div 2 ^ (b + 7)" by (simp add: power_add div_mult2_eq)
  then show ?thesis
    using assms cont add
    by (subst varint32_loop.simps) (simp only: varint_more.simps append_Cons pb_readbyte_buf Let_def prod.case option.case, simp)
qed

lemma pb_decode_varint32_more:
  assumes "v < 2 ^ 35"
  shows "pb_decode_varint32 (in_buf (n + 6 + m) (varint_more (n + 5) v @ 0 # t) :: 's pb_istream) = (Some (word_of_nat v), in_buf m t)"
proof -
  have s7: "varint32_loop 7 (word_of_nat (v mod 2 ^ 7)) (in_buf (Suc k) (varint_more (Suc j) (v div 2 ^ 7) @ t) :: 's pb_istream) =
      varint32_loop 14 (word_of_nat (v mod 2 ^ 14)) (in_buf k (varint_more j (v div 2 ^ 14) @ t))" for k j t
    using varint32_more [of 7 v k j t, where 's = 's] by (simp del: varint_more.simps)
  have s14: "varint32_loop 14 (word_of_nat (v mod 2 ^ 14)) (in_buf (Suc k) (varint_more (Suc j) (v div 2 ^ 14) @ t) :: 's pb_istream) =
      varint32_loop 21 (word_of_nat (v mod 2 ^ 21)) (in_buf k (varint_more j (v div 2 ^ 21) @ t))" for k j t
    using varint32_more [of 14 v k j t, where 's = 's] by (simp del: varint_more.simps)
  have s21: "varint32_loop 21 (word_of_nat (v mod 2 ^ 21)) (in_buf (Suc k) (varint_more (Suc j) (v div 2 ^ 21) @ t) :: 's pb_istream) =
      varint32_loop 28 (word_of_nat (v mod 2 ^ 28)) (in_buf k (varint_more j (v div 2 ^ 28) @ t))" for k j t
    using varint32_more [of 21 v k j t, where 's = 's] by (simp del: varint_more.simps)
  have s28: "varint32_loop 28 (word_of_nat (v mod 2 ^ 28)) (in_buf (Suc k) (varint_more (Suc j) (v div 2 ^ 28) @ t) :: 's pb_istream) =
      varint32_loop 35 (word_of_nat (v mod 2 ^ 35)) (in_buf k (varint_more j (v div 2 ^ 35) @ t))" for k j t
    using varint32_more [of 28 v k j t, where 's = 's] by (simp del: varint_more.simps)
  let ?x = "word_of_nat (v mod 128 + 128) :: u8"
  have x: "unat ?x = v mod 128 + 128" by (rule unat_small_u8) simp
  then have x': "?x AND 0x80 \<noteq> 0" "ucast (?x AND 0x7f) = (word_of_nat (v mod 128) :: u32)"
    by (simp_all add: cont_bit ucast_7f x)
  have five: "n + 6 + m = Suc (Suc (Suc (Suc (Suc (n + Suc m)))))" "n + 5 = Suc (Suc (Suc (Suc (Suc n))))" by simp_all
  have "varint32_loop 7 (word_of_nat (v mod 2 ^ 7)) (in_buf (Suc (Suc (Suc (Suc (n + Suc m))))) (varint_more (Suc (Suc (Suc (Suc n)))) (v div 2 ^ 7) @ 0 # t) :: 's pb_istream) =
      varint32_loop 35 (word_of_nat (v mod 2 ^ 35)) (in_buf (n + Suc m) (varint_more n (v div 2 ^ 35) @ 0 # t))"
    by (simp only: s7 s14 s21 s28)
  also have "v div 2 ^ 35 = 0" using assms by simp
  also have "varint32_loop 35 (word_of_nat (v mod 2 ^ 35)) (in_buf (n + Suc m) (varint_more n 0 @ 0 # t) :: 's pb_istream) =
      (Some (word_of_nat (v mod 2 ^ 35), ((35 + 7 * n) mod 256 + 7) mod 256, 0), in_buf m t)"
    unfolding varint_more_0 by (subst varint32_pads, simp, rule varint32_zero)
  finally show ?thesis
    using x' word32_mod [of 35 v] unfolding five pb_decode_varint32_def pb_decode_varint32_eof_def varint_more.simps append_Cons pb_readbyte_buf
    by simp
qed

lemma pb_decode_varint32_pads:
  "pb_decode_varint32 (in_buf (Suc n + k) (replicate (Suc n) 0x80 @ bs) :: 's pb_istream) =
    (case varint32_loop ((7 * Suc n) mod 256) 0 (in_buf k bs) of
       (None, st) \<Rightarrow> (None, st)
     | (Some (result, bitpos, byte), st) \<Rightarrow>
         if bitpos = 35 \<and> byte AND 0x70 \<noteq> 0 then is_error ''varint overflow'' st else (Some result, st))"
proof -
  have p: "varint32_loop 7 0 (in_buf (n + k) (replicate n 0x80 @ bs) :: 's pb_istream) =
      varint32_loop ((7 * Suc n) mod 256) 0 (in_buf k bs)"
    by (subst varint32_pads) simp_all
  obtain r st where l: "varint32_loop ((7 * Suc n) mod 256) 0 (in_buf k bs :: 's pb_istream) = (r, st)"
    by (metis surj_pair)
  show ?thesis
    using p unfolding l by (cases r) (auto simp: pb_decode_varint32_def pb_decode_varint32_eof_def is_error_def)
qed

text \<open>C32: Bits that do not fit are lost without an error when the encoding is longer than five bytes: every number below
\<open>2 ^ 35\<close>, padded with any number of zero digits, is read as its low 32 bits, and for up to ten bytes it stands for the
number itself. Padding is not limited: after \<open>n\<close> padding bytes the position, of 8 bits, is \<open>7 * n mod 256\<close>, and a last
byte is added in there.\<close>

theorem pb_decode_varint32_overlong:
  "(v < 2 ^ 35 \<longrightarrow> pb_decode_varint32 (in_buf (n + 6 + m) (varint_more (n + 5) v @ 0 # t) :: 's pb_istream) =
      (Some (word_of_nat v), in_buf m t)) \<and>
   (v < 2 ^ 35 \<and> n \<le> 4 \<longrightarrow> varint_scan 10 (varint_more (n + 5) v @ 0 # t) = Some (v, t)) \<and>
   (0 < n \<and> c < 128 \<and> 7 * n mod 256 \<le> 25 \<longrightarrow>
      pb_decode_varint32 (in_buf (n + 1 + m) (replicate n 0x80 @ word_of_nat c # t) :: 's pb_istream) =
        (Some (word_of_nat (c * 2 ^ (7 * n mod 256))), in_buf m t))"
proof (intro conjI impI)
  show "pb_decode_varint32 (in_buf (n + 6 + m) (varint_more (n + 5) v @ 0 # t) :: 's pb_istream) = (Some (word_of_nat v), in_buf m t)"
    if "v < 2 ^ 35" using that by (rule pb_decode_varint32_more)
  show "varint_scan 10 (varint_more (n + 5) v @ 0 # t) = Some (v, t)" if v: "v < 2 ^ 35 \<and> n \<le> 4"
  proof (rule varint_scan_more)
    have "(2 :: nat) ^ 35 = 128 ^ 5" by simp
    also have "\<dots> \<le> 128 ^ (n + 5)" by (intro power_increasing) simp_all
    finally show "v < 128 ^ (n + 5)" using v by linarith
  qed (use v in simp)
  assume n: "0 < n \<and> c < 128 \<and> 7 * n mod 256 \<le> 25"
  then obtain k where k: "n = Suc k" by (cases n) auto
  have c: "unat (word_of_nat c :: u8) = c" using n by (simp add: unat_small_u8)
  then have c': "(word_of_nat c :: u8) AND 0x80 = 0" "ucast (word_of_nat c AND 0x7f :: u8) = (word_of_nat c :: u32)"
    using n by (simp_all add: cont_bit ucast_7f)
  have "(7 * n mod 256 + 7) mod 256 = 7 * n mod 256 + 7" "7 * n mod 256 + 7 \<noteq> 35" using n by simp_all
  then have "varint32_loop (7 * n mod 256) 0 (in_buf (Suc m) (word_of_nat c # t) :: 's pb_istream) =
      (Some (word_of_nat (c * 2 ^ (7 * n mod 256)), 7 * n mod 256 + 7, word_of_nat c), in_buf m t)"
    using n c' by (subst varint32_loop.simps) (simp add: Let_def push_bit_eq_mult)
  then show "pb_decode_varint32 (in_buf (n + 1 + m) (replicate n 0x80 @ word_of_nat c # t) :: 's pb_istream) =
        (Some (word_of_nat (c * 2 ^ (7 * n mod 256))), in_buf m t)"
    using pb_decode_varint32_pads [of k "Suc m" "word_of_nat c # t", where 's = 's] n k by simp
qed

theorem pb_decode_varint32_overlong_witness:
  "pb_decode_varint32 (in_buf 6 [0x80, 0x80, 0x80, 0x80, 0x90, 0] :: unit pb_istream) = (Some 0, in_buf 0 []) \<and>
   varint_scan 10 [0x80, 0x80, 0x80, 0x80, 0x90, 0] = Some (2 ^ 32, []) \<and>
   pb_decode_varint32 (in_buf 38 (replicate 37 0x80 @ [1]) :: unit pb_istream) = (Some 8, in_buf 0 [])"
proof -
  note over = pb_decode_varint32_overlong [where 's = unit]
  have five: "5 = Suc (Suc (Suc (Suc (Suc 0))))" by simp
  have bytes: "varint_more 5 (2 ^ 32) @ [0] = [0x80, 0x80, 0x80, 0x80, 0x90, 0]" unfolding five by simp
  have "(word_of_nat (2 ^ 32) :: u32) = 0" "(2 :: nat) ^ 32 < 2 ^ 35" "(0 :: nat) \<le> 4" "0 + 6 + 0 = (6 :: nat)" "0 + 5 = (5 :: nat)" by simp_all
  with over [of "2 ^ 32" 0 0 "[]"]
  have "pb_decode_varint32 (in_buf 6 (varint_more 5 (2 ^ 32) @ [0]) :: unit pb_istream) = (Some 0, in_buf 0 [])"
    "varint_scan 10 (varint_more 5 (2 ^ 32) @ [0]) = Some (2 ^ 32, [])" by metis+
  moreover have "0 < (37 :: nat)" "1 < (128 :: nat)" "7 * 37 mod 256 \<le> (25 :: nat)" "37 + 1 + 0 = (38 :: nat)"
    "(word_of_nat (1 * 2 ^ (7 * 37 mod 256)) :: u32) = 8" "word_of_nat 1 = (1 :: u8)" by simp_all
  with over [of 0 37 0 "[]" 1]
  have "pb_decode_varint32 (in_buf 38 (replicate 37 0x80 @ [1]) :: unit pb_istream) = (Some 8, in_buf 0 [])" by metis
  ultimately show ?thesis unfolding bytes by blast
qed

end
