(* ===== verification/PbCodec.thy ===== *)
theory PbCodec
  imports PbWire
begin

text \<open>
  The contract between a writer of \<^verbatim>\<open>nanopb/pb_encode.c\<close> and the reader of \<^verbatim>\<open>nanopb/pb_decode.c\<close> that goes
  with it: the bytes a value is written as, on a buffer and on a stream that only counts, and that the reader
  takes exactly those off the front of what follows.
\<close>

section \<open>What a writer writes\<close>

text \<open>
  A buffer stream that holds \<open>xs\<close>, has room for \<open>n\<close> bytes and has counted \<open>w\<close>; the streams of submessages start
  their count over. And a stream that only counts.
\<close>

definition out_at :: "nat \<Rightarrow> nat \<Rightarrow> u8 list \<Rightarrow> u8 list pb_ostream" where
  "out_at n w xs = \<lparr>os_callback = Some buf_write, os_state = xs, os_max_size = n, os_bytes_written = w, os_errmsg = None\<rparr>"

definition sizing :: "nat \<Rightarrow> 's \<Rightarrow> 's pb_ostream" where
  "sizing w s = \<lparr>os_callback = None, os_state = s, os_max_size = 0, os_bytes_written = w, os_errmsg = None\<rparr>"

lemma stream_starts:
  "pb_ostream_from_buffer n = out_at n 0 []" "PB_OSTREAM_SIZING s = sizing 0 s" "out_buf n xs = out_at n (length xs) xs"
  by (simp_all add: pb_ostream_from_buffer_def out_at_def PB_OSTREAM_SIZING_def sizing_def out_buf_def)

lemma out_at_sel [simp]:
  "os_callback (out_at n w xs) = Some buf_write" "os_state (out_at n w xs) = xs" "os_max_size (out_at n w xs) = n"
  "os_bytes_written (out_at n w xs) = w" "os_errmsg (out_at n w xs) = None"
  by (simp_all add: out_at_def)

lemma sizing_sel [simp]:
  "os_callback (sizing w s) = None" "os_state (sizing w s) = s" "os_bytes_written (sizing w s) = w"
  "os_errmsg (sizing w s) = None"
  by (simp_all add: sizing_def)

text \<open>\<open>encodes f bs\<close>: the writer \<open>f\<close> writes \<open>bs\<close> where there is room, fails where there is not, and is counted.\<close>

definition encodes :: "(u8 list pb_ostream \<Rightarrow> bool \<times> u8 list pb_ostream) \<Rightarrow> u8 list \<Rightarrow> bool" where
  "encodes f bs \<longleftrightarrow>
     (\<forall>w. w + length bs < 2 ^ 64 \<longrightarrow>
       (\<forall>n xs. w \<le> n \<longrightarrow> n < 2 ^ 64 \<longrightarrow>
         (if w + length bs \<le> n then f (out_at n w xs) = (True, out_at n (w + length bs) (xs @ bs))
          else \<not> fst (f (out_at n w xs)))) \<and>
       (\<forall>s. f (sizing w s) = (True, sizing (w + length bs) s)))"

lemma encodesI:
  assumes "\<And>w n xs. w + length bs \<le> n \<Longrightarrow> n < 2 ^ 64 \<Longrightarrow> f (out_at n w xs) = (True, out_at n (w + length bs) (xs @ bs))"
    and "\<And>w n xs. w \<le> n \<Longrightarrow> n < w + length bs \<Longrightarrow> w + length bs < 2 ^ 64 \<Longrightarrow> \<not> fst (f (out_at n w xs))"
    and "\<And>w s. w + length bs < 2 ^ 64 \<Longrightarrow> f (sizing w s) = (True, sizing (w + length bs) s)"
  shows "encodes f bs"
  unfolding encodes_def using assms by (simp add: not_le)

lemma encodesD:
  assumes "encodes f bs"
  shows "w + length bs \<le> n \<Longrightarrow> n < 2 ^ 64 \<Longrightarrow> f (out_at n w xs) = (True, out_at n (w + length bs) (xs @ bs))"
    and "w \<le> n \<Longrightarrow> n < w + length bs \<Longrightarrow> w + length bs < 2 ^ 64 \<Longrightarrow> \<not> fst (f (out_at n w xs))"
    and "w + length bs < 2 ^ 64 \<Longrightarrow> f (sizing w s) = (True, sizing (w + length bs) s)"
proof -
  assume l: "w + length bs \<le> n" and n: "n < 2 ^ 64"
  have "w + length bs < 2 ^ 64" "w \<le> n" using l n by linarith+
  then show "f (out_at n w xs) = (True, out_at n (w + length bs) (xs @ bs))"
    using assms l n unfolding encodes_def by fastforce
next
  assume l: "w \<le> n" "n < w + length bs" "w + length bs < 2 ^ 64"
  then have "n < 2 ^ 64" by linarith
  with l show "\<not> fst (f (out_at n w xs))"
    using assms unfolding encodes_def by (metis not_le)
next
  assume "w + length bs < 2 ^ 64"
  then show "f (sizing w s) = (True, sizing (w + length bs) s)"
    using assms unfolding encodes_def by blast
qed

named_theorems encodes_intros \<open>what the writers write\<close>

lemma encodes_write [encodes_intros]: "encodes (\<lambda>st. pb_write st bs) bs"
proof (rule encodesI)
  fix w n xs assume "w + length bs \<le> n" "n < 2 ^ 64"
  then show "pb_write (out_at n w xs) bs = (True, out_at n (w + length bs) (xs @ bs))"
    by (simp add: pb_write_def out_at_def buf_write_def Let_def)
next
  fix w n and xs :: "u8 list" assume "w \<le> n" "n < w + length bs" "w + length bs < 2 ^ 64"
  then show "\<not> fst (pb_write (out_at n w xs) bs)"
    by (auto simp add: pb_write_def out_at_def os_error_def Let_def)
next
  fix w and s :: "u8 list" assume "w + length bs < 2 ^ 64"
  then show "pb_write (sizing w s) bs = (True, sizing (w + length bs) s)"
    by (simp add: pb_write_def sizing_def Let_def)
qed

text \<open>One writer after the other, as all the writers go on when the one before has returned true.\<close>

lemma encodes_then [encodes_intros]:
  assumes f: "encodes f bs" and g: "encodes g cs"
  shows "encodes (\<lambda>st. case f st of (False, st') \<Rightarrow> (False, st') | (True, st') \<Rightarrow> g st') (bs @ cs)"
proof (rule encodesI)
  fix w n xs assume n: "w + length (bs @ cs) \<le> n" "n < 2 ^ 64"
  then show "(case f (out_at n w xs) of (False, st') \<Rightarrow> (False, st') | (True, st') \<Rightarrow> g st') =
      (True, out_at n (w + length (bs @ cs)) (xs @ bs @ cs))"
    using encodesD(1) [OF f, of w n xs] encodesD(1) [OF g, of "w + length bs" n "xs @ bs"] by (simp add: add.assoc)
next
  fix w n xs assume n: "w \<le> n" "n < w + length (bs @ cs)" "w + length (bs @ cs) < 2 ^ 64"
  show "\<not> fst (case f (out_at n w xs) of (False, st') \<Rightarrow> (False, st') | (True, st') \<Rightarrow> g st')"
  proof (cases "w + length bs \<le> n")
    case True
    then show ?thesis
      using n encodesD(1) [OF f, of w n xs] encodesD(2) [OF g, of "w + length bs" n "xs @ bs"] by simp
  next
    case False
    then show ?thesis
      using n encodesD(2) [OF f, of w n xs] by (auto split: prod.split bool.split)
  qed
next
  fix w s assume "w + length (bs @ cs) < 2 ^ 64"
  then show "(case f (sizing w s) of (False, st') \<Rightarrow> (False, st') | (True, st') \<Rightarrow> g st') =
      (True, sizing (w + length (bs @ cs)) s)"
    using encodesD(3) [OF f, of w s] encodesD(3) [OF g, of "w + length bs" s] by (simp add: add.assoc)
qed

lemma encodes_varint [encodes_intros]: "encodes (\<lambda>st. pb_encode_varint st v) (varint_bytes (unat v))"
  unfolding pb_encode_varint_eq by (rule encodes_write)

lemma encodes_string [encodes_intros]:
  assumes "length bs < 2 ^ 64"
  shows "encodes (\<lambda>st. pb_encode_string st bs) (varint_bytes (length bs) @ bs)"
proof -
  have "unat (word_of_nat (length bs) :: u64) = length bs" using assms by (simp add: unat_of_nat)
  then show ?thesis
    unfolding pb_encode_string_def
    using encodes_then [OF encodes_varint [of "word_of_nat (length bs)"] encodes_write [of bs]] by simp
qed

text \<open>A submessage is its length and its bytes, which are written in a second run of the same writer.\<close>

lemma submessage_bytes_eq: "length bs < 2 ^ 64 \<Longrightarrow> unat (word_of_nat (length bs) :: u64) = length bs"
  by (simp add: unat_of_nat)

lemma encodes_submessage [encodes_intros]:
  assumes f: "encodes f bs"
  shows "encodes (pb_encode_submessage f) (varint_bytes (length bs) @ bs)"
proof (rule encodesI)
  fix w n xs assume n: "w + length (varint_bytes (length bs) @ bs) \<le> n" "n < 2 ^ 64"
  let ?v = "varint_bytes (length bs)"
  have l: "length bs < 2 ^ 64" "w + length ?v \<le> n" using n by simp_all
  have s: "f (sizing 0 xs) = (True, sizing (length bs) xs)" using encodesD(3) [OF f, of 0 xs] l(1) by simp
  have v: "pb_encode_varint (out_at n w xs) (word_of_nat (length bs)) = (True, out_at n (w + length ?v) (xs @ ?v))"
    using encodesD(1) [OF encodes_varint [of "word_of_nat (length bs)"], of w n xs] l n(2)
    by (simp add: submessage_bytes_eq)
  have b: "f (out_at (length bs) 0 (xs @ ?v)) = (True, out_at (length bs) (length bs) ((xs @ ?v) @ bs))"
    using encodesD(1) [OF f, of 0 "length bs" "xs @ ?v"] l(1) by simp
  have st: "(out_at n (w + length ?v) (xs @ ?v))\<lparr>os_max_size := length bs, os_bytes_written := 0, os_errmsg := None\<rparr> =
      out_at (length bs) 0 (xs @ ?v)" by (simp add: out_at_def)
  show "pb_encode_submessage f (out_at n w xs) = (True, out_at n (w + length (?v @ bs)) (xs @ ?v @ bs))"
    unfolding pb_encode_submessage_def stream_starts
    using n s v b by (simp add: st) (simp add: out_at_def add.assoc Let_def)
next
  fix w n xs
  let ?v = "varint_bytes (length bs)"
  assume n: "w \<le> n" "n < w + length (?v @ bs)" "w + length (?v @ bs) < 2 ^ 64"
  have l: "length bs < 2 ^ 64" "w + length ?v < 2 ^ 64" "n < 2 ^ 64" using n by simp_all
  have s: "f (sizing 0 xs) = (True, sizing (length bs) xs)" using encodesD(3) [OF f, of 0 xs] l(1) by simp
  note V = encodes_varint [of "word_of_nat (length bs)", unfolded submessage_bytes_eq [OF l(1)]]
  show "\<not> fst (pb_encode_submessage f (out_at n w xs))"
  proof (cases "w + length ?v \<le> n")
    case True
    have v: "pb_encode_varint (out_at n w xs) (word_of_nat (length bs)) = (True, out_at n (w + length ?v) (xs @ ?v))"
      by (rule encodesD(1) [OF V True l(3)])
    show ?thesis
      unfolding pb_encode_submessage_def stream_starts using n s v by (simp add: os_error_def Let_def)
  next
    case False
    then have "\<not> fst (pb_encode_varint (out_at n w xs) (word_of_nat (length bs)))"
      using encodesD(2) [OF V, of w n xs] n l by simp
    then show ?thesis
      unfolding pb_encode_submessage_def stream_starts using s
      by (auto simp: Let_def split: prod.split bool.split)
  qed
next
  fix w s
  let ?v = "varint_bytes (length bs)"
  assume w: "w + length (?v @ bs) < 2 ^ 64"
  have l: "length bs < 2 ^ 64" using w by simp
  have f0: "f (sizing 0 s) = (True, sizing (length bs) s)" using encodesD(3) [OF f, of 0 s] l by simp
  have v: "pb_encode_varint (sizing w s) (word_of_nat (length bs)) = (True, sizing (w + length ?v) s)"
    using encodesD(3) [OF encodes_varint [of "word_of_nat (length bs)"], of w s] w l by (simp add: submessage_bytes_eq)
  show "pb_encode_submessage f (sizing w s) = (True, sizing (w + length (?v @ bs)) s)"
    unfolding pb_encode_submessage_def stream_starts using f0 v w by (simp add: add.assoc) (simp add: sizing_def Let_def)
qed

section \<open>What a reader takes\<close>

definition decodes :: "('s pb_istream \<Rightarrow> 'v option \<times> 's pb_istream) \<Rightarrow> u8 list \<Rightarrow> 'v \<Rightarrow> bool" where
  "decodes d bs v \<longleftrightarrow> (\<forall>m t. m \<le> length t \<longrightarrow> d (in_buf (length bs + m) (bs @ t)) = (Some v, in_buf m t))"

lemma decodesD: "decodes d bs v \<Longrightarrow> m \<le> length t \<Longrightarrow> d (in_buf (length bs + m) (bs @ t)) = (Some v, in_buf m t)"
  by (simp add: decodes_def)

lemma decodes_varint:
  assumes "v < 2 ^ 64"
  shows "decodes (pb_decode_varint :: 's pb_istream \<Rightarrow> _) (varint_bytes v) (word_of_nat v)"
  unfolding decodes_def using pb_decode_varint_bytes [OF _ assms, where 's = 's] by blast

lemma decodes_varint32:
  "v < 2 ^ 32 \<Longrightarrow> decodes (pb_decode_varint32 :: 's pb_istream \<Rightarrow> _) (varint_bytes v) (word_of_nat v)"
  unfolding decodes_def using pb_decode_varint32_canonical [of v, where 's = 's] by blast

lemma decodes_read_buf: "decodes (pb_read_buf (length bs) :: 's pb_istream \<Rightarrow> _) bs bs"
  unfolding decodes_def using pb_read_buf_in [of bs, where 's = 's] by simp

lemma decodes_map:
  assumes "decodes d bs v" "\<And>st. d' st = (case d st of (None, st') \<Rightarrow> (None, st') | (Some x, st') \<Rightarrow> (Some (h x), st'))"
  shows "decodes d' bs (h v)"
  using assms by (simp add: decodes_def)

text \<open>Values of a fixed width, the least significant byte first.\<close>

lemma length_le_bytes [simp]: "length (le_bytes n v) = n"
  by (simp add: le_bytes_def)

lemma bit_le_fold:
  "bit (foldr (\<lambda>(i, b) v. push_bit (8 * i) (ucast b) OR v) ps (0 :: 'a::len word)) k \<longleftrightarrow>
     k < LENGTH('a) \<and> (\<exists>(i, b) \<in> set ps. 8 * i \<le> k \<and> bit (b :: u8) (k - 8 * i))"
  by (induction ps) (auto simp: bit_or_iff bit_push_bit_iff bit_ucast_iff dest: bit_imp_le_length)

lemma le_value_bytes:
  fixes v :: "'a::len word"
  assumes "LENGTH('a) = 8 * n"
  shows "le_value (le_bytes n v) = v"
proof (rule bit_word_eqI)
  fix k assume k: "k < LENGTH('a)"
  have en: "enumerate 0 (le_bytes n v) = map (\<lambda>i. (i, ucast (drop_bit (8 * i) v AND 0xff))) [0..<n]"
    by (rule nth_equalityI) (simp_all add: nth_enumerate_eq le_bytes_def)
  have byte: "bit (ucast (drop_bit (8 * i) v AND 0xff) :: u8) j \<longleftrightarrow> j < 8 \<and> bit v (8 * i + j)" for i j
  proof -
    have m: "(0xff :: 'a word) = mask 8" by (simp add: mask_eq_exp_minus_1)
    show ?thesis
      unfolding m by (auto simp: bit_ucast_iff bit_and_iff bit_drop_bit_eq bit_mask_iff dest: bit_imp_le_length)
  qed
  have "bit (le_value (le_bytes n v) :: 'a word) k \<longleftrightarrow> (\<exists>i < n. 8 * i \<le> k \<and> k - 8 * i < 8 \<and> bit v k)"
    unfolding le_value_def bit_le_fold en using k by (auto simp: byte)
  also have "\<dots> \<longleftrightarrow> bit v k"
  proof
    assume "bit v k"
    moreover have "k div 8 < n" using k assms by (simp add: less_mult_imp_div_less)
    moreover have "8 * (k div 8) \<le> k" "k - 8 * (k div 8) < 8" by (simp_all add: minus_mult_div_eq_mod)
    ultimately show "\<exists>i < n. 8 * i \<le> k \<and> k - 8 * i < 8 \<and> bit v k" by blast
  qed blast
  finally show "bit (le_value (le_bytes n v) :: 'a word) k \<longleftrightarrow> bit v k" .
qed

lemma encodes_fixed [encodes_intros]:
  "encodes (\<lambda>st. pb_encode_fixed32 st v) (le_bytes 4 v)" "encodes (\<lambda>st. pb_encode_fixed64 st w) (le_bytes 8 w)"
  unfolding pb_encode_fixed32_def pb_encode_fixed64_def by (rule encodes_write)+

lemma decodes_fixed32: "decodes (pb_decode_fixed32 :: 's pb_istream \<Rightarrow> _) (le_bytes 4 v) v"
proof -
  have "decodes (pb_decode_fixed32 :: 's pb_istream \<Rightarrow> _) (le_bytes 4 v) (le_value (le_bytes 4 v))"
    using decodes_read_buf [of "le_bytes 4 v", where 's = 's]
    by (rule decodes_map) (simp add: pb_decode_fixed32_def)
  then show ?thesis by (simp add: le_value_bytes)
qed

lemma decodes_fixed64: "decodes (pb_decode_fixed64 :: 's pb_istream \<Rightarrow> _) (le_bytes 8 v) v"
proof -
  have "decodes (pb_decode_fixed64 :: 's pb_istream \<Rightarrow> _) (le_bytes 8 v) (le_value (le_bytes 8 v))"
    using decodes_read_buf [of "le_bytes 8 v", where 's = 's]
    by (rule decodes_map) (simp add: pb_decode_fixed64_def)
  then show ?thesis by (simp add: le_value_bytes)
qed

text \<open>Zigzag: the sign goes to the lowest bit.\<close>

definition zigzag :: "u64 \<Rightarrow> u64" where
  "zigzag v = (if v <s 0 then NOT (push_bit 1 v) else push_bit 1 v)"

lemma encodes_svarint [encodes_intros]: "encodes (\<lambda>st. pb_encode_svarint st v) (varint_bytes (unat (zigzag v)))"
  unfolding pb_encode_svarint_def Let_def zigzag_def [symmetric] by (rule encodes_varint)

lemma zigzag_inverse: "(if zigzag v AND 1 \<noteq> 0 then NOT (drop_bit 1 (zigzag v)) else drop_bit 1 (zigzag v)) = v"
proof -
  have sign: "v <s 0 \<longleftrightarrow> bit v 63"
    by (simp add: word_sless_alt sint_uint bit_last_iff [where 'a = 64, symmetric] bit_uint_iff)
  have one: "x AND 1 \<noteq> 0 \<longleftrightarrow> bit x 0" for x :: u64
    by (simp add: and_one_eq odd_iff_mod_2_eq_one [symmetric] bit_0 even_iff_mod_2_eq_zero [symmetric] flip: mod_2_eq_odd)
  have top: "n < 63 \<or> n = 63" if "n < 64" for n :: nat using that by linarith
  show ?thesis
  proof (cases "bit v 63")
    case True
    have "NOT (drop_bit 1 (NOT (push_bit 1 v))) = v"
    proof (rule bit_word_eqI)
      fix n assume "n < LENGTH(64)"
      then show "bit (NOT (drop_bit 1 (NOT (push_bit 1 v)))) n \<longleftrightarrow> bit v n"
        unfolding bit_not_iff bit_drop_bit_eq comp_def bit_push_bit_iff
        using top [of n] True by (auto dest: bit_imp_le_length)
    qed
    moreover have "bit (NOT (push_bit 1 v)) 0" unfolding bit_not_iff bit_push_bit_iff by simp
    ultimately show ?thesis using True by (simp add: zigzag_def sign one)
  next
    case False
    have "drop_bit 1 (push_bit 1 v) = v"
    proof (rule bit_word_eqI)
      fix n assume "n < LENGTH(64)"
      then show "bit (drop_bit 1 (push_bit 1 v)) n \<longleftrightarrow> bit v n"
        unfolding bit_drop_bit_eq comp_def bit_push_bit_iff
        using top [of n] False by auto
    qed
    moreover have "\<not> bit (push_bit 1 v) 0" unfolding bit_push_bit_iff by simp
    ultimately show ?thesis using False by (simp add: zigzag_def sign one)
  qed
qed

lemma decodes_svarint: "decodes (pb_decode_svarint :: 's pb_istream \<Rightarrow> _) (varint_bytes (unat (zigzag v))) v"
proof -
  have "decodes (pb_decode_svarint :: 's pb_istream \<Rightarrow> _) (varint_bytes (unat (zigzag v)))
      (if zigzag v AND 1 \<noteq> 0 then NOT (drop_bit 1 (zigzag v)) else drop_bit 1 (zigzag v))"
    using decodes_varint [OF unat_u64_lt [of "zigzag v"], where 's = 's]
    by (simp add: decodes_def pb_decode_svarint_def)
  then show ?thesis unfolding zigzag_inverse .
qed

section \<open>Integer fields\<close>

text \<open>The signed, and the unsigned, values of a field of so many bytes, and the result of a decoder of integers.\<close>

definition signed_dom :: "nat \<Rightarrow> int \<Rightarrow> bool" where
  "signed_dom n v \<longleftrightarrow> int_size n \<and> - (2 ^ (8 * n - 1)) \<le> v \<and> v < 2 ^ (8 * n - 1)"

definition unsigned_dom :: "nat \<Rightarrow> int \<Rightarrow> bool" where
  "unsigned_dom n v \<longleftrightarrow> int_size n \<and> 0 \<le> v \<and> v < 2 ^ (8 * n)"

definition stored :: "bool \<times> int option \<times> 's pb_istream \<Rightarrow> int option \<times> 's pb_istream" where
  "stored r = (case r of (ok, v, st) \<Rightarrow> (if ok then v else None, st))"

lemma int_size_bounds: "int_size n \<Longrightarrow> 8 * n - 1 < 64 \<and> 8 * n \<le> 64 \<and> 0 < n"
  by (auto simp: int_size_def)

lemma dom_int_size: "signed_dom n v \<Longrightarrow> int_size n" "unsigned_dom n v \<Longrightarrow> int_size n"
  by (simp_all add: signed_dom_def unsigned_dom_def)

lemma as_signed_id: "signed_dom n v \<Longrightarrow> as_signed n v = v"
  by (simp add: signed_dom_def as_signed_def signed_take_bit_int_eq_self)

lemma as_unsigned_id: "unsigned_dom n v \<Longrightarrow> as_unsigned n v = v"
  by (simp add: unsigned_dom_def as_unsigned_def take_bit_int_eq_self)

lemma signed_dom_64:
  assumes "signed_dom n v"
  shows "- (2 ^ 63) \<le> v" "v < 2 ^ 63"
proof -
  have "(2 :: int) ^ (8 * n - 1) \<le> 2 ^ 63"
    using assms int_size_bounds [of n] by (intro power_increasing) (auto simp: signed_dom_def)
  with assms show "- (2 ^ 63) \<le> v" "v < 2 ^ 63" unfolding signed_dom_def by linarith+
qed

lemma sint_word_of_signed: "signed_dom n v \<Longrightarrow> sint (word_of_int v :: u64) = v"
  using signed_dom_64 [of n v] by (simp add: signed_of_int signed_take_bit_int_eq_self)

lemma uint_word_of_unsigned:
  assumes "unsigned_dom n v"
  shows "uint (word_of_int v :: u64) = v"
proof -
  have "(2 :: int) ^ (8 * n) \<le> 2 ^ 64"
    using assms int_size_bounds [of n] by (intro power_increasing) (auto simp: unsigned_dom_def)
  with assms have "0 \<le> v" "v < 2 ^ 64" unfolding unsigned_dom_def by linarith+
  then show ?thesis by (simp add: uint_word_of_int)
qed

lemma as_signed_4:
  assumes "signed_dom n v" "n \<noteq> 8"
  shows "as_signed 4 (uint (word_of_int v :: u64)) = v"
proof -
  have "n = 1 \<or> n = 2 \<or> n = 4" using assms by (auto simp: signed_dom_def int_size_def)
  then have "- (2 ^ 31) \<le> v" "v < 2 ^ 31" using assms(1) by (auto simp: signed_dom_def)
  then have "signed_take_bit 31 v = v" by (simp add: signed_take_bit_int_eq_self)
  moreover have "signed_take_bit 31 (take_bit 64 v) = signed_take_bit 31 v"
    by (simp add: signed_take_bit_take_bit)
  ultimately show ?thesis by (simp add: as_signed_def uint_word_of_int take_bit_eq_mod)
qed

definition int_word :: "int \<Rightarrow> u64" where
  "int_word v = word_of_int v"

lemma encodes_ints [encodes_intros]:
  "signed_dom n v \<Longrightarrow> encodes (\<lambda>st. pb_enc_varint st n v) (varint_bytes (unat (int_word v)))"
  "unsigned_dom n v \<Longrightarrow> encodes (\<lambda>st. pb_enc_uvarint st n v) (varint_bytes (unat (int_word v)))"
  "signed_dom n v \<Longrightarrow> encodes (\<lambda>st. pb_enc_svarint st n v) (varint_bytes (unat (zigzag (int_word v))))"
  using encodes_varint [of "int_word v"] encodes_svarint [of "int_word v"]
  by (simp_all add: pb_enc_varint_def pb_enc_uvarint_def pb_enc_svarint_def as_signed_id as_unsigned_id int_word_def dom_int_size)

lemma store_int_ok:
  "signed_dom n v \<Longrightarrow> stored (store_int (as_signed n) v n st) = (Some v, st)"
  "unsigned_dom n v \<Longrightarrow> stored (store_int (as_unsigned n) v n st) = (Some v, st)"
  by (simp_all add: store_int_def stored_def as_signed_id as_unsigned_id dom_int_size)

lemma decodes_int_word: "decodes (pb_decode_varint :: 's pb_istream \<Rightarrow> _) (varint_bytes (unat (int_word v))) (int_word v)"
  using decodes_varint [OF unat_u64_lt [of "int_word v"], where 's = 's] by simp

lemma decodes_pb_dec_varint:
  assumes "signed_dom n v"
  shows "decodes (\<lambda>st :: 's pb_istream. stored (pb_dec_varint st n)) (varint_bytes (unat (int_word v))) v"
proof -
  have "(if n = 8 then sint (int_word v) else as_signed 4 (uint (int_word v))) = v"
    using as_signed_4 [OF assms] sint_word_of_signed [OF assms] by (simp add: int_word_def)
  then show ?thesis
    using decodes_int_word [of v, where 's = 's] store_int_ok(1) [OF assms, where 'a = 's]
    by (simp add: decodes_def pb_dec_varint_def)
qed

lemma decodes_pb_dec_uvarint:
  assumes "unsigned_dom n v"
  shows "decodes (\<lambda>st :: 's pb_istream. stored (pb_dec_uvarint st n)) (varint_bytes (unat (int_word v))) v"
  using decodes_int_word [of v, where 's = 's] store_int_ok(2) [OF assms, where 'a = 's]
    uint_word_of_unsigned [OF assms]
  by (simp add: decodes_def pb_dec_uvarint_def int_word_def)

lemma decodes_pb_dec_svarint:
  assumes "signed_dom n v"
  shows "decodes (\<lambda>st :: 's pb_istream. stored (pb_dec_svarint st n)) (varint_bytes (unat (zigzag (int_word v)))) v"
  using decodes_svarint [of "int_word v", where 's = 's] store_int_ok(1) [OF assms, where 'a = 's]
    sint_word_of_signed [OF assms]
  by (simp add: decodes_def pb_dec_svarint_def int_word_def)

section \<open>Tags, strings and submessages\<close>

lemma unat_u32_lt: "unat (w :: u32) < 2 ^ 32"
  using unsigned_less [where 'b = 32 and 'a = nat, of w] by simp

lemma unat_ucast_32_64: "unat (ucast (w :: u32) :: u64) = unat w"
  using unat_u32_lt [of w] by (simp add: unsigned_ucast_eq take_bit_nat_eq_self)

lemma unat_push_3:
  "unat (push_bit 3 (ucast fn :: u64) OR ucast wt) = unat fn * 8 + unat wt" if "wt < 8" for fn wt :: u32
proof -
  have wt: "unat (ucast wt :: u64) = unat wt"
    by (rule unat_ucast_32_64)
  have fn: "unat (ucast fn :: u64) = unat fn"
    by (rule unat_ucast_32_64)
  have "unat (ucast wt :: u64) < 2 ^ 3" using that wt by (simp add: word_less_nat_alt)
  moreover have "unat (ucast fn :: u64) * 2 ^ 3 < 2 ^ LENGTH(64)"
    using unat_u32_lt [of fn] unfolding fn by simp
  ultimately show ?thesis
    using unat_shift_or [of "ucast fn :: u64" 3 "ucast wt"] wt fn by simp
qed

lemma encodes_tag [encodes_intros]:
  "wt < 8 \<Longrightarrow> encodes (\<lambda>st. pb_encode_tag st wt fn) (varint_bytes (unat fn * 8 + unat wt))"
  unfolding pb_encode_tag_def Let_def unat_push_3 [symmetric] by (rule encodes_varint)

lemma encodes_submessage_field:
  assumes "encodes f bs"
  shows "encodes (\<lambda>st. pb_enc_submessage st (Some f)) (varint_bytes (length bs) @ bs)"
  using encodes_submessage [OF assms] by (simp add: pb_enc_submessage_def)

lemma pb_decode_varint32_eof_Some:
  "pb_decode_varint32 st = (Some v, st') \<Longrightarrow> pb_decode_varint32_eof st = (Some v, False, st')"
  by (auto simp: pb_decode_varint32_def pb_decode_varint32_eof_def is_error_def split: prod.splits option.splits if_splits)

definition tag_dom :: "u32 \<Rightarrow> u32 \<Rightarrow> bool" where
  "tag_dom wt fn \<longleftrightarrow> wt < 8 \<and> fn < 2 ^ 29 \<and> (0 < wt \<or> 0 < fn)"

definition tag_bytes :: "u32 \<Rightarrow> u32 \<Rightarrow> u8 list" where
  "tag_bytes wt fn = varint_bytes (unat fn * 8 + unat wt)"

lemma pb_decode_tag_bytes:
  assumes "tag_dom wt fn" "m \<le> length t"
  shows "pb_decode_tag (in_buf (length (tag_bytes wt fn) + m) (tag_bytes wt fn @ t) :: 's pb_istream) =
    (Some (wt, fn), False, in_buf m t)"
proof -
  let ?v = "unat fn * 8 + unat wt"
  have wt: "unat wt < 8" and fn: "unat fn < 2 ^ 29"
    using assms(1) by (simp_all add: tag_dom_def word_less_nat_alt)
  have v: "?v < 2 ^ 32" using wt fn by simp
  have d: "pb_decode_varint32_eof (vb_buf ?v m t :: 's pb_istream) = (Some (word_of_nat ?v), False, in_buf m t)"
    using pb_decode_varint32_canonical [of ?v, where 's = 's] v by (intro pb_decode_varint32_eof_Some) blast
  have u: "unat (word_of_nat ?v :: u32) = ?v" using v by (simp add: unat_of_nat del: of_nat_add)
  have "?v \<noteq> 0" using assms(1) by (auto simp: tag_dom_def word_less_nat_alt)
  then have nz: "(word_of_nat ?v :: u32) \<noteq> 0" using u by (metis unsigned_0)
  have "(7 :: u32) = mask 3" by (simp add: mask_eq_exp_minus_1)
  then have "unat (word_of_nat ?v AND 7 :: u32) = ?v mod 8"
    using u by (simp only: take_bit_eq_mask [symmetric] unsigned_take_bit_eq) (simp add: take_bit_eq_mod)
  then have lo: "(word_of_nat ?v AND 7 :: u32) = wt" using wt by (intro word_eqI_unat) simp
  have "unat (drop_bit 3 (word_of_nat ?v :: u32)) = ?v div 8" using u by (simp add: unat_drop_bit)
  then have hi: "drop_bit 3 (word_of_nat ?v :: u32) = fn" using wt by (intro word_eqI_unat) simp
  show ?thesis using d nz lo hi by (simp add: pb_decode_tag_def tag_bytes_def)
qed

lemma encodes_tag_bytes [encodes_intros]: "tag_dom wt fn \<Longrightarrow> encodes (\<lambda>st. pb_encode_tag st wt fn) (tag_bytes wt fn)"
  unfolding tag_bytes_def by (rule encodes_tag) (simp add: tag_dom_def)

text \<open>Strings of bytes with their length in front.\<close>

definition lv_bytes :: "u8 list \<Rightarrow> u8 list" where
  "lv_bytes bs = varint_bytes (length bs) @ bs"

text \<open>\<open>fits place n\<close>: there is room for a field of \<open>n\<close> bytes where it goes.\<close>

definition fits :: "nat + (nat \<Rightarrow> bool) \<Rightarrow> nat \<Rightarrow> bool" where
  "fits place n \<longleftrightarrow> n < 2 ^ 32 \<and> (case place of Inl data_size \<Rightarrow> n \<le> data_size | Inr realloc_ok \<Rightarrow> realloc_ok n)"

lemma reserve_bytes_fits:
  assumes "fits place n" "0 < n" "len \<le> is_bytes_left st"
  shows "reserve_bytes place msg len n st = (True, st)"
  using assms by (cases place) (simp_all add: reserve_bytes_def fits_def allocate_field_def Let_def)

lemma in_buf_left [simp]: "is_bytes_left (in_buf n bs) = n"
  by (simp add: in_buf_def)

lemma decode_len_then:
  assumes "length bs < 2 ^ 32"
  shows "pb_decode_varint32 (in_buf (length (lv_bytes bs) + m) (lv_bytes bs @ t) :: 's pb_istream) =
      (Some (word_of_nat (length bs)), in_buf (length bs + m) (bs @ t)) \<and>
    unat (word_of_nat (length bs) :: u32) = length bs"
  using pb_decode_varint32_canonical [of "length bs" "length bs + m" "bs @ t", where 's = 's] assms
  by (simp add: lv_bytes_def unat_of_nat add.assoc)

lemma decodes_pb_dec_bytes:
  assumes "fits place (length bs + 4)"
  shows "decodes (\<lambda>st :: 's pb_istream. pb_dec_bytes st place) (lv_bytes bs) bs"
  unfolding decodes_def
proof (intro allI impI)
  fix m and t :: "u8 list" assume "m \<le> length t"
  have l: "length bs < 2 ^ 32" "length bs + 4 < 2 ^ 32" using assms by (simp_all add: fits_def)
  then show "pb_dec_bytes (in_buf (length (lv_bytes bs) + m) (lv_bytes bs @ t) :: 's pb_istream) place = (Some bs, in_buf m t)"
    using decode_len_then [OF l(1), of m t, where 's = 's] reserve_bytes_fits [OF assms, of "length bs" "in_buf (length bs + m) (bs @ t) :: 's pb_istream"]
      pb_read_buf_in [of bs "length bs + m" t, where 's = 's]
    by (simp add: pb_dec_bytes_def sizeof_size_def Let_def)
qed

lemma decodes_pb_dec_string:
  assumes "fits place (length bs + 1)"
  shows "decodes (\<lambda>st :: 's pb_istream. pb_dec_string st place) (lv_bytes bs) (bs @ [0])"
  unfolding decodes_def
proof (intro allI impI)
  fix m and t :: "u8 list" assume "m \<le> length t"
  have l: "length bs < 2 ^ 32" "length bs + 1 < 2 ^ 32" using assms by (simp_all add: fits_def)
  have "unat (word_of_nat (length bs) + 1 :: u32) = length bs + 1"
  proof -
    have "word_of_nat (length bs) + 1 = (word_of_nat (length bs + 1) :: u32)" by simp
    then show ?thesis using l(2) by (simp only:) (simp add: unat_of_nat del: of_nat_add of_nat_Suc)
  qed
  then show "pb_dec_string (in_buf (length (lv_bytes bs) + m) (lv_bytes bs @ t) :: 's pb_istream) place = (Some (bs @ [0]), in_buf m t)"
    using decode_len_then [OF l(1), of m t, where 's = 's] reserve_bytes_fits [OF assms, of "length bs" "in_buf (length bs + m) (bs @ t) :: 's pb_istream"]
      pb_read_buf_in [of bs "length bs + m" t, where 's = 's]
    by (simp add: pb_dec_string_def Let_def)
qed

lemma decodes_pb_dec_fixed_length_bytes:
  assumes "length bs < 2 ^ 32"
  shows "decodes (\<lambda>st :: 's pb_istream. pb_dec_fixed_length_bytes st (length bs)) (lv_bytes bs) bs"
  unfolding decodes_def
proof (intro allI impI)
  fix m and t :: "u8 list" assume "m \<le> length t"
  note d = decode_len_then [OF assms, of m t, where 's = 's]
  show "pb_dec_fixed_length_bytes (in_buf (length (lv_bytes bs) + m) (lv_bytes bs @ t) :: 's pb_istream) (length bs) = (Some bs, in_buf m t)"
  proof (cases "bs = []")
    case False
    then have "(word_of_nat (length bs) :: u32) \<noteq> 0" using d by (metis length_0_conv unsigned_0)
    then show ?thesis
      using d pb_read_buf_in [of bs "length bs + m" t, where 's = 's] assms
      by (simp add: pb_dec_fixed_length_bytes_def)
  qed (use d in \<open>simp add: pb_dec_fixed_length_bytes_def\<close>)
qed

lemma encodes_pb_enc_bytes [encodes_intros]:
  assumes "length bs < 2 ^ 32" "is_pointer \<or> length bs + 4 \<le> data_size"
  shows "encodes (\<lambda>st. pb_enc_bytes st is_pointer data_size (Some bs)) (lv_bytes bs)"
  using encodes_string [of bs] assms
  by (auto simp: pb_enc_bytes_def sizeof_size_def lv_bytes_def Let_def)

lemma string_loop_eq:
  "0 \<notin> set bs \<Longrightarrow> n + length bs < max_size \<Longrightarrow> string_loop n max_size (bs @ 0 # rest) = n + length bs"
  by (induction bs arbitrary: n) auto

lemma encodes_pb_enc_string [encodes_intros]:
  assumes "length bs < 2 ^ 32" "0 \<notin> set bs" "is_pointer \<or> length bs < data_size"
  shows "encodes (\<lambda>st. pb_enc_string st is_pointer data_size (Some (bs @ 0 # rest))) (lv_bytes bs)"
  using encodes_string [of bs] assms string_loop_eq [of bs 0 _ rest]
  by (auto simp: pb_enc_string_def lv_bytes_def Let_def)

lemma encodes_fixed_length_bytes [encodes_intros]:
  "length bs < 2 ^ 32 \<Longrightarrow> encodes (\<lambda>st. pb_enc_fixed_length_bytes st bs) (lv_bytes bs)"
  using encodes_string [of bs] by (simp add: pb_enc_fixed_length_bytes_def lv_bytes_def)

text \<open>A message fills its stream, so its reader is told where it ends.\<close>

definition decodes_all :: "('s pb_istream \<Rightarrow> 'v option \<times> 's pb_istream) \<Rightarrow> u8 list \<Rightarrow> 'v \<Rightarrow> bool" where
  "decodes_all d bs v \<longleftrightarrow> (\<forall>t. d (in_buf (length bs) (bs @ t)) = (Some v, in_buf 0 t))"

lemma decodes_imp_all: "decodes d bs v \<Longrightarrow> decodes_all d bs v"
  using decodesD [of d bs v 0] by (simp add: decodes_all_def)

lemma pb_make_string_substream_bytes:
  assumes "length bs < 2 ^ 32"
  shows "pb_make_string_substream (in_buf (length (lv_bytes bs) + m) (lv_bytes bs @ t) :: 's pb_istream) =
    (Some (in_buf (length bs) (bs @ t)), in_buf m (bs @ t))"
  using decode_len_then [OF assms, of m t, where 's = 's]
  by (simp add: pb_make_string_substream_def) (simp add: in_buf_def)

lemma decode_submessage_at:
  assumes "d (in_buf (length bs) (bs @ t)) = (Some v, in_buf 0 t)" "length bs < 2 ^ 32"
  shows "pb_dec_submessage (in_buf (length (lv_bytes bs) + m) (lv_bytes bs @ t) :: 's pb_istream) (Some d) = (Some v, in_buf m t)"
proof -
  have "pb_close_string_substream (in_buf m (bs @ t) :: 's pb_istream) (in_buf 0 t) = (True, in_buf m t)"
    by (simp add: pb_close_string_substream_def) (simp add: in_buf_def)
  then show ?thesis
    using assms(1) pb_make_string_substream_bytes [OF assms(2), of m t, where 's = 's]
    by (simp add: pb_dec_submessage_def)
qed

lemma decodes_submessage:
  assumes "decodes_all d bs v" "length bs < 2 ^ 32"
  shows "decodes (\<lambda>st :: 's pb_istream. pb_dec_submessage st (Some d)) (lv_bytes bs) v"
  using assms by (simp add: decodes_def decodes_all_def decode_submessage_at)

section \<open>Skipping a field\<close>

text \<open>The value of a field on the wire.\<close>

datatype wire_value = Wire_varint nat | Wire_64bit u64 | Wire_string "u8 list" | Wire_32bit u32

fun wire_type_of :: "wire_value \<Rightarrow> u32" where
  "wire_type_of (Wire_varint v) = PB_WT_VARINT"
| "wire_type_of (Wire_64bit v) = PB_WT_64BIT"
| "wire_type_of (Wire_string bs) = PB_WT_STRING"
| "wire_type_of (Wire_32bit v) = PB_WT_32BIT"

fun wire_bytes :: "wire_value \<Rightarrow> u8 list" where
  "wire_bytes (Wire_varint v) = varint_bytes v"
| "wire_bytes (Wire_64bit v) = le_bytes 8 v"
| "wire_bytes (Wire_string bs) = lv_bytes bs"
| "wire_bytes (Wire_32bit v) = le_bytes 4 v"

fun wire_ok :: "wire_value \<Rightarrow> bool" where
  "wire_ok (Wire_string bs) \<longleftrightarrow> length bs < 2 ^ 32"
| "wire_ok _ \<longleftrightarrow> True"

lemmas wire_types = PB_WT_VARINT_def PB_WT_64BIT_def PB_WT_STRING_def PB_WT_32BIT_def

lemma pb_read_byte_in: "pb_read_buf 1 (in_buf (Suc n) (b # bs) :: 's pb_istream) = (Some [b], in_buf n bs)"
  using pb_read_buf_in [of "[b]" "Suc n" bs, where 's = 's] by simp

lemma varint_bytes_cont:
  "unat (word_of_nat (v mod 128 + 128) :: u8) = v mod 128 + 128"
  by (rule unat_small_u8) simp

lemma pb_skip_varint_bytes: "pb_skip_varint (vb_buf v m t :: 's pb_istream) = (True, in_buf m t)"
proof (induction v rule: varint_bytes.induct)
  case (1 v)
  show ?case
  proof (cases "v < 128")
    case True
    then have "(word_of_nat v :: u8) AND 0x80 = 0" by (simp add: cont_bit unat_small_u8)
    with True show ?thesis
      by (subst pb_skip_varint.simps) (simp add: varint_bytes_small pb_read_byte_in [simplified])
  next
    case False
    have "(word_of_nat (v mod 128 + 128) :: u8) AND 0x80 \<noteq> 0" using varint_bytes_cont [of v] by (simp add: cont_bit)
    then show ?thesis
      using 1 [OF False] False
      by (subst pb_skip_varint.simps) (simp add: varint_bytes_big pb_read_byte_in [simplified])
  qed
qed

lemma raw_varint_loop_bytes:
  "length acc + length (varint_bytes v) \<le> k \<Longrightarrow>
     raw_varint_loop k acc (vb_buf v m t :: 's pb_istream) = (Some (acc @ varint_bytes v), in_buf m t)"
proof (induction v arbitrary: acc rule: varint_bytes.induct)
  case (1 v)
  show ?case
  proof (cases "v < 128")
    case True
    then have "(word_of_nat v :: u8) AND 0x80 = 0" by (simp add: cont_bit unat_small_u8)
    with True 1(2) show ?thesis
      by (subst raw_varint_loop.simps) (simp add: varint_bytes_small pb_read_byte_in [simplified])
  next
    case False
    let ?x = "word_of_nat (v mod 128 + 128) :: u8"
    have "?x AND 0x80 \<noteq> 0" using varint_bytes_cont [of v] by (simp add: cont_bit)
    then show ?thesis
      using 1(1) [OF False, of "acc @ [?x]"] 1(2) False
      by (subst raw_varint_loop.simps) (simp add: varint_bytes_big pb_read_byte_in [simplified])
  qed
qed

text \<open>C23: \<open>pb_skip_field\<close> takes exactly the value of the field off the stream, whatever its wire type, and so does
\<open>read_raw_value\<close>, which gives its bytes, where there is no length in front.\<close>

theorem pb_skip_field_exact:
  assumes "wire_ok w" "m \<le> length t"
  shows "pb_skip_field (in_buf (length (wire_bytes w) + m) (wire_bytes w @ t) :: 's pb_istream) (wire_type_of w) =
      (True, in_buf m t) \<and>
    (wire_type_of w \<noteq> PB_WT_STRING \<and> length (wire_bytes w) \<le> 10 \<longrightarrow>
      read_raw_value (in_buf (length (wire_bytes w) + m) (wire_bytes w @ t) :: 's pb_istream) (wire_type_of w) 10 =
        (Some (wire_bytes w), in_buf m t))"
proof (cases w)
  case (Wire_varint v)
  then show ?thesis
    using pb_skip_varint_bytes [of v m t, where 's = 's] raw_varint_loop_bytes [of "[]" v 10 m t, where 's = 's]
    by (simp add: pb_skip_field_def read_raw_value_def)
next
  case (Wire_64bit v)
  then show ?thesis
    using pb_skip_in [of "le_bytes 8 v" "8 + m" t, where 's = 's] pb_read_buf_in [of "le_bytes 8 v" "8 + m" t, where 's = 's]
    by (simp add: pb_skip_field_def read_raw_value_def wire_types)
next
  case (Wire_string bs)
  then show ?thesis
    using decode_len_then [of bs m t, where 's = 's] pb_skip_in [of bs "length bs + m" t, where 's = 's] assms(1)
    by (simp add: pb_skip_field_def pb_skip_string_def wire_types)
next
  case (Wire_32bit v)
  then show ?thesis
    using pb_skip_in [of "le_bytes 4 v" "4 + m" t, where 's = 's] pb_read_buf_in [of "le_bytes 4 v" "4 + m" t, where 's = 's]
    by (simp add: pb_skip_field_def read_raw_value_def wire_types)
qed

theorem pb_skip_field_exact_witness:
  "pb_skip_field (in_buf 3 [0x96, 1, 7] :: unit pb_istream) PB_WT_VARINT = (True, in_buf 1 [7])"
proof -
  have "varint_bytes 150 = [0x96, 1]" by (simp add: varint_bytes_big varint_bytes_small)
  with pb_skip_field_exact [of "Wire_varint 150" 1 "[7]", where 's = unit] show ?thesis by (simp add: numeral_3_eq_3)
qed

section \<open>Writers and the readers that go with them\<close>

locale pb_coder =
  fixes enc :: "'v \<Rightarrow> u8 list pb_ostream \<Rightarrow> bool \<times> u8 list pb_ostream"
    and dec :: "'s pb_istream \<Rightarrow> 'v option \<times> 's pb_istream"
    and bytes :: "'v \<Rightarrow> u8 list" and dom :: "'v \<Rightarrow> bool"
  assumes writes: "dom v \<Longrightarrow> encodes (enc v) (bytes v)"
    and reads: "dom v \<Longrightarrow> decodes dec (bytes v) v"
begin

text \<open>A value is written exactly when there is room, its size is what a counting stream says, and it is read back.\<close>

lemma buffer_roundtrip:
  assumes "dom v" "length (bytes v) \<le> n" "n < 2 ^ 64"
  shows "\<exists>st. enc v (pb_ostream_from_buffer n) = (True, st) \<and> os_state st = bytes v \<and>
      dec (pb_istream_from_buffer (os_state st) (os_bytes_written st)) = (Some v, in_buf 0 [])"
proof -
  have "enc v (out_at n 0 []) = (True, out_at n (length (bytes v)) (bytes v))"
    using encodesD(1) [OF writes [OF assms(1)], of 0 n "[]"] assms(2,3) by simp
  moreover have "dec (in_buf (length (bytes v)) (bytes v)) = (Some v, in_buf 0 [])"
    using decodesD [OF reads [OF assms(1)], of 0 "[]"] by simp
  ultimately show ?thesis by (simp add: stream_starts from_buffer_eq)
qed

lemma encoded_size:
  "dom v \<Longrightarrow> length (bytes v) < 2 ^ 64 \<Longrightarrow> pb_get_encoded_size (enc v) s = Some (length (bytes v))"
  using encodesD(3) [OF writes, of v 0 s] by (simp add: pb_get_encoded_size_def stream_starts)

lemma stream_full:
  "dom v \<Longrightarrow> n < length (bytes v) \<Longrightarrow> length (bytes v) < 2 ^ 64 \<Longrightarrow> \<not> fst (enc v (pb_ostream_from_buffer n))"
  using encodesD(2) [OF writes, of v 0 n "[]"] by (simp add: stream_starts)

text \<open>No value's bytes start another's.\<close>

lemma prefix_free:
  assumes "dom v" "dom v'" "bytes v @ t = bytes v' @ t'"
  shows "v = v' \<and> t = t'"
proof -
  have "length (bytes v) + length t = length (bytes v') + length t'"
    using arg_cong [OF assms(3), of length] by simp
  then have "dec (in_buf (length (bytes v) + length t) (bytes v @ t)) = (Some v', in_buf (length t') t')"
    using decodesD [OF reads [OF assms(2)], of "length t'" t'] assms(3) by simp
  then show ?thesis
    using decodesD [OF reads [OF assms(1)], of "length t" t] by (auto simp: in_buf_def)
qed

end

interpretation pb_varint: pb_coder "\<lambda>v st. pb_encode_varint st v" pb_decode_varint "\<lambda>v. varint_bytes (unat v)" "\<lambda>_. True"
proof
  fix v :: u64
  show "encodes (\<lambda>st. pb_encode_varint st v) (varint_bytes (unat v))" by (rule encodes_varint)
  show "decodes (pb_decode_varint :: 's pb_istream \<Rightarrow> _) (varint_bytes (unat v)) v"
    using decodes_varint [OF unat_u64_lt [of v], where 's = 's] by simp
qed

interpretation pb_svarint:
  pb_coder "\<lambda>v st. pb_encode_svarint st v" pb_decode_svarint "\<lambda>v. varint_bytes (unat (zigzag v))" "\<lambda>_. True"
  by unfold_locales (intro encodes_svarint decodes_svarint)+

interpretation pb_fixed32: pb_coder "\<lambda>v st. pb_enc_fixed32 st v" pb_dec_fixed32 "le_bytes 4" "\<lambda>_. True"
  unfolding pb_enc_fixed32_def pb_dec_fixed32_def by unfold_locales (intro encodes_fixed decodes_fixed32)+

interpretation pb_fixed64: pb_coder "\<lambda>v st. pb_enc_fixed64 st v" pb_dec_fixed64 "le_bytes 8" "\<lambda>_. True"
  unfolding pb_enc_fixed64_def pb_dec_fixed64_def by unfold_locales (intro encodes_fixed decodes_fixed64)+

interpretation pb_int: pb_coder "\<lambda>v st. pb_enc_varint st n v" "\<lambda>st. stored (pb_dec_varint st n)"
  "\<lambda>v. varint_bytes (unat (int_word v))" "signed_dom n" for n
  by unfold_locales (rule encodes_ints decodes_pb_dec_varint, assumption)+

interpretation pb_uint: pb_coder "\<lambda>v st. pb_enc_uvarint st n v" "\<lambda>st. stored (pb_dec_uvarint st n)"
  "\<lambda>v. varint_bytes (unat (int_word v))" "unsigned_dom n" for n
  by unfold_locales (rule encodes_ints decodes_pb_dec_uvarint, assumption)+

interpretation pb_sint: pb_coder "\<lambda>v st. pb_enc_svarint st n v" "\<lambda>st. stored (pb_dec_svarint st n)"
  "\<lambda>v. varint_bytes (unat (zigzag (int_word v)))" "signed_dom n" for n
  by unfold_locales (rule encodes_ints decodes_pb_dec_svarint, assumption)+

interpretation pb_bytes: pb_coder "\<lambda>bs st. pb_enc_bytes st False n (Some bs)" "\<lambda>st. pb_dec_bytes st (Inl n)"
  lv_bytes "\<lambda>bs. length bs + 4 \<le> n \<and> n < 2 ^ 32" for n
proof
  fix bs :: "u8 list" assume "length bs + 4 \<le> n \<and> n < 2 ^ 32"
  then show "encodes (\<lambda>st. pb_enc_bytes st False n (Some bs)) (lv_bytes bs)"
      "decodes (\<lambda>st :: 's pb_istream. pb_dec_bytes st (Inl n)) (lv_bytes bs) bs"
    by (auto intro!: encodes_pb_enc_bytes decodes_pb_dec_bytes simp: fits_def)
qed

lemma encodes_bool [encodes_intros]: "encodes (\<lambda>st. pb_enc_bool st b) [if b then 1 else 0]"
  using encodes_varint [of "if b then 1 else 0"] by (simp add: pb_enc_bool_def varint_bytes_small if_distrib cong: if_cong)

lemma decodes_bool: "decodes (pb_decode_bool :: 's pb_istream \<Rightarrow> _) [if b then 1 else 0] b"
proof -
  have "varint_bytes (if b then 1 else 0) = [if b then 1 else 0 :: u8]" by (simp add: varint_bytes_small)
  then show ?thesis
    using decodes_varint32 [of "if b then 1 else 0", where 's = 's]
    by (auto simp: decodes_def pb_decode_bool_def pb_dec_bool_def split: if_splits)
qed

interpretation pb_bool: pb_coder "\<lambda>b st. pb_enc_bool st b" pb_decode_bool "\<lambda>b. [if b then 1 else 0]" "\<lambda>_. True"
  by unfold_locales (intro encodes_bool decodes_bool)+

lemma stored_Some: "stored r = (Some v, st) \<longleftrightarrow> r = (True, Some v, st)"
  by (auto simp: stored_def split: prod.splits if_splits)

lemma varint_bytes_10: "length (varint_bytes (unat (w :: u64))) \<le> 10"
proof (rule varint_bytes_length)
  show "unat w < 2 ^ (7 * 10)" by (rule less_trans [OF unat_u64_lt]) simp
qed simp

text \<open>An integer field of one, two, four or eight bytes, signed, unsigned or zigzag, is written in at most ten
bytes and read back as the value it had.\<close>

theorem pb_int_fields_roundtrip:
  "(signed_dom n v \<longrightarrow>
     (\<exists>st. pb_enc_varint (pb_ostream_from_buffer 10) n v = (True, st) \<and>
       pb_dec_varint (pb_istream_from_buffer (os_state st) (os_bytes_written st) :: 's pb_istream) n = (True, Some v, in_buf 0 [])) \<and>
     (\<exists>st. pb_enc_svarint (pb_ostream_from_buffer 10) n v = (True, st) \<and>
       pb_dec_svarint (pb_istream_from_buffer (os_state st) (os_bytes_written st) :: 's pb_istream) n = (True, Some v, in_buf 0 []))) \<and>
   (unsigned_dom n v \<longrightarrow>
     (\<exists>st. pb_enc_uvarint (pb_ostream_from_buffer 10) n v = (True, st) \<and>
       pb_dec_uvarint (pb_istream_from_buffer (os_state st) (os_bytes_written st) :: 's pb_istream) n = (True, Some v, in_buf 0 [])))"
  using pb_int.buffer_roundtrip [of n v 10, where 'a = 's] pb_sint.buffer_roundtrip [of n v 10, where 'a = 's]
    pb_uint.buffer_roundtrip [of n v 10, where 'a = 's] varint_bytes_10
  by (auto simp: stored_Some)

theorem pb_int_fields_roundtrip_witness:
  "\<exists>st. pb_enc_svarint (pb_ostream_from_buffer 10) 4 (-7) = (True, st) \<and>
     pb_dec_svarint (pb_istream_from_buffer (os_state st) (os_bytes_written st) :: unit pb_istream) 4 = (True, Some (-7), in_buf 0 [])"
proof -
  have "signed_dom 4 (-7)" by (simp add: signed_dom_def int_size_def)
  with pb_int_fields_roundtrip [of 4 "-7", where 's = unit] show ?thesis by blast
qed

end
