(* ===== verification/PbMessage.thy ===== *)
theory PbMessage
  imports PbField "HOL-Library.More_List"
begin

text \<open>
  Messages of nanopb (\<^verbatim>\<open>nanopb/pb_common.c\<close>, \<^verbatim>\<open>nanopb/pb_encode.c\<close>, \<^verbatim>\<open>nanopb/pb_decode.c\<close>): the tables that
  describe the fields of a C structure, and the loops that encode and decode a structure by its table. Modelled are
  fields in the structure itself (\<^verbatim>\<open>PB_ATYPE_STATIC\<close>), required, optional or singular, and arrays with a count.
  Where decoding fails the structure is not used, so a decoder gives a value only when it returns true.
\<close>

section \<open>Descriptions and structures\<close>

datatype pb_ltype =
    PB_LTYPE_BOOL
  | PB_LTYPE_VARINT
  | PB_LTYPE_UVARINT
  | PB_LTYPE_SVARINT
  | PB_LTYPE_FIXED32
  | PB_LTYPE_FIXED64
  | PB_LTYPE_BYTES
  | PB_LTYPE_STRING
  | PB_LTYPE_SUBMESSAGE
  | PB_LTYPE_FIXED_LENGTH_BYTES

datatype pb_htype = PB_HTYPE_REQUIRED | PB_HTYPE_OPTIONAL | PB_HTYPE_REPEATED

text \<open>
  What is stored in a structure. A string is its whole array of characters; bytes are as many as their size says. A
  slot is a field: its \<open>has_\<close> flag, its count and its items, of which a field that is no array has one.
\<close>

datatype pb_val =
    is_Val_bool: Val_bool (val_bool: bool)
  | is_Val_int: Val_int (val_int: int)
  | is_Val_32: Val_32 (val_32: u32)
  | is_Val_64: Val_64 (val_64: u64)
  | is_Val_bytes: Val_bytes (val_bytes: "u8 list")
  | is_Val_msg: Val_msg (val_msg: "pb_slot list")
and pb_slot = Slot (sl_has: bool) (sl_count: nat) (sl_items: "pb_val list")

text \<open>
  An entry of a table. \<open>pf_has_size\<close> says that there is a \<open>has_\<close> flag or a count, \<open>pf_ptr\<close> is the table of a
  submessage or the default value. The entry with tag 0 that ends a table is not part of the list.
\<close>

datatype pb_field =
    Field (pf_tag: u32) (pf_ltype: pb_ltype) (pf_htype: pb_htype) (pf_has_size: bool) (pf_data_size: nat)
      (pf_array_size: nat) (pf_ptr: pb_ptr)
and pb_ptr = Ptr_null | Ptr_fields "pb_field list" | Ptr_default pb_val

definition PB_LAST_FIELD :: pb_field where
  "PB_LAST_FIELD = Field 0 PB_LTYPE_BOOL PB_HTYPE_REQUIRED False 0 0 Ptr_null"

text \<open>The types up to \<open>PB_LTYPE_LAST_PACKABLE\<close>.\<close>

definition packable :: "pb_ltype \<Rightarrow> bool" where
  "packable lt \<longleftrightarrow> lt \<in> {PB_LTYPE_BOOL, PB_LTYPE_VARINT, PB_LTYPE_UVARINT, PB_LTYPE_SVARINT, PB_LTYPE_FIXED32, PB_LTYPE_FIXED64}"

definition sl_item :: "pb_slot \<Rightarrow> pb_val" where
  "sl_item slot = hd (sl_items slot)"

section \<open>The iterator\<close>

record pb_iter =
  it_pos :: nat
  it_required :: nat

definition field_at :: "pb_field list \<Rightarrow> nat \<Rightarrow> pb_field" where
  "field_at fs i = nth_default PB_LAST_FIELD fs i"

definition pb_field_iter_begin :: "pb_field list \<Rightarrow> bool \<times> pb_iter" where
  "pb_field_iter_begin fs = (pf_tag (field_at fs 0) \<noteq> 0, \<lparr>it_pos = 0, it_required = 0\<rparr>)"

definition pb_field_iter_next :: "pb_field list \<Rightarrow> pb_iter \<Rightarrow> bool \<times> pb_iter" where
  "pb_field_iter_next fs iter =
     (let prev_field = field_at fs (it_pos iter); pos = it_pos iter + 1
      in if pf_tag prev_field = 0 then (False, iter)
         else if pf_tag (field_at fs pos) = 0 then (False, snd (pb_field_iter_begin fs))
         else (True, \<lparr>it_pos = pos,
                      it_required = it_required iter + (if pf_htype prev_field = PB_HTYPE_REQUIRED then 1 else 0)\<rparr>))"

text \<open>The search goes round the table once; \<open>n\<close> bounds its steps.\<close>

fun iter_find_loop :: "nat \<Rightarrow> pb_field list \<Rightarrow> u32 \<Rightarrow> nat \<Rightarrow> pb_iter \<Rightarrow> bool \<times> pb_iter" where
  "iter_find_loop 0 fs tag start iter = (False, iter)"
| "iter_find_loop (Suc n) fs tag start iter =
     (if pf_tag (field_at fs (it_pos iter)) = tag then (True, iter)
      else
        (let iter' = snd (pb_field_iter_next fs iter)
         in if it_pos iter' = start then (False, iter') else iter_find_loop n fs tag start iter'))"

definition pb_field_iter_find :: "pb_field list \<Rightarrow> u32 \<Rightarrow> pb_iter \<Rightarrow> bool \<times> pb_iter" where
  "pb_field_iter_find fs tag iter = iter_find_loop (Suc (length fs)) fs tag (it_pos iter) iter"

section \<open>Encoding\<close>

fun wire_type_for :: "pb_ltype \<Rightarrow> u32" where
  "wire_type_for PB_LTYPE_FIXED32 = PB_WT_32BIT"
| "wire_type_for PB_LTYPE_FIXED64 = PB_WT_64BIT"
| "wire_type_for PB_LTYPE_BYTES = PB_WT_STRING"
| "wire_type_for PB_LTYPE_STRING = PB_WT_STRING"
| "wire_type_for PB_LTYPE_SUBMESSAGE = PB_WT_STRING"
| "wire_type_for PB_LTYPE_FIXED_LENGTH_BYTES = PB_WT_STRING"
| "wire_type_for _ = PB_WT_VARINT"

definition pb_encode_tag_for_field :: "'s pb_ostream \<Rightarrow> pb_field \<Rightarrow> bool \<times> 's pb_ostream" where
  "pb_encode_tag_for_field stream field = pb_encode_tag stream (wire_type_for (pf_ltype field)) (pf_tag field)"

type_synonym ('v, 's) encoder = "'v \<Rightarrow> 's pb_ostream \<Rightarrow> bool \<times> 's pb_ostream"

fun encode_items :: "('v, 's) encoder \<Rightarrow> 'v list \<Rightarrow> 's pb_ostream \<Rightarrow> bool \<times> 's pb_ostream" where
  "encode_items func [] stream = (True, stream)"
| "encode_items func (v # vs) stream =
     (case func v stream of (False, st) \<Rightarrow> (False, st) | (True, st) \<Rightarrow> encode_items func vs st)"

definition encode_tagged :: "pb_field \<Rightarrow> ('v, 's) encoder \<Rightarrow> ('v, 's) encoder" where
  "encode_tagged field func v stream =
     (case pb_encode_tag_for_field stream field of (False, st) \<Rightarrow> (False, st) | (True, st) \<Rightarrow> func v st)"

text \<open>The size of the packed items; fixed-width ones are not encoded for it.\<close>

definition packed_size :: "pb_field \<Rightarrow> (pb_val, 's) encoder \<Rightarrow> pb_val list \<Rightarrow> 's \<Rightarrow> nat option" where
  "packed_size field func items s =
     (if pf_ltype field = PB_LTYPE_FIXED32 then Some (sz (4 * length items))
      else if pf_ltype field = PB_LTYPE_FIXED64 then Some (sz (8 * length items))
      else
        (case encode_items func items (PB_OSTREAM_SIZING s) of
           (False, _) \<Rightarrow> None
         | (True, sizestream) \<Rightarrow> Some (os_bytes_written sizestream)))"

definition encode_array :: "'s pb_ostream \<Rightarrow> pb_field \<Rightarrow> pb_val list \<Rightarrow> nat \<Rightarrow> (pb_val, 's) encoder \<Rightarrow> bool \<times> 's pb_ostream" where
  "encode_array stream field items count func =
     (if count = 0 then (True, stream)
      else if count > pf_array_size field then os_error ''array max size exceeded'' stream
      else if packable (pf_ltype field) then
        (case pb_encode_tag stream PB_WT_STRING (pf_tag field) of
           (False, st) \<Rightarrow> (False, st)
         | (True, st) \<Rightarrow>
             (case packed_size field func (take count items) (os_state st) of
                None \<Rightarrow> (False, st)
              | Some n \<Rightarrow>
                  (case pb_encode_varint st (word_of_nat n) of
                     (False, st) \<Rightarrow> (False, st)
                   | (True, st) \<Rightarrow>
                       if os_callback st = None then (True, st\<lparr>os_bytes_written := sz (os_bytes_written st + n)\<rparr>)
                       else encode_items func (take count items) st)))
      else encode_items (encode_tagged field func) (take count items) stream)"

text \<open>Whether a field of a proto3 message has its default value and is left out.\<close>

primrec pb_check_proto3_default_value :: "pb_field \<Rightarrow> pb_slot \<Rightarrow> bool"
  and sub_default_values :: "pb_ptr \<Rightarrow> pb_slot list \<Rightarrow> bool" where
  "pb_check_proto3_default_value (Field tag lt ht has_size data_size array_size ptr) =
     (\<lambda>slot. if ht = PB_HTYPE_REQUIRED then False
        else if ht = PB_HTYPE_REPEATED then sl_count slot = 0
        else if has_size then \<not> sl_has slot
        else (case lt of
            PB_LTYPE_BYTES \<Rightarrow> val_bytes (sl_item slot) = []
          | PB_LTYPE_STRING \<Rightarrow> hd (val_bytes (sl_item slot)) = 0
          | PB_LTYPE_FIXED_LENGTH_BYTES \<Rightarrow> data_size = 0
          | PB_LTYPE_SUBMESSAGE \<Rightarrow> sub_default_values ptr (val_msg (sl_item slot))
          | PB_LTYPE_BOOL \<Rightarrow> \<not> val_bool (sl_item slot)
          | PB_LTYPE_FIXED32 \<Rightarrow> val_32 (sl_item slot) = 0
          | PB_LTYPE_FIXED64 \<Rightarrow> val_64 (sl_item slot) = 0
          | _ \<Rightarrow> val_int (sl_item slot) = 0))"
| "sub_default_values Ptr_null = (\<lambda>slots. True)"
| "sub_default_values (Ptr_default v) = (\<lambda>slots. True)"
| "sub_default_values (Ptr_fields fs) =
     (\<lambda>slots. list_all (\<lambda>(check, slot). check slot) (zip (map pb_check_proto3_default_value fs) slots))"

definition encode_basic_field :: "'s pb_ostream \<Rightarrow> pb_field \<Rightarrow> pb_slot \<Rightarrow> (pb_val, 's) encoder \<Rightarrow> bool \<times> 's pb_ostream" where
  "encode_basic_field stream field slot func =
     (let has = (if pf_has_size field then sl_has slot
                 else if pf_htype field = PB_HTYPE_OPTIONAL then \<not> pb_check_proto3_default_value field slot
                 else True)
      in case pf_htype field of
           PB_HTYPE_REQUIRED \<Rightarrow> encode_tagged field func (sl_item slot) stream
         | PB_HTYPE_OPTIONAL \<Rightarrow> if has then encode_tagged field func (sl_item slot) stream else (True, stream)
         | PB_HTYPE_REPEATED \<Rightarrow> encode_array stream field (sl_items slot) (sl_count slot) func)"

text \<open>The loop of \<open>pb_encode\<close>; each entry comes with its function of \<open>PB_ENCODERS\<close>.\<close>

fun encode_fields :: "(pb_field \<times> (pb_val, 's) encoder) list \<Rightarrow> (pb_slot list, 's) encoder" where
  "encode_fields ((field, func) # fs) (slot # slots) stream =
     (case encode_basic_field stream field slot func of (False, st) \<Rightarrow> (False, st) | (True, st) \<Rightarrow> encode_fields fs slots st)"
| "encode_fields _ _ stream = (True, stream)"

primrec pb_encoder :: "pb_field \<Rightarrow> (pb_val, 's) encoder"
  and sub_encoder :: "pb_ptr \<Rightarrow> (pb_slot list, 's) encoder option" where
  "pb_encoder (Field tag lt ht has_size data_size array_size ptr) =
     (\<lambda>v stream. case lt of
        PB_LTYPE_BOOL \<Rightarrow> pb_enc_bool stream (val_bool v)
      | PB_LTYPE_VARINT \<Rightarrow> pb_enc_varint stream data_size (val_int v)
      | PB_LTYPE_UVARINT \<Rightarrow> pb_enc_uvarint stream data_size (val_int v)
      | PB_LTYPE_SVARINT \<Rightarrow> pb_enc_svarint stream data_size (val_int v)
      | PB_LTYPE_FIXED32 \<Rightarrow> pb_enc_fixed32 stream (val_32 v)
      | PB_LTYPE_FIXED64 \<Rightarrow> pb_enc_fixed64 stream (val_64 v)
      | PB_LTYPE_BYTES \<Rightarrow> pb_enc_bytes stream False data_size (Some (val_bytes v))
      | PB_LTYPE_STRING \<Rightarrow> pb_enc_string stream False data_size (Some (val_bytes v))
      | PB_LTYPE_SUBMESSAGE \<Rightarrow> pb_enc_submessage stream (map_option (\<lambda>enc. enc (val_msg v)) (sub_encoder ptr))
      | PB_LTYPE_FIXED_LENGTH_BYTES \<Rightarrow> pb_enc_fixed_length_bytes stream (val_bytes v))"
| "sub_encoder Ptr_null = None"
| "sub_encoder (Ptr_default v) = None"
| "sub_encoder (Ptr_fields fs) = Some (encode_fields (zip fs (map pb_encoder fs)))"

definition pb_encode :: "pb_field list \<Rightarrow> (pb_slot list, 's) encoder" where
  "pb_encode fs = encode_fields (zip fs (map pb_encoder fs))"

section \<open>Default values\<close>

text \<open>A field of zero bytes, in a slot whose items are as long as those it has.\<close>

fun zero_val :: "pb_ltype \<Rightarrow> nat \<Rightarrow> pb_val" where
  "zero_val PB_LTYPE_BOOL data_size = Val_bool False"
| "zero_val PB_LTYPE_FIXED32 data_size = Val_32 0"
| "zero_val PB_LTYPE_FIXED64 data_size = Val_64 0"
| "zero_val PB_LTYPE_BYTES data_size = Val_bytes []"
| "zero_val PB_LTYPE_STRING data_size = Val_bytes (replicate data_size 0)"
| "zero_val PB_LTYPE_FIXED_LENGTH_BYTES data_size = Val_bytes (replicate data_size 0)"
| "zero_val _ data_size = Val_int 0"

primrec pb_field_set_to_default :: "pb_field \<Rightarrow> pb_slot \<Rightarrow> pb_slot"
  and sub_set_to_defaults :: "pb_ptr \<Rightarrow> pb_slot list \<Rightarrow> pb_slot list" where
  "pb_field_set_to_default (Field tag lt ht has_size data_size array_size ptr) =
     (\<lambda>slot. if ht = PB_HTYPE_REPEATED then Slot (sl_has slot) 0 (sl_items slot)
        else
          Slot (if ht = PB_HTYPE_OPTIONAL \<and> has_size then False else sl_has slot) (sl_count slot)
            [if lt = PB_LTYPE_SUBMESSAGE then Val_msg (sub_set_to_defaults ptr (val_msg (sl_item slot)))
             else case ptr of Ptr_default v \<Rightarrow> v | _ \<Rightarrow> zero_val lt data_size])"
| "sub_set_to_defaults Ptr_null = (\<lambda>slots. slots)"
| "sub_set_to_defaults (Ptr_default v) = (\<lambda>slots. slots)"
| "sub_set_to_defaults (Ptr_fields fs) = (\<lambda>slots. map2 (\<lambda>f slot. f slot) (map pb_field_set_to_default fs) slots)"

definition pb_message_set_to_defaults :: "pb_field list \<Rightarrow> pb_slot list \<Rightarrow> pb_slot list" where
  "pb_message_set_to_defaults fs slots = map2 pb_field_set_to_default fs slots"

section \<open>Decoding\<close>

text \<open>A decoder gets what is stored where its result goes.\<close>

type_synonym ('v, 's) decoder = "'v \<Rightarrow> 's pb_istream \<Rightarrow> 'v option \<times> 's pb_istream"

text \<open>The items of a packed array; the result says whether all were decoded.\<close>

function packed_loop :: "(pb_val, 's) decoder \<Rightarrow> nat \<Rightarrow> pb_slot \<Rightarrow> 's pb_istream \<Rightarrow> bool \<times> pb_slot \<times> 's pb_istream" where
  "packed_loop func array_size slot substream =
     (if is_bytes_left substream > 0 \<and> sl_count slot < array_size then
        (case func (sl_items slot ! sl_count slot) substream of
           (None, sub) \<Rightarrow> (False, slot, sub)
         | (Some v, sub) \<Rightarrow>
             packed_loop func array_size
               (Slot (sl_has slot) (sl_count slot + 1) ((sl_items slot)[sl_count slot := v])) sub)
      else (True, slot, substream))"
  by pat_completeness auto
termination by (relation "measure (\<lambda>(_, array_size, slot, _). array_size - sl_count slot)") auto

declare packed_loop.simps [simp del]

definition decode_static_field :: "pb_field \<Rightarrow> (pb_val, 's) decoder \<Rightarrow> u32 \<Rightarrow> (pb_slot, 's) decoder" where
  "decode_static_field field func wire_type slot stream =
     (case pf_htype field of
        PB_HTYPE_REQUIRED \<Rightarrow>
          (case func (sl_item slot) stream of
             (None, st) \<Rightarrow> (None, st)
           | (Some v, st) \<Rightarrow> (Some (Slot (sl_has slot) (sl_count slot) [v]), st))
      | PB_HTYPE_OPTIONAL \<Rightarrow>
          (case func (sl_item slot) stream of
             (None, st) \<Rightarrow> (None, st)
           | (Some v, st) \<Rightarrow> (Some (Slot (pf_has_size field \<or> sl_has slot) (sl_count slot) [v]), st))
      | PB_HTYPE_REPEATED \<Rightarrow>
          if wire_type = PB_WT_STRING \<and> packable (pf_ltype field) then
            (case pb_make_string_substream stream of
               (None, st) \<Rightarrow> (None, st)
             | (Some substream, st) \<Rightarrow>
                 (case packed_loop func (pf_array_size field) slot substream of
                    (status, slot', sub) \<Rightarrow>
                      if is_bytes_left sub \<noteq> 0 then is_error ''array overflow'' st
                      else
                        (case pb_close_string_substream st sub of
                           (False, st') \<Rightarrow> (None, st')
                         | (True, st') \<Rightarrow> (if status then Some slot' else None, st'))))
          else if sl_count slot \<ge> pf_array_size field then is_error ''array overflow'' stream
          else
            (case func (sl_items slot ! sl_count slot) stream of
               (None, st) \<Rightarrow> (None, st)
             | (Some v, st) \<Rightarrow>
                 (Some (Slot (sl_has slot) (sl_count slot + 1) ((sl_items slot)[sl_count slot := v])), st)))"

definition PB_MAX_REQUIRED_FIELDS :: nat where
  "PB_MAX_REQUIRED_FIELDS = 64"

text \<open>A field that is required is noted in the array of bits \<open>fields_seen\<close>.\<close>

definition mark_seen :: "pb_field list \<Rightarrow> pb_iter \<Rightarrow> u32 list \<Rightarrow> u32 list" where
  "mark_seen fs iter seen =
     (if pf_htype (field_at fs (it_pos iter)) = PB_HTYPE_REQUIRED \<and> it_required iter < PB_MAX_REQUIRED_FIELDS
      then
        (let i = drop_bit 5 (it_required iter)
         in seen[i := seen ! i OR push_bit (it_required iter AND 31) 1])
      else seen)"

text \<open>The entry that ends the table is read as a field of type bool, which is stored outside the slots.\<close>

definition last_decoder :: "(pb_val, 's) decoder" where
  "last_decoder old stream =
     (case pb_dec_bool stream of (None, st) \<Rightarrow> (None, st) | (Some b, st) \<Rightarrow> (Some (Val_bool b), st))"

definition last_slot :: pb_slot where
  "last_slot = Slot False 0 [Val_bool False]"

text \<open>
  The loop over the fields of a message; \<open>decs\<close> are the functions of \<open>PB_DECODERS\<close> for the entries. Each round
  takes a byte, so that \<open>n\<close> rounds are enough for fewer than \<open>n\<close> bytes. A message without extensions has no field
  for an unknown tag.
\<close>

fun decode_loop ::
  "nat \<Rightarrow> pb_field list \<Rightarrow> (pb_val, 's) decoder list \<Rightarrow> pb_iter \<Rightarrow> u32 list \<Rightarrow> pb_slot list \<Rightarrow> 's pb_istream \<Rightarrow>
     (pb_iter \<times> u32 list \<times> pb_slot list) option \<times> 's pb_istream" where
  "decode_loop 0 fs decs iter seen msg stream = (None, stream)"
| "decode_loop (Suc n) fs decs iter seen msg stream =
     (if is_bytes_left stream = 0 then (Some (iter, seen, msg), stream)
      else
        (case pb_decode_tag stream of
           (None, eof, st) \<Rightarrow> (if eof then Some (iter, seen, msg) else None, st)
         | (Some (wire_type, tag), _, st) \<Rightarrow>
             (case pb_field_iter_find fs tag iter of
                (False, iter') \<Rightarrow>
                  (case pb_skip_field st wire_type of
                     (False, st') \<Rightarrow> (None, st')
                   | (True, st') \<Rightarrow> decode_loop n fs decs iter' seen msg st')
              | (True, iter') \<Rightarrow>
                  (case decode_static_field (field_at fs (it_pos iter')) (nth_default last_decoder decs (it_pos iter'))
                      wire_type (nth_default last_slot msg (it_pos iter')) st of
                     (None, st') \<Rightarrow> (None, st')
                   | (Some slot, st') \<Rightarrow>
                       decode_loop n fs decs iter' (mark_seen fs iter' seen) (msg[it_pos iter' := slot]) st'))))"

lemma iter_next_pos:
  "pb_field_iter_next fs iter = (True, iter') \<Longrightarrow> it_pos iter' = it_pos iter + 1 \<and> it_pos iter + 1 < length fs"
  by (auto simp: pb_field_iter_next_def Let_def field_at_def nth_default_def PB_LAST_FIELD_def split: if_splits)

text \<open>The number of required fields before the last entry and the type of that entry, and the iterator after it.\<close>

function last_field_loop :: "pb_field list \<Rightarrow> pb_iter \<Rightarrow> nat \<times> pb_htype \<times> pb_iter" where
  "last_field_loop fs iter =
     (case pb_field_iter_next fs iter of
        (True, iter') \<Rightarrow> last_field_loop fs iter'
      | (False, iter') \<Rightarrow> (it_required iter, pf_htype (field_at fs (it_pos iter)), iter'))"
  by pat_completeness auto
termination
  by (relation "measure (\<lambda>(fs, iter). length fs - it_pos iter)") (auto dest!: iter_next_pos [OF sym])

declare last_field_loop.simps [simp del]

definition required_fields_present :: "pb_field list \<Rightarrow> pb_iter \<Rightarrow> u32 list \<Rightarrow> bool" where
  "required_fields_present fs iter seen =
     (case last_field_loop fs iter of
        (count, last_type, iter') \<Rightarrow>
          (let count1 = (if last_type = PB_HTYPE_REQUIRED \<and> pf_tag (field_at fs (it_pos iter')) \<noteq> 0 then count + 1 else count);
               req_field_count = (if count1 > PB_MAX_REQUIRED_FIELDS then PB_MAX_REQUIRED_FIELDS else count1)
           in list_all (\<lambda>i. seen ! i = NOT 0) [0..<drop_bit 5 req_field_count] \<and>
              (req_field_count AND 31 \<noteq> 0 \<longrightarrow>
                 seen ! drop_bit 5 req_field_count = drop_bit (32 - (req_field_count AND 31)) (NOT 0))))"

definition decode_message :: "pb_field list \<Rightarrow> (pb_val, 's) decoder list \<Rightarrow> (pb_slot list, 's) decoder" where
  "decode_message fs decs msg stream =
     (case decode_loop (Suc (is_bytes_left stream)) fs decs (snd (pb_field_iter_begin fs)) [0, 0] msg stream of
        (None, st) \<Rightarrow> (None, st)
      | (Some (iter, seen, msg'), st) \<Rightarrow>
          if required_fields_present fs iter seen then (Some msg', st) else is_error ''missing required field'' st)"

text \<open>Items of an array are set to their defaults first, other submessages have been with the message.\<close>

primrec pb_decoder :: "pb_field \<Rightarrow> (pb_val, 's) decoder"
  and sub_decoder :: "pb_ptr \<Rightarrow> (pb_slot list, 's) decoder option" where
  "pb_decoder (Field tag lt ht has_size data_size array_size ptr) =
     (\<lambda>old stream.
        let int_result = (\<lambda>(ok, v, st). (if ok then map_option Val_int v else None, st));
            result = (\<lambda>(v, st). (map_option Val_bytes v, st))
        in case lt of
             PB_LTYPE_BOOL \<Rightarrow> (case pb_dec_bool stream of (v, st) \<Rightarrow> (map_option Val_bool v, st))
           | PB_LTYPE_VARINT \<Rightarrow> int_result (pb_dec_varint stream data_size)
           | PB_LTYPE_UVARINT \<Rightarrow> int_result (pb_dec_uvarint stream data_size)
           | PB_LTYPE_SVARINT \<Rightarrow> int_result (pb_dec_svarint stream data_size)
           | PB_LTYPE_FIXED32 \<Rightarrow> (case pb_dec_fixed32 stream of (v, st) \<Rightarrow> (map_option Val_32 v, st))
           | PB_LTYPE_FIXED64 \<Rightarrow> (case pb_dec_fixed64 stream of (v, st) \<Rightarrow> (map_option Val_64 v, st))
           | PB_LTYPE_BYTES \<Rightarrow> result (pb_dec_bytes stream (Inl data_size))
           | PB_LTYPE_STRING \<Rightarrow>
               (case pb_dec_string stream (Inl data_size) of
                  (None, st) \<Rightarrow> (None, st)
                | (Some cs, st) \<Rightarrow> (Some (Val_bytes (cs @ drop (length cs) (val_bytes old))), st))
           | PB_LTYPE_SUBMESSAGE \<Rightarrow>
               (case pb_dec_submessage stream
                  (map_option (\<lambda>dec. dec (if ht = PB_HTYPE_REPEATED then sub_set_to_defaults ptr (val_msg old) else val_msg old))
                    (sub_decoder ptr)) of
                  (v, st) \<Rightarrow> (map_option Val_msg v, st))
           | PB_LTYPE_FIXED_LENGTH_BYTES \<Rightarrow> result (pb_dec_fixed_length_bytes stream data_size))"
| "sub_decoder Ptr_null = None"
| "sub_decoder (Ptr_default v) = None"
| "sub_decoder (Ptr_fields fs) = Some (decode_message fs (map pb_decoder fs))"

definition pb_decode_noinit :: "pb_field list \<Rightarrow> (pb_slot list, 's) decoder" where
  "pb_decode_noinit fs = decode_message fs (map pb_decoder fs)"

definition pb_decode :: "pb_field list \<Rightarrow> (pb_slot list, 's) decoder" where
  "pb_decode fs msg stream = pb_decode_noinit fs (pb_message_set_to_defaults fs msg) stream"

definition pb_decode_delimited_noinit :: "pb_field list \<Rightarrow> (pb_slot list, 's) decoder" where
  "pb_decode_delimited_noinit fs msg stream = pb_dec_submessage stream (Some (pb_decode_noinit fs msg))"

definition pb_decode_delimited :: "pb_field list \<Rightarrow> (pb_slot list, 's) decoder" where
  "pb_decode_delimited fs msg stream = pb_dec_submessage stream (Some (pb_decode fs msg))"

definition pb_decode_nullterminated :: "pb_field list \<Rightarrow> (pb_slot list, 's) decoder" where
  "pb_decode_nullterminated fs msg stream = pb_decode fs msg stream"

end
