(* ===== verification/PbContent.thy ===== *)
theory PbContent
  imports PbCodec PbMessage
begin

text \<open>
  What a message says, apart from how it is stored: for each field of its table the values that are present. The
  bytes of a content, and that \<open>pb_encode\<close> writes them.
\<close>

section \<open>Contents\<close>

datatype content =
    C_bool bool
  | C_int int
  | C_32 u32
  | C_64 u64
  | C_bytes "u8 list"
  | C_msg "content list list"

fun content_fields :: "content \<Rightarrow> content list list" where
  "content_fields (C_msg css) = css"
| "content_fields _ = []"

text \<open>A singular field of proto3 is present when it is not zero; it is zero when nothing in it is present.\<close>

fun zero_content :: "pb_field \<Rightarrow> content \<Rightarrow> bool" where
  "zero_content (Field tag lt ht hs ds n ptr) c =
     (case lt of
        PB_LTYPE_FIXED_LENGTH_BYTES \<Rightarrow> ds = 0
      | _ \<Rightarrow> (case c of
          C_bool b \<Rightarrow> \<not> b
        | C_int i \<Rightarrow> i = 0
        | C_32 w \<Rightarrow> w = 0
        | C_64 w \<Rightarrow> w = 0
        | C_bytes bs \<Rightarrow> bs = []
        | C_msg css \<Rightarrow> (case ptr of
            Ptr_fields fs \<Rightarrow> list_all (\<lambda>(f, cs). pf_htype f \<noteq> PB_HTYPE_REQUIRED \<and> cs = []) (zip fs css)
          | _ \<Rightarrow> True)))"

text \<open>The values of a slot that are present, given the content of each item.\<close>

definition present :: "pb_field \<Rightarrow> (pb_val \<Rightarrow> content) \<Rightarrow> pb_slot \<Rightarrow> content list" where
  "present f content slot =
     (case pf_htype f of
        PB_HTYPE_REQUIRED \<Rightarrow> [content (sl_item slot)]
      | PB_HTYPE_OPTIONAL \<Rightarrow>
          if (if pf_has_size f then sl_has slot else \<not> zero_content f (content (sl_item slot)))
          then [content (sl_item slot)] else []
      | PB_HTYPE_REPEATED \<Rightarrow> map content (take (sl_count slot) (sl_items slot)))"

primrec val_content :: "pb_field \<Rightarrow> pb_val \<Rightarrow> content"
  and sub_content :: "pb_ptr \<Rightarrow> pb_slot list \<Rightarrow> content list list" where
  "val_content (Field tag lt ht hs ds n ptr) =
     (\<lambda>v. case lt of
        PB_LTYPE_BOOL \<Rightarrow> C_bool (val_bool v)
      | PB_LTYPE_FIXED32 \<Rightarrow> C_32 (val_32 v)
      | PB_LTYPE_FIXED64 \<Rightarrow> C_64 (val_64 v)
      | PB_LTYPE_BYTES \<Rightarrow> C_bytes (val_bytes v)
      | PB_LTYPE_FIXED_LENGTH_BYTES \<Rightarrow> C_bytes (val_bytes v)
      | PB_LTYPE_STRING \<Rightarrow> C_bytes (takeWhile (\<lambda>c. c \<noteq> 0) (val_bytes v))
      | PB_LTYPE_SUBMESSAGE \<Rightarrow> C_msg (sub_content ptr (val_msg v))
      | _ \<Rightarrow> C_int (val_int v))"
| "sub_content Ptr_null = (\<lambda>slots. [])"
| "sub_content (Ptr_default v) = (\<lambda>slots. [])"
| "sub_content (Ptr_fields fs) = (\<lambda>slots. map2 (\<lambda>(f, content) slot. present f content slot) (zip fs (map val_content fs)) slots)"

definition slot_content :: "pb_field \<Rightarrow> pb_slot \<Rightarrow> content list" where
  "slot_content f slot = present f (val_content f) slot"

definition msg_content :: "pb_field list \<Rightarrow> pb_slot list \<Rightarrow> content list list" where
  "msg_content fs slots = map2 slot_content fs slots"

lemma sub_content_fields: "sub_content (Ptr_fields fs) slots = msg_content fs slots"
proof -
  have "map2 (\<lambda>(f, content) slot. present f content slot) (zip fs (map val_content fs)) slots = map2 slot_content fs slots"
    by (rule nth_equalityI) (simp_all add: slot_content_def)
  then show ?thesis by (simp add: msg_content_def)
qed

section \<open>Bytes\<close>

definition field_bytes :: "pb_field \<Rightarrow> (content \<Rightarrow> u8 list) \<Rightarrow> content list \<Rightarrow> u8 list" where
  "field_bytes f bytes cs =
     (if pf_htype f = PB_HTYPE_REPEATED \<and> packable (pf_ltype f) then
        (if cs = [] then [] else tag_bytes PB_WT_STRING (pf_tag f) @ lv_bytes (concat (map bytes cs)))
      else concat (map (\<lambda>c. tag_bytes (wire_type_for (pf_ltype f)) (pf_tag f) @ bytes c) cs))"

fun scalar_bytes :: "pb_ltype \<Rightarrow> content \<Rightarrow> u8 list" where
  "scalar_bytes lt (C_bool b) = [if b then 1 else 0]"
| "scalar_bytes lt (C_int i) =
     varint_bytes (unat (if lt = PB_LTYPE_SVARINT then zigzag (int_word i) else int_word i))"
| "scalar_bytes lt (C_32 w) = le_bytes 4 w"
| "scalar_bytes lt (C_64 w) = le_bytes 8 w"
| "scalar_bytes lt (C_bytes bs) = lv_bytes bs"
| "scalar_bytes lt (C_msg css) = []"

primrec content_bytes :: "pb_field \<Rightarrow> content \<Rightarrow> u8 list"
  and sub_bytes :: "pb_ptr \<Rightarrow> content list list \<Rightarrow> u8 list" where
  "content_bytes (Field tag lt ht hs ds n ptr) =
     (\<lambda>c. if lt = PB_LTYPE_SUBMESSAGE then lv_bytes (sub_bytes ptr (content_fields c)) else scalar_bytes lt c)"
| "sub_bytes Ptr_null = (\<lambda>css. [])"
| "sub_bytes (Ptr_default v) = (\<lambda>css. [])"
| "sub_bytes (Ptr_fields fs) = (\<lambda>css. concat (map2 (\<lambda>(f, bytes) cs. field_bytes f bytes cs) (zip fs (map content_bytes fs)) css))"

definition msg_bytes :: "pb_field list \<Rightarrow> content list list \<Rightarrow> u8 list" where
  "msg_bytes fs css = concat (map2 (\<lambda>f cs. field_bytes f (content_bytes f) cs) fs css)"

lemma sub_bytes_fields: "sub_bytes (Ptr_fields fs) css = msg_bytes fs css"
proof -
  have "map2 (\<lambda>(f, bytes) cs. field_bytes f bytes cs) (zip fs (map content_bytes fs)) css =
      map2 (\<lambda>f cs. field_bytes f (content_bytes f) cs) fs css"
    by (rule nth_equalityI) simp_all
  then show ?thesis by (simp add: msg_bytes_def)
qed

section \<open>Tables and structures that go together\<close>

fun scalar_typed :: "pb_ltype \<Rightarrow> nat \<Rightarrow> pb_val \<Rightarrow> bool" where
  "scalar_typed PB_LTYPE_BOOL ds v \<longleftrightarrow> is_Val_bool v"
| "scalar_typed PB_LTYPE_VARINT ds v \<longleftrightarrow> is_Val_int v \<and> signed_dom ds (val_int v)"
| "scalar_typed PB_LTYPE_UVARINT ds v \<longleftrightarrow> is_Val_int v \<and> unsigned_dom ds (val_int v)"
| "scalar_typed PB_LTYPE_SVARINT ds v \<longleftrightarrow> is_Val_int v \<and> signed_dom ds (val_int v)"
| "scalar_typed PB_LTYPE_FIXED32 ds v \<longleftrightarrow> is_Val_32 v"
| "scalar_typed PB_LTYPE_FIXED64 ds v \<longleftrightarrow> is_Val_64 v"
| "scalar_typed PB_LTYPE_BYTES ds v \<longleftrightarrow> is_Val_bytes v \<and> length (val_bytes v) + 4 \<le> ds"
| "scalar_typed PB_LTYPE_STRING ds v \<longleftrightarrow> is_Val_bytes v \<and> length (val_bytes v) = ds \<and> 0 \<in> set (val_bytes v)"
| "scalar_typed PB_LTYPE_FIXED_LENGTH_BYTES ds v \<longleftrightarrow> is_Val_bytes v \<and> length (val_bytes v) = ds"
| "scalar_typed PB_LTYPE_SUBMESSAGE ds v \<longleftrightarrow> False"

text \<open>A table as the generator of nanopb makes it: arrays have a count, and a singular field has no default value but zero.\<close>

primrec field_ok :: "pb_field \<Rightarrow> bool"
  and ptr_ok :: "pb_ptr \<Rightarrow> bool" where
  "field_ok (Field tag lt ht hs ds n ptr) \<longleftrightarrow>
     0 < tag \<and> tag < 2 ^ 29 \<and> ds < 2 ^ 32 \<and> n < 2 ^ 32 \<and> (ht = PB_HTYPE_REPEATED \<longrightarrow> hs) \<and>
     (if lt = PB_LTYPE_SUBMESSAGE then ptr_ok ptr
      else scalar_typed lt ds (zero_val lt ds) \<and>
        (case ptr of
           Ptr_null \<Rightarrow> True
         | Ptr_default v \<Rightarrow> scalar_typed lt ds v \<and> (ht = PB_HTYPE_OPTIONAL \<longrightarrow> hs)
         | Ptr_fields fs \<Rightarrow> False))"
| "ptr_ok Ptr_null \<longleftrightarrow> False"
| "ptr_ok (Ptr_default v) \<longleftrightarrow> False"
| "ptr_ok (Ptr_fields fs) \<longleftrightarrow> list_all (\<lambda>b. b) (map field_ok fs) \<and> distinct (map pf_tag fs)"

definition fields_ok :: "pb_field list \<Rightarrow> bool" where
  "fields_ok fs \<longleftrightarrow> list_all field_ok fs \<and> distinct (map pf_tag fs)"

lemma ptr_ok_fields: "ptr_ok (Ptr_fields fs) \<longleftrightarrow> fields_ok fs"
  by (simp add: fields_ok_def list_all_iff)

text \<open>What a C program may have stored in a structure.\<close>

definition slot_typed :: "pb_field \<Rightarrow> (pb_val \<Rightarrow> bool) \<Rightarrow> pb_slot \<Rightarrow> bool" where
  "slot_typed f typed slot \<longleftrightarrow>
     length (sl_items slot) = (if pf_htype f = PB_HTYPE_REPEATED then pf_array_size f else 1) \<and>
     (\<forall>v \<in> set (sl_items slot). typed v) \<and>
     (pf_htype f = PB_HTYPE_REPEATED \<longrightarrow> sl_count slot \<le> pf_array_size f)"

primrec val_typed :: "pb_field \<Rightarrow> pb_val \<Rightarrow> bool"
  and sub_typed :: "pb_ptr \<Rightarrow> pb_slot list \<Rightarrow> bool" where
  "val_typed (Field tag lt ht hs ds n ptr) =
     (\<lambda>v. if lt = PB_LTYPE_SUBMESSAGE then is_Val_msg v \<and> sub_typed ptr (val_msg v) else scalar_typed lt ds v)"
| "sub_typed Ptr_null = (\<lambda>slots. False)"
| "sub_typed (Ptr_default v) = (\<lambda>slots. False)"
| "sub_typed (Ptr_fields fs) =
     (\<lambda>slots. list_all2 (\<lambda>(f, typed) slot. slot_typed f typed slot) (zip fs (map val_typed fs)) slots)"

definition msg_typed :: "pb_field list \<Rightarrow> pb_slot list \<Rightarrow> bool" where
  "msg_typed fs slots \<longleftrightarrow> list_all2 (\<lambda>f slot. slot_typed f (val_typed f) slot) fs slots"

lemma sub_typed_fields: "sub_typed (Ptr_fields fs) slots \<longleftrightarrow> msg_typed fs slots"
  by (simp add: msg_typed_def list_all2_conv_all_nth)

text \<open>Induction on a field and the fields of its submessage.\<close>

lemma field_induct:
  assumes "\<And>tag lt ht hs ds n ptr. (\<And>fs f. ptr = Ptr_fields fs \<Longrightarrow> f \<in> set fs \<Longrightarrow> P f) \<Longrightarrow> P (Field tag lt ht hs ds n ptr)"
  shows "P f"
proof -
  have "P f" "\<forall>fs. p = Ptr_fields fs \<longrightarrow> (\<forall>f \<in> set fs. P f)" for f p
    by (induction f and p) (auto intro: assms)
  then show ?thesis by blast
qed

section \<open>Writing a message\<close>

lemma msg_typed_nth:
  assumes "msg_typed fs slots"
  shows "length slots = length fs" "i < length fs \<Longrightarrow> slot_typed (fs ! i) (val_typed (fs ! i)) (slots ! i)"
  using assms by (auto simp: msg_typed_def list_all2_conv_all_nth)

lemma slot_typed_item:
  assumes "slot_typed f typed slot" "pf_htype f \<noteq> PB_HTYPE_REPEATED"
  shows "\<exists>v. sl_items slot = [v] \<and> sl_item slot = v \<and> typed v"
  using assms by (cases "sl_items slot") (auto simp: slot_typed_def sl_item_def)

lemma takeWhile_nonzero_Nil: "0 \<in> set bs \<Longrightarrow> takeWhile (\<lambda>c. c \<noteq> 0) bs = [] \<longleftrightarrow> hd bs = (0 :: u8)"
  by (cases bs) auto

text \<open>The check of the code is whether something is present.\<close>

lemma check_default_iff:
  "field_ok f \<Longrightarrow> slot_typed f (val_typed f) slot \<Longrightarrow>
     pb_check_proto3_default_value f slot \<longleftrightarrow> pf_htype f \<noteq> PB_HTYPE_REQUIRED \<and> slot_content f slot = []"
proof (induction f arbitrary: slot rule: field_induct)
  case (1 tag lt ht hs ds n ptr)
  let ?f = "Field tag lt ht hs ds n ptr"
  show ?case
  proof (cases "ht = PB_HTYPE_OPTIONAL \<and> \<not> hs")
    case True
    then obtain v where v: "sl_items slot = [v]" "sl_item slot = v" "val_typed ?f v"
      using slot_typed_item [OF 1(3)] by auto
    have "pb_check_proto3_default_value ?f slot \<longleftrightarrow> zero_content ?f (val_content ?f v)"
    proof (cases "lt = PB_LTYPE_SUBMESSAGE")
      case lt: True
      then obtain fs where fs: "ptr = Ptr_fields fs" using 1(2) by (cases ptr) auto
      have ok: "fields_ok fs" and typed: "msg_typed fs (val_msg v)"
        using 1(2) v(3) lt fs ptr_ok_fields sub_typed_fields by auto
      have "list_all (\<lambda>(check, slot). check slot) (zip (map pb_check_proto3_default_value fs) (val_msg v)) \<longleftrightarrow>
          list_all (\<lambda>(f, cs). pf_htype f \<noteq> PB_HTYPE_REQUIRED \<and> cs = []) (zip fs (msg_content fs (val_msg v)))"
      proof -
        have "pb_check_proto3_default_value (fs ! i) (val_msg v ! i) \<longleftrightarrow>
            pf_htype (fs ! i) \<noteq> PB_HTYPE_REQUIRED \<and> slot_content (fs ! i) (val_msg v ! i) = []"
          if "i < length fs" for i
          using that ok msg_typed_nth [OF typed] by (intro 1(1) [OF fs]) (auto simp: fields_ok_def list_all_length)
        then show ?thesis
          using msg_typed_nth(1) [OF typed] by (auto simp: list_all_length msg_content_def)
      qed
      then show ?thesis using True lt fs v(2) by (simp add: sub_content_fields del: sub_content.simps)
    next
      case lt: False
      then have "scalar_typed lt ds v" using v(3) by simp
      then show ?thesis using True lt v(2) by (cases lt) (auto simp: takeWhile_nonzero_Nil)
    qed
    moreover have "slot_content ?f slot = (if zero_content ?f (val_content ?f v) then [] else [val_content ?f v])"
      using True v(2) by (simp add: slot_content_def present_def del: zero_content.simps val_content.simps)
    ultimately show ?thesis
      using True by (simp del: zero_content.simps val_content.simps pb_check_proto3_default_value.simps)
  next
    case False
    then show ?thesis
      using 1(3) by (cases ht) (auto simp: slot_content_def present_def slot_typed_def)
  qed
qed

lemma encodes_nothing: "encodes (\<lambda>st. (True, st)) []"
  by (rule encodesI) simp_all

lemma encodes_items:
  "\<forall>v \<in> set vs. encodes (func v) (b v) \<Longrightarrow> encodes (encode_items func vs) (concat (map b vs))"
proof (induction vs)
  case Nil
  have "encode_items func [] = (\<lambda>st. (True, st))" by (rule ext) simp
  then show ?case using encodes_nothing by simp
next
  case (Cons v vs)
  then have "encodes (\<lambda>st. case func v st of (False, st') \<Rightarrow> (False, st') | (True, st') \<Rightarrow> encode_items func vs st')
      (b v @ concat (map b vs))"
    by (intro encodes_then) auto
  then show ?case by simp
qed

lemma encodes_too_long: "2 ^ 64 \<le> length bs \<Longrightarrow> encodes f bs"
  by (rule encodesI) simp_all

text \<open>Something written after its size, which a counting stream need not write.\<close>

lemma encodes_sized:
  assumes g: "encodes g bs" and size: "\<And>s. length bs < 2 ^ 64 \<Longrightarrow> sizef s = Some (length bs)"
  shows "encodes (\<lambda>st. case sizef (os_state st) of
      None \<Rightarrow> (False, st)
    | Some n \<Rightarrow>
        (case pb_encode_varint st (word_of_nat n) of
           (False, st) \<Rightarrow> (False, st)
         | (True, st) \<Rightarrow>
             if os_callback st = None then (True, st\<lparr>os_bytes_written := sz (os_bytes_written st + n)\<rparr>) else g st))
    (lv_bytes bs)"
proof (cases "length bs < 2 ^ 64")
  case False
  then show ?thesis by (intro encodes_too_long) (simp add: lv_bytes_def)
next
  case small: True
  let ?g = "\<lambda>st. if os_callback st = None then (True, st\<lparr>os_bytes_written := sz (os_bytes_written st + length bs)\<rparr>) else g st"
  have "encodes ?g bs"
  proof (rule encodesI)
    fix w n xs assume "w + length bs \<le> n" "n < 2 ^ 64"
    then show "?g (out_at n w xs) = (True, out_at n (w + length bs) (xs @ bs))" using encodesD(1) [OF g] by simp
  next
    fix w n xs assume "w \<le> n" "n < w + length bs" "w + length bs < 2 ^ 64"
    then show "\<not> fst (?g (out_at n w xs))" using encodesD(2) [OF g] by simp
  next
    fix w s assume "w + length bs < 2 ^ 64"
    then show "?g (sizing w s) = (True, sizing (w + length bs) s)" by (simp add: sizing_def)
  qed
  from encodes_then [OF encodes_varint this, of "word_of_nat (length bs)"]
  show ?thesis unfolding size [OF small] lv_bytes_def submessage_bytes_eq [OF small] by simp
qed

lemma tag_dom_field: "field_ok f \<Longrightarrow> tag_dom (wire_type_for (pf_ltype f)) (pf_tag f) \<and> tag_dom PB_WT_STRING (pf_tag f)"
  by (cases f; cases "pf_ltype f") (auto simp: tag_dom_def wire_types)

lemma encodes_tagged:
  assumes "field_ok f" "encodes (func v) bs"
  shows "encodes (encode_tagged f func v) (tag_bytes (wire_type_for (pf_ltype f)) (pf_tag f) @ bs)"
proof -
  have "encodes (\<lambda>st. pb_encode_tag_for_field st f) (tag_bytes (wire_type_for (pf_ltype f)) (pf_tag f))"
    unfolding pb_encode_tag_for_field_def using tag_dom_field [OF assms(1)] by (intro encodes_tag_bytes) simp
  from encodes_then [OF this assms(2)] show ?thesis by (simp add: encode_tagged_def [abs_def])
qed

lemma packed_size_eq:
  assumes "encodes (encode_items func vs) (concat (map b vs))" "length (concat (map b vs)) < 2 ^ 64"
    and "\<And>v. v \<in> set vs \<Longrightarrow> pf_ltype f = PB_LTYPE_FIXED32 \<Longrightarrow> length (b v) = 4"
    and "\<And>v. v \<in> set vs \<Longrightarrow> pf_ltype f = PB_LTYPE_FIXED64 \<Longrightarrow> length (b v) = 8"
  shows "packed_size f func vs s = Some (length (concat (map b vs)))"
proof -
  have len: "length (concat (map b vs)) = k * length vs" if "\<forall>v \<in> set vs. length (b v) = k" for k
    using that by (induction vs) (auto simp: algebra_simps)
  consider "pf_ltype f = PB_LTYPE_FIXED32" | "pf_ltype f = PB_LTYPE_FIXED64"
    | "pf_ltype f \<noteq> PB_LTYPE_FIXED32" "pf_ltype f \<noteq> PB_LTYPE_FIXED64" by blast
  then show ?thesis
  proof cases
    case 1
    then show ?thesis using len [of 4] assms(2,3) by (auto simp: packed_size_def)
  next
    case 2
    then show ?thesis using len [of 8] assms(2,4) by (auto simp: packed_size_def)
  next
    case 3
    then show ?thesis
      using encodesD(3) [OF assms(1), of 0 s] assms(2) by (simp add: packed_size_def stream_starts)
  qed
qed

lemma encodes_array:
  assumes "field_ok f" "pf_htype f = PB_HTYPE_REPEATED" "count \<le> pf_array_size f" "count \<le> length items"
    and items: "\<And>v. v \<in> set items \<Longrightarrow> encodes (func v) (bytes (content v))"
    and "\<And>v. v \<in> set items \<Longrightarrow> pf_ltype f = PB_LTYPE_FIXED32 \<Longrightarrow> length (bytes (content v)) = 4"
    and "\<And>v. v \<in> set items \<Longrightarrow> pf_ltype f = PB_LTYPE_FIXED64 \<Longrightarrow> length (bytes (content v)) = 8"
  shows "encodes (\<lambda>st. encode_array st f items count func) (field_bytes f bytes (map content (take count items)))"
proof (cases "count = 0")
  case True
  then show ?thesis using encodes_nothing by (simp add: encode_array_def field_bytes_def)
next
  case False
  let ?vs = "take count items"
  have vs: "v \<in> set items" if "v \<in> set ?vs" for v using that in_set_takeD by fast
  have ne: "?vs \<noteq> []" using False assms(4) by (cases items) auto
  have payload: "encodes (encode_items func ?vs) (concat (map (\<lambda>v. bytes (content v)) ?vs))"
    using items vs by (intro encodes_items) blast
  show ?thesis
  proof (cases "packable (pf_ltype f)")
    case True
    have tag: "encodes (\<lambda>st. pb_encode_tag st PB_WT_STRING (pf_tag f)) (tag_bytes PB_WT_STRING (pf_tag f))"
      using tag_dom_field [OF assms(1)] by (intro encodes_tag_bytes) simp
    have "packed_size f func ?vs s = Some (length (concat (map (\<lambda>v. bytes (content v)) ?vs)))"
      if "length (concat (map (\<lambda>v. bytes (content v)) ?vs)) < 2 ^ 64" for s
      using that assms(6,7) vs by (intro packed_size_eq [OF payload]) auto
    note sized = encodes_sized [OF payload, of "packed_size f func ?vs", OF this]
    have eq: "(\<lambda>st. encode_array st f items count func) =
      (\<lambda>st. case pb_encode_tag st PB_WT_STRING (pf_tag f) of (False, st') \<Rightarrow> (False, st')
        | (True, st') \<Rightarrow>
           (case packed_size f func ?vs (os_state st') of
              None \<Rightarrow> (False, st')
            | Some n \<Rightarrow>
                (case pb_encode_varint st' (word_of_nat n) of
                   (False, st) \<Rightarrow> (False, st)
                 | (True, st) \<Rightarrow>
                     if os_callback st = None then (True, st\<lparr>os_bytes_written := sz (os_bytes_written st + n)\<rparr>)
                     else encode_items func ?vs st)))"
      using True False assms(3) by (simp add: encode_array_def)
    have "encodes (\<lambda>st. encode_array st f items count func)
        (tag_bytes PB_WT_STRING (pf_tag f) @ lv_bytes (concat (map (\<lambda>v. bytes (content v)) ?vs)))"
      unfolding eq by (rule encodes_then [OF tag sized])
    then show ?thesis using True assms(2) ne by (simp add: field_bytes_def o_def)
  next
    case packed: False
    have "encodes (encode_items (encode_tagged f func) ?vs)
        (concat (map (\<lambda>v. tag_bytes (wire_type_for (pf_ltype f)) (pf_tag f) @ bytes (content v)) ?vs))"
      by (rule encodes_items, rule ballI, rule encodes_tagged [OF assms(1) items [OF vs]])
    then show ?thesis
      using packed False assms(3) by (simp add: encode_array_def field_bytes_def o_def)
  qed
qed

lemma encodes_basic_field:
  assumes f: "field_ok f" and slot: "slot_typed f (val_typed f) slot"
    and items: "\<And>v. v \<in> set (sl_items slot) \<Longrightarrow> encodes (pb_encoder f v) (content_bytes f (val_content f v))"
  shows "encodes (\<lambda>st. encode_basic_field st f slot (pb_encoder f)) (field_bytes f (content_bytes f) (slot_content f slot))"
proof (cases "pf_htype f")
  case PB_HTYPE_REQUIRED
  then obtain v where v: "sl_items slot = [v]" "sl_item slot = v"
    using slot_typed_item [OF slot] by auto
  show ?thesis
    using encodes_tagged [OF f, of "pb_encoder f" v] items [of v] v PB_HTYPE_REQUIRED
    by (simp add: encode_basic_field_def field_bytes_def slot_content_def present_def)
next
  case PB_HTYPE_OPTIONAL
  then obtain v where v: "sl_items slot = [v]" "sl_item slot = v"
    using slot_typed_item [OF slot] by auto
  let ?has = "if pf_has_size f then sl_has slot else \<not> pb_check_proto3_default_value f slot"
  have c: "slot_content f slot = (if ?has then [val_content f v] else [])"
    using check_default_iff [OF f slot] PB_HTYPE_OPTIONAL v(2)
    by (auto simp: slot_content_def present_def)
  have eq: "(\<lambda>st. encode_basic_field st f slot (pb_encoder f)) =
      (\<lambda>st. if ?has then encode_tagged f (pb_encoder f) v st else (True, st))"
    using PB_HTYPE_OPTIONAL v(2) by (intro ext) (auto simp: encode_basic_field_def)
  show ?thesis
  proof (cases ?has)
    case True
    then show ?thesis
      using encodes_tagged [OF f, of "pb_encoder f" v] items [of v] v(1) PB_HTYPE_OPTIONAL
      unfolding eq c by (simp add: field_bytes_def)
  next
    case False
    then show ?thesis unfolding eq c using encodes_nothing PB_HTYPE_OPTIONAL by (simp only: if_False) (simp add: field_bytes_def)
  qed
next
  case PB_HTYPE_REPEATED
  have len: "length (content_bytes f (val_content f v)) = 4" if "v \<in> set (sl_items slot)" "pf_ltype f = PB_LTYPE_FIXED32" for v
    using that by (cases f) simp
  have len8: "length (content_bytes f (val_content f v)) = 8" if "v \<in> set (sl_items slot)" "pf_ltype f = PB_LTYPE_FIXED64" for v
    using that by (cases f) simp
  have "encodes (\<lambda>st. encode_array st f (sl_items slot) (sl_count slot) (pb_encoder f))
      (field_bytes f (content_bytes f) (map (val_content f) (take (sl_count slot) (sl_items slot))))"
    using slot PB_HTYPE_REPEATED len len8 by (intro encodes_array f items) (auto simp: slot_typed_def)
  then show ?thesis
    using PB_HTYPE_REPEATED by (simp add: encode_basic_field_def slot_content_def present_def)
qed

lemma encodes_fields:
  assumes "\<And>i. i < length fs \<Longrightarrow> encodes (\<lambda>st. encode_basic_field st (fs ! i) (slots ! i) (encs ! i)) (bs ! i)"
    and "length encs = length fs" "length slots = length fs" "length bs = length fs"
  shows "encodes (encode_fields (zip fs encs) slots) (concat bs)"
  using assms
proof (induction fs arbitrary: encs slots bs)
  case Nil
  have "encode_fields [] slots = (\<lambda>st. (True, st))" by (rule ext) simp
  with Nil encodes_nothing show ?case by simp
next
  case (Cons f fs)
  obtain e es where e: "encs = e # es" using Cons.prems(2) by (cases encs) auto
  obtain sl sls where sl: "slots = sl # sls" using Cons.prems(3) by (cases slots) auto
  obtain c cs where c: "bs = c # cs" using Cons.prems(4) by (cases bs) auto
  have "encodes (encode_fields (zip fs es) sls) (concat cs)"
    using Cons.prems(1) [of "Suc _"] Cons.prems(2-4) by (intro Cons.IH) (auto simp: e sl c)
  moreover have "encodes (\<lambda>st. encode_basic_field st f sl e) c"
    using Cons.prems(1) [of 0] by (simp add: e sl c)
  ultimately have "encodes (\<lambda>st. case encode_basic_field st f sl e of (False, st') \<Rightarrow> (False, st')
      | (True, st') \<Rightarrow> encode_fields (zip fs es) sls st') (c @ concat cs)"
    by (intro encodes_then)
  moreover have "encode_fields (zip (f # fs) encs) slots = (\<lambda>st. case encode_basic_field st f sl e of (False, st') \<Rightarrow> (False, st')
      | (True, st') \<Rightarrow> encode_fields (zip fs es) sls st')"
    by (rule ext) (simp add: e sl)
  ultimately show ?case by (simp add: c)
qed

lemma encodes_message:
  assumes "fields_ok fs" "msg_typed fs slots"
    and "\<And>f v. f \<in> set fs \<Longrightarrow> field_ok f \<Longrightarrow> val_typed f v \<Longrightarrow> encodes (pb_encoder f v) (content_bytes f (val_content f v))"
  shows "encodes (encode_fields (zip fs (map pb_encoder fs)) slots) (msg_bytes fs (msg_content fs slots))"
  unfolding msg_bytes_def
proof (rule encodes_fields)
  fix i assume i: "i < length fs"
  have f: "field_ok (fs ! i)" using assms(1) i by (simp add: fields_ok_def list_all_length)
  have slot: "slot_typed (fs ! i) (val_typed (fs ! i)) (slots ! i)" by (rule msg_typed_nth(2) [OF assms(2) i])
  have "encodes (\<lambda>st. encode_basic_field st (fs ! i) (slots ! i) (pb_encoder (fs ! i)))
      (field_bytes (fs ! i) (content_bytes (fs ! i)) (slot_content (fs ! i) (slots ! i)))"
    using slot i f by (intro encodes_basic_field assms(3)) (auto simp: slot_typed_def)
  then show "encodes (\<lambda>st. encode_basic_field st (fs ! i) (slots ! i) (map pb_encoder fs ! i))
      (map2 (\<lambda>f cs. field_bytes f (content_bytes f) cs) fs (msg_content fs slots) ! i)"
    using i msg_typed_nth(1) [OF assms(2)] by (simp add: msg_content_def)
qed (use msg_typed_nth(1) [OF assms(2)] in \<open>simp_all add: msg_content_def\<close>)

lemma string_split:
  assumes "(0 :: u8) \<in> set bs"
  shows "bs = takeWhile (\<lambda>c. c \<noteq> 0) bs @ 0 # tl (dropWhile (\<lambda>c. c \<noteq> 0) bs)"
    "length (takeWhile (\<lambda>c. c \<noteq> 0) bs) < length bs" "0 \<notin> set (takeWhile (\<lambda>c. c \<noteq> 0) bs)"
  using assms by (induction bs) (auto dest: set_takeWhileD)

lemma encodes_value:
  "field_ok f \<Longrightarrow> val_typed f v \<Longrightarrow> encodes (pb_encoder f v) (content_bytes f (val_content f v))"
proof (induction f arbitrary: v rule: field_induct)
  case (1 tag lt ht hs ds n ptr)
  show ?case
  proof (cases "lt = PB_LTYPE_SUBMESSAGE")
    case lt: True
    then obtain fs where fs: "ptr = Ptr_fields fs" using 1(2) by (cases ptr) auto
    have ok: "fields_ok fs" and typed: "msg_typed fs (val_msg v)"
      using 1(2,3) lt fs ptr_ok_fields sub_typed_fields by auto
    have "encodes (encode_fields (zip fs (map pb_encoder fs)) (val_msg v)) (msg_bytes fs (msg_content fs (val_msg v)))"
      using ok typed 1(1) [OF fs] by (rule encodes_message)
    from encodes_submessage_field [OF this] show ?thesis
      using lt fs by (simp add: lv_bytes_def sub_content_fields sub_bytes_fields del: sub_content.simps sub_bytes.simps)
  next
    case False
    have ds: "ds < 2 ^ 32" and v: "scalar_typed lt ds v" using 1(2,3) False by auto
    show ?thesis
    proof (cases lt)
      case PB_LTYPE_STRING
      then have bs: "length (val_bytes v) = ds" "0 \<in> set (val_bytes v)" using v by simp_all
      note sp = string_split [OF bs(2)]
      have "encodes (\<lambda>st. pb_enc_string st False ds (Some (takeWhile (\<lambda>c. c \<noteq> 0) (val_bytes v) @ 0 # tl (dropWhile (\<lambda>c. c \<noteq> 0) (val_bytes v)))))
          (lv_bytes (takeWhile (\<lambda>c. c \<noteq> 0) (val_bytes v)))"
        using sp(2,3) bs(1) ds by (intro encodes_pb_enc_string) auto
      then show ?thesis using PB_LTYPE_STRING sp(1) by simp
    qed (use v ds encodes_ints encodes_bool encodes_fixed encodes_pb_enc_bytes encodes_fixed_length_bytes False in
        \<open>auto simp: pb_enc_fixed32_def pb_enc_fixed64_def\<close>)
  qed
qed

text \<open>C16: \<open>pb_encode\<close> writes exactly the bytes of what the message says, field by field in the order of the table,
fails when the stream has no room for them, and is counted right by \<open>pb_get_encoded_size\<close>.\<close>

theorem pb_encode_exact:
  assumes "fields_ok fs" "msg_typed fs msg" "length (msg_bytes fs (msg_content fs msg)) < 2 ^ 64" "n < 2 ^ 64"
  shows "(if length (msg_bytes fs (msg_content fs msg)) \<le> n
      then os_state (snd (pb_encode fs msg (pb_ostream_from_buffer n))) = msg_bytes fs (msg_content fs msg) \<and>
        fst (pb_encode fs msg (pb_ostream_from_buffer n))
      else \<not> fst (pb_encode fs msg (pb_ostream_from_buffer n))) \<and>
    pb_get_encoded_size (pb_encode fs msg) ([] :: u8 list) = Some (length (msg_bytes fs (msg_content fs msg)))"
proof -
  have e: "encodes (pb_encode fs msg) (msg_bytes fs (msg_content fs msg))"
    unfolding pb_encode_def using assms(1,2) encodes_value by (rule encodes_message)
  show ?thesis
    using encodesD(1) [OF e, of 0 n "[]"] encodesD(2) [OF e, of 0 n "[]"] encodesD(3) [OF e, of 0 "[]"] assms(3,4)
    by (auto simp: stream_starts pb_get_encoded_size_def not_le)
qed

text \<open>A table with a required number, an optional string, a packed array and an array of submessages.\<close>

definition point_fields :: "pb_field list" where
  "point_fields = [Field 1 PB_LTYPE_SVARINT PB_HTYPE_OPTIONAL False 4 0 Ptr_null]"

definition sample_fields :: "pb_field list" where
  "sample_fields =
     [Field 1 PB_LTYPE_UVARINT PB_HTYPE_REQUIRED False 4 0 Ptr_null,
      Field 2 PB_LTYPE_STRING PB_HTYPE_OPTIONAL True 4 0 Ptr_null,
      Field 3 PB_LTYPE_VARINT PB_HTYPE_REPEATED True 4 2 Ptr_null,
      Field 4 PB_LTYPE_SUBMESSAGE PB_HTYPE_REPEATED True 4 2 (Ptr_fields point_fields)]"

definition sample_msg :: "pb_slot list" where
  "sample_msg =
     [Slot False 0 [Val_int 300], Slot True 0 [Val_bytes [0x68, 0x69, 0, 0]], Slot False 2 [Val_int 7, Val_int 9],
      Slot False 1 [Val_msg [Slot False 0 [Val_int (-3)]], Val_msg [Slot False 0 [Val_int 0]]]]"

lemma sample_ok: "fields_ok sample_fields" "msg_typed sample_fields sample_msg"
  by (simp_all add: fields_ok_def sample_fields_def point_fields_def int_size_def signed_dom_def unsigned_dom_def
    msg_typed_def sample_msg_def slot_typed_def)

lemma sample_small: "length (msg_bytes sample_fields (msg_content sample_fields sample_msg)) = 15"
  by (simp add: msg_bytes_def msg_content_def sample_fields_def sample_msg_def point_fields_def slot_content_def present_def
    sl_item_def field_bytes_def packable_def tag_bytes_def lv_bytes_def wire_types varint_bytes_small varint_bytes_big
    int_word_def zigzag_def word_sless_alt)

theorem pb_encode_exact_witness:
  "fst (pb_encode sample_fields sample_msg (pb_ostream_from_buffer 15)) \<and>
   \<not> fst (pb_encode sample_fields sample_msg (pb_ostream_from_buffer 14))"
  using pb_encode_exact [OF sample_ok, of 15] pb_encode_exact [OF sample_ok, of 14] by (simp add: sample_small)

end
