(* ===== verification/PbDecode.thy ===== *)
theory PbDecode
  imports PbContent
begin

text \<open>
  Decoding by a table (\<open>pb_decode\<close> of \<^verbatim>\<open>nanopb/pb_decode.c\<close>): the search of the iterator, the array of bits of the
  required fields, and that a message that was encoded is decoded to one that says the same.
\<close>

section \<open>The iterator\<close>

text \<open>The iterator at an entry: the required fields before it have been counted.\<close>

definition required_in :: "pb_field list \<Rightarrow> nat" where
  "required_in fs = length (filter (\<lambda>f. pf_htype f = PB_HTYPE_REQUIRED) fs)"

definition iter_at :: "pb_field list \<Rightarrow> nat \<Rightarrow> pb_iter" where
  "iter_at fs i = \<lparr>it_pos = i, it_required = required_in (take i fs)\<rparr>"

lemma iter_at_sel [simp]: "it_pos (iter_at fs i) = i" "it_required (iter_at fs i) = required_in (take i fs)"
  by (simp_all add: iter_at_def)

lemma field_at_nth [simp]: "i < length fs \<Longrightarrow> field_at fs i = fs ! i"
  by (simp add: field_at_def nth_default_nth)

lemma field_at_end: "length fs \<le> i \<Longrightarrow> field_at fs i = PB_LAST_FIELD"
  by (simp add: field_at_def nth_default_beyond)

lemma iter_begin: "snd (pb_field_iter_begin fs) = iter_at fs 0"
  by (simp add: pb_field_iter_begin_def iter_at_def required_in_def)

lemma fields_ok_nth:
  assumes "fields_ok fs" "i < length fs"
  shows "field_ok (fs ! i)" "pf_tag (fs ! i) \<noteq> 0" "j < length fs \<Longrightarrow> pf_tag (fs ! i) = pf_tag (fs ! j) \<longleftrightarrow> i = j"
proof -
  show ok: "field_ok (fs ! i)" using assms by (simp add: fields_ok_def list_all_length)
  then show "pf_tag (fs ! i) \<noteq> 0" by (cases "fs ! i") auto
  show "j < length fs \<Longrightarrow> pf_tag (fs ! i) = pf_tag (fs ! j) \<longleftrightarrow> i = j"
    using assms nth_eq_iff_index_eq [of "map pf_tag fs" i j] by (simp add: fields_ok_def)
qed

lemma required_in_Suc:
  "i < length fs \<Longrightarrow>
     required_in (take (Suc i) fs) = required_in (take i fs) + (if pf_htype (fs ! i) = PB_HTYPE_REQUIRED then 1 else 0)"
  by (simp add: required_in_def take_Suc_conv_app_nth)

lemma iter_next_at:
  assumes "fields_ok fs" "p < length fs"
  shows "pb_field_iter_next fs (iter_at fs p) =
    (if p + 1 < length fs then (True, iter_at fs (p + 1)) else (False, iter_at fs 0))"
proof (cases "p + 1 < length fs")
  case True
  then have "pf_tag (field_at fs (p + 1)) \<noteq> 0" using fields_ok_nth(2) [OF assms(1) True] by simp
  then show ?thesis
    using True fields_ok_nth(2) [OF assms] required_in_Suc [OF assms(2)] assms(2)
    by (simp add: pb_field_iter_next_def Let_def iter_at_def)
next
  case False
  then have "pf_tag (field_at fs (p + 1)) = 0" by (simp add: field_at_end PB_LAST_FIELD_def)
  then show ?thesis
    using False fields_ok_nth(2) [OF assms] assms(2) by (simp add: pb_field_iter_next_def Let_def iter_begin)
qed

lemma iter_next_mod:
  "fields_ok fs \<Longrightarrow> p < length fs \<Longrightarrow> snd (pb_field_iter_next fs (iter_at fs p)) = iter_at fs ((p + 1) mod length fs)"
  by (cases "p + 1 = length fs") (simp_all add: iter_next_at)

lemma iter_find_round:
  assumes "fields_ok fs" "start < length fs" "d < length fs"
  shows "k \<le> d \<Longrightarrow> d - k < m \<Longrightarrow>
    iter_find_loop m fs (pf_tag (fs ! ((start + d) mod length fs))) start (iter_at fs ((start + k) mod length fs)) =
      (True, iter_at fs ((start + d) mod length fs))"
proof (induction "d - k" arbitrary: k m)
  case 0
  then obtain m' where "m = Suc m'" by (cases m) auto
  moreover have "(start + k) mod length fs < length fs" using assms(2) by (intro mod_less_divisor) linarith
  ultimately show ?case using 0 by simp
next
  case (Suc j)
  let ?n = "length fs"
  obtain m' where m: "m = Suc m'" using Suc.prems(2) by (cases m) auto
  have k: "k < d" using Suc.hyps(2) by simp
  have "x mod ?n < ?n" for x using assms(2) by (intro mod_less_divisor) linarith
  then have pos: "(start + k) mod ?n < ?n" "(start + d) mod ?n < ?n" by blast+
  have "(start + k) mod ?n \<noteq> (start + d) mod ?n"
  proof
    assume "(start + k) mod ?n = (start + d) mod ?n"
    then have "?n dvd d - k" using k mod_eq_dvd_iff_nat [of "start + k" "start + d" ?n] by simp
    then show False using k assms(3) by (auto dest: dvd_imp_le)
  qed
  then have ne: "pf_tag (fs ! ((start + k) mod ?n)) \<noteq> pf_tag (fs ! ((start + d) mod ?n))"
    using fields_ok_nth(3) [OF assms(1) pos] by simp
  have next': "snd (pb_field_iter_next fs (iter_at fs ((start + k) mod ?n))) = iter_at fs ((start + Suc k) mod ?n)"
    using iter_next_mod [OF assms(1) pos(1)] by (simp add: mod_simps)
  have "(start + Suc k) mod ?n \<noteq> start"
  proof
    assume "(start + Suc k) mod ?n = start"
    then have "(start + Suc k) mod ?n = start mod ?n" using assms(2) by simp
    then have "?n dvd Suc k" using mod_eq_dvd_iff_nat [of start "start + Suc k" ?n] by simp
    then show False using k assms(3) by (auto dest: dvd_imp_le)
  qed
  moreover have "iter_find_loop m' fs (pf_tag (fs ! ((start + d) mod ?n))) start (iter_at fs ((start + Suc k) mod ?n)) =
      (True, iter_at fs ((start + d) mod ?n))"
    using Suc.hyps(2) Suc.prems m by (intro Suc.hyps(1)) auto
  ultimately show ?case using ne next' pos(1) by (simp add: m Let_def)
qed

text \<open>From wherever the last search ended, an entry is found by its tag.\<close>

lemma iter_find_tag:
  assumes "fields_ok fs" "p < length fs" "i < length fs"
  shows "pb_field_iter_find fs (pf_tag (fs ! i)) (iter_at fs p) = (True, iter_at fs i)"
proof -
  define d where "d = (i + (length fs - p)) mod length fs"
  have d: "d < length fs" unfolding d_def using assms(2) by (intro mod_less_divisor) linarith
  have "(p + d) mod length fs = (p + (i + (length fs - p))) mod length fs" by (simp add: d_def mod_simps)
  also have "p + (i + (length fs - p)) = i + length fs" using assms(2) by simp
  finally have i: "(p + d) mod length fs = i" using assms(3) by simp
  show ?thesis
    using iter_find_round [OF assms(1,2) d, of 0 "Suc (length fs)"] assms(2) d
    by (simp add: pb_field_iter_find_def i)
qed

lemma last_field_loop_at:
  assumes "fields_ok fs" "p < length fs"
  shows "last_field_loop fs (iter_at fs p) =
    (required_in (take (length fs - 1) fs), pf_htype (fs ! (length fs - 1)), iter_at fs 0)"
  using assms(2)
proof (induction "length fs - p" arbitrary: p)
  case 0
  then show ?case by simp
next
  case (Suc j)
  show ?case
  proof (cases "p + 1 < length fs")
    case True
    then show ?thesis
      using Suc.hyps(1) [of "p + 1"] Suc.hyps(2)
      by (subst last_field_loop.simps) (simp add: iter_next_at [OF assms(1) Suc.prems])
  next
    case False
    then have "pb_field_iter_next fs (iter_at fs p) = (False, iter_at fs 0)"
      by (simp add: iter_next_at [OF assms(1) Suc.prems])
    then have "last_field_loop fs (iter_at fs p) = (required_in (take p fs), pf_htype (fs ! p), iter_at fs 0)"
      using Suc.prems by (subst last_field_loop.simps) simp
    moreover have "p = length fs - 1" using False Suc.prems by simp
    ultimately show ?thesis by simp
  qed
qed

section \<open>The required fields\<close>

text \<open>\<open>seen_upto c seen\<close>: of the first 64 required fields exactly those below \<open>c\<close> have been seen.\<close>

definition seen_upto :: "nat \<Rightarrow> u32 list \<Rightarrow> bool" where
  "seen_upto c seen \<longleftrightarrow> length seen = 2 \<and> (\<forall>r < 64. bit (seen ! (r div 32)) (r mod 32) \<longleftrightarrow> r < c)"

lemma nat_and_31: "n AND 31 = n mod 32" for n :: nat
proof -
  have "n AND 31 = take_bit 5 n" by (simp add: take_bit_eq_mask mask_eq_exp_minus_1)
  then show ?thesis by (simp add: take_bit_eq_mod)
qed

lemma nat_drop_5: "drop_bit 5 n = n div 32" for n :: nat
  by (simp add: drop_bit_eq_div)

lemma seen_upto_start: "seen_upto 0 [0, 0]"
  by (auto simp: seen_upto_def nth_Cons' )

lemma mark_seen_at:
  assumes "seen_upto (required_in (take i fs)) seen" "i < length fs"
  shows "seen_upto (required_in (take (Suc i) fs)) (mark_seen fs (iter_at fs i) seen)"
proof (cases "pf_htype (fs ! i) = PB_HTYPE_REQUIRED \<and> required_in (take i fs) < 64")
  case True
  let ?c = "required_in (take i fs)"
  have len: "length seen = 2" and c: "?c div 32 < 2"
    using assms(1) True by (simp_all add: seen_upto_def less_mult_imp_div_less)
  have "bit (mark_seen fs (iter_at fs i) seen ! (r div 32)) (r mod 32) \<longleftrightarrow> r < Suc ?c" if r: "r < 64" for r
  proof -
    have old: "bit (seen ! (r div 32)) (r mod 32) \<longleftrightarrow> r < ?c" using assms(1) r by (simp add: seen_upto_def)
    have one: "bit (push_bit (?c mod 32) 1 :: u32) (r mod 32) \<longleftrightarrow> r mod 32 = ?c mod 32"
      unfolding bit_push_bit_iff bit_1_iff by auto
    have "r = ?c \<longleftrightarrow> r div 32 = ?c div 32 \<and> r mod 32 = ?c mod 32" by (metis div_mult_mod_eq)
    then show ?thesis
      using True assms(2) old one len c
      by (auto simp: mark_seen_def Let_def nat_and_31 nat_drop_5 PB_MAX_REQUIRED_FIELDS_def nth_list_update bit_or_iff less_Suc_eq)
  qed
  then show ?thesis
    using True len required_in_Suc [OF assms(2)] by (simp add: seen_upto_def mark_seen_def Let_def)
next
  case False
  then have "mark_seen fs (iter_at fs i) seen = seen"
    using assms(2) by (auto simp: mark_seen_def PB_MAX_REQUIRED_FIELDS_def)
  moreover have "r < required_in (take (Suc i) fs) \<longleftrightarrow> r < required_in (take i fs)" if "r < 64" for r
    using False that required_in_Suc [OF assms(2)] by auto
  ultimately show ?thesis using assms(1) by (simp add: seen_upto_def)
qed

lemma word32_all_bits:
  "w = drop_bit (32 - k) (NOT 0 :: u32) \<longleftrightarrow> (\<forall>r < 32. bit w r \<longleftrightarrow> r < k)" if "k \<le> 32" for w :: u32
proof -
  have "bit (drop_bit (32 - k) (NOT 0 :: u32)) r \<longleftrightarrow> r < k" if "r < 32" for r
    using that \<open>k \<le> 32\<close> by (auto simp: bit_drop_bit_eq bit_not_iff bit_mask_iff)
  then show ?thesis by (auto intro!: bit_word_eqI)
qed

lemma required_in_all:
  assumes "fs \<noteq> []"
  shows "required_in (take (length fs - 1) fs) + (if pf_htype (fs ! (length fs - 1)) = PB_HTYPE_REQUIRED then 1 else 0) = required_in fs"
  using required_in_Suc [of "length fs - 1" fs] assms by simp

lemma required_fields_present_at:
  assumes "fields_ok fs" "p < length fs \<or> fs = [] \<and> p = 0" "seen_upto c seen" "c \<le> required_in fs"
  shows "required_fields_present fs (iter_at fs p) seen \<longleftrightarrow> min 64 (required_in fs) \<le> c"
proof -
  define k where "k = (if 64 < required_in fs then 64 else required_in fs)"
  have bits: "bit (seen ! i) r \<longleftrightarrow> 32 * i + r < c" if "i < 2" "r < 32" for i r
  proof -
    have "(32 * i + r) div 32 = i" "(32 * i + r) mod 32 = r" "32 * i + r < 64" using that by simp_all
    then show ?thesis using assms(3) unfolding seen_upto_def by metis
  qed
  have "required_fields_present fs (iter_at fs p) seen \<longleftrightarrow>
      list_all (\<lambda>i. seen ! i = NOT 0) [0..<k div 32] \<and>
      (k mod 32 \<noteq> 0 \<longrightarrow> seen ! (k div 32) = drop_bit (32 - k mod 32) (NOT 0))"
  proof (cases "fs = []")
    case True
    have "last_field_loop fs (iter_at fs p) = (0, PB_HTYPE_REQUIRED, iter_at fs p)"
      using True by (subst last_field_loop.simps)
        (simp add: pb_field_iter_next_def field_at_end PB_LAST_FIELD_def required_in_def)
    then show ?thesis
      using True by (simp add: required_fields_present_def field_at_end PB_LAST_FIELD_def k_def required_in_def
        PB_MAX_REQUIRED_FIELDS_def nat_drop_5 nat_and_31)
  next
    case False
    then have "0 < length fs" by simp
    then have "pf_tag (field_at fs 0) \<noteq> 0" using fields_ok_nth(2) [OF assms(1)] by simp
    moreover have "last_field_loop fs (iter_at fs p) =
        (required_in (take (length fs - 1) fs), pf_htype (fs ! (length fs - 1)), iter_at fs 0)"
      using assms(1,2) False by (intro last_field_loop_at) auto
    moreover have "(if pf_htype (fs ! (length fs - 1)) = PB_HTYPE_REQUIRED \<and> pf_tag (field_at fs (it_pos (iter_at fs 0))) \<noteq> 0
        then required_in (take (length fs - 1) fs) + 1 else required_in (take (length fs - 1) fs)) = required_in fs"
      using required_in_all [OF False] calculation(1) by auto
    ultimately show ?thesis
      unfolding required_fields_present_def
      by (simp only: prod.case Let_def PB_MAX_REQUIRED_FIELDS_def nat_drop_5 nat_and_31 k_def)
  qed
  also have "\<dots> \<longleftrightarrow> (\<forall>i < k div 32. \<forall>r < 32. bit (seen ! i) r) \<and>
      (k mod 32 \<noteq> 0 \<longrightarrow> (\<forall>r < 32. bit (seen ! (k div 32)) r \<longleftrightarrow> r < k mod 32))"
  proof -
    have "w = NOT 0 \<longleftrightarrow> (\<forall>r < 32. bit w r)" for w :: u32
      using word32_all_bits [of 32 w] by auto
    moreover have "w = drop_bit (32 - k mod 32) (NOT 0) \<longleftrightarrow> (\<forall>r < 32. bit w r \<longleftrightarrow> r < k mod 32)" for w :: u32
      by (rule word32_all_bits) simp
    ultimately show ?thesis by (auto simp: list_all_iff)
  qed
  also have "\<dots> \<longleftrightarrow> k \<le> c"
  proof
    assume "k \<le> c"
    show "(\<forall>i < k div 32. \<forall>r < 32. bit (seen ! i) r) \<and>
        (k mod 32 \<noteq> 0 \<longrightarrow> (\<forall>r < 32. bit (seen ! (k div 32)) r \<longleftrightarrow> r < k mod 32))"
    proof (intro conjI allI impI)
      fix i r :: nat assume "i < k div 32" "r < 32"
      moreover from this have "i < 2" "32 * i + r < k" by (auto simp: k_def split: if_splits)
      ultimately show "bit (seen ! i) r" using bits \<open>k \<le> c\<close> by simp
    next
      fix r :: nat assume "k mod 32 \<noteq> 0" "r < 32"
      moreover from this have "k < 64" by (cases "required_in fs = 64") (auto simp: k_def split: if_splits)
      moreover from this have "k = required_in fs" "k div 32 < 2" by (auto simp: k_def less_mult_imp_div_less split: if_splits)
      moreover from this have "c = k" using assms(4) \<open>k \<le> c\<close> by simp
      moreover have "32 * (k div 32) + r < k \<longleftrightarrow> r < k mod 32" using div_mult_mod_eq [of k 32] by linarith
      ultimately show "bit (seen ! (k div 32)) r \<longleftrightarrow> r < k mod 32" using bits by simp
    qed
  next
    assume all: "(\<forall>i < k div 32. \<forall>r < 32. bit (seen ! i) r) \<and>
        (k mod 32 \<noteq> 0 \<longrightarrow> (\<forall>r < 32. bit (seen ! (k div 32)) r \<longleftrightarrow> r < k mod 32))"
    show "k \<le> c"
    proof (rule ccontr)
      assume "\<not> k \<le> c"
      then have c: "c < k" "c div 32 < 2" by (auto simp: k_def less_mult_imp_div_less split: if_splits)
      then have "\<not> bit (seen ! (c div 32)) (c mod 32)" using bits [of "c div 32" "c mod 32"] by simp
      moreover have "c div 32 < k div 32 \<or> c div 32 = k div 32 \<and> c mod 32 < k mod 32"
        using c(1) div_le_mono [of c k 32] div_mult_mod_eq [of c 32] div_mult_mod_eq [of k 32] by linarith
      ultimately show False using all by auto
    qed
  qed
  finally show ?thesis by (simp add: k_def min_def not_le split: if_splits) (use assms(4) in linarith)?
qed

section \<open>Default values\<close>

lemma set_defaults_fields:
  "sub_set_to_defaults (Ptr_fields fs) slots = pb_message_set_to_defaults fs slots"
proof -
  have "map2 (\<lambda>f slot. f slot) (map pb_field_set_to_default fs) slots = map2 pb_field_set_to_default fs slots"
    by (rule nth_equalityI) simp_all
  then show ?thesis by (simp add: pb_message_set_to_defaults_def)
qed

lemma ptr_ok_cases: "ptr_ok ptr \<Longrightarrow> \<exists>fs. ptr = Ptr_fields fs \<and> fields_ok fs"
  by (cases ptr) (auto simp: ptr_ok_fields simp del: ptr_ok.simps(3))

lemma msg_typedI:
  "length slots = length fs \<Longrightarrow> (\<And>i. i < length fs \<Longrightarrow> slot_typed (fs ! i) (val_typed (fs ! i)) (slots ! i)) \<Longrightarrow>
     msg_typed fs slots"
  by (simp add: msg_typed_def list_all2_conv_all_nth)

lemma default_typed:
  "field_ok f \<Longrightarrow> slot_typed f (val_typed f) slot \<Longrightarrow> slot_typed f (val_typed f) (pb_field_set_to_default f slot)"
proof (induction f arbitrary: slot rule: field_induct)
  case (1 tag lt ht hs ds n ptr)
  show ?case
  proof (cases "ht = PB_HTYPE_REPEATED")
    case True
    then show ?thesis using 1(3) by (simp add: slot_typed_def)
  next
    case False
    then obtain v where v: "sl_item slot = v" "val_typed (Field tag lt ht hs ds n ptr) v"
      using slot_typed_item [OF 1(3)] by auto
    show ?thesis
    proof (cases "lt = PB_LTYPE_SUBMESSAGE")
      case lt: True
      then obtain fs where fs: "ptr = Ptr_fields fs" "fields_ok fs" using 1(2) ptr_ok_cases by auto
      then have typed: "msg_typed fs (val_msg v)" using v(2) lt by (simp add: sub_typed_fields del: sub_typed.simps)
      have "msg_typed fs (pb_message_set_to_defaults fs (val_msg v))"
      proof (rule msg_typedI)
        fix i assume "i < length fs"
        with 1(1) [OF fs(1), of "fs ! i"] fields_ok_nth [OF fs(2)] msg_typed_nth [OF typed]
        show "slot_typed (fs ! i) (val_typed (fs ! i)) (pb_message_set_to_defaults fs (val_msg v) ! i)"
          by (simp add: pb_message_set_to_defaults_def)
      qed (use msg_typed_nth(1) [OF typed] in \<open>simp add: pb_message_set_to_defaults_def\<close>)
      then show ?thesis
        using False lt fs(1) v(1)
        by (simp add: slot_typed_def set_defaults_fields sub_typed_fields del: sub_set_to_defaults.simps sub_typed.simps)
    next
      case lt: False
      then show ?thesis using 1(2) False by (auto simp: slot_typed_def split: pb_ptr.splits)
    qed
  qed
qed

lemma defaults_typed:
  assumes "fields_ok fs" "msg_typed fs slots"
  shows "msg_typed fs (pb_message_set_to_defaults fs slots)"
proof (rule msg_typedI)
  fix i assume "i < length fs"
  then show "slot_typed (fs ! i) (val_typed (fs ! i)) (pb_message_set_to_defaults fs slots ! i)"
    using default_typed fields_ok_nth [OF assms(1)] msg_typed_nth [OF assms(2)]
    by (simp add: pb_message_set_to_defaults_def)
qed (use msg_typed_nth(1) [OF assms(2)] in \<open>simp add: pb_message_set_to_defaults_def\<close>)

lemma zero_val_content: "lt \<noteq> PB_LTYPE_SUBMESSAGE \<Longrightarrow> lt \<noteq> PB_LTYPE_FIXED_LENGTH_BYTES \<Longrightarrow> 
    zero_content (Field tag lt ht hs ds n ptr) (val_content (Field tag lt ht hs ds n ptr') (zero_val lt ds))"
  by (cases lt) auto

text \<open>Where a message had nothing in a field, the default has nothing.\<close>

lemma default_content:
  "field_ok f \<Longrightarrow> slot_typed f (val_typed f) slot \<Longrightarrow> slot_typed f (val_typed f) s0 \<Longrightarrow>
     slot_content f slot = [] \<Longrightarrow> slot_content f (pb_field_set_to_default f s0) = []"
proof (induction f arbitrary: slot s0 rule: field_induct)
  case (1 tag lt ht hs ds n ptr)
  let ?f = "Field tag lt ht hs ds n ptr"
  show ?case
  proof (cases "ht = PB_HTYPE_OPTIONAL \<and> \<not> hs")
    case True
    then obtain v v0 where v: "sl_item slot = v" "val_typed ?f v" and v0: "sl_item s0 = v0" "val_typed ?f v0"
      using slot_typed_item [OF 1(3)] slot_typed_item [OF 1(4)] by auto
    have z: "zero_content ?f (val_content ?f v)"
      using 1(5) True v(1)
      by (simp add: slot_content_def present_def del: zero_content.simps val_content.simps split: if_splits)
    have "zero_content ?f (val_content ?f (sl_item (pb_field_set_to_default ?f s0)))"
    proof (cases "lt = PB_LTYPE_SUBMESSAGE")
      case lt: True
      then obtain fs where fs: "ptr = Ptr_fields fs" "fields_ok fs" using 1(2) ptr_ok_cases by auto
      have typed: "msg_typed fs (val_msg v)" "msg_typed fs (val_msg v0)"
        using v(2) v0(2) lt fs(1) by (simp_all add: sub_typed_fields del: sub_typed.simps)
      have zi: "pf_htype (fs ! i) \<noteq> PB_HTYPE_REQUIRED \<and> slot_content (fs ! i) (val_msg v ! i) = []" if "i < length fs" for i
        using z that lt fs(1) msg_typed_nth(1) [OF typed(1)]
        by (auto simp: sub_content_fields msg_content_def list_all_length simp del: sub_content.simps)
      have "slot_content (fs ! i) (pb_field_set_to_default (fs ! i) (val_msg v0 ! i)) = []" if i: "i < length fs" for i
        using zi [OF i] msg_typed_nth(2) [OF typed(1) i] msg_typed_nth(2) [OF typed(2) i] fields_ok_nth(1) [OF fs(2) i] i
        by (intro 1(1) [OF fs(1), of "fs ! i" "val_msg v ! i"]) simp_all
      then have "list_all (\<lambda>(f, cs). pf_htype f \<noteq> PB_HTYPE_REQUIRED \<and> cs = [])
          (zip fs (msg_content fs (pb_message_set_to_defaults fs (val_msg v0))))"
        using zi msg_typed_nth(1) [OF typed(2)]
        by (auto simp: list_all_length msg_content_def pb_message_set_to_defaults_def)
      then show ?thesis
        using True lt fs(1) v0(1)
        by (simp add: sl_item_def set_defaults_fields sub_content_fields del: sub_set_to_defaults.simps sub_content.simps)
    next
      case lt: False
      then have "ptr = Ptr_null" using 1(2) True by (auto split: pb_ptr.splits)
      then show ?thesis
        using True lt z zero_val_content [of lt tag ht hs ds n ptr ptr]
        by (cases "lt = PB_LTYPE_FIXED_LENGTH_BYTES") (auto simp: sl_item_def simp del: val_content.simps)
    qed
    then show ?thesis
      using True by (simp add: slot_content_def present_def del: zero_content.simps val_content.simps pb_field_set_to_default.simps)
  next
    case False
    then show ?thesis
      using 1(5) by (cases ht) (auto simp: slot_content_def present_def)
  qed
qed

end
