(* ===== verification/PbRound.thy ===== *)
theory PbRound
  imports PbDecode
begin

text \<open>
  Messages written by \<open>pb_encode\<close> and read by \<open>pb_decode\<close> (\<^verbatim>\<open>nanopb/pb_encode.c\<close>, \<^verbatim>\<open>nanopb/pb_decode.c\<close>): one field,
  then the fields of a message, then messages within messages.
\<close>

section \<open>Arrays\<close>

text \<open>An array of which the contents \<open>cs\<close> have been decoded so far.\<close>

definition filled :: "pb_field \<Rightarrow> pb_slot \<Rightarrow> content list \<Rightarrow> bool" where
  "filled f slot cs \<longleftrightarrow> slot_typed f (val_typed f) slot \<and> sl_count slot = length cs \<and> slot_content f slot = cs"

definition put_item :: "pb_slot \<Rightarrow> pb_val \<Rightarrow> pb_slot" where
  "put_item slot v = Slot (sl_has slot) (sl_count slot + 1) ((sl_items slot)[sl_count slot := v])"

lemma filled_put_item:
  assumes "pf_htype f = PB_HTYPE_REPEATED" "filled f slot cs" "length cs < pf_array_size f" "val_typed f v"
  shows "filled f (put_item slot v) (cs @ [val_content f v])"
proof -
  have len: "length (sl_items slot) = pf_array_size f" and count: "sl_count slot = length cs"
    and typed: "\<forall>v \<in> set (sl_items slot). val_typed f v" and cs: "map (val_content f) (take (length cs) (sl_items slot)) = cs"
    using assms(1,2) by (auto simp: filled_def slot_typed_def slot_content_def present_def)
  have "map (val_content f) (take (Suc (length cs)) ((sl_items slot)[length cs := v])) = cs @ [val_content f v]"
    using len assms(3) cs by (simp add: take_Suc_conv_app_nth)
  then show ?thesis
    using assms(1,3,4) len count typed
    by (auto simp: filled_def put_item_def slot_typed_def slot_content_def present_def dest!: set_update_subset_insert [THEN subsetD])
qed

section \<open>One field\<close>

text \<open>
  What is stored where a value goes: for an item of an array anything of its type, otherwise the default value.
\<close>

definition ready :: "pb_field \<Rightarrow> pb_val \<Rightarrow> bool" where
  "ready f old \<longleftrightarrow>
     (if pf_htype f = PB_HTYPE_REPEATED then val_typed f old
      else \<exists>s0. slot_typed f (val_typed f) s0 \<and> old = sl_item (pb_field_set_to_default f s0))"

text \<open>\<open>c\<close> is the content of a value, and is read back.\<close>

definition content_reads :: "'s itself \<Rightarrow> pb_field \<Rightarrow> content \<Rightarrow> bool" where
  "content_reads S f c \<longleftrightarrow>
     (\<forall>old m t. ready f old \<longrightarrow> m \<le> length t \<longrightarrow>
       (\<exists>v. val_typed f v \<and> val_content f v = c \<and>
         pb_decoder f old (in_buf (length (content_bytes f c) + m) (content_bytes f c @ t) :: 's pb_istream) = (Some v, in_buf m t)))"

lemma content_readsD:
  assumes "content_reads TYPE('s) f c" "ready f old" "m \<le> length t"
  obtains v where "val_typed f v" "val_content f v = c"
    "pb_decoder f old (in_buf (length (content_bytes f c) + m) (content_bytes f c @ t) :: 's pb_istream) = (Some v, in_buf m t)"
  using assms unfolding content_reads_def by blast

lemma packed_loop_contents:
  assumes "pf_htype f = PB_HTYPE_REPEATED"
  shows "\<forall>c \<in> set cs. content_reads TYPE('s) f c \<and> content_bytes f c \<noteq> [] \<Longrightarrow> filled f slot ds \<Longrightarrow>
    length ds + length cs \<le> pf_array_size f \<Longrightarrow>
    \<exists>slot'. packed_loop (pb_decoder f) (pf_array_size f) slot
        (in_buf (length (concat (map (content_bytes f) cs))) (concat (map (content_bytes f) cs) @ t) :: 's pb_istream) =
      (True, slot', in_buf 0 t) \<and> filled f slot' (ds @ cs)"
proof (induction cs arbitrary: slot ds)
  case Nil
  then show ?case by (subst packed_loop.simps) simp
next
  case (Cons c cs)
  let ?r = "concat (map (content_bytes f) cs)"
  have count: "sl_count slot = length ds" "length ds < pf_array_size f"
    using Cons.prems by (simp_all add: filled_def)
  then have rdy: "ready f (sl_items slot ! sl_count slot)"
    using Cons.prems(2) assms by (auto simp: ready_def filled_def slot_typed_def)
  have reads: "content_reads TYPE('s) f c" "length ?r \<le> length (?r @ t)" using Cons.prems(1) by simp_all
  obtain v where v: "val_typed f v" "val_content f v = c"
    "pb_decoder f (sl_items slot ! sl_count slot) (in_buf (length (content_bytes f c) + length ?r) (content_bytes f c @ ?r @ t) :: 's pb_istream) =
      (Some v, in_buf (length ?r) (?r @ t))"
    by (rule content_readsD [OF reads(1) rdy reads(2)])
  have "filled f (put_item slot v) (ds @ [c])"
    using filled_put_item [OF assms Cons.prems(2) count(2) v(1)] v(2) by simp
  then obtain slot' where slot': "packed_loop (pb_decoder f) (pf_array_size f) (put_item slot v) (in_buf (length ?r) (?r @ t) :: 's pb_istream) =
      (True, slot', in_buf 0 t)" "filled f slot' ((ds @ [c]) @ cs)"
    using Cons.IH [of "put_item slot v" "ds @ [c]"] Cons.prems by auto
  moreover have "packed_loop (pb_decoder f) (pf_array_size f) slot
      (in_buf (length (concat (map (content_bytes f) (c # cs)))) (concat (map (content_bytes f) (c # cs)) @ t) :: 's pb_istream) =
    packed_loop (pb_decoder f) (pf_array_size f) (put_item slot v) (in_buf (length ?r) (?r @ t))"
    using v(3) count Cons.prems(1) by (subst packed_loop.simps) (simp add: put_item_def)
  ultimately show ?case by auto
qed

lemma decode_packed:
  assumes "pf_htype f = PB_HTYPE_REPEATED" "packable (pf_ltype f)" "length (concat (map (content_bytes f) cs)) < 2 ^ 32"
    and "\<forall>c \<in> set cs. content_reads TYPE('s) f c \<and> content_bytes f c \<noteq> []" "filled f slot []" "length cs \<le> pf_array_size f"
  shows "\<exists>slot'. (\<forall>m. decode_static_field f (pb_decoder f) PB_WT_STRING slot
        (in_buf (length (lv_bytes (concat (map (content_bytes f) cs))) + m) (lv_bytes (concat (map (content_bytes f) cs)) @ t) :: 's pb_istream) =
      (Some slot', in_buf m t)) \<and> filled f slot' cs"
proof -
  let ?b = "concat (map (content_bytes f) cs)"
  obtain slot' where slot': "packed_loop (pb_decoder f) (pf_array_size f) slot (in_buf (length ?b) (?b @ t) :: 's pb_istream) = (True, slot', in_buf 0 t)"
    "filled f slot' cs"
    using packed_loop_contents [OF assms(1,4,5), of t] assms(6) by auto
  have close: "pb_close_string_substream (in_buf m (?b @ t) :: 's pb_istream) (in_buf 0 t) = (True, in_buf m t)" for m
    by (simp add: pb_close_string_substream_def) (simp add: in_buf_def)
  show ?thesis
    using slot' close pb_make_string_substream_bytes [OF assms(3), of _ t, where 's = 's] assms(1,2)
    by (intro exI [of _ slot']) (simp add: decode_static_field_def)
qed

section \<open>The loop over the fields\<close>

text \<open>A round of the loop on a field that is in the table.\<close>

lemma decode_loop_field:
  assumes "fields_ok fs" "p < length fs" "i < length fs" "length decs = length fs" "length m = length fs"
    and "tag_dom wt (pf_tag (fs ! i))" "l \<le> length u"
  shows "decode_loop (Suc k) fs decs (iter_at fs p) seen m
      (in_buf (length (tag_bytes wt (pf_tag (fs ! i))) + l) (tag_bytes wt (pf_tag (fs ! i)) @ u) :: 's pb_istream) =
    (case decode_static_field (fs ! i) (decs ! i) wt (m ! i) (in_buf l u) of
       (None, st) \<Rightarrow> (None, st)
     | (Some slot, st) \<Rightarrow> decode_loop k fs decs (iter_at fs i) (mark_seen fs (iter_at fs i) seen) (m[i := slot]) st)"
proof -
  have "length (tag_bytes wt (pf_tag (fs ! i))) \<noteq> 0" by (simp add: tag_bytes_def)
  then show ?thesis
    using pb_decode_tag_bytes [OF assms(6,7), where 's = 's] iter_find_tag [OF assms(1,2,3)] assms(3,4,5)
    by (simp add: nth_default_nth) (unfold iter_at_sel, rule refl)
qed

text \<open>The state of the loop after \<open>i\<close> fields of a message with contents \<open>css\<close>.\<close>

definition loop_inv :: "pb_field list \<Rightarrow> content list list \<Rightarrow> pb_slot list \<Rightarrow> nat \<Rightarrow> u32 list \<Rightarrow> pb_slot list \<Rightarrow> bool" where
  "loop_inv fs css m0 i seen m \<longleftrightarrow>
     length m = length fs \<and> seen_upto (required_in (take i fs)) seen \<and>
     (\<forall>j < length fs. slot_typed (fs ! j) (val_typed (fs ! j)) (m ! j)) \<and>
     (\<forall>j < i. slot_content (fs ! j) (m ! j) = css ! j) \<and>
     (\<forall>j < length fs. i \<le> j \<longrightarrow> m ! j = pb_field_set_to_default (fs ! j) (m0 ! j))"

lemma loop_inv_step:
  assumes "loop_inv fs css m0 i seen m" "i < length fs"
    and "slot_typed (fs ! i) (val_typed (fs ! i)) slot" "slot_content (fs ! i) slot = css ! i"
    and "seen' = mark_seen fs (iter_at fs i) seen \<or> pf_htype (fs ! i) \<noteq> PB_HTYPE_REQUIRED \<and> seen' = seen"
  shows "loop_inv fs css m0 (Suc i) seen' (m[i := slot])"
proof -
  have "mark_seen fs (iter_at fs i) seen = seen" if "pf_htype (fs ! i) \<noteq> PB_HTYPE_REQUIRED"
    using that assms(2) by (simp add: mark_seen_def)
  then have "seen' = mark_seen fs (iter_at fs i) seen" using assms(5) by auto
  then have "seen_upto (required_in (take (Suc i) fs)) seen'"
    using mark_seen_at [OF _ assms(2)] assms(1) by (simp add: loop_inv_def)
  then show ?thesis
    using assms(1-4) by (auto simp: loop_inv_def nth_list_update less_Suc_eq)
qed

text \<open>The items of an array that is not packed, one tag before each.\<close>

lemma decode_unpacked:
  assumes fs: "fields_ok fs" "i < length fs" and rep: "pf_htype (fs ! i) = PB_HTYPE_REPEATED"
    and unpacked: "\<not> packable (pf_ltype (fs ! i))"
  shows "\<forall>c \<in> set cs. content_reads TYPE('s) (fs ! i) c \<Longrightarrow> p < length fs \<Longrightarrow> length m = length fs \<Longrightarrow>
    filled (fs ! i) (m ! i) ds \<Longrightarrow> length ds + length cs \<le> pf_array_size (fs ! i) \<Longrightarrow> l \<le> length u \<Longrightarrow>
    length (field_bytes (fs ! i) (content_bytes (fs ! i)) cs) + l < k \<Longrightarrow>
    \<exists>slot k' p'. decode_loop k fs (map pb_decoder fs) (iter_at fs p) seen m
        (in_buf (length (field_bytes (fs ! i) (content_bytes (fs ! i)) cs) + l) (field_bytes (fs ! i) (content_bytes (fs ! i)) cs @ u) :: 's pb_istream) =
      decode_loop k' fs (map pb_decoder fs) (iter_at fs p') seen (m[i := slot]) (in_buf l u) \<and>
      l < k' \<and> p' < length fs \<and> filled (fs ! i) slot (ds @ cs)"
proof (induction cs arbitrary: p m ds k)
  case Nil
  then show ?case
    by (intro exI [of _ "m ! i"] exI [of _ k] exI [of _ p]) (simp add: field_bytes_def)
next
  case (Cons c cs)
  let ?f = "fs ! i"
  let ?tag = "tag_bytes (wire_type_for (pf_ltype ?f)) (pf_tag ?f)"
  let ?r = "field_bytes ?f (content_bytes ?f) cs"
  have bytes: "field_bytes ?f (content_bytes ?f) (c # cs) = ?tag @ content_bytes ?f c @ ?r"
    using unpacked by (simp add: field_bytes_def)
  have ne: "0 < length ?tag" by (simp add: tag_bytes_def)
  obtain k1 where k: "k = Suc k1" using Cons.prems(7) by (cases k) auto
  have k1: "length ?r + l < k1" using Cons.prems(7) ne unfolding bytes k length_append by linarith
  have slot: "filled ?f (m ! i) ds" "length ds < pf_array_size ?f" using Cons.prems(4,5) by simp_all
  then have rdy: "ready ?f (sl_items (m ! i) ! sl_count (m ! i))"
    using rep by (auto simp: ready_def filled_def slot_typed_def)
  have reads: "content_reads TYPE('s) ?f c" "length ?r + l \<le> length (?r @ u)" using Cons.prems(1,6) by simp_all
  obtain v where v: "val_typed ?f v" "val_content ?f v = c"
    "pb_decoder ?f (sl_items (m ! i) ! sl_count (m ! i))
        (in_buf (length (content_bytes ?f c) + (length ?r + l)) (content_bytes ?f c @ ?r @ u) :: 's pb_istream) =
      (Some v, in_buf (length ?r + l) (?r @ u))"
    by (rule content_readsD [OF reads(1) rdy reads(2)])
  have static: "decode_static_field ?f (pb_decoder ?f) (wire_type_for (pf_ltype ?f)) (m ! i)
      (in_buf (length (content_bytes ?f c) + (length ?r + l)) (content_bytes ?f c @ ?r @ u) :: 's pb_istream) =
    (Some (put_item (m ! i) v), in_buf (length ?r + l) (?r @ u))"
    using v(3) rep unpacked slot by (simp add: decode_static_field_def put_item_def filled_def)
  have noreq: "mark_seen fs (iter_at fs i) seen = seen" using rep fs(2) by (simp add: mark_seen_def)
  have "decode_loop k fs (map pb_decoder fs) (iter_at fs p) seen m
      (in_buf (length (?tag @ content_bytes ?f c @ ?r) + l) ((?tag @ content_bytes ?f c @ ?r) @ u) :: 's pb_istream) =
    decode_loop k1 fs (map pb_decoder fs) (iter_at fs i) seen (m[i := put_item (m ! i) v]) (in_buf (length ?r + l) (?r @ u))"
    using decode_loop_field [where 's = 's, OF fs(1) Cons.prems(2) fs(2), of "map pb_decoder fs" m "wire_type_for (pf_ltype ?f)"
        "length (content_bytes ?f c) + (length ?r + l)" "content_bytes ?f c @ ?r @ u" k1 seen]
      tag_dom_field [OF fields_ok_nth(1) [OF fs]] Cons.prems(3,6) fs(2) static noreq
    by (simp add: k add.assoc)
  moreover have "filled ?f (put_item (m ! i) v) (ds @ [c])"
    using filled_put_item [OF rep slot v(1)] v(2) by simp
  then have "\<exists>slot k' p'. decode_loop k1 fs (map pb_decoder fs) (iter_at fs i) seen (m[i := put_item (m ! i) v])
        (in_buf (length ?r + l) (?r @ u) :: 's pb_istream) =
      decode_loop k' fs (map pb_decoder fs) (iter_at fs p') seen (m[i := put_item (m ! i) v, i := slot]) (in_buf l u) \<and>
      l < k' \<and> p' < length fs \<and> filled ?f slot ((ds @ [c]) @ cs)"
    using Cons.prems fs(2) k1 by (intro Cons.IH) auto
  ultimately show ?case unfolding bytes by simp
qed

lemma content_bytes_packable:
  assumes "packable (pf_ltype f)"
  shows "content_bytes f (val_content f v) \<noteq> []"
proof -
  have "le_bytes 4 (w :: u32) \<noteq> []" "le_bytes 8 (x :: u64) \<noteq> []" for w x
    using length_le_bytes [of 4 w] length_le_bytes [of 8 x] by (metis list.size(3) zero_neq_numeral)+
  then show ?thesis using assms by (cases f; cases "pf_ltype f") (auto simp: packable_def)
qed

lemma default_ready:
  assumes "fields_ok fs" "loop_inv fs css m0 i seen m" "i < length fs" "slot_typed (fs ! i) (val_typed (fs ! i)) (m0 ! i)"
  shows "pf_htype (fs ! i) \<noteq> PB_HTYPE_REPEATED \<Longrightarrow> ready (fs ! i) (sl_item (m ! i))"
    and "pf_htype (fs ! i) = PB_HTYPE_REPEATED \<Longrightarrow> filled (fs ! i) (m ! i) []"
proof -
  have m: "m ! i = pb_field_set_to_default (fs ! i) (m0 ! i)" "slot_typed (fs ! i) (val_typed (fs ! i)) (m ! i)"
    using assms(2,3) unfolding loop_inv_def by blast+
  then show "pf_htype (fs ! i) \<noteq> PB_HTYPE_REPEATED \<Longrightarrow> ready (fs ! i) (sl_item (m ! i))"
    using assms(4) by (auto simp: ready_def)
  show "pf_htype (fs ! i) = PB_HTYPE_REPEATED \<Longrightarrow> filled (fs ! i) (m ! i) []"
    using m by (cases "fs ! i") (simp add: filled_def slot_content_def present_def)
qed

lemma decode_field_bytes:
  assumes fs: "fields_ok fs" "i < length fs" "p < length fs" and inv: "loop_inv fs css m0 i seen m"
    and m0: "slot_typed (fs ! i) (val_typed (fs ! i)) (m0 ! i)"
    and slot: "slot_typed (fs ! i) (val_typed (fs ! i)) slot" "css ! i = slot_content (fs ! i) slot"
    and reads: "\<forall>c \<in> set (css ! i). content_reads TYPE('s) (fs ! i) c"
    and small: "length (field_bytes (fs ! i) (content_bytes (fs ! i)) (css ! i)) < 2 ^ 32" and l: "l \<le> length u"
    and k: "length (field_bytes (fs ! i) (content_bytes (fs ! i)) (css ! i)) + l < k"
  shows "\<exists>seen' m' k' p'. decode_loop k fs (map pb_decoder fs) (iter_at fs p) seen m
      (in_buf (length (field_bytes (fs ! i) (content_bytes (fs ! i)) (css ! i)) + l)
        (field_bytes (fs ! i) (content_bytes (fs ! i)) (css ! i) @ u) :: 's pb_istream) =
    decode_loop k' fs (map pb_decoder fs) (iter_at fs p') seen' m' (in_buf l u) \<and>
    l < k' \<and> p' < length fs \<and> loop_inv fs css m0 (Suc i) seen' m'"
proof -
  let ?f = "fs ! i" and ?decs = "map pb_decoder fs"
  let ?wt = "wire_type_for (pf_ltype ?f)"
  let ?fb = "field_bytes ?f (content_bytes ?f) (css ! i)"
  have f: "field_ok ?f" by (rule fields_ok_nth(1) [OF fs(1,2)])
  have len: "length m = length fs" using inv by (simp add: loop_inv_def)
  note rdy = default_ready [OF fs(1) inv fs(2) m0]
  note step = decode_loop_field [where 's = 's, OF fs(1,3,2), of ?decs m]
  have "css ! i = [] \<or> (\<exists>c. css ! i = [c])" if "pf_htype ?f \<noteq> PB_HTYPE_REPEATED"
    using that slot(2) by (cases "pf_htype ?f") (auto simp: slot_content_def present_def)
  then consider "css ! i = []" | c where "pf_htype ?f \<noteq> PB_HTYPE_REPEATED" "css ! i = [c]"
    | "pf_htype ?f = PB_HTYPE_REPEATED" "packable (pf_ltype ?f)" "css ! i \<noteq> []"
    | "pf_htype ?f = PB_HTYPE_REPEATED" "\<not> packable (pf_ltype ?f)" "css ! i \<noteq> []"
    by blast
  then show ?thesis
  proof cases
    case 1
    then have fb: "?fb = []" by (simp add: field_bytes_def)
    have "pf_htype ?f \<noteq> PB_HTYPE_REQUIRED" using 1 slot(2) by (auto simp: slot_content_def present_def)
    moreover have "slot_content ?f (m ! i) = css ! i"
      using default_content [OF f slot(1) m0] 1 slot(2) inv fs(2) by (simp add: loop_inv_def)
    ultimately have "loop_inv fs css m0 (Suc i) seen (m[i := m ! i])"
      using inv fs(2) by (intro loop_inv_step [OF inv fs(2)]) (auto simp: loop_inv_def)
    then show ?thesis using k fs(3) unfolding fb by (intro exI [of _ seen] exI [of _ m] exI [of _ k] exI [of _ p]) simp
  next
    case 2
    let ?tag = "tag_bytes ?wt (pf_tag ?f)"
    have fb: "?fb = ?tag @ content_bytes ?f c" using 2 by (simp add: field_bytes_def)
    obtain k1 where k1: "k = Suc k1" using k by (cases k) auto
    have "0 < length ?tag" by (simp add: tag_bytes_def)
    then have lk: "l < k1" using k unfolding fb k1 length_append by linarith
    obtain v where v: "val_typed ?f v" "val_content ?f v = c"
      "pb_decoder ?f (sl_item (m ! i)) (in_buf (length (content_bytes ?f c) + l) (content_bytes ?f c @ u) :: 's pb_istream) =
        (Some v, in_buf l u)"
      using content_readsD [OF _ rdy(1) [OF 2(1)] l, of c, where 's = 's] reads 2(2) by (metis list.set_intros(1))
    let ?slot = "Slot (pf_htype ?f = PB_HTYPE_OPTIONAL \<and> pf_has_size ?f \<or> sl_has (m ! i)) (sl_count (m ! i)) [v]"
    have static: "decode_static_field ?f (pb_decoder ?f) ?wt (m ! i)
        (in_buf (length (content_bytes ?f c) + l) (content_bytes ?f c @ u) :: 's pb_istream) = (Some ?slot, in_buf l u)"
      using v(3) 2(1) by (cases "pf_htype ?f") (simp_all add: decode_static_field_def)
    have "slot_content ?f ?slot = [c]"
      using 2 slot(2) v(2) by (cases "pf_htype ?f") (auto simp: slot_content_def present_def sl_item_def split: if_splits)
    then have "loop_inv fs css m0 (Suc i) (mark_seen fs (iter_at fs i) seen) (m[i := ?slot])"
      using 2 v(1) by (intro loop_inv_step [OF inv fs(2)]) (auto simp: slot_typed_def)
    moreover have "decode_loop k fs ?decs (iter_at fs p) seen m (in_buf (length ?fb + l) (?fb @ u) :: 's pb_istream) =
        decode_loop k1 fs ?decs (iter_at fs i) (mark_seen fs (iter_at fs i) seen) (m[i := ?slot]) (in_buf l u)"
      using step [of ?wt "length (content_bytes ?f c) + l" "content_bytes ?f c @ u" k1 seen] tag_dom_field [OF f] len l fs(2) static
      by (simp add: fb k1 add.assoc)
    ultimately show ?thesis using lk fs(2) by blast
  next
    case 3
    let ?tag = "tag_bytes PB_WT_STRING (pf_tag ?f)" and ?b = "concat (map (content_bytes ?f) (css ! i))"
    have fb: "?fb = ?tag @ lv_bytes ?b" using 3 by (simp add: field_bytes_def)
    obtain k1 where k1: "k = Suc k1" using k by (cases k) auto
    have "0 < length ?tag" by (simp add: tag_bytes_def)
    then have lk: "l < k1" using k unfolding fb k1 length_append by linarith
    have cs: "css ! i = map (val_content ?f) (take (sl_count slot) (sl_items slot))"
      using 3(1) slot(2) by (simp add: slot_content_def present_def)
    have "\<forall>c \<in> set (css ! i). content_reads TYPE('s) ?f c \<and> content_bytes ?f c \<noteq> []"
      using reads content_bytes_packable [OF 3(2)] unfolding cs by auto
    moreover have "length (css ! i) \<le> pf_array_size ?f" using cs slot(1) 3(1) by (simp add: slot_typed_def)
    moreover have "length ?b < 2 ^ 32" using small unfolding fb by (simp add: lv_bytes_def)
    ultimately obtain slot' where slot': "\<And>m'. decode_static_field ?f (pb_decoder ?f) PB_WT_STRING (m ! i)
        (in_buf (length (lv_bytes ?b) + m') (lv_bytes ?b @ u) :: 's pb_istream) = (Some slot', in_buf m' u)" "filled ?f slot' (css ! i)"
      using decode_packed [OF 3(1,2), of "css ! i" "m ! i" u, where 's = 's] rdy(2) [OF 3(1)] by blast
    have "loop_inv fs css m0 (Suc i) (mark_seen fs (iter_at fs i) seen) (m[i := slot'])"
      using slot'(2) by (intro loop_inv_step [OF inv fs(2)]) (auto simp: filled_def)
    moreover have "decode_loop k fs ?decs (iter_at fs p) seen m (in_buf (length ?fb + l) (?fb @ u) :: 's pb_istream) =
        decode_loop k1 fs ?decs (iter_at fs i) (mark_seen fs (iter_at fs i) seen) (m[i := slot']) (in_buf l u)"
      using step [of PB_WT_STRING "length (lv_bytes ?b) + l" "lv_bytes ?b @ u" k1 seen] tag_dom_field [OF f] len l fs(2) slot'(1)
      by (simp add: fb k1 add.assoc)
    ultimately show ?thesis using lk fs(2) by blast
  next
    case 4
    have cs: "css ! i = map (val_content ?f) (take (sl_count slot) (sl_items slot))"
      using 4(1) slot(2) by (simp add: slot_content_def present_def)
    have "length (css ! i) \<le> pf_array_size ?f" using cs slot(1) 4(1) by (simp add: slot_typed_def)
    then obtain slot' k' p' where r: "decode_loop k fs ?decs (iter_at fs p) seen m (in_buf (length ?fb + l) (?fb @ u) :: 's pb_istream) =
        decode_loop k' fs ?decs (iter_at fs p') seen (m[i := slot']) (in_buf l u)" "l < k'" "p' < length fs" "filled ?f slot' (css ! i)"
      using decode_unpacked [where seen = seen, OF fs(1,2) 4(1,2) reads fs(3) len rdy(2) [OF 4(1)] _ l k] by auto
    have "loop_inv fs css m0 (Suc i) seen (m[i := slot'])"
      using r(4) 4(1) by (intro loop_inv_step [OF inv fs(2)]) (auto simp: filled_def)
    with r show ?thesis by blast
  qed
qed

section \<open>Messages\<close>

text \<open>The contents of a message of a table, whose values are read back.\<close>

definition contents_read :: "'s itself \<Rightarrow> pb_field list \<Rightarrow> content list list \<Rightarrow> bool" where
  "contents_read S fs css \<longleftrightarrow>
     (\<exists>slots. msg_typed fs slots \<and> css = msg_content fs slots) \<and>
     (\<forall>i < length fs. \<forall>c \<in> set (css ! i). content_reads S (fs ! i) c)"

definition rest_bytes :: "pb_field list \<Rightarrow> content list list \<Rightarrow> nat \<Rightarrow> u8 list" where
  "rest_bytes fs css i = concat (drop i (map2 (\<lambda>f cs. field_bytes f (content_bytes f) cs) fs css))"

lemma rest_bytes_simps:
  assumes "length css = length fs"
  shows "rest_bytes fs css 0 = msg_bytes fs css" "rest_bytes fs css (length fs) = []"
    "i < length fs \<Longrightarrow> rest_bytes fs css i = field_bytes (fs ! i) (content_bytes (fs ! i)) (css ! i) @ rest_bytes fs css (Suc i)"
  using assms by (simp_all add: rest_bytes_def msg_bytes_def Cons_nth_drop_Suc [symmetric])

lemma decode_rest:
  assumes fs: "fields_ok fs" "fs \<noteq> []" and m0: "msg_typed fs m0" and css: "contents_read TYPE('s) fs css"
    and small: "length (msg_bytes fs css) < 2 ^ 32" and i: "i \<le> length fs"
  shows "p < length fs \<Longrightarrow> loop_inv fs css m0 i seen m \<Longrightarrow> length (rest_bytes fs css i) < k \<Longrightarrow> length (rest_bytes fs css i) < 2 ^ 32 \<Longrightarrow>
    \<exists>p' seen' m'. decode_loop k fs (map pb_decoder fs) (iter_at fs p) seen m
        (in_buf (length (rest_bytes fs css i)) (rest_bytes fs css i @ t) :: 's pb_istream) =
      (Some (iter_at fs p', seen', m'), in_buf 0 t) \<and> p' < length fs \<and> loop_inv fs css m0 (length fs) seen' m'"
  using i
proof (induction "length fs - i" arbitrary: i p seen m k)
  case 0
  then have i: "i = length fs" by simp
  obtain slots where slots: "msg_typed fs slots" "css = msg_content fs slots" using css by (auto simp: contents_read_def)
  then have rest: "rest_bytes fs css i = []" unfolding i using msg_typed_nth(1) [OF slots(1)] by (simp add: rest_bytes_def msg_content_def)
  obtain k1 where k: "k = Suc k1" using 0 by (cases k) auto
  have "decode_loop k fs (map pb_decoder fs) (iter_at fs p) seen m (in_buf 0 t :: 's pb_istream) =
      (Some (iter_at fs p, seen, m), in_buf 0 t)" by (simp add: k)
  then show ?case using 0 i rest by auto
next
  case (Suc j)
  obtain slots where slots: "msg_typed fs slots" "css = msg_content fs slots" using css by (auto simp: contents_read_def)
  have i: "i < length fs" using Suc.hyps(2) by simp
  have len: "length css = length fs" using slots msg_typed_nth(1) [OF slots(1)] by (simp add: msg_content_def)
  let ?fb = "field_bytes (fs ! i) (content_bytes (fs ! i)) (css ! i)" and ?r = "rest_bytes fs css (Suc i)"
  have rest: "rest_bytes fs css i = ?fb @ ?r" by (rule rest_bytes_simps(3) [OF len i])
  have "css ! i = slot_content (fs ! i) (slots ! i)" using slots i msg_typed_nth(1) [OF slots(1)] by (simp add: msg_content_def)
  moreover have "\<forall>c \<in> set (css ! i). content_reads TYPE('s) (fs ! i) c" using css i by (simp add: contents_read_def)
  ultimately obtain seen1 m1 k1 p1 where one: "decode_loop k fs (map pb_decoder fs) (iter_at fs p) seen m
        (in_buf (length ?fb + length ?r) (?fb @ ?r @ t) :: 's pb_istream) =
      decode_loop k1 fs (map pb_decoder fs) (iter_at fs p1) seen1 m1 (in_buf (length ?r) (?r @ t))"
      "length ?r < k1" "p1 < length fs" "loop_inv fs css m0 (Suc i) seen1 m1"
    using decode_field_bytes [OF fs(1) i Suc.prems(1,2) msg_typed_nth(2) [OF m0 i] msg_typed_nth(2) [OF slots(1) i], of "length ?r" "?r @ t" k, where 's = 's]
      Suc.prems(3,4) unfolding rest by auto
  obtain p' seen' m' where "decode_loop k1 fs (map pb_decoder fs) (iter_at fs p1) seen1 m1 (in_buf (length ?r) (?r @ t) :: 's pb_istream) =
      (Some (iter_at fs p', seen', m'), in_buf 0 t)" "p' < length fs" "loop_inv fs css m0 (length fs) seen' m'"
    using Suc.hyps(1) [of "Suc i" p1 seen1 m1 k1] Suc.hyps(2) one(2-4) Suc.prems(4) i unfolding rest by fastforce
  then show ?case using one(1) unfolding rest by auto
qed

lemma decode_message_bytes:
  assumes fs: "fields_ok fs" and m0: "msg_typed fs m0" and css: "contents_read TYPE('s) fs css"
    and small: "length (msg_bytes fs css) < 2 ^ 32"
  shows "\<exists>m. decode_message fs (map pb_decoder fs) (pb_message_set_to_defaults fs m0)
        (in_buf (length (msg_bytes fs css)) (msg_bytes fs css @ t) :: 's pb_istream) = (Some m, in_buf 0 t) \<and>
      msg_typed fs m \<and> msg_content fs m = css"
proof (cases "fs = []")
  case True
  then have "msg_bytes fs css = []" by (simp add: msg_bytes_def)
  moreover have "decode_message [] [] [] (in_buf 0 t :: 's pb_istream) = (Some [], in_buf 0 t)" for t
    using required_fields_present_at [of "[]" 0 0 "[0, 0]"] seen_upto_start
    by (simp add: decode_message_def iter_begin fields_ok_def required_in_def)
  moreover have "css = []" using css True by (auto simp: contents_read_def msg_content_def)
  ultimately show ?thesis using True m0 by (auto simp: msg_typed_def msg_content_def pb_message_set_to_defaults_def)
next
  case False
  let ?D = "pb_message_set_to_defaults fs m0" and ?b = "msg_bytes fs css"
  obtain slots where slots: "msg_typed fs slots" "css = msg_content fs slots" using css by (auto simp: contents_read_def)
  have len: "length css = length fs" using slots msg_typed_nth(1) [OF slots(1)] by (simp add: msg_content_def)
  have inv: "loop_inv fs css m0 0 [0, 0] ?D"
    using msg_typed_nth [OF defaults_typed [OF fs m0]] msg_typed_nth(1) [OF m0] seen_upto_start
    by (simp add: loop_inv_def pb_message_set_to_defaults_def required_in_def)
  obtain p seen m where r: "decode_loop (Suc (length ?b)) fs (map pb_decoder fs) (iter_at fs 0) [0, 0] ?D
      (in_buf (length ?b) (?b @ t) :: 's pb_istream) = (Some (iter_at fs p, seen, m), in_buf 0 t)" "p < length fs"
      "loop_inv fs css m0 (length fs) seen m"
    using decode_rest [OF fs False m0 css small, of 0 0 "[0, 0]" ?D "Suc (length ?b)" t] inv small False
    by (auto simp: rest_bytes_simps(1) [OF len])
  have "required_fields_present fs (iter_at fs p) seen"
    using required_fields_present_at [OF fs, of p "required_in fs" seen] r(2,3) by (simp add: loop_inv_def)
  moreover have "msg_content fs m = css"
    using r(3) len by (intro nth_equalityI) (auto simp: msg_content_def loop_inv_def)
  moreover have "msg_typed fs m" using r(3) by (auto intro!: msg_typedI simp: loop_inv_def)
  ultimately show ?thesis using r(1) by (auto simp: decode_message_def iter_begin)
qed

lemma slot_content_item:
  assumes "slot_typed f (val_typed f) slot" "c \<in> set (slot_content f slot)"
  shows "\<exists>v. c = val_content f v \<and> val_typed f v"
proof (cases "pf_htype f = PB_HTYPE_REPEATED")
  case True
  then show ?thesis
    using assms by (auto simp: slot_content_def present_def slot_typed_def dest: in_set_takeD)
next
  case False
  then show ?thesis
    using assms slot_typed_item [OF assms(1) False]
    by (cases "pf_htype f") (auto simp: slot_content_def present_def split: if_splits)
qed

lemma length_concat_ge: "xs \<in> set xss \<Longrightarrow> length xs \<le> length (concat xss)"
  by (induction xss) auto

lemma field_bytes_ge: "c \<in> set cs \<Longrightarrow> length (bytes c) \<le> length (field_bytes f bytes cs)"
proof -
  assume c: "c \<in> set cs"
  have "length (bytes c) \<le> length (concat (map bytes cs))" using c by (intro length_concat_ge) simp
  moreover have "length (tag_bytes w t @ bytes c) \<le> length (concat (map (\<lambda>c. tag_bytes w t @ bytes c) cs))" for w t
    using c by (intro length_concat_ge) simp
  from this [of "wire_type_for (pf_ltype f)" "pf_tag f"]
  have "length (bytes c) \<le> length (concat (map (\<lambda>c. tag_bytes (wire_type_for (pf_ltype f)) (pf_tag f) @ bytes c) cs))" by simp
  ultimately show ?thesis using c by (auto simp: field_bytes_def lv_bytes_def)
qed

lemma msg_bytes_ge:
  assumes "i < length fs" "length css = length fs" "c \<in> set (css ! i)"
  shows "length (content_bytes (fs ! i) c) \<le> length (msg_bytes fs css)"
proof -
  have "field_bytes (fs ! i) (content_bytes (fs ! i)) (css ! i) \<in> set (map2 (\<lambda>f cs. field_bytes f (content_bytes f) cs) fs css)"
    using assms(1,2) by (auto simp: set_zip)
  from length_concat_ge [OF this] field_bytes_ge [OF assms(3), of "content_bytes (fs ! i)" "fs ! i"]
  show ?thesis by (simp add: msg_bytes_def)
qed

lemma contents_readI:
  assumes "fields_ok fs" "msg_typed fs slots" "length (msg_bytes fs (msg_content fs slots)) < 2 ^ 32"
    and "\<And>f v. f \<in> set fs \<Longrightarrow> field_ok f \<Longrightarrow> val_typed f v \<Longrightarrow> length (content_bytes f (val_content f v)) < 2 ^ 32 \<Longrightarrow>
      content_reads TYPE('s) f (val_content f v)"
  shows "contents_read TYPE('s) fs (msg_content fs slots)"
  unfolding contents_read_def
proof (intro conjI allI ballI impI)
  show "\<exists>slots'. msg_typed fs slots' \<and> msg_content fs slots = msg_content fs slots'" using assms(2) by blast
  fix i c assume i: "i < length fs" and c: "c \<in> set (msg_content fs slots ! i)"
  have len: "length (msg_content fs slots) = length fs" using msg_typed_nth(1) [OF assms(2)] by (simp add: msg_content_def)
  have "c \<in> set (slot_content (fs ! i) (slots ! i))" using c i msg_typed_nth(1) [OF assms(2)] by (simp add: msg_content_def)
  then obtain v where v: "c = val_content (fs ! i) v" "val_typed (fs ! i) v"
    using slot_content_item [OF msg_typed_nth(2) [OF assms(2) i]] by blast
  have "length (content_bytes (fs ! i) c) < 2 ^ 32" using msg_bytes_ge [OF i len c] assms(3) by linarith
  then show "content_reads TYPE('s) (fs ! i) c"
    using assms(4) [of "fs ! i" v] i v fields_ok_nth(1) [OF assms(1) i] by simp
qed

lemma ready_typed: "field_ok f \<Longrightarrow> ready f old \<Longrightarrow> val_typed f old"
  using default_typed [of f] slot_typed_item [of f "val_typed f"]
  by (fastforce simp: ready_def split: if_splits)

lemma decode_scalar:
  assumes "field_ok (Field tag lt ht hs ds n ptr)" "lt \<noteq> PB_LTYPE_SUBMESSAGE" "scalar_typed lt ds v" "scalar_typed lt ds old"
    and m: "m \<le> length t"
  shows "\<exists>v'. scalar_typed lt ds v' \<and> val_content (Field tag lt ht hs ds n ptr) v' = val_content (Field tag lt ht hs ds n ptr) v \<and>
    pb_decoder (Field tag lt ht hs ds n ptr) old
      (in_buf (length (content_bytes (Field tag lt ht hs ds n ptr) (val_content (Field tag lt ht hs ds n ptr) v)) + m)
        (content_bytes (Field tag lt ht hs ds n ptr) (val_content (Field tag lt ht hs ds n ptr) v) @ t) :: 's pb_istream) = (Some v', in_buf m t)"
proof (cases lt)
  case PB_LTYPE_BOOL
  then show ?thesis
    using assms(3) decodesD [OF decodes_bool [of "val_bool v", where 's = 's] m]
    by (intro exI [of _ v]) (cases v; simp add: pb_decode_bool_def)
next
  case PB_LTYPE_VARINT
  then show ?thesis
    using assms(3) decodesD [OF decodes_pb_dec_varint [of ds "val_int v", where 's = 's] m]
    by (intro exI [of _ v]) (cases v; auto simp: stored_Some)
next
  case PB_LTYPE_UVARINT
  then show ?thesis
    using assms(3) decodesD [OF decodes_pb_dec_uvarint [of ds "val_int v", where 's = 's] m]
    by (intro exI [of _ v]) (cases v; auto simp: stored_Some)
next
  case PB_LTYPE_SVARINT
  then show ?thesis
    using assms(3) decodesD [OF decodes_pb_dec_svarint [of ds "val_int v", where 's = 's] m]
    by (intro exI [of _ v]) (cases v; auto simp: stored_Some)
next
  case PB_LTYPE_FIXED32
  then show ?thesis
    using assms(3) decodesD [OF decodes_fixed32 [of "val_32 v", where 's = 's] m]
    by (intro exI [of _ v]) (cases v; simp add: pb_dec_fixed32_def)
next
  case PB_LTYPE_FIXED64
  then show ?thesis
    using assms(3) decodesD [OF decodes_fixed64 [of "val_64 v", where 's = 's] m]
    by (intro exI [of _ v]) (cases v; simp add: pb_dec_fixed64_def)
next
  case PB_LTYPE_BYTES
  then have "fits (Inl ds) (length (val_bytes v) + 4)" using assms(1,3) by (simp add: fits_def)
  then show ?thesis
    using PB_LTYPE_BYTES assms(3) decodesD [OF decodes_pb_dec_bytes [of "Inl ds" "val_bytes v", where 's = 's] m]
    by (intro exI [of _ v]) (cases v; simp)
next
  case PB_LTYPE_STRING
  let ?s = "takeWhile (\<lambda>c. c \<noteq> 0) (val_bytes v)"
  have v: "length (val_bytes v) = ds" "0 \<in> set (val_bytes v)" using assms(3) PB_LTYPE_STRING by simp_all
  note sp = string_split [OF v(2)]
  have "fits (Inl ds) (length ?s + 1)" using assms(1) PB_LTYPE_STRING sp(2) v(1) by (simp add: fits_def)
  from decodesD [OF decodes_pb_dec_string [OF this, where 's = 's] m]
  have d: "pb_dec_string (in_buf (length (lv_bytes ?s) + m) (lv_bytes ?s @ t) :: 's pb_istream) (Inl ds) = (Some (?s @ [0]), in_buf m t)" .
  let ?v = "Val_bytes (?s @ 0 # drop (Suc (length ?s)) (val_bytes old))"
  have "scalar_typed lt ds ?v" using assms(4) PB_LTYPE_STRING sp(2) v(1) by simp
  moreover have "takeWhile (\<lambda>c. c \<noteq> 0) (?s @ 0 # drop (Suc (length ?s)) (val_bytes old)) = ?s"
    using sp(3) by (subst takeWhile_append2) (auto dest: set_takeWhileD)
  ultimately show ?thesis using d PB_LTYPE_STRING by (intro exI [of _ ?v]) simp
next
  case PB_LTYPE_FIXED_LENGTH_BYTES
  then have "length (val_bytes v) = ds" "length (val_bytes v) < 2 ^ 32" using assms(1,3) by simp_all
  then show ?thesis
    using PB_LTYPE_FIXED_LENGTH_BYTES assms(3) decodesD [OF decodes_pb_dec_fixed_length_bytes [of "val_bytes v", where 's = 's] m]
    by (intro exI [of _ v]) (cases v; simp)
qed (use assms in simp)

lemma decode_value:
  "field_ok f \<Longrightarrow> val_typed f v \<Longrightarrow> length (content_bytes f (val_content f v)) < 2 ^ 32 \<Longrightarrow>
     content_reads TYPE('s) f (val_content f v)"
proof (induction f arbitrary: v rule: field_induct)
  case (1 tag lt ht hs ds n ptr)
  let ?f = "Field tag lt ht hs ds n ptr"
  show ?case
    unfolding content_reads_def
  proof (intro allI impI)
    fix old m and t :: "u8 list" assume old: "ready ?f old" and m: "m \<le> length t"
    show "\<exists>v'. val_typed ?f v' \<and> val_content ?f v' = val_content ?f v \<and>
        pb_decoder ?f old (in_buf (length (content_bytes ?f (val_content ?f v)) + m) (content_bytes ?f (val_content ?f v) @ t) :: 's pb_istream) =
          (Some v', in_buf m t)"
    proof (cases "lt = PB_LTYPE_SUBMESSAGE")
      case lt: True
      then obtain fs where fs: "ptr = Ptr_fields fs" "fields_ok fs" using 1(2) ptr_ok_cases by auto
      have typed: "msg_typed fs (val_msg v)" using 1(3) lt fs(1) by (simp add: sub_typed_fields del: sub_typed.simps)
      let ?css = "msg_content fs (val_msg v)"
      have bytes: "content_bytes ?f (val_content ?f v) = lv_bytes (msg_bytes fs ?css)"
        using lt fs(1) by (simp add: sub_content_fields sub_bytes_fields del: sub_content.simps sub_bytes.simps)
      have small: "length (msg_bytes fs ?css) < 2 ^ 32" using 1(4) unfolding bytes by (simp add: lv_bytes_def)
      have reads: "contents_read TYPE('s) fs ?css" by (rule contents_readI [OF fs(2) typed small 1(1) [OF fs(1)]])
      obtain m0 where m0: "msg_typed fs m0"
        "(if ht = PB_HTYPE_REPEATED then sub_set_to_defaults ptr (val_msg old) else val_msg old) = pb_message_set_to_defaults fs m0"
      proof (cases "ht = PB_HTYPE_REPEATED")
        case True
        then have "msg_typed fs (val_msg old)" using old lt fs(1) by (simp add: ready_def sub_typed_fields del: sub_typed.simps)
        then show ?thesis using that True fs(1) by (simp add: set_defaults_fields del: sub_set_to_defaults.simps)
      next
        case False
        then obtain s0 where s0: "slot_typed ?f (val_typed ?f) s0" "old = sl_item (pb_field_set_to_default ?f s0)"
          using old by (auto simp: ready_def simp del: val_typed.simps pb_field_set_to_default.simps)
        moreover have "val_typed ?f (sl_item s0)" using slot_typed_item [OF s0(1)] False by auto
        ultimately show ?thesis
          using that [of "val_msg (sl_item s0)"] False lt fs(1)
          by (simp add: sl_item_def set_defaults_fields sub_typed_fields del: sub_set_to_defaults.simps sub_typed.simps)
      qed
      obtain ms where ms: "decode_message fs (map pb_decoder fs) (pb_message_set_to_defaults fs m0)
          (in_buf (length (msg_bytes fs ?css)) (msg_bytes fs ?css @ t) :: 's pb_istream) = (Some ms, in_buf 0 t)"
          "msg_typed fs ms" "msg_content fs ms = ?css"
        using decode_message_bytes [OF fs(2) m0(1) reads small, of t] by blast
      have "pb_decoder ?f old (in_buf (length (lv_bytes (msg_bytes fs ?css)) + m) (lv_bytes (msg_bytes fs ?css) @ t) :: 's pb_istream) =
          (Some (Val_msg ms), in_buf m t)"
        using decode_submessage_at [of "decode_message fs (map pb_decoder fs) (pb_message_set_to_defaults fs m0)", OF ms(1) small, of m]
          m0(2) lt fs(1) by (cases "ht = PB_HTYPE_REPEATED") (simp_all del: sub_set_to_defaults.simps)
      moreover have "val_typed ?f (Val_msg ms)" using ms(2) lt fs(1) by (simp add: sub_typed_fields del: sub_typed.simps)
      moreover have "val_content ?f (Val_msg ms) = val_content ?f v"
        using ms(3) lt fs(1) by (simp add: sub_content_fields del: sub_content.simps)
      ultimately show ?thesis unfolding bytes by blast
    next
      case False
      then show ?thesis
        using decode_scalar [OF 1(2) False _ _ m, of v old, where 's = 's] 1(3) ready_typed [OF 1(2) old] by auto
    qed
  qed
qed

text \<open>C5: What \<open>pb_encode\<close> writes for a message, \<open>pb_decode\<close> reads into any structure of the same table, to a message
that says the same, submessages and arrays included, with nothing left of the input.\<close>

theorem pb_message_roundtrip:
  assumes "fields_ok fs" "msg_typed fs msg" "msg_typed fs dest"
    and "length (msg_bytes fs (msg_content fs msg)) \<le> n" "n < 2 ^ 32"
  shows "\<exists>st m. pb_encode fs msg (pb_ostream_from_buffer n) = (True, st) \<and>
    pb_decode fs dest (pb_istream_from_buffer (os_state st) (os_bytes_written st) :: 's pb_istream) = (Some m, in_buf 0 []) \<and>
    msg_typed fs m \<and> msg_content fs m = msg_content fs msg"
proof -
  let ?css = "msg_content fs msg"
  let ?b = "msg_bytes fs ?css"
  have small: "length ?b < 2 ^ 32" using assms(4,5) by linarith
  have "encodes (pb_encode fs msg) ?b"
    unfolding pb_encode_def using assms(1,2) encodes_value by (rule encodes_message)
  from encodesD(1) [OF this, of 0 n "[]"]
  have e: "pb_encode fs msg (pb_ostream_from_buffer n) = (True, out_at n (length ?b) ?b)"
    using assms(4,5) by (simp add: stream_starts)
  have "contents_read TYPE('s) fs ?css" by (rule contents_readI [OF assms(1,2) small decode_value])
  from decode_message_bytes [OF assms(1,3) this small, of "[]"] e
  show ?thesis by (auto simp: from_buffer_eq pb_decode_def pb_decode_noinit_def)
qed

theorem pb_message_roundtrip_witness:
  "\<exists>st m. pb_encode sample_fields sample_msg (pb_ostream_from_buffer 20) = (True, st) \<and>
     pb_decode sample_fields sample_msg (pb_istream_from_buffer (os_state st) (os_bytes_written st) :: unit pb_istream) = (Some m, in_buf 0 []) \<and>
     msg_content sample_fields m = msg_content sample_fields sample_msg"
  using pb_message_roundtrip [OF sample_ok(1,2,2), of 20, where 's = unit] by (auto simp: sample_small)

end
