(* ===== verification/PbSafe.thy ===== *)
theory PbSafe
  imports PbRound
begin

text \<open>
  Decoding whatever the input is (\<open>pb_decode\<close> of \<^verbatim>\<open>nanopb/pb_decode.c\<close>): the stream only moves forward, the loop
  over the fields ends, and what is stored has the types of the table.
\<close>

section \<open>Streams move forward\<close>

text \<open>
  A stream that has the bytes it says are left: a buffer is as long, a callback gives as many bytes as it is asked
  for.
\<close>

fun reader_ok :: "'s reader \<Rightarrow> nat \<Rightarrow> bool" where
  "reader_ok (Buf_read bs) n \<longleftrightarrow> n \<le> length bs"
| "reader_ok (Callback f s) n \<longleftrightarrow> (\<forall>s n r s'. f s n = (Some r, s') \<longrightarrow> length r = n)"

definition stream_ok :: "'s pb_istream \<Rightarrow> bool" where
  "stream_ok st \<longleftrightarrow> reader_ok (is_reader st) (is_bytes_left st)"

fun reader_moves :: "'s reader \<Rightarrow> 's reader \<Rightarrow> nat \<Rightarrow> bool" where
  "reader_moves (Buf_read bs) (Buf_read bs') k \<longleftrightarrow> bs' = drop k bs"
| "reader_moves (Callback f s) (Callback f' s') k \<longleftrightarrow> f' = f"
| "reader_moves _ _ k \<longleftrightarrow> False"

definition advances :: "'s pb_istream \<Rightarrow> 's pb_istream \<Rightarrow> bool" where
  "advances st st' \<longleftrightarrow>
     (\<exists>k \<le> is_bytes_left st. is_bytes_left st' = is_bytes_left st - k \<and> reader_moves (is_reader st) (is_reader st') k)"

lemma reader_moves_0 [simp]: "reader_moves r r 0"
  by (cases r) simp_all

lemma reader_moves_trans: "reader_moves r r1 j \<Longrightarrow> reader_moves r1 r2 k \<Longrightarrow> reader_moves r r2 (j + k)"
  by (cases r; cases r1; cases r2) (auto simp: add.commute)

lemma advances_refl [simp]: "advances st st"
  unfolding advances_def by (intro exI [of _ 0]) simp

lemma advances_trans [trans]: "advances st st1 \<Longrightarrow> advances st1 st2 \<Longrightarrow> advances st st2"
  unfolding advances_def by (elim exE conjE, rule_tac x = "k + ka" in exI) (auto intro: reader_moves_trans)

lemma advances_left: "advances st st' \<Longrightarrow> is_bytes_left st' \<le> is_bytes_left st"
  by (auto simp: advances_def)

lemma advances_ok: "advances st st' \<Longrightarrow> stream_ok st \<Longrightarrow> stream_ok st'"
  unfolding advances_def stream_ok_def
  by (cases "is_reader st"; cases "is_reader st'") auto

lemma call_reader_moves: "call_reader r n = (Some bs, r') \<Longrightarrow> reader_moves r r' n"
  by (cases r) (auto split: prod.splits)

lemma pb_read_buf_advances:
  assumes "pb_read_buf n st = (Some bs, st')"
  shows "advances st st' \<and> is_bytes_left st' + n = is_bytes_left st \<and> (stream_ok st \<longrightarrow> length bs = n)"
proof (cases "n = 0")
  case True
  then show ?thesis using assms by (auto simp: pb_read_buf_def)
next
  case False
  then obtain r' where r: "call_reader (is_reader st) n = (Some bs, r')" "n \<le> is_bytes_left st"
    "st' = st\<lparr>is_reader := r', is_bytes_left := is_bytes_left st - n\<rparr>"
    using assms by (auto simp: pb_read_buf_def is_error_def split: if_splits prod.splits option.splits)
  then have "advances st st'" using call_reader_moves [OF r(1)] by (auto simp: advances_def intro!: exI [of _ n])
  moreover have "length bs = n" if "stream_ok st"
    using that r by (cases "is_reader st") (auto simp: stream_ok_def split: prod.splits)
  ultimately show ?thesis using r by simp
qed

lemma pb_readbyte_advances:
  assumes "pb_readbyte st = (Some b, st')"
  shows "advances st st' \<and> is_bytes_left st' < is_bytes_left st"
proof -
  obtain bs r' where r: "call_reader (is_reader st) 1 = (Some bs, r')" "0 < is_bytes_left st"
    "st' = st\<lparr>is_reader := r', is_bytes_left := is_bytes_left st - 1\<rparr>"
    using assms by (auto simp: pb_readbyte_def is_error_def split: if_splits prod.splits option.splits)
  then show ?thesis using call_reader_moves [OF r(1)] by (auto simp: advances_def intro!: exI [of _ 1])
qed

lemma skip_loop_advances:
  "skip_loop n (st :: 's pb_istream) = (True, st') \<Longrightarrow> advances st st' \<and> is_bytes_left st' + n = is_bytes_left st"
proof (induction n arbitrary: st rule: less_induct)
  case (less n)
  show ?case
  proof (cases "n > 16")
    case True
    then obtain bs st1 where r: "pb_read_buf 16 st = (Some bs, st1)" and rest: "skip_loop (n - 16) st1 = (True, st')"
      using less.prems by (subst (asm) skip_loop.simps) (auto split: prod.splits option.splits)
    have 1: "advances st st1" "is_bytes_left st1 + 16 = is_bytes_left st" using pb_read_buf_advances [OF r] by auto
    have 2: "advances st1 st'" "is_bytes_left st' + (n - 16) = is_bytes_left st1" using less.IH [OF _ rest] True by auto
    show ?thesis using advances_trans [OF 1(1) 2(1)] 1(2) 2(2) True by simp
  next
    case False
    then obtain bs where "pb_read_buf n st = (Some bs, st')"
      using less.prems by (subst (asm) skip_loop.simps) (auto split: prod.splits)
    then show ?thesis using pb_read_buf_advances by blast
  qed
qed

lemma pb_skip_exact:
  assumes "pb_skip n (st :: 's pb_istream) = (True, st')"
  shows "advances st st' \<and> is_bytes_left st' + n = is_bytes_left st"
proof (cases "n = 0")
  case True
  then show ?thesis using assms by (simp add: pb_skip_def)
next
  case n: False
  show ?thesis
  proof (cases "is_reader st")
    case (Buf_read bs)
    then obtain r where "pb_read_buf n st = (Some r, st')"
      using assms n by (auto simp: pb_skip_def split: prod.splits)
    then show ?thesis using pb_read_buf_advances by blast
  next
    case (Callback f s)
    then have "skip_loop n st = (True, st')" using assms n by (simp add: pb_skip_def del: skip_loop.simps)
    then show ?thesis by (rule skip_loop_advances)
  qed
qed

lemmas pb_skip_advances = pb_skip_exact [THEN conjunct1]

lemma varint32_loop_advances: "varint32_loop b res (st :: 's pb_istream) = (Some x, st') \<Longrightarrow> advances st st'"
proof (induction "is_bytes_left st" arbitrary: b res st rule: less_induct)
  case less
  obtain byte st1 where r: "pb_readbyte st = (Some byte, st1)"
    using less.prems by (subst (asm) varint32_loop.simps) (auto split: prod.splits option.splits)
  have a: "advances st st1" "is_bytes_left st1 < is_bytes_left st" using pb_readbyte_advances [OF r] by auto
  from less.prems r have "st1 = st' \<or> (\<exists>b res. varint32_loop b res st1 = (Some x, st'))"
    by (subst (asm) varint32_loop.simps) (auto simp: Let_def is_error_def split: if_splits)
  then show ?case
  proof
    assume "\<exists>b res. varint32_loop b res st1 = (Some x, st')"
    then obtain b res where "varint32_loop b res st1 = (Some x, st')" by blast
    from less.hyps [OF a(2) this] show ?thesis by (rule advances_trans [OF a(1)])
  qed (use a in simp)
qed

lemma varint32_eof_advances:
  assumes "pb_decode_varint32_eof (st :: 's pb_istream) = (Some x, e, st')"
  shows "advances st st' \<and> is_bytes_left st' < is_bytes_left st"
proof -
  obtain byte st1 where r: "pb_readbyte st = (Some byte, st1)"
    using assms by (auto simp: pb_decode_varint32_eof_def split: prod.splits option.splits)
  have a: "advances st st1" "is_bytes_left st1 < is_bytes_left st" using pb_readbyte_advances [OF r] by auto
  from assms r have "st1 = st' \<or> (\<exists>b res y. varint32_loop b res st1 = (Some y, st'))"
    by (auto simp: pb_decode_varint32_eof_def is_error_def split: if_splits prod.splits option.splits)
  then have "advances st1 st'" using varint32_loop_advances by auto
  then show ?thesis using advances_trans [OF a(1)] advances_left a(2) by fastforce
qed

lemma varint32_advances:
  assumes "pb_decode_varint32 (st :: 's pb_istream) = (Some x, st')"
  shows "advances st st'"
  using assms varint32_eof_advances by (auto simp: pb_decode_varint32_def split: prod.splits)

lemma decode_tag_advances:
  assumes "pb_decode_tag (st :: 's pb_istream) = (Some wt, e, st')"
  shows "advances st st'" "is_bytes_left st' < is_bytes_left st"
  using assms varint32_eof_advances [of st]
  by (auto simp: pb_decode_tag_def split: prod.splits option.splits if_splits)

lemma varint64_loop_advances: "varint64_loop b res (st :: 's pb_istream) = (Some x, st') \<Longrightarrow> advances st st'"
proof (induction "64 - b" arbitrary: b res st rule: less_induct)
  case less
  obtain byte st1 where b: "b < 64" and r: "pb_readbyte st = (Some byte, st1)"
    using less.prems by (subst (asm) varint64_loop.simps) (auto simp: is_error_def split: prod.splits option.splits if_splits)
  have a: "advances st st1" using pb_readbyte_advances [OF r] by auto
  from less.prems r b have "st1 = st' \<or> (\<exists>res. varint64_loop (b + 7) res st1 = (Some x, st'))"
    by (subst (asm) varint64_loop.simps) (auto simp: Let_def split: if_splits)
  then show ?case
  proof
    assume "\<exists>res. varint64_loop (b + 7) res st1 = (Some x, st')"
    then obtain res where "varint64_loop (b + 7) res st1 = (Some x, st')" by blast
    from less.hyps [OF _ this] b show ?thesis using advances_trans [OF a] by simp
  qed (use a in simp)
qed

lemma skip_varint_advances: "pb_skip_varint (st :: 's pb_istream) = (True, st') \<Longrightarrow> advances st st'"
proof (induction "is_bytes_left st" arbitrary: st rule: less_induct)
  case less
  obtain bs st1 where r: "pb_read_buf 1 st = (Some bs, st1)"
    using less.prems by (subst (asm) pb_skip_varint.simps) (auto split: prod.splits option.splits)
  have a: "advances st st1" "is_bytes_left st1 < is_bytes_left st" using pb_read_buf_advances [OF r] by auto
  from less.prems r have "st1 = st' \<or> pb_skip_varint st1 = (True, st')"
    by (subst (asm) pb_skip_varint.simps) (auto split: if_splits)
  then show ?case
  proof
    assume "pb_skip_varint st1 = (True, st')"
    from less.hyps [OF a(2) this] show ?thesis by (rule advances_trans [OF a(1)])
  qed (use a in simp)
qed

lemma skip_field_advances:
  assumes "pb_skip_field (st :: 's pb_istream) wt = (True, st')"
  shows "advances st st'"
proof -
  consider "pb_skip_varint st = (True, st')" | n where "pb_skip n st = (True, st')" | "pb_skip_string st = (True, st')"
    using assms by (auto simp: pb_skip_field_def is_error_def split: if_splits)
  then show ?thesis
  proof cases
    case 1
    then show ?thesis by (rule skip_varint_advances)
  next
    case 2
    then show ?thesis by (rule pb_skip_advances)
  next
    case 3
    then obtain len st1 where "pb_decode_varint32 st = (Some len, st1)" "pb_skip (unat len) st1 = (True, st')"
      by (auto simp: pb_skip_string_def split: prod.splits option.splits)
    then show ?thesis using advances_trans [OF varint32_advances pb_skip_advances] by blast
  qed
qed

section \<open>Substreams\<close>

lemma make_substream:
  assumes "pb_make_string_substream (st :: 's pb_istream) = (Some sub, st1)"
  shows "\<exists>st0 n. advances st st0 \<and> n \<le> is_bytes_left st0 \<and> sub = st0\<lparr>is_bytes_left := n\<rparr> \<and>
    st1 = st0\<lparr>is_bytes_left := is_bytes_left st0 - n\<rparr>"
proof -
  obtain n st0 where n: "pb_decode_varint32 st = (Some n, st0)"
    using assms by (auto simp: pb_make_string_substream_def split: prod.splits option.splits)
  show ?thesis
    using assms n varint32_advances [OF n]
    by (intro exI [of _ st0] exI [of _ "unat n"])
      (auto simp: pb_make_string_substream_def is_error_def split: if_splits)
qed

lemma close_substream:
  assumes "pb_close_string_substream st1 sub' = (True, st')" "advances sub sub'"
    and "sub = st0\<lparr>is_bytes_left := n\<rparr>" "n \<le> is_bytes_left st0"
    and "st1 = (st0 :: 's pb_istream)\<lparr>is_bytes_left := is_bytes_left st0 - n\<rparr>"
  shows "advances st0 st'"
proof -
  obtain sub2 where sub2: "advances sub' sub2" "is_bytes_left sub2 = 0"
    "st' = st1\<lparr>is_reader := is_reader sub2, is_errmsg := is_errmsg sub2\<rparr>"
  proof (cases "is_bytes_left sub' = 0")
    case True
    then show ?thesis using that [of sub'] assms(1) by (simp add: pb_close_string_substream_def)
  next
    case False
    then obtain sub2 where s: "pb_skip (is_bytes_left sub') sub' = (True, sub2)"
      "st' = st1\<lparr>is_reader := is_reader sub2, is_errmsg := is_errmsg sub2\<rparr>"
      using assms(1) by (auto simp: pb_close_string_substream_def split: prod.splits bool.splits)
    from pb_skip_exact [OF s(1)] show ?thesis using that [of sub2] s(2) by auto
  qed
  have "advances sub sub2" by (rule advances_trans [OF assms(2) sub2(1)])
  then have "reader_moves (is_reader st0) (is_reader sub2) n" using sub2(2) assms(3) by (auto simp: advances_def)
  then show ?thesis using sub2(3) assms(4,5) by (auto simp: advances_def intro!: exI [of _ n])
qed

lemma substream_ok:
  assumes "stream_ok (st :: 's pb_istream)" "n \<le> is_bytes_left st"
  shows "stream_ok (st\<lparr>is_bytes_left := n\<rparr>)"
  using assms by (cases "is_reader st") (auto simp: stream_ok_def)

lemma submessage_advances:
  assumes "pb_dec_submessage (st :: 's pb_istream) (Some d) = (Some v, st')"
    and "\<And>sub v sub'. d sub = (Some v, sub') \<Longrightarrow> advances sub sub'"
  shows "advances st st' \<and> (\<exists>sub sub'. (stream_ok st \<longrightarrow> stream_ok sub) \<and> d sub = (Some v, sub'))"
proof -
  obtain sub st1 where m: "pb_make_string_substream st = (Some sub, st1)"
    using assms(1) by (auto simp: pb_dec_submessage_def split: prod.splits option.splits)
  obtain sub' where d: "d sub = (Some v, sub')" "pb_close_string_substream st1 sub' = (True, st')"
    using assms(1) m by (auto simp: pb_dec_submessage_def split: prod.splits option.splits bool.splits)
  obtain st0 n where n: "advances st st0" "n \<le> is_bytes_left st0" "sub = st0\<lparr>is_bytes_left := n\<rparr>"
    "st1 = st0\<lparr>is_bytes_left := is_bytes_left st0 - n\<rparr>"
    using make_substream [OF m] by blast
  have "advances st0 st'" by (rule close_substream [OF d(2) assms(2) [OF d(1)] n(3,2,4)])
  then have "advances st st'" by (rule advances_trans [OF n(1)])
  moreover have "stream_ok st \<longrightarrow> stream_ok sub" using substream_ok [OF advances_ok [OF n(1)] n(2)] n(3) by simp
  ultimately show ?thesis using d(1) by blast
qed

section \<open>The loop over the fields\<close>

definition goes_on :: "('v, 's) decoder \<Rightarrow> bool" where
  "goes_on d \<longleftrightarrow> (\<forall>old st v st'. d old st = (Some v, st') \<longrightarrow> advances st st')"

lemma goes_onD: "goes_on d \<Longrightarrow> d old st = (Some v, st') \<Longrightarrow> advances st st'"
  by (auto simp: goes_on_def)

lemma scalars_advance:
  "pb_dec_bool (st :: 's pb_istream) = (Some b, st') \<Longrightarrow> advances st st'"
  "pb_dec_varint st n = (True, i, st') \<Longrightarrow> advances st st'"
  "pb_dec_uvarint st n = (True, i, st') \<Longrightarrow> advances st st'"
  "pb_dec_svarint st n = (True, i, st') \<Longrightarrow> advances st st'"
  "pb_dec_fixed32 st = (Some w, st') \<Longrightarrow> advances st st'"
  "pb_dec_fixed64 st = (Some x, st') \<Longrightarrow> advances st st'"
proof -
  show "advances st st'" if "pb_dec_bool st = (Some b, st')"
    using that varint32_advances [of st] by (auto simp: pb_dec_bool_def split: prod.splits option.splits)
  have store: "st2 = st1" if "store_int c v n st1 = (True, i, st2)" for c v and st1 st2 :: "'s pb_istream"
    using that by (auto simp: store_int_def is_error_def Let_def split: if_splits)
  have v64: "advances st st1" if "pb_decode_varint st = (Some v, st1)" for v st1
    using that varint64_loop_advances by (auto simp: pb_decode_varint_def)
  show "advances st st'" if "pb_dec_varint st n = (True, i, st')"
    using that v64 by (auto simp: pb_dec_varint_def Let_def split: prod.splits option.splits dest!: store)
  show "advances st st'" if "pb_dec_uvarint st n = (True, i, st')"
    using that v64 by (auto simp: pb_dec_uvarint_def split: prod.splits option.splits dest!: store)
  show "advances st st'" if "pb_dec_svarint st n = (True, i, st')"
    using that v64 by (auto simp: pb_dec_svarint_def pb_decode_svarint_def split: prod.splits option.splits dest!: store)
  show "advances st st'" if "pb_dec_fixed32 st = (Some w, st')"
    using that pb_read_buf_advances [of 4 st]
    by (auto simp: pb_dec_fixed32_def pb_decode_fixed32_def split: prod.splits option.splits)
  show "advances st st'" if "pb_dec_fixed64 st = (Some x, st')"
    using that pb_read_buf_advances [of 8 st]
    by (auto simp: pb_dec_fixed64_def pb_decode_fixed64_def split: prod.splits option.splits)
qed

lemma reserve_bytes_same: "reserve_bytes place msg len n st = (True, st') \<Longrightarrow> st' = st"
  by (auto simp: reserve_bytes_def allocate_field_def is_error_def Let_def split: sum.splits if_splits)

text \<open>How many bytes are read, and that they fit.\<close>

lemma bytes_advance:
  assumes "pb_dec_bytes (st :: 's pb_istream) (Inl ds) = (Some bs, st')"
  shows "advances st st' \<and> (stream_ok st \<longrightarrow> length bs + 4 \<le> ds)"
proof -
  obtain n st1 where v: "pb_decode_varint32 st = (Some n, st1)"
    and r: "reserve_bytes (Inl ds) ''bytes overflow'' (unat n) (sz (unat n + sizeof_size)) st1 = (True, st1)"
      "pb_read_buf (unat n) st1 = (Some bs, st')"
    using assms by (auto simp: pb_dec_bytes_def Let_def is_error_def
      split: prod.splits option.splits if_splits bool.splits dest: reserve_bytes_same)
  have "unat n < 2 ^ LENGTH(32)" by (rule unsigned_less)
  then have "unat n < 2 ^ 32" by simp
  then have "unat n + 4 \<le> ds"
    using r(1) by (auto simp: reserve_bytes_def is_error_def sizeof_size_def Let_def split: if_splits)
  then show ?thesis
    using advances_trans [OF varint32_advances [OF v]] pb_read_buf_advances [OF r(2)] advances_ok [OF varint32_advances [OF v]]
    by auto
qed

lemma string_advance:
  assumes "pb_dec_string (st :: 's pb_istream) (Inl ds) = (Some bs, st')"
  shows "advances st st' \<and> 0 \<in> set bs \<and> (stream_ok st \<longrightarrow> length bs \<le> ds)"
proof -
  obtain n st1 cs where v: "pb_decode_varint32 st = (Some n, st1)"
    and r: "\<not> unat (n + 1) < unat n" "reserve_bytes (Inl ds) ''string overflow'' (unat n) (unat (n + 1)) st1 = (True, st1)"
      "pb_read_buf (unat n) st1 = (Some cs, st')" "bs = cs @ [0]"
    using assms by (auto simp: pb_dec_string_def Let_def is_error_def
      split: prod.splits option.splits if_splits bool.splits dest: reserve_bytes_same)
  have "unat n < 2 ^ LENGTH(32)" by (rule unsigned_less)
  then have "unat n < 2 ^ 32" by simp
  then have "unat (n + 1) = unat n + 1"
    using r(1) unat_plus_if' [of n 1] by (auto split: if_splits)
  then have "unat n + 1 \<le> ds"
    using r(2) by (auto simp: reserve_bytes_def is_error_def Let_def split: if_splits)
  then show ?thesis
    using advances_trans [OF varint32_advances [OF v]] pb_read_buf_advances [OF r(3)] advances_ok [OF varint32_advances [OF v]] r(4)
    by auto
qed

lemma fixed_bytes_advance:
  assumes "pb_dec_fixed_length_bytes (st :: 's pb_istream) ds = (Some bs, st')"
  shows "advances st st' \<and> (stream_ok st \<longrightarrow> length bs = ds)"
proof -
  obtain n st1 where v: "pb_decode_varint32 st = (Some n, st1)"
    and r: "bs = replicate ds 0 \<and> st' = st1 \<or> pb_read_buf ds st1 = (Some bs, st')"
    using assms by (auto simp: pb_dec_fixed_length_bytes_def is_error_def split: prod.splits option.splits if_splits)
  from r show ?thesis
  proof
    assume "pb_read_buf ds st1 = (Some bs, st')"
    from pb_read_buf_advances [OF this] show ?thesis
      using advances_trans [OF varint32_advances [OF v]] advances_ok [OF varint32_advances [OF v]] by auto
  qed (use varint32_advances [OF v] in simp)
qed

lemma packed_loop_advances:
  assumes "goes_on d"
  shows "packed_loop d n slot (sub :: 's pb_istream) = (True, slot', sub') \<Longrightarrow> advances sub sub'"
proof (induction "n - sl_count slot" arbitrary: slot sub rule: less_induct)
  case less
  show ?case
  proof (cases "is_bytes_left sub > 0 \<and> sl_count slot < n")
    case True
    then obtain v sub1 where v: "d (sl_items slot ! sl_count slot) sub = (Some v, sub1)"
      "packed_loop d n (Slot (sl_has slot) (sl_count slot + 1) ((sl_items slot)[sl_count slot := v])) sub1 = (True, slot', sub')"
      using less.prems by (subst (asm) packed_loop.simps) (auto split: prod.splits option.splits)
    have "advances sub1 sub'" using True by (intro less.hyps [OF _ v(2)]) auto
    then show ?thesis by (rule advances_trans [OF goes_onD [OF assms v(1)]])
  next
    case False
    then show ?thesis using less.prems by (subst (asm) packed_loop.simps) (auto split: if_splits)
  qed
qed

text \<open>The three ways in which a field is decoded.\<close>

lemma decode_static_cases:
  assumes "decode_static_field f d wt slot (st :: 's pb_istream) = (Some slot', st')"
  obtains
    (single) v where "pf_htype f \<noteq> PB_HTYPE_REPEATED" "d (sl_item slot) st = (Some v, st')"
      "sl_items slot' = [v]" "sl_count slot' = sl_count slot"
  | (packed) sub sub' st1 where "pf_htype f = PB_HTYPE_REPEATED" "pb_make_string_substream st = (Some sub, st1)"
      "packed_loop d (pf_array_size f) slot sub = (True, slot', sub')" "pb_close_string_substream st1 sub' = (True, st')"
  | (item) v where "pf_htype f = PB_HTYPE_REPEATED" "sl_count slot < pf_array_size f"
      "d (sl_items slot ! sl_count slot) st = (Some v, st')"
      "slot' = Slot (sl_has slot) (sl_count slot + 1) ((sl_items slot)[sl_count slot := v])"
proof (cases "pf_htype f")
  case PB_HTYPE_REPEATED
  show ?thesis
  proof (cases "wt = PB_WT_STRING \<and> packable (pf_ltype f)")
    case True
    then show ?thesis
      using assms PB_HTYPE_REPEATED packed
      by (auto simp: decode_static_field_def is_error_def split: prod.splits option.splits bool.splits if_splits)
  next
    case False
    then show ?thesis
      using assms PB_HTYPE_REPEATED item
      by (auto simp: decode_static_field_def is_error_def split: prod.splits option.splits if_splits)
  qed
qed (use assms single in \<open>auto simp: decode_static_field_def split: prod.splits option.splits\<close>)

lemma decode_static_advances:
  assumes "goes_on d" "decode_static_field f d wt slot (st :: 's pb_istream) = (Some slot', st')"
  shows "advances st st'"
  using assms(2)
proof (cases rule: decode_static_cases)
  case (packed sub sub' st1)
  obtain st0 n where n: "advances st st0" "n \<le> is_bytes_left st0" "sub = st0\<lparr>is_bytes_left := n\<rparr>"
    "st1 = st0\<lparr>is_bytes_left := is_bytes_left st0 - n\<rparr>"
    using make_substream [OF packed(2)] by blast
  have "advances st0 st'"
    by (rule close_substream [OF packed(4) packed_loop_advances [OF assms(1) packed(3)] n(3,2,4)])
  then show ?thesis by (rule advances_trans [OF n(1)])
qed (rule goes_onD [OF assms(1)], assumption)+

lemma goes_on_last: "goes_on (last_decoder :: (pb_val, 's) decoder)"
  using scalars_advance(1) by (fastforce simp: goes_on_def last_decoder_def split: prod.splits option.splits)

lemma goes_on_nth: "\<forall>d \<in> set decs. goes_on d \<Longrightarrow> goes_on (nth_default (last_decoder :: (pb_val, 's) decoder) decs i)"
  by (auto simp: nth_default_def goes_on_last)

text \<open>What one round of the loop does: it ends, or takes at least a byte.\<close>

lemma decode_loop_round:
  assumes "\<forall>d \<in> set decs. goes_on (d :: (pb_val, 's) decoder)"
  obtains
    (ends) r where "\<And>n. decode_loop (Suc n) fs decs it seen m st = r"
      "\<And>it' seen' m' st'. r = (Some (it', seen', m'), st') \<Longrightarrow> it' = it \<and> seen' = seen \<and> m' = m \<and> advances st st'"
  | (skips) tag it' st' where "\<And>n. decode_loop (Suc n) fs decs it seen m st = decode_loop n fs decs it' seen m st'"
      "pb_field_iter_find fs tag it = (False, it')" "advances st st'" "is_bytes_left st' < is_bytes_left st"
  | (field) tag it' wt slot st1 st' where
      "\<And>n. decode_loop (Suc n) fs decs it seen m st =
        decode_loop n fs decs it' (mark_seen fs it' seen) (m[it_pos it' := slot]) st'"
      "pb_field_iter_find fs tag it = (True, it')"
      "decode_static_field (field_at fs (it_pos it')) (nth_default last_decoder decs (it_pos it')) wt
        (nth_default last_slot m (it_pos it')) st1 = (Some slot, st')"
      "advances st st1" "advances st1 st'" "is_bytes_left st' < is_bytes_left st"
proof (cases "is_bytes_left st = 0")
  case True
  then show ?thesis by (intro ends [of "(Some (it, seen, m), st)"]) auto
next
  case left: False
  obtain x eof st1 where tag: "pb_decode_tag st = (x, eof, st1)" by (metis prod_cases3)
  show ?thesis
  proof (cases x)
    case None
    have "advances st st1" if eof: eof
    proof -
      obtain y e where v: "pb_decode_varint32_eof st = (y, e, st1)" "y = None \<longrightarrow> e"
        using tag eof None by (cases "fst (pb_decode_varint32_eof st)") (auto simp: pb_decode_tag_def split: prod.splits if_splits)
      have "y \<noteq> None"
      proof
        assume "y = None"
        then show False using v left
          by (auto simp: pb_decode_varint32_eof_def pb_readbyte_def is_error_def split: prod.splits option.splits if_splits)
      qed
      then show ?thesis using v(1) varint32_eof_advances by auto
    qed
    then show ?thesis using None left tag
      by (intro ends [of "(if eof then Some (it, seen, m) else None, st1)"]) (auto split: if_splits)
  next
    case (Some y)
    obtain wt t where y: "y = (wt, t)" by fastforce
    have a: "advances st st1" "is_bytes_left st1 < is_bytes_left st"
      using decode_tag_advances [of st "(wt, t)"] tag Some y by auto
    obtain b it' where find: "pb_field_iter_find fs t it = (b, it')" by fastforce
    show ?thesis
    proof (cases b)
      case True
      obtain z st2 where z: "decode_static_field (field_at fs (it_pos it')) (nth_default last_decoder decs (it_pos it')) wt
        (nth_default last_slot m (it_pos it')) st1 = (z, st2)" by fastforce
      show ?thesis
      proof (cases z)
        case None
        then show ?thesis using left tag Some y find True z by (intro ends [of "(None, st2)"]) auto
      next
        case (Some slot)
        have a2: "advances st1 st2"
          using decode_static_advances [OF goes_on_nth [OF assms]] z Some by blast
        then show ?thesis
          using left tag \<open>x = Some y\<close> y find True z Some a advances_left [OF a2]
          by (intro field [of it' slot st2 t wt st1]) auto
      qed
    next
      case False
      obtain ok st2 where z: "pb_skip_field st1 wt = (ok, st2)" by fastforce
      show ?thesis
      proof (cases ok)
        case True
        have a2: "advances st1 st2" using skip_field_advances [of st1 wt st2] z True by simp
        then show ?thesis
          using left tag Some y find False z True advances_left [OF a2] a advances_trans [OF a(1) a2]
          by (intro skips [of it' st2 t]) auto
      next
        case skip: False
        then show ?thesis using left tag Some y find False z by (intro ends [of "(None, st2)"]) auto
      qed
    qed
  qed
qed

text \<open>Rounds that are more than the bytes left are all the same.\<close>

lemma decode_loop_enough:
  assumes "\<forall>d \<in> set decs. goes_on (d :: (pb_val, 's) decoder)"
  shows "is_bytes_left st < n \<Longrightarrow> is_bytes_left st < n' \<Longrightarrow>
    decode_loop n fs decs it seen m st = decode_loop n' fs decs it seen m st"
proof (induction n arbitrary: n' it seen m st)
  case (Suc n)
  obtain k where n': "n' = Suc k" using Suc.prems by (cases n') auto
  show ?case
    using assms
  proof (cases rule: decode_loop_round [where fs = fs and it = it and seen = seen and m = m and st = st])
    case (ends r)
    then show ?thesis by (simp only: n')
  next
    case (skips tag it' st')
    then show ?thesis using Suc.IH [of st' k] Suc.prems by (simp add: n' del: decode_loop.simps)
  next
    case (field tag it' wt slot st1 st')
    then show ?thesis using Suc.IH [of st' k] Suc.prems by (simp add: n' del: decode_loop.simps)
  qed
qed simp

lemma decode_loop_advances:
  assumes "\<forall>d \<in> set decs. goes_on (d :: (pb_val, 's) decoder)"
  shows "decode_loop n fs decs it seen m st = (Some x, st') \<Longrightarrow> advances st st'"
proof (induction n arbitrary: it seen m st)
  case (Suc n)
  show ?case
    using assms
  proof (cases rule: decode_loop_round [where fs = fs and it = it and seen = seen and m = m and st = st])
    case (ends r)
    then show ?thesis using Suc.prems by (cases x) simp
  next
    case (skips tag it' st'')
    from Suc.prems have "decode_loop n fs decs it' seen m st'' = (Some x, st')" by (simp only: skips(1))
    then show ?thesis by (rule advances_trans [OF skips(3) Suc.IH])
  next
    case (field tag it' wt slot st1 st'')
    from Suc.prems have "decode_loop n fs decs it' (mark_seen fs it' seen) (m[it_pos it' := slot]) st'' = (Some x, st')"
      by (simp only: field(1))
    then show ?thesis by (rule advances_trans [OF advances_trans [OF field(4,5)] Suc.IH])
  qed
qed simp

lemma goes_on_message:
  assumes "\<forall>d \<in> set decs. goes_on (d :: (pb_val, 's) decoder)"
  shows "goes_on (decode_message fs decs)"
  unfolding goes_on_def
proof (intro allI impI)
  fix old v and st st' :: "'s pb_istream"
  assume "decode_message fs decs old st = (Some v, st')"
  then obtain it seen where "decode_loop (Suc (is_bytes_left st)) fs decs (snd (pb_field_iter_begin fs)) [0, 0] old st = (Some (it, seen, v), st')"
    unfolding decode_message_def by (simp only: split: prod.splits option.splits if_splits) (auto simp: is_error_def)
  then show "advances st st'" by (rule decode_loop_advances [OF assms])
qed

lemma goes_on_decoder: "goes_on (pb_decoder f :: (pb_val, 's) decoder)"
proof (induction f rule: field_induct)
  case (1 tag lt ht hs ds n ptr)
  show ?case
    unfolding goes_on_def
  proof (intro allI impI)
    fix old v and st st' :: "'s pb_istream"
    assume d: "pb_decoder (Field tag lt ht hs ds n ptr) old st = (Some v, st')"
    show "advances st st'"
    proof (cases "lt = PB_LTYPE_SUBMESSAGE")
      case True
      show ?thesis
      proof (cases ptr)
        case (Ptr_fields fs)
        have "\<forall>d \<in> set (map pb_decoder fs). goes_on (d :: (pb_val, 's) decoder)" using 1 [OF Ptr_fields] by auto
        note sub = goes_onD [OF goes_on_message [OF this]]
        obtain m0 m where "pb_dec_submessage st (Some (decode_message fs (map pb_decoder fs) m0)) = (Some m, st')"
          using d True Ptr_fields by (auto split: prod.splits simp del: sub_set_to_defaults.simps)
        then show ?thesis by (rule submessage_advances [THEN conjunct1]) (erule sub)
      qed (use d True in \<open>auto simp: pb_dec_submessage_def is_error_def split: prod.splits option.splits\<close>)
    next
      case False
      then show ?thesis
        using d scalars_advance [of st] bytes_advance [of st ds] string_advance [of st ds] fixed_bytes_advance [of st ds]
        by (cases lt) (auto simp: Let_def split: prod.splits option.splits if_splits)
    qed
  qed
qed

lemma goes_on_decoders: "\<forall>d \<in> set (map pb_decoder fs). goes_on (d :: (pb_val, 's) decoder)"
  by (auto simp: goes_on_decoder)

text \<open>C37: The loop of \<open>pb_decode_noinit\<close> over the fields ends, on any stream and for any table: with one round more
than there are bytes left, or with any larger number of rounds, it gives the same result.\<close>

theorem decode_loop_ends:
  assumes "is_bytes_left st < n"
  shows "decode_loop n fs (map pb_decoder fs) it seen m (st :: 's pb_istream) =
    decode_loop (Suc (is_bytes_left st)) fs (map pb_decoder fs) it seen m st"
  using assms by (intro decode_loop_enough goes_on_decoders) simp_all

theorem decode_loop_ends_witness:
  "decode_loop 100 point_fields (map pb_decoder point_fields) (iter_at point_fields 0) [0, 0]
      [Slot False 0 [Val_int 0]] (in_buf 2 [8, 5] :: unit pb_istream) =
    decode_loop 3 point_fields (map pb_decoder point_fields) (iter_at point_fields 0) [0, 0]
      [Slot False 0 [Val_int 0]] (in_buf 2 [8, 5])"
  using decode_loop_ends [of "in_buf 2 [8, 5] :: unit pb_istream" 100 point_fields "iter_at point_fields 0" "[0, 0]"
      "[Slot False 0 [Val_int 0]]"]
  by (simp add: in_buf_def eval_nat_numeral del: decode_loop.simps)

section \<open>What is stored\<close>

definition keeps :: "('v \<Rightarrow> bool) \<Rightarrow> ('v, 's) decoder \<Rightarrow> bool" where
  "keeps P d \<longleftrightarrow> (\<forall>old st v st'. P old \<longrightarrow> stream_ok st \<longrightarrow> d old st = (Some v, st') \<longrightarrow> P v)"

lemma keepsD: "keeps P d \<Longrightarrow> P old \<Longrightarrow> stream_ok st \<Longrightarrow> d old st = (Some v, st') \<Longrightarrow> P v"
  by (auto simp: keeps_def)

lemma stored_ints_typed:
  "store_int (as_signed n) v n (st :: 's pb_istream) = (True, i, st') \<Longrightarrow> \<exists>j. i = Some j \<and> signed_dom n j"
  "store_int (as_unsigned n) v n st = (True, i, st') \<Longrightarrow> \<exists>j. i = Some j \<and> unsigned_dom n j"
proof -
  have "signed_dom n (as_signed n v)" "unsigned_dom n (as_unsigned n v)" if "int_size n"
    using that signed_take_bit_int_less_exp [of "8 * n - 1" v] signed_take_bit_int_greater_eq_minus_exp [of "8 * n - 1" v]
    by (auto simp: signed_dom_def unsigned_dom_def as_signed_def as_unsigned_def)
  then show "\<exists>j. i = Some j \<and> signed_dom n j" if "store_int (as_signed n) v n st = (True, i, st')"
    using that by (auto simp: store_int_def is_error_def Let_def split: if_splits)
  show "\<exists>j. i = Some j \<and> unsigned_dom n j" if "store_int (as_unsigned n) v n st = (True, i, st')"
    using that \<open>int_size n \<Longrightarrow> unsigned_dom n (as_unsigned n v)\<close>
    by (auto simp: store_int_def is_error_def Let_def split: if_splits)
qed

lemma ints_typed:
  "pb_dec_varint (st :: 's pb_istream) n = (True, i, st') \<Longrightarrow> \<exists>j. i = Some j \<and> signed_dom n j"
  "pb_dec_uvarint st n = (True, i, st') \<Longrightarrow> \<exists>j. i = Some j \<and> unsigned_dom n j"
  "pb_dec_svarint st n = (True, i, st') \<Longrightarrow> \<exists>j. i = Some j \<and> signed_dom n j"
  using stored_ints_typed
  by (auto simp: pb_dec_varint_def pb_dec_uvarint_def pb_dec_svarint_def Let_def split: prod.splits option.splits)

lemma slot_item_typed:
  assumes "slot_typed f P slot" "pf_htype f = PB_HTYPE_REPEATED" "sl_count slot < pf_array_size f" "P v"
  shows "slot_typed f P (Slot (sl_has slot) (sl_count slot + 1) ((sl_items slot)[sl_count slot := v]))"
    "P (sl_items slot ! sl_count slot)"
  using assms set_update_subset_insert [of "sl_items slot" "sl_count slot" v] by (auto simp: slot_typed_def)

lemma packed_loop_typed:
  assumes "goes_on d" "keeps P d" "pf_htype f = PB_HTYPE_REPEATED"
  shows "packed_loop d (pf_array_size f) slot (sub :: 's pb_istream) = (True, slot', sub') \<Longrightarrow> stream_ok sub \<Longrightarrow>
    slot_typed f P slot \<Longrightarrow> slot_typed f P slot'"
proof (induction "pf_array_size f - sl_count slot" arbitrary: slot sub rule: less_induct)
  case less
  show ?case
  proof (cases "is_bytes_left sub > 0 \<and> sl_count slot < pf_array_size f")
    case True
    then obtain v sub1 where v: "d (sl_items slot ! sl_count slot) sub = (Some v, sub1)"
      "packed_loop d (pf_array_size f) (Slot (sl_has slot) (sl_count slot + 1) ((sl_items slot)[sl_count slot := v])) sub1 = (True, slot', sub')"
      using less.prems(1) by (subst (asm) packed_loop.simps) (auto split: prod.splits option.splits)
    have "P (sl_items slot ! sl_count slot)" using less.prems(3) True assms(3) by (auto simp: slot_typed_def)
    then have "P v" by (rule keepsD [OF assms(2) _ less.prems(2) v(1)])
    show ?thesis
      using True by (intro less.hyps [OF _ v(2) advances_ok [OF goes_onD [OF assms(1) v(1)] less.prems(2)]
        slot_item_typed(1) [OF less.prems(3) assms(3) _ \<open>P v\<close>]]) auto
  next
    case False
    then show ?thesis using less.prems by (subst (asm) packed_loop.simps) (auto split: if_splits)
  qed
qed

lemma decode_static_typed:
  assumes "goes_on d" "keeps P d" "slot_typed f P slot" "stream_ok (st :: 's pb_istream)"
    and "decode_static_field f d wt slot st = (Some slot', st')"
  shows "slot_typed f P slot'"
  using assms(5)
proof (cases rule: decode_static_cases)
  case (single v)
  have "P (sl_item slot)" using slot_typed_item [OF assms(3) single(1)] by auto
  then have "P v" by (rule keepsD [OF assms(2) _ assms(4) single(2)])
  then show ?thesis using single by (simp add: slot_typed_def)
next
  case (packed sub sub' st1)
  obtain st0 n where n: "advances st st0" "n \<le> is_bytes_left st0" "sub = st0\<lparr>is_bytes_left := n\<rparr>"
    using make_substream [OF packed(2)] by blast
  have "stream_ok sub" using substream_ok [OF advances_ok [OF n(1) assms(4)] n(2)] n(3) by simp
  from packed_loop_typed [OF assms(1,2) packed(1,3) this assms(3)] show ?thesis .
next
  case (item v)
  have "P (sl_items slot ! sl_count slot)" using assms(3) item(1,2) by (auto simp: slot_typed_def)
  then have "P v" by (rule keepsD [OF assms(2) _ assms(4) item(3)])
  then show ?thesis using slot_item_typed(1) [OF assms(3) item(1,2)] item(4) by simp
qed

text \<open>The search stays inside the table, and a full round is enough for it.\<close>

definition iter_in :: "pb_field list \<Rightarrow> pb_iter \<Rightarrow> bool" where
  "iter_in fs it \<longleftrightarrow> fs = [] \<or> (\<exists>p < length fs. it = iter_at fs p)"

lemma iter_in_next:
  assumes "fields_ok fs" "iter_in fs it"
  shows "iter_in fs (snd (pb_field_iter_next fs it))"
proof (cases "fs = []")
  case False
  then obtain p where p: "p < length fs" "it = iter_at fs p" using assms(2) by (auto simp: iter_in_def)
  moreover have "(p + 1) mod length fs < length fs" using p(1) by (intro mod_less_divisor) linarith
  ultimately show ?thesis using iter_next_mod [OF assms(1) p(1)] unfolding iter_in_def by auto
qed (simp add: iter_in_def)

lemma iter_in_find_loop:
  assumes "fields_ok fs"
  shows "iter_in fs it \<Longrightarrow> iter_find_loop n fs tag start it = (b, it') \<Longrightarrow> iter_in fs it'"
proof (induction n arbitrary: it)
  case (Suc n)
  have "iter_in fs (snd (pb_field_iter_next fs it))" by (rule iter_in_next [OF assms Suc.prems(1)])
  then show ?case using Suc.IH Suc.prems by (auto simp: Let_def split: if_splits)
qed simp

lemma iter_find_loop_enough:
  assumes "fields_ok fs" "start < length fs"
  shows "k < length fs \<Longrightarrow> length fs - k < n \<Longrightarrow> length fs - k < n' \<Longrightarrow>
    iter_find_loop n fs tag start (iter_at fs ((start + k) mod length fs)) =
      iter_find_loop n' fs tag start (iter_at fs ((start + k) mod length fs))"
proof (induction n arbitrary: k n')
  case (Suc n)
  obtain j where n': "n' = Suc j" using Suc.prems by (cases n') auto
  have pos: "(start + k) mod length fs < length fs" using assms(2) by (intro mod_less_divisor) linarith
  have next': "snd (pb_field_iter_next fs (iter_at fs ((start + k) mod length fs))) = iter_at fs ((start + Suc k) mod length fs)"
    using iter_next_mod [OF assms(1) pos] by (simp add: mod_simps)
  show ?case
  proof (cases "Suc k = length fs")
    case True
    then have "(start + Suc k) mod length fs = start" using assms(2) by simp
    then show ?thesis using next' pos by (simp add: n' Let_def)
  next
    case False
    then have "iter_find_loop n fs tag start (iter_at fs ((start + Suc k) mod length fs)) =
        iter_find_loop j fs tag start (iter_at fs ((start + Suc k) mod length fs))"
      using Suc.prems n' by (intro Suc.IH) auto
    then show ?thesis using next' pos by (simp add: n' Let_def)
  qed
qed simp

lemma iter_find_ends:
  assumes "fields_ok fs" "p < length fs" "length fs < n"
  shows "iter_find_loop n fs tag p (iter_at fs p) = pb_field_iter_find fs tag (iter_at fs p)"
  using iter_find_loop_enough [OF assms(1,2), of 0 n "Suc (length fs)" tag] assms(2,3)
  by (cases fs) (simp_all add: pb_field_iter_find_def del: iter_find_loop.simps)

lemma decode_loop_typed:
  assumes "fields_ok fs" "\<And>f. f \<in> set fs \<Longrightarrow> keeps (val_typed f) (pb_decoder f :: (pb_val, 's) decoder)"
  shows "decode_loop n fs (map pb_decoder fs) it seen m (st :: 's pb_istream) = (Some (it', seen', m'), st') \<Longrightarrow>
    stream_ok st \<Longrightarrow> iter_in fs it \<Longrightarrow> msg_typed fs m \<Longrightarrow> msg_typed fs m'"
proof (induction n arbitrary: it seen m st)
  case (Suc n)
  show ?case
    using goes_on_decoders [of fs]
  proof (cases rule: decode_loop_round [where fs = fs and it = it and seen = seen and m = m and st = st])
    case (ends r)
    then show ?thesis using Suc.prems by (auto simp del: decode_loop.simps)
  next
    case (skips tag it1 st1)
    have "iter_in fs it1" using iter_in_find_loop [OF assms(1) Suc.prems(3)] skips(2) unfolding pb_field_iter_find_def .
    then show ?thesis
      using Suc.IH [OF _ advances_ok [OF skips(3) Suc.prems(2)] _ Suc.prems(4)] Suc.prems(1) skips(1) by simp
  next
    case (field tag it1 wt slot st1 st2)
    have it1: "iter_in fs it1" using iter_in_find_loop [OF assms(1) Suc.prems(3)] field(2) unfolding pb_field_iter_find_def .
    have st1: "stream_ok st1" by (rule advances_ok [OF field(4) Suc.prems(2)])
    have "msg_typed fs (m[it_pos it1 := slot])"
    proof (cases "fs = []")
      case True
      then show ?thesis using Suc.prems(4) by (simp add: msg_typed_def)
    next
      case False
      then obtain p where p: "p < length fs" "it1 = iter_at fs p" using it1 by (auto simp: iter_in_def)
      have d: "decode_static_field (fs ! p) (pb_decoder (fs ! p)) wt (m ! p) st1 = (Some slot, st2)"
        using field(3) p msg_typed_nth(1) [OF Suc.prems(4)] by (simp add: nth_default_def)
      have "slot_typed (fs ! p) (val_typed (fs ! p)) slot"
        by (rule decode_static_typed [OF goes_on_decoder assms(2) msg_typed_nth(2) [OF Suc.prems(4) p(1)] st1 d])
          (use p in simp)
      then show ?thesis
        using Suc.prems(4) p by (auto simp: msg_typed_def list_all2_conv_all_nth nth_list_update)
    qed
    then show ?thesis
      using Suc.IH [OF _ advances_ok [OF field(5) st1] it1] Suc.prems(1) field(1) by simp
  qed
qed simp

lemma decode_message_typed:
  assumes "fields_ok fs" "\<And>f. f \<in> set fs \<Longrightarrow> keeps (val_typed f) (pb_decoder f :: (pb_val, 's) decoder)"
  shows "keeps (msg_typed fs) (decode_message fs (map pb_decoder fs) :: (pb_slot list, 's) decoder)"
  unfolding keeps_def
proof (intro allI impI)
  fix old v and st st' :: "'s pb_istream"
  assume old: "msg_typed fs old" and st: "stream_ok st"
  assume "decode_message fs (map pb_decoder fs) old st = (Some v, st')"
  then obtain it seen where d: "decode_loop (Suc (is_bytes_left st)) fs (map pb_decoder fs) (iter_at fs 0) [0, 0] old st = (Some (it, seen, v), st')"
    unfolding decode_message_def iter_begin by (simp only: split: prod.splits option.splits if_splits) (auto simp: is_error_def)
  have "iter_in fs (iter_at fs 0)" by (cases fs) (auto simp: iter_in_def)
  from decode_loop_typed [OF assms d st this old] show "msg_typed fs v" .
qed

lemma decoder_keeps: "field_ok f \<Longrightarrow> keeps (val_typed f) (pb_decoder f :: (pb_val, 's) decoder)"
proof (induction f rule: field_induct)
  case (1 tag lt ht hs ds n ptr)
  let ?f = "Field tag lt ht hs ds n ptr"
  show ?case
    unfolding keeps_def
  proof (intro allI impI)
    fix old v and st st' :: "'s pb_istream"
    assume old: "val_typed ?f old" and st: "stream_ok st" and d: "pb_decoder ?f old st = (Some v, st')"
    show "val_typed ?f v"
    proof (cases "lt = PB_LTYPE_SUBMESSAGE")
      case lt: True
      then obtain fs where fs: "ptr = Ptr_fields fs" "fields_ok fs" using 1(2) ptr_ok_cases by auto
      define m0 where "m0 = (if ht = PB_HTYPE_REPEATED then pb_message_set_to_defaults fs (val_msg old) else val_msg old)"
      have "msg_typed fs (val_msg old)" using old lt fs(1) by (simp add: sub_typed_fields del: sub_typed.simps)
      then have m0: "msg_typed fs m0" using defaults_typed [OF fs(2)] by (simp add: m0_def)
      have keeps: "keeps (val_typed f) (pb_decoder f :: (pb_val, 's) decoder)" if "f \<in> set fs" for f
        using 1(1) [OF fs(1) that] fs(2) that by (auto simp: fields_ok_def list_all_iff)
      obtain m where m: "v = Val_msg m" "pb_dec_submessage st (Some (decode_message fs (map pb_decoder fs) m0)) = (Some m, st')"
        using d lt fs(1) by (auto simp: m0_def set_defaults_fields cong: if_cong split: prod.splits simp del: sub_set_to_defaults.simps)
      have "\<exists>(sub :: 's pb_istream) sub'. (stream_ok st \<longrightarrow> stream_ok sub) \<and> decode_message fs (map pb_decoder fs) m0 sub = (Some m, sub')"
        by (rule submessage_advances [OF m(2), THEN conjunct2]) (erule goes_onD [OF goes_on_message [OF goes_on_decoders]])
      then obtain sub sub' :: "'s pb_istream" where sub: "stream_ok sub" "decode_message fs (map pb_decoder fs) m0 sub = (Some m, sub')"
        using st by blast
      have "msg_typed fs m" by (rule keepsD [OF decode_message_typed [OF fs(2) keeps] m0 sub])
      then show ?thesis using m(1) lt fs(1) by (simp add: sub_typed_fields del: sub_typed.simps)
    next
      case False
      have ds: "ds < 2 ^ 32" using 1(2) False by simp
      show ?thesis
      proof (cases lt)
        case PB_LTYPE_STRING
        then obtain cs where cs: "pb_dec_string st (Inl ds) = (Some cs, st')" "v = Val_bytes (cs @ drop (length cs) (val_bytes old))"
          using d by (auto simp: Let_def split: prod.splits option.splits)
        then show ?thesis using string_advance [OF cs(1)] old st PB_LTYPE_STRING by auto
      qed (use d old st False bytes_advance [of st ds] fixed_bytes_advance [of st ds] ints_typed [of st ds] in
          \<open>force simp: Let_def split: prod.splits option.splits if_splits\<close>)+
    qed
  qed
qed

text \<open>C15: Whatever the input says, when \<open>pb_decode\<close> returns true the structure has values of the types of its table:
integers in the range of their field, bytes and strings within their arrays, the strings terminated, counts within
the arrays, and so for every submessage. The stream has gone forward over bytes that it had.\<close>

theorem pb_decode_typed:
  assumes "fields_ok fs" "msg_typed fs dest" "stream_ok st"
    and "pb_decode fs dest (st :: 's pb_istream) = (Some m, st')"
  shows "msg_typed fs m \<and> advances st st' \<and> stream_ok st'"
proof -
  have d: "decode_message fs (map pb_decoder fs) (pb_message_set_to_defaults fs dest) st = (Some m, st')"
    using assms(4) by (simp add: pb_decode_def pb_decode_noinit_def)
  have "keeps (val_typed f) (pb_decoder f :: (pb_val, 's) decoder)" if "f \<in> set fs" for f
    using decoder_keeps that assms(1) by (auto simp: fields_ok_def list_all_iff)
  then have "msg_typed fs m"
    by (rule keepsD [OF decode_message_typed [OF assms(1)] defaults_typed [OF assms(1,2)] assms(3) d])
  moreover have "advances st st'" by (rule goes_onD [OF goes_on_message [OF goes_on_decoders] d])
  ultimately show ?thesis using advances_ok assms(3) by blast
qed

theorem pb_decode_typed_witness:
  "\<exists>m st'. pb_decode point_fields [Slot False 0 [Val_int 7]] (in_buf 2 [8, 5] :: unit pb_istream) = (Some m, st') \<and>
    msg_typed point_fields m \<and> advances (in_buf 2 [8, 5] :: unit pb_istream) st'"
proof -
  let ?m = "[Slot False 0 [Val_int (-3)]]" and ?st = "in_buf 2 [8, 5] :: unit pb_istream"
  have ok: "fields_ok point_fields" "msg_typed point_fields [Slot False 0 [Val_int 7]]" "msg_typed point_fields ?m"
    by (simp_all add: fields_ok_def point_fields_def int_size_def signed_dom_def msg_typed_def slot_typed_def)
  have bytes: "msg_bytes point_fields (msg_content point_fields ?m) = [8, 5]"
    by (simp add: msg_bytes_def msg_content_def point_fields_def slot_content_def present_def sl_item_def field_bytes_def
      packable_def tag_bytes_def wire_types varint_bytes_small int_word_def zigzag_def word_sless_alt)
  have "contents_read TYPE(unit) point_fields (msg_content point_fields ?m)"
    by (rule contents_readI [OF ok(1,3) _ decode_value]) (simp_all add: bytes)
  then have "\<exists>m. decode_message point_fields (map pb_decoder point_fields)
      (pb_message_set_to_defaults point_fields [Slot False 0 [Val_int 7]])
      (in_buf (length ([8, 5] :: u8 list)) ([8, 5] @ []) :: unit pb_istream) = (Some m, in_buf 0 [])"
    using decode_message_bytes [OF ok(1,2), of "msg_content point_fields ?m" "[]"] unfolding bytes by auto
  moreover have "in_buf (length ([8, 5] :: u8 list)) ([8, 5] @ []) = ?st" by (simp add: numeral_2_eq_2)
  ultimately obtain m st' where m: "pb_decode point_fields [Slot False 0 [Val_int 7]] ?st = (Some m, st')"
    unfolding pb_decode_def pb_decode_noinit_def by metis
  have "stream_ok ?st" by (simp add: stream_ok_def in_buf_def)
  from pb_decode_typed [OF ok(1,2) this m] m show ?thesis by blast
qed

end
