(* ===== verification/Spec2Isabelle.thy ===== *)
theory Spec2Isabelle
  imports Mem CbbSpec CbbLive CbsSpec Der DerInt Codec Oid Unicode Ber SetOf ConstTime Base64 Stack Lhash BioIo ErrText PbSafe
begin

text \<open>
  A verification library for the C code the app of this repository is built from. The app itself
  (\<^verbatim>\<open>src/ITISRequest/ITISRequest\<close>) is Swift over Firebase; below it, through gRPC, lie two C libraries in
  \<^verbatim>\<open>src/ITISRequest/Pods\<close> whose core is modelled here: BoringSSL (\<^verbatim>\<open>BoringSSL-GRPC/src\<close>, named by its
  paths under \<^verbatim>\<open>crypto/\<close> below) and nanopb (\<^verbatim>\<open>nanopb\<close>).

  \<^bold>\<open>The parts and how they interact.\<close> Everything in BoringSSL rests on \<^verbatim>\<open>crypto/mem.c\<close>. The byte-string
  reader \<^verbatim>\<open>CBS\<close> and builder \<^verbatim>\<open>CBB\<close> parse and write ASN.1; object identifiers, Unicode strings, BER
  conversion and SET OF ordering are clients of both. \<^verbatim>\<open>STACK\<close>, \<^verbatim>\<open>LHASH\<close> and \<^verbatim>\<open>BUF_MEM\<close> are the
  containers, the hash table allocating its items one by one. A \<^verbatim>\<open>BIO\<close> is a byte stream; memory BIOs keep their
  bytes in a \<^verbatim>\<open>BUF_MEM\<close>, BIO pairs in two rings, and \<^verbatim>\<open>BIO_read_asn1\<close> reads an element with \<^verbatim>\<open>CBS\<close>.
  The error queue of a thread is used by all of them. nanopb has streams, a wire format over them, coders of
  fields over that, and tables of fields that make them coders of messages.

  \<^bold>\<open>Theories.\<close>
  \<^item> \<open>Prelude\<close>: the C integer types as words, big-endian strings, masks; \<open>Compare\<close>: comparison functions and
    what libc's qsort promises, a locale interpreted on the comparison of SET OF elements and on those of the
    sorted containers.
  \<^item> \<open>Mem\<close> (\<^verbatim>\<open>crypto/mem.c\<close>): allocation with its size header, strings. \<open>ConstTime\<close>
    (\<^verbatim>\<open>crypto/internal.h\<close>): the branch-free comparisons, equal to the comparisons they replace.
  \<^item> \<open>Cbs\<close> (\<^verbatim>\<open>crypto/bytestring/cbs.c\<close>): every reader, a function from the bytes to a value and the rest.
    \<open>CbsSpec\<close>: the values they give. \<open>Cbb\<close> (\<^verbatim>\<open>crypto/bytestring/cbb.c\<close>): the record of the shared buffer
    and the chain of open children; \<open>CbbSpec\<close>: its abstract form, a stack of frames, the invariant, and that every
    operation refines one on frames; \<open>CbbLive\<close>: progress when memory lasts. \<open>Der\<close>, \<open>DerInt\<close>: DER elements and
    INTEGERs as a specification, and that the reader accepts exactly them and the builder writes them. \<open>Codec\<close>:
    the locale of a writer with its reader, and messages read back.
  \<^item> \<open>Oid\<close>, \<open>Unicode\<close> (\<^verbatim>\<open>unicode.c\<close>), \<open>Ber\<close> (\<^verbatim>\<open>ber.c\<close>), \<open>SetOf\<close>
    (\<^verbatim>\<open>CBB_flush_asn1_set_of\<close>, \<^verbatim>\<open>asn1_compat.c\<close>), \<open>Base64\<close> (\<^verbatim>\<open>crypto/base64/base64.c\<close>).
  \<^item> \<open>Stack\<close> (\<^verbatim>\<open>crypto/stack/stack.c\<close>), \<open>Lhash\<close> (\<^verbatim>\<open>crypto/lhash/lhash.c\<close>), \<open>BufMem\<close>
    (\<^verbatim>\<open>crypto/buf/buf.c\<close>).
  \<^item> \<open>Bio\<close>, \<open>BioIo\<close> (\<^verbatim>\<open>crypto/bio/bio.c\<close>), \<open>BioPair\<close> (\<^verbatim>\<open>pair.c\<close>), \<open>BioMem\<close>
    (\<^verbatim>\<open>bio_mem.c\<close>): the BIOs of a program are one state, a map from names to records, because BIOs point at
    each other.
  \<^item> \<open>Err\<close>, \<open>ErrText\<close> (\<^verbatim>\<open>crypto/err/err.c\<close>): the ring of a thread, and the texts of errors.
  \<^item> \<open>PbStream\<close>, \<open>PbField\<close> (\<^verbatim>\<open>nanopb/pb_encode.c\<close>, \<^verbatim>\<open>nanopb/pb_decode.c\<close>): streams, the wire
    format and the coders of fields; \<open>PbWire\<close>: varints; \<open>PbCodec\<close>: what every writer writes and every reader takes.
    \<open>PbMessage\<close> (also \<^verbatim>\<open>nanopb/pb_common.c\<close>): tables of fields, structures, and the loops that encode and decode
    a structure by its table. \<open>PbContent\<close>: what a message says apart from how it is stored, its bytes, and that the
    encoder writes them; \<open>PbDecode\<close>: the iterator and the required fields; \<open>PbRound\<close>: that a message is read back;
    \<open>PbSafe\<close>: decoding of any input ends, moves forward and stores values of the right types.

  \<^bold>\<open>How the code is modelled.\<close> A C structure is a record, a \<^verbatim>\<open>size_t\<close> a natural number with \<open>sz\<close> for its
  wrap-around, a narrower integer a word, a pointer that may be NULL an option. A function that changes its arguments
  returns them; a function that fails returns \<open>False\<close> or \<open>None\<close> with the state as it leaves it. An allocation is
  a parameter \<open>malloc_fn\<close>, a function from sizes to blocks that may give none, so that every out-of-memory branch is a
  branch of the model; \<open>malloc_lawful\<close> states that a block has the size asked for. libc's qsort, bsearch, strerror,
  the generated error tables, comparison and hash functions are parameters too, their documented behaviour a named
  hypothesis with a witness.

  \<^bold>\<open>What the lemmas show.\<close> For each reader, what it accepts, exactly, and what it leaves; for each writer, the bytes
  it writes; that each reader undoes its writer, one value and whole messages; for the containers an invariant kept
  by every operation and a map or list they implement; for BIO pairs that what goes in comes out; for the error queue
  that the ring is a queue of fifteen; that searching, freeing and popping end, and when printing does. Some properties
  state where the code does less than it means to: a BER element that is not found, a flag that stays set, a sum that
  wraps, varints that lose bits, an end of data taken for a number of bytes.

  \<^bold>\<open>Loops and bounds.\<close> Most loops are recursive functions with a termination
  proof: the bytes left, the digits of a word (at most ten in a varint), the interval of the binary search, and for
  the conversion of BER, which calls itself on the contents of elements, the bytes left within the depth limit of the
  code (\<^verbatim>\<open>kMaxDepth\<close>, 2048). A loop whose end depends on the state (a chain of BIOs, a callback, a ring) is a
  \<open>partial_function\<close> into option, whose value \<open>None\<close> is a loop that does not end; that the loop ends is then a
  theorem: the loops of BIO pairs after at most two rounds, those over chains without a cycle, and \<open>ERR_pop_to_mark\<close>
  always; \<open>ERR_print_errors_cb\<close> when its callback, which may itself put errors, leaves no more of them than it found,
  and otherwise perhaps not. An \<open>assert\<close> that fails, in \<open>bio_read_all\<close>, is a result of its own. Two loops of nanopb take a number of rounds. \<open>decode_loop\<close>, over the fields of a
  message, is given one more than the bytes left, which is enough because each round takes a byte;
  \<open>iter_find_loop\<close>, round a table, one more than its entries. That more rounds change nothing is proved of both.

  \<^bold>\<open>Not modelled.\<close> Functions that only release memory have no definition. In BoringSSL: the ciphers, digests and big
  numbers (assembly and generated field arithmetic next to portable code), X.509 and the ASN.1 templates (untyped
  field offsets), TLS (C++), threads, BIOs on sockets and files (system calls), \<^verbatim>\<open>pool.c\<close> and \<^verbatim>\<open>conf.c\<close>.
  In nanopb: pointer and callback fields of messages, oneof unions, extensions and arrays of a fixed count; where
  decoding fails the half-filled structure has no value in the model. gRPC, LevelDB, Abseil and
  the Firestore client are C++, the other pods Objective-C, the app Swift; none of them is C.
\<close>

end
